(* ===== verification/Prelude.thy ===== *)
theory Prelude
  imports Main "HOL-Library.Word"
begin

text \<open>
  Shared vocabulary of the development.

  A C function that can fail is a HOL function with result type \<open>'a res\<close>: \<open>Inr x\<close> when it
  returns \<open>x\<close>, \<open>Inl (Panic m)\<close> when it calls \<open>panic(m)\<close> (which never returns), and
  \<open>Inl (UB m)\<close> when it executes something C leaves undefined (an index past the end of an
  array, a read past the end of a string), \<open>Inl Spin\<close> when it would wait forever for a
  spin lock that nobody can release, and \<open>Inl (Sleeps c)\<close> when it goes to sleep on the channel
  \<open>c\<close> inside a call and cannot go on before another process wakes it. \<open>bindR\<close> runs one call after another; the state is
  passed explicitly, as the last argument and as the last component of the result.

  The named collections: \<open>res_simps\<close> turns ``this sequence returned \<open>x\<close>'' into its
  intermediate results; \<open>page_simps\<close> holds the arithmetic of pages and of page-table entries.
\<close>

unbundle bit_operations_syntax

named_theorems res_simps
named_theorems page_simps

section \<open>Integer types\<close>

type_synonym byte = "8 word"
type_synonym u16 = "16 word"
type_synonym u32 = "32 word"
type_synonym u64 = "64 word"

section \<open>Locks and sleep channels\<close>

text \<open>
  The spin locks of the kernel, by the object they are a field of: processes, buffers and
  in-memory inodes by their index in the table, pipes by their address. \<open>Lbuf\<close> and \<open>Linode\<close> are
  the spin locks inside the sleep locks. A sleep channel is an address in the C code; here it
  is the object whose address it is.
\<close>

datatype lock =
    Lkmem | Lpid | Lwait | Ltime | Lproc nat | Lftable | Litable | Lbcache | Llog
  | Lpipe u64 | Lcons | Luart | Lpr | Lvdisk | Lbuf nat | Linode nat

datatype chan =
    Cticks | Cproc nat | Clog | Cnread u64 | Cnwrite u64 | Ccons | Cuart | Cdfree | Cbuf nat
  | Cslk lock

section \<open>Results of C functions\<close>

datatype stop = Panic string | UB string | Spin | Sleeps chan

type_synonym 'a res = "stop + 'a"

abbreviation panic :: "string \<Rightarrow> 'a res" where
  "panic m \<equiv> Inl (Panic m)"

definition bindR :: "'a res \<Rightarrow> ('a \<Rightarrow> 'b res) \<Rightarrow> 'b res" where
  "bindR m f = (case m of Inl e \<Rightarrow> Inl e | Inr x \<Rightarrow> f x)"

lemma bindR_simps [simp]:
  "bindR (Inl e) f = Inl e"
  "bindR (Inr x) f = f x"
  by (simp_all add: bindR_def)

lemma bindR_eq_Inr [res_simps]: "bindR m f = Inr y \<longleftrightarrow> (\<exists>x. m = Inr x \<and> f x = Inr y)"
  by (cases m) auto

lemma bindR_eq_Inl [res_simps]:
  "bindR m f = Inl e \<longleftrightarrow> m = Inl e \<or> (\<exists>x. m = Inr x \<and> f x = Inl e)"
  by (cases m) auto

lemma bindR_assoc: "bindR (bindR m f) g = bindR m (\<lambda>x. bindR (f x) g)"
  by (cases m) auto

lemma bindR_cong [fundef_cong]:
  "m = m' \<Longrightarrow> (\<And>x. m' = Inr x \<Longrightarrow> f x = g x) \<Longrightarrow> bindR m f = bindR m' g"
  by (cases m') auto

lemma bindR_split: "P (bindR m f) \<longleftrightarrow> (\<forall>e. m = Inl e \<longrightarrow> P (Inl e)) \<and> (\<forall>x. m = Inr x \<longrightarrow> P (f x))"
  by (cases m) auto

text \<open>The result of arithmetic on C's \<open>int\<close>: undefined when it does not fit in 32 bits.\<close>

definition cint :: "int \<Rightarrow> int res" where
  "cint x = (if - (2 ^ 31) \<le> x \<and> x < 2 ^ 31 then Inr x else Inl (UB ''signed integer overflow''))"

lemma cint_ok: "- (2 ^ 31) \<le> x \<Longrightarrow> x < 2 ^ 31 \<Longrightarrow> cint x = Inr x"
  by (simp add: cint_def)

text \<open>A \<open>for\<close> loop whose body only changes the state.\<close>

fun foldR :: "('i \<Rightarrow> 's \<Rightarrow> 's res) \<Rightarrow> 'i list \<Rightarrow> 's \<Rightarrow> 's res" where
  "foldR f [] s = Inr s"
| "foldR f (i # is) s = bindR (f i s) (foldR f is)"

lemma foldR_append: "foldR f (xs @ ys) s = bindR (foldR f xs s) (foldR f ys)"
  by (induction xs arbitrary: s) (auto simp: bindR_assoc fun_eq_iff intro!: bindR_cong)

lemma foldR_inv:
  assumes "foldR f is s = Inr s'" "P s" "\<And>i s s'. i \<in> set is \<Longrightarrow> P s \<Longrightarrow> f i s = Inr s' \<Longrightarrow> P s'"
  shows "P s'"
  using assms by (induction f "is" s rule: foldR.induct) (auto simp: res_simps)

text \<open>A loop whose body is a total function under an invariant.\<close>

lemma foldR_total:
  assumes "P s" "\<And>i s. i \<in> set is \<Longrightarrow> P s \<Longrightarrow> f i s = Inr (g i s) \<and> P (g i s)"
  shows "foldR f is s = Inr (fold g is s) \<and> P (fold g is s)"
  using assms by (induction "is" arbitrary: s) auto

lemma foldR_cong [fundef_cong]:
  "is = js \<Longrightarrow> s = s' \<Longrightarrow> (\<And>i s. i \<in> set js \<Longrightarrow> f i s = g i s) \<Longrightarrow> foldR f is s = foldR g js s'"
proof (induction js arbitrary: "is" s s')
  case (Cons j js)
  then have "foldR f js t = foldR g js t" for t by simp
  with Cons.prems show ?case by (auto simp: fun_eq_iff intro!: bindR_cong)
qed simp

section \<open>Natural numbers and lists\<close>

lemma mult_gap:
  fixes p q k :: nat
  assumes "k dvd p" "k dvd q" "p < q"
  shows "p + k \<le> q"
proof -
  from assms obtain a b where pq: "p = k * a" "q = k * b" by (auto elim!: dvdE)
  with assms(3) have "a < b" by (simp add: mult_less_cancel1)
  then have "k * (a + 1) \<le> k * b" by (intro mult_le_mono2) simp
  with pq show ?thesis by (simp add: algebra_simps)
qed

lemma mult_disjoint:
  fixes p q k :: nat
  assumes "k dvd p" "k dvd q" "p \<noteq> q"
  shows "p + k \<le> q \<or> q + k \<le> p"
  using mult_gap [OF assms(1,2)] mult_gap [OF assms(2,1)] assms(3) by (cases p q rule: linorder_cases) auto

lemma distinct_map_inj: "inj_on f (set xs) \<Longrightarrow> distinct xs \<Longrightarrow> distinct (map f xs)"
  by (simp add: distinct_map)

lemma upt_split: "[a..<a + (m + n)] = [a..<a + m] @ [a + m..<a + m + n]"
  using upt_add_eq_append [of a "a + m" n] by (simp add: add.assoc)

section \<open>Words\<close>

lemma unat_of_nat_u64 [simp]: "n < 2 ^ 64 \<Longrightarrow> unat (of_nat n :: u64) = n"
  by (simp add: unat_of_nat take_bit_nat_eq_self)

lemma unat_less_u64: "unat (a :: u64) < 2 ^ 64"
  using unsigned_less [of a, where 'a = nat] by simp

lemma take_bit_unat_u64 [simp]: "take_bit 64 (unat (a :: u64)) = unat a"
  by (rule take_bit_nat_eq_self) (rule unat_less_u64)

lemma unat_plus_u64:
  "unat (a :: u64) + unat b < 2 ^ 64 \<Longrightarrow> unat (a + b) = unat a + unat b"
  by (simp add: unat_word_ariths)

lemma unat_minus_u64: "b \<le> (a :: u64) \<Longrightarrow> unat (a - b) = unat a - unat b"
  by (rule unat_sub)

end
