(* ===== verification/Riscv.thy ===== *)
theory Riscv
  imports Prelude
begin

text \<open>
  The machine under the kernel: byte-addressed physical memory with little-endian loads and
  stores, and the constants and macros of \<^verbatim>\<open>kernel/param.h\<close>, \<^verbatim>\<open>kernel/riscv.h\<close> and
  \<^verbatim>\<open>kernel/memlayout.h\<close> that the allocator, the page tables and the process table use.
  Addresses and page-table entries are 64-bit words, so their arithmetic wraps as
  \<open>uint64\<close> does; memory is indexed by the address read as a natural number.
\<close>

section \<open>Memory\<close>

type_synonym memory = "nat \<Rightarrow> byte"

fun loadw :: "nat \<Rightarrow> memory \<Rightarrow> nat \<Rightarrow> 'a::len word" where
  "loadw 0 m a = 0"
| "loadw (Suc n) m a = ucast (m a) OR push_bit 8 (loadw n m (Suc a))"

definition storew :: "nat \<Rightarrow> memory \<Rightarrow> nat \<Rightarrow> 'a::len word \<Rightarrow> memory" where
  "storew n m a v = (\<lambda>x. if a \<le> x \<and> x < a + n then ucast (drop_bit (8 * (x - a)) v) else m x)"

abbreviation ld64 :: "memory \<Rightarrow> nat \<Rightarrow> u64" where "ld64 \<equiv> loadw 8"
abbreviation st64 :: "memory \<Rightarrow> nat \<Rightarrow> u64 \<Rightarrow> memory" where "st64 \<equiv> storew 8"

lemma bit_loadw:
  "bit (loadw n m a :: 'a::len word) k \<longleftrightarrow>
     k < LENGTH('a) \<and> k < 8 * n \<and> bit (m (a + k div 8)) (k mod 8)"
proof (induction n arbitrary: a k)
  case 0
  then show ?case by simp
next
  case (Suc n)
  show ?case
  proof (cases "k < 8")
    case True
    then show ?thesis by (auto simp: bit_simps)
  next
    case False
    then have "k div 8 = Suc ((k - 8) div 8)" "k mod 8 = (k - 8) mod 8"
      by (simp_all add: le_div_geq le_mod_geq)
    then show ?thesis
      using False Suc.IH [of "Suc a" "k - 8"]
      by (auto simp: bit_simps dest: bit_imp_le_length)
  qed
qed

lemma loadw_storew_same [simp]:
  assumes "LENGTH('a) \<le> 8 * n"
  shows "loadw n (storew n m a v) a = (v :: 'a::len word)"
proof (rule bit_word_eqI)
  fix k assume "k < LENGTH('a)"
  with assms have "k < 8 * n" by simp
  then have "k div 8 < n" by (simp add: div_less_iff_less_mult)
  moreover have "8 * (k div 8) + k mod 8 = k" by simp
  ultimately show "bit (loadw n (storew n m a v) a :: 'a word) k = bit v k"
    using \<open>k < LENGTH('a)\<close> \<open>k < 8 * n\<close>
    by (auto simp: bit_loadw storew_def bit_simps)
qed

lemma loadw_cong:
  "(\<And>x. a \<le> x \<Longrightarrow> x < a + n \<Longrightarrow> m x = m' x) \<Longrightarrow> loadw n m a = loadw n m' a"
proof (induction n arbitrary: a)
  case (Suc n)
  have "loadw n m (Suc a) = (loadw n m' (Suc a) :: 'a word)"
    by (rule Suc.IH) (use Suc.prems in auto)
  then show ?case using Suc.prems by simp
qed simp

lemma loadw_storew_other:
  "b + k \<le> a \<or> a + n \<le> b \<Longrightarrow> loadw n (storew k m b v) a = loadw n m a"
  by (rule loadw_cong) (auto simp: storew_def)

lemma loadw_zero [simp]: "loadw n (\<lambda>_. 0) a = 0"
  by (induction n arbitrary: a) auto

lemma loadw_zeroI: "(\<And>x. a \<le> x \<Longrightarrow> x < a + n \<Longrightarrow> m x = 0) \<Longrightarrow> loadw n m a = 0"
  using loadw_cong [of a n m "\<lambda>_. 0"] by simp

lemma storew_outside: "x < a \<or> a + n \<le> x \<Longrightarrow> storew n m a v x = m x"
  by (auto simp: storew_def)

section \<open>Constants\<close>

text \<open>\<^verbatim>\<open>kernel/param.h\<close>\<close>

abbreviation (input) "NPROC \<equiv> 64 :: nat"
abbreviation (input) "NCPU \<equiv> 8 :: nat"
abbreviation (input) "NOFILE \<equiv> 16 :: nat"
abbreviation (input) "NFILE \<equiv> 100 :: nat"

text \<open>\<^verbatim>\<open>kernel/riscv.h\<close>\<close>

abbreviation (input) PGSIZE :: u64 where "PGSIZE \<equiv> 4096"
abbreviation (input) PTE_V :: u64 where "PTE_V \<equiv> 1"
abbreviation (input) PTE_R :: u64 where "PTE_R \<equiv> 2"
abbreviation (input) PTE_W :: u64 where "PTE_W \<equiv> 4"
abbreviation (input) PTE_X :: u64 where "PTE_X \<equiv> 8"
abbreviation (input) PTE_U :: u64 where "PTE_U \<equiv> 16"
abbreviation (input) PTE_C :: u64 where "PTE_C \<equiv> 256"
abbreviation (input) MAXVA :: u64 where "MAXVA \<equiv> 0x4000000000"

definition PGROUNDUP :: "u64 \<Rightarrow> u64" where
  "PGROUNDUP sz = (sz + PGSIZE - 1) AND NOT (PGSIZE - 1)"

definition PGROUNDDOWN :: "u64 \<Rightarrow> u64" where
  "PGROUNDDOWN a = a AND NOT (PGSIZE - 1)"

definition PA2PTE :: "u64 \<Rightarrow> u64" where
  "PA2PTE pa = push_bit 10 (drop_bit 12 pa)"

definition PTE2PA :: "u64 \<Rightarrow> u64" where
  "PTE2PA pte = push_bit 12 (drop_bit 10 pte)"

definition PTE_FLAGS :: "u64 \<Rightarrow> u64" where
  "PTE_FLAGS pte = pte AND 0x3FF"

definition PX :: "nat \<Rightarrow> u64 \<Rightarrow> u64" where
  "PX level va = drop_bit (12 + 9 * level) va AND 0x1FF"

definition MAKE_SATP :: "u64 \<Rightarrow> u64" where
  "MAKE_SATP pagetable = push_bit 60 8 OR drop_bit 12 pagetable"

text \<open>\<^verbatim>\<open>kernel/memlayout.h\<close>\<close>

abbreviation (input) UART0 :: u64 where "UART0 \<equiv> 0x10000000"
abbreviation (input) VIRTIO0 :: u64 where "VIRTIO0 \<equiv> 0x10001000"
abbreviation (input) PLIC :: u64 where "PLIC \<equiv> 0x0c000000"
abbreviation (input) KERNBASE :: u64 where "KERNBASE \<equiv> 0x80000000"
abbreviation (input) PHYSTOP :: u64 where "PHYSTOP \<equiv> 0x88000000"
abbreviation (input) TRAMPOLINE :: u64 where "TRAMPOLINE \<equiv> 0x3ffffff000"
abbreviation (input) TRAPFRAME :: u64 where "TRAPFRAME \<equiv> 0x3fffffe000"

definition KSTACK :: "nat \<Rightarrow> u64" where
  "KSTACK p = TRAMPOLINE - (of_nat p + 1) * 2 * PGSIZE"

section \<open>Arithmetic of pages and page-table entries\<close>

lemma mask_consts:
  "(0xFFF :: u64) = mask 12" "(0x3FF :: u64) = mask 10" "(0x1FF :: u64) = mask 9"
  by (simp_all add: mask_eq_exp_minus_1)

lemma PGROUNDDOWN_shift: "PGROUNDDOWN a = push_bit 12 (drop_bit 12 a)"
  unfolding PGROUNDDOWN_def
  by (rule bit_word_eqI) (auto simp: mask_consts bit_simps)

lemma unat_PGROUNDDOWN [page_simps]: "unat (PGROUNDDOWN a) = unat a div 4096 * 4096"
proof -
  have "unat a div 4096 * 4096 < 2 ^ 64"
    by (rule le_less_trans [OF div_times_less_eq_dividend unat_less_u64])
  then show ?thesis
    by (simp add: PGROUNDDOWN_shift unat_word_ariths unat_div push_bit_eq_mult drop_bit_eq_div)
qed

lemma PGROUNDUP_down: "PGROUNDUP a = PGROUNDDOWN (a + 0xFFF)"
  by (simp add: PGROUNDUP_def PGROUNDDOWN_def add.commute)

lemma unat_PGROUNDUP [page_simps]:
  "unat a + 0xFFF < 2 ^ 64 \<Longrightarrow> unat (PGROUNDUP a) = (unat a + 0xFFF) div 4096 * 4096"
  by (simp add: PGROUNDUP_down unat_PGROUNDDOWN unat_plus_u64)

lemma unat_PX [page_simps]: "unat (PX l va) = unat va div 2 ^ (12 + 9 * l) mod 512"
proof -
  have "PX l va = take_bit 9 (drop_bit (12 + 9 * l) va)"
    by (simp only: PX_def mask_consts take_bit_eq_mask)
  then have "unat (PX l va) = take_bit 9 (drop_bit (12 + 9 * l) (unat va))"
    by (simp add: unsigned_take_bit_eq unsigned_drop_bit_eq take_bit_nat_eq_self del: drop_bit_eq_div)
  then show ?thesis by (simp only: take_bit_eq_mod drop_bit_eq_div) simp
qed

lemma unat_PX_less [simp]: "unat (PX l va) < 512"
  by (simp add: unat_PX)

lemma page_aligned_iff: "(a :: u64) mod 4096 = 0 \<longleftrightarrow> 4096 dvd unat a"
proof -
  have "a mod 4096 = 0 \<longleftrightarrow> unat (a mod 4096) = 0" by (simp add: unat_eq_0)
  then show ?thesis by (simp add: unat_mod dvd_eq_mod_eq_0)
qed

lemma bit_low_zero:
  assumes "2 ^ k dvd unat (a :: u64)" "n < k"
  shows "\<not> bit a n"
proof -
  have "take_bit k (unat a) = 0" using assms(1) by (simp add: take_bit_eq_mod dvd_eq_mod_eq_0)
  then have "\<not> bit (take_bit k (unat a)) n" by simp
  then have "\<not> bit (unat a) n" using assms(2) by (simp add: bit_take_bit_iff)
  then show ?thesis by (auto simp: bit_unsigned_iff dest: bit_imp_le_length)
qed

lemma bit_high_zero:
  assumes "unat (a :: u64) < 2 ^ k" "k \<le> n"
  shows "\<not> bit a n"
proof -
  have "take_bit k (unat a) = unat a" using assms(1) by (simp add: take_bit_nat_eq_self)
  then have "\<not> bit (unat a) n" using assms(2) by (metis bit_take_bit_iff not_less)
  then show ?thesis by (auto simp: bit_unsigned_iff dest: bit_imp_le_length)
qed

lemma bit_flags: "f AND NOT 0x3FF = 0 \<Longrightarrow> 10 \<le> n \<Longrightarrow> \<not> bit (f :: u64) n"
  unfolding mask_consts by (drule arg_cong [where f = "\<lambda>w. bit w n"]) (auto simp: bit_simps dest: bit_imp_le_length)

lemma PTE2PA_PA2PTE:
  assumes "4096 dvd unat pa" "unat pa < 2 ^ 56" "f AND NOT 0x3FF = 0"
  shows "PTE2PA (PA2PTE pa OR f) = pa"
proof (rule bit_word_eqI)
  fix n assume n: "n < LENGTH(64)"
  have lo: "\<not> bit pa n" if "n < 12" using assms(1) that by (intro bit_low_zero [of 12]) auto
  have hi: "\<not> bit pa n" if "54 \<le> n - 2" using assms(2) that by (intro bit_high_zero [of _ 56]) auto
  have fl: "\<not> bit f (n - 2)" if "12 \<le> n" using assms(3) that by (intro bit_flags) auto
  show "bit (PTE2PA (PA2PTE pa OR f)) n = bit pa n"
    using n lo hi fl by (cases "n < 12") (auto simp: PTE2PA_def PA2PTE_def bit_simps)
qed

end
