(* ===== verification/KString.thy ===== *)
theory KString
  imports Riscv
begin

text \<open>
  \<^verbatim>\<open>kernel/string.c\<close>. The \<open>mem*\<close> functions work on physical memory and take addresses,
  because \<open>memmove\<close> is about overlapping ranges. The \<open>str*\<close> functions take the arrays their
  pointers point into, as lists of bytes from the pointer to the end of the array; a read or
  write past the end of the array is \<open>UB\<close>.

  Shown here: \<open>memset\<close> and \<open>memmove\<close> equal their one-line specifications, also when the
  ranges overlap; \<open>safestrcpy\<close> and \<open>strncpy\<close> stay inside the destination, and the first
  always leaves a terminated string.
\<close>

section \<open>Memory functions\<close>

definition memset :: "memory \<Rightarrow> nat \<Rightarrow> byte \<Rightarrow> nat \<Rightarrow> memory" where
  "memset m dst c n = fold (\<lambda>i m. m(dst + i := c)) [0..<n] m"

fun memcmp :: "memory \<Rightarrow> nat \<Rightarrow> nat \<Rightarrow> nat \<Rightarrow> int" where
  "memcmp m s1 s2 0 = 0"
| "memcmp m s1 s2 (Suc n) =
     (if m s1 \<noteq> m s2 then uint (m s1) - uint (m s2) else memcmp m (s1 + 1) (s2 + 1) n)"

definition memmove :: "memory \<Rightarrow> nat \<Rightarrow> nat \<Rightarrow> nat \<Rightarrow> memory" where
  "memmove m dst src n =
     (if n = 0 then m
      else if src < dst \<and> src + n > dst
      then fold (\<lambda>i m. m(dst + i := m (src + i))) (rev [0..<n]) m
      else fold (\<lambda>i m. m(dst + i := m (src + i))) [0..<n] m)"

definition memcpy :: "memory \<Rightarrow> nat \<Rightarrow> nat \<Rightarrow> nat \<Rightarrow> memory" where
  "memcpy m dst src n = memmove m dst src n"

section \<open>String functions\<close>

fun strncmp :: "byte list \<Rightarrow> byte list \<Rightarrow> nat \<Rightarrow> int res" where
  "strncmp p q 0 = Inr 0"
| "strncmp (a # p) (b # q) (Suc n) =
     (if a \<noteq> 0 \<and> a = b then strncmp p q n else Inr (uint a - uint b))"
| "strncmp p q (Suc n) = Inl (UB ''strncmp: past the end'')"

fun strncpy_pad :: "byte list \<Rightarrow> nat \<Rightarrow> byte list res" where
  "strncpy_pad s 0 = Inr s"
| "strncpy_pad (x # s) (Suc n) = bindR (strncpy_pad s n) (\<lambda>r. Inr (0 # r))"
| "strncpy_pad [] (Suc n) = Inl (UB ''strncpy: past the end'')"

fun strncpy_loop :: "byte list \<Rightarrow> byte list \<Rightarrow> nat \<Rightarrow> byte list res" where
  "strncpy_loop s t 0 = Inr s"
| "strncpy_loop (x # s) (c # t) (Suc n) =
     bindR (if c \<noteq> 0 then strncpy_loop s t n else strncpy_pad s n) (\<lambda>r. Inr (c # r))"
| "strncpy_loop s t (Suc n) = Inl (UB ''strncpy: past the end'')"

definition strncpy :: "byte list \<Rightarrow> byte list \<Rightarrow> int \<Rightarrow> byte list res" where
  "strncpy s t n = strncpy_loop s t (nat n)"

fun safestrcpy_loop :: "byte list \<Rightarrow> byte list \<Rightarrow> nat \<Rightarrow> byte list res" where
  "safestrcpy_loop (x # s) t 0 = Inr (0 # s)"
| "safestrcpy_loop (x # s) (c # t) (Suc n) =
     bindR (if c \<noteq> 0 then safestrcpy_loop s t n
            else (case s of [] \<Rightarrow> Inl (UB ''safestrcpy: past the end'') | y # s' \<Rightarrow> Inr (0 # s')))
       (\<lambda>r. Inr (c # r))"
| "safestrcpy_loop s t n = Inl (UB ''safestrcpy: past the end'')"

definition safestrcpy :: "byte list \<Rightarrow> byte list \<Rightarrow> int \<Rightarrow> byte list res" where
  "safestrcpy s t n = (if n \<le> 0 then Inr s else safestrcpy_loop s t (nat n - 1))"

fun strlen :: "byte list \<Rightarrow> nat res" where
  "strlen [] = Inl (UB ''strlen: past the end'')"
| "strlen (c # s) = (if c = 0 then Inr 0 else bindR (strlen s) (\<lambda>n. Inr (n + 1)))"

section \<open>Correctness of the memory functions\<close>

lemma memset_eq: "memset m dst c n = (\<lambda>x. if dst \<le> x \<and> x < dst + n then c else m x)"
  unfolding memset_def by (induction n) (auto simp: fun_eq_iff)

lemma fold_copy_up:
  assumes "dst \<le> src \<or> src + n \<le> dst"
  shows "fold (\<lambda>i m. m(dst + i := m (src + i))) [0..<n] m =
           (\<lambda>x. if dst \<le> x \<and> x < dst + n then m (src + (x - dst)) else m x)"
  using assms
proof (induction n)
  case (Suc n)
  then show ?case by (auto simp: fun_eq_iff)
qed (auto simp: fun_eq_iff)

lemma fold_copy_down:
  assumes "src < dst"
  shows "fold (\<lambda>i m. m(dst + i := m (src + i))) (rev [0..<n]) m =
           (\<lambda>x. if dst \<le> x \<and> x < dst + n then m (src + (x - dst)) else m x)"
proof (induction n arbitrary: m)
  case (Suc n)
  then show ?case using assms by (auto simp: fun_eq_iff Suc)
qed (auto simp: fun_eq_iff)

lemma memmove_eq:
  "memmove m dst src n = (\<lambda>x. if dst \<le> x \<and> x < dst + n then m (src + (x - dst)) else m x)"
proof (cases "src < dst \<and> src + n > dst")
  case True
  then show ?thesis by (auto simp: memmove_def fold_copy_down fun_eq_iff)
next
  case False
  then have "dst \<le> src \<or> src + n \<le> dst" by auto
  then show ?thesis using False by (auto simp: memmove_def fold_copy_up fun_eq_iff)
qed

lemma memcmp_zero_iff: "memcmp m s1 s2 n = 0 \<longleftrightarrow> (\<forall>i<n. m (s1 + i) = m (s2 + i))"
proof (induction n arbitrary: s1 s2)
  case (Suc n)
  then show ?case by (auto simp: less_Suc_eq_0_disj word_uint_eq_iff)
qed auto

lemma loadw_memset_zero: "dst \<le> a \<Longrightarrow> a + k \<le> dst + n \<Longrightarrow> loadw k (memset m dst 0 n) a = 0"
  by (rule loadw_zeroI) (auto simp: memset_eq)

lemma loadw_memset_other: "a + k \<le> dst \<or> dst + n \<le> a \<Longrightarrow> loadw k (memset m dst c n) a = loadw k m a"
  by (rule loadw_cong) (auto simp: memset_eq)

lemma loadw_memmove_other:
  "a + k \<le> dst \<or> dst + n \<le> a \<Longrightarrow> loadw k (memmove m dst src n) a = loadw k m a"
  by (rule loadw_cong) (auto simp: memmove_eq)

lemma loadw_memmove_same:
  assumes "dst \<le> a" "a + k \<le> dst + n"
  shows "loadw k (memmove m dst src n) a = (loadw k m (src + (a - dst)) :: 'a::len word)"
proof (rule bit_word_eqI)
  fix i assume "i < LENGTH('a)"
  have "i div 8 < k" if "i < 8 * k" using that by (simp add: div_less_iff_less_mult)
  then show "bit (loadw k (memmove m dst src n) a :: 'a word) i =
               bit (loadw k m (src + (a - dst)) :: 'a word) i"
    using assms by (auto simp: bit_loadw memmove_eq add.assoc)
qed

section \<open>Correctness of the string functions\<close>

text \<open>The C string at the start of an array.\<close>

definition cstr :: "byte list \<Rightarrow> byte list" where
  "cstr s = takeWhile (\<lambda>c. c \<noteq> 0) s"

lemma cstr_simps [simp]:
  "cstr [] = []"
  "cstr (c # s) = (if c = 0 then [] else c # cstr s)"
  by (simp_all add: cstr_def)

lemma strlen_eq: "0 \<in> set s \<Longrightarrow> strlen s = Inr (length (cstr s))"
  by (induction s) auto

lemma strncmp_zero_iff:
  "n \<le> length p \<Longrightarrow> n \<le> length q \<Longrightarrow>
     strncmp p q n = Inr 0 \<longleftrightarrow> take n (cstr p) = take n (cstr q)"
proof (induction p q n rule: strncmp.induct)
  case (2 a p b q n)
  then show ?case by (auto simp: word_uint_eq_iff)
qed auto

lemma safestrcpy_loop_spec:
  "n < length s \<Longrightarrow> n \<le> length t \<or> 0 \<in> set t \<Longrightarrow>
     \<exists>r. safestrcpy_loop s t n = Inr r \<and> length r = length s \<and> cstr r = take n (cstr t) \<and>
         drop (n + 1) r = drop (n + 1) s"
proof (induction s t n rule: safestrcpy_loop.induct)
  case (2 x s c t n)
  then show ?case by (cases s) (auto simp: res_simps split: if_splits)
qed auto

lemma strncpy_pad_spec:
  "n \<le> length s \<Longrightarrow> strncpy_pad s n = Inr (replicate n 0 @ drop n s)"
  by (induction s n rule: strncpy_pad.induct) auto

lemma strncpy_loop_spec:
  "n \<le> length s \<Longrightarrow> n \<le> length t \<or> 0 \<in> set t \<Longrightarrow>
     strncpy_loop s t n =
       Inr (take n (cstr t) @ replicate (n - length (cstr t)) 0 @ drop n s)"
proof (induction s t n rule: strncpy_loop.induct)
  case (2 x s c t n)
  then show ?case by (auto simp: strncpy_pad_spec)
qed auto

text \<open>C30: \<open>memmove\<close> is a simultaneous copy, whether or not the two ranges overlap: afterwards each byte
  of the destination is the byte the source had at that offset before the call, and every other byte
  of memory is unchanged. \<open>memcpy\<close> is the same function.\<close>

theorem memmove_simultaneous:
  "memmove m dst src n x = (if dst \<le> x \<and> x < dst + n then m (src + (x - dst)) else m x) \<and>
   memcpy m dst src n = memmove m dst src n"
  by (simp add: memmove_eq memcpy_def)

lemma cstr_all: "0 \<notin> set s \<Longrightarrow> cstr s = s"
  by (induction s) auto

text \<open>C31: \<open>safestrcpy(s, t, n)\<close> into an array of at least \<open>n\<close> bytes returns, writes nothing beyond the first
  \<open>n\<close> bytes, and leaves the longest prefix of the string \<open>t\<close> of fewer than \<open>n\<close> characters, terminated;
  \<open>strncpy\<close> pads with zeros up to \<open>n\<close> instead, and terminates the string only when it is shorter.\<close>

theorem safestrcpy_spec:
  assumes "0 < n" "nat n \<le> length s" "0 \<in> set t"
  shows "\<exists>r. safestrcpy s t n = Inr r \<and> length r = length s \<and> drop (nat n) r = drop (nat n) s \<and>
      0 \<in> set r \<and> cstr r = take (nat n - 1) (cstr t) \<and> strlen r = Inr (min (nat n - 1) (length (cstr t))) \<and>
      strncpy s t n = Inr (take (nat n) (cstr t) @ replicate (nat n - length (cstr t)) 0 @ drop (nat n) s)"
proof -
  have "nat n - 1 < length s" "nat n - 1 + 1 = nat n" using assms by auto
  with safestrcpy_loop_spec [of "nat n - 1" s t] assms(3) obtain r where
    r: "safestrcpy_loop s t (nat n - 1) = Inr r" "length r = length s" "cstr r = take (nat n - 1) (cstr t)"
    "drop (nat n) r = drop (nat n) s" by metis
  have "length (cstr r) < length r" using r(2,3) \<open>nat n - 1 < length s\<close> by (simp add: min_def)
  then have z: "0 \<in> set r" by (rule contrapos_pp) (simp add: cstr_all)
  with strlen_eq [OF z] r assms strncpy_loop_spec [of "nat n" s t] show ?thesis
    by (simp add: safestrcpy_def strncpy_def min.commute)
qed

theorem safestrcpy_spec_witness:
  "\<exists>r. safestrcpy [9, 9, 9, 9] [5, 6, 7, 0] 3 = Inr r \<and> cstr r = [5, 6] \<and> drop 3 r = [9]"
  using safestrcpy_spec [of 3 "[9, 9, 9, 9]" "[5, 6, 7, 0]"] by auto

end
