(* ===== verification/Spinlock.thy ===== *)
theory Spinlock
  imports KString
begin

text \<open>
  \<^verbatim>\<open>kernel/spinlock.c\<close> and the interrupt-enable part of \<^verbatim>\<open>kernel/riscv.h\<close>, for any number
  of harts: every lock with its \<open>locked\<close> word and the hart that holds it, every hart with its
  \<open>noff\<close>, \<open>intena\<close> and \<open>sstatus\<close>. One step is one call by one hart; the atomic swap of
  \<open>acquire\<close> either takes a free lock or leaves the state as it is, so a call that finds the
  lock taken is \<open>Inl Spin\<close>. That leaves out the states in which a hart is spinning: it has run \<open>push_off\<close> then,
  which changes nothing but its own \<open>noff\<close>, \<open>intena\<close> and interrupt flag, and no other hart looks at
  these; the attempt that succeeds does the same to them as a first attempt.

  The locale \<open>lock_iface\<close> is what the rest of the kernel relies on: a set of held locks that
  \<open>acquire\<close> extends and \<open>release\<close> shrinks, with a panic for a lock that is already held or not
  held. It is interpreted on the detailed model, for each hart, and on the \<open>held\<close> field of the
  state record \<open>machine\<close>, which every other component uses.
\<close>

section \<open>Locks and harts\<close>

record spinlock =
  locked :: u32
  lname :: string
  lcpu :: "nat option"

record cpu =
  noff :: int
  intena :: bool

record lockstate =
  lks :: "lock \<Rightarrow> spinlock"
  cpus :: "nat \<Rightarrow> cpu"
  sstatus :: "nat \<Rightarrow> u64"

abbreviation (input) SSTATUS_SIE :: u64 where "SSTATUS_SIE \<equiv> 2"

definition intr_on :: "nat \<Rightarrow> lockstate \<Rightarrow> lockstate" where
  "intr_on h s = s\<lparr>sstatus := (sstatus s)(h := sstatus s h OR SSTATUS_SIE)\<rparr>"

definition intr_off :: "nat \<Rightarrow> lockstate \<Rightarrow> lockstate" where
  "intr_off h s = s\<lparr>sstatus := (sstatus s)(h := sstatus s h AND NOT SSTATUS_SIE)\<rparr>"

definition intr_get :: "nat \<Rightarrow> lockstate \<Rightarrow> bool" where
  "intr_get h s = (sstatus s h AND SSTATUS_SIE \<noteq> 0)"

definition initlock :: "lock \<Rightarrow> string \<Rightarrow> lockstate \<Rightarrow> lockstate" where
  "initlock l nm s = s\<lparr>lks := (lks s)(l := \<lparr>locked = 0, lname = nm, lcpu = None\<rparr>)\<rparr>"

definition holding :: "nat \<Rightarrow> lock \<Rightarrow> lockstate \<Rightarrow> bool" where
  "holding h l s = (locked (lks s l) \<noteq> 0 \<and> lcpu (lks s l) = Some h)"

definition push_off :: "nat \<Rightarrow> lockstate \<Rightarrow> lockstate" where
  "push_off h s =
     (let old = intr_get h s;
          s = intr_off h s;
          c = cpus s h;
          c = (if noff c = 0 then c\<lparr>intena := old\<rparr> else c);
          c = c\<lparr>noff := noff c + 1\<rparr>
      in s\<lparr>cpus := (cpus s)(h := c)\<rparr>)"

definition pop_off :: "nat \<Rightarrow> lockstate \<Rightarrow> lockstate res" where
  "pop_off h s =
     (if intr_get h s then panic ''pop_off - interruptible''
      else if noff (cpus s h) < 1 then panic ''pop_off''
      else let c = (cpus s h)\<lparr>noff := noff (cpus s h) - 1\<rparr>;
               s = s\<lparr>cpus := (cpus s)(h := c)\<rparr>
           in Inr (if noff c = 0 \<and> intena c then intr_on h s else s))"

definition acquire :: "nat \<Rightarrow> lock \<Rightarrow> lockstate \<Rightarrow> lockstate res" where
  "acquire h l s =
     (let s = push_off h s
      in if holding h l s then panic ''acquire''
         else if locked (lks s l) \<noteq> 0 then Inl Spin
         else Inr (s\<lparr>lks := (lks s)(l := (lks s l)\<lparr>locked := 1, lcpu := Some h\<rparr>)\<rparr>))"

definition release :: "nat \<Rightarrow> lock \<Rightarrow> lockstate \<Rightarrow> lockstate res" where
  "release h l s =
     (if \<not> holding h l s then panic ''release''
      else pop_off h (s\<lparr>lks := (lks s)(l := (lks s l)\<lparr>lcpu := None, locked := 0\<rparr>)\<rparr>))"

section \<open>The lock invariant\<close>

definition held_by :: "nat \<Rightarrow> lockstate \<Rightarrow> lock set" where
  "held_by h s = {l. holding h l s}"

text \<open>
  A lock is taken exactly when a hart is recorded for it; \<open>noff\<close> counts the locks a hart
  holds; and a hart that holds a lock has its interrupts off.
\<close>

definition spin_inv :: "lockstate \<Rightarrow> bool" where
  "spin_inv s \<longleftrightarrow>
     (\<forall>l. locked (lks s l) \<noteq> 0 \<longleftrightarrow> lcpu (lks s l) \<noteq> None) \<and>
     (\<forall>h. finite (held_by h s)) \<and>
     (\<forall>h. noff (cpus s h) = int (card (held_by h s))) \<and>
     (\<forall>h. held_by h s \<noteq> {} \<longrightarrow> \<not> intr_get h s)"

lemma intr_get_bit: "intr_get h s \<longleftrightarrow> bit (sstatus s h) 1"
  using and_exp_eq_0_iff_not_bit [of "sstatus s h" 1] by (simp add: intr_get_def)

lemma intr_get_off [simp]: "intr_get h' (intr_off h s) \<longleftrightarrow> h' \<noteq> h \<and> intr_get h' s"
  using bit_and_iff [of "sstatus s h" "NOT 2" 1] bit_not_iff_eq [of "2::u64" 1]
  by (auto simp: intr_get_bit intr_off_def)

lemma intr_get_on [simp]: "intr_get h' (intr_on h s) \<longleftrightarrow> h' = h \<or> intr_get h' s"
  using bit_or_iff [of "sstatus s h" "2" 1] by (auto simp: intr_get_bit intr_on_def)

lemma intr_frame [simp]:
  "lks (intr_on h s) = lks s" "cpus (intr_on h s) = cpus s"
  "lks (intr_off h s) = lks s" "cpus (intr_off h s) = cpus s"
  by (simp_all add: intr_on_def intr_off_def)

lemma intr_get_upd [simp]:
  "intr_get h (s\<lparr>lks := x\<rparr>) = intr_get h s"
  "intr_get h (s\<lparr>cpus := y\<rparr>) = intr_get h s"
  by (simp_all add: intr_get_def)

lemma push_off_simps [simp]:
  "lks (push_off h s) = lks s"
  "cpus (push_off h s) h' =
     (if h' = h then \<lparr>noff = noff (cpus s h) + 1,
                      intena = (if noff (cpus s h) = 0 then intr_get h s else intena (cpus s h))\<rparr>
      else cpus s h')"
  "intr_get h' (push_off h s) \<longleftrightarrow> h' \<noteq> h \<and> intr_get h' s"
  by (auto simp: push_off_def Let_def)

lemma held_by_acquired:
  "acquire h l s = Inr s' \<Longrightarrow> held_by h' s' = (if h' = h then insert l (held_by h s) else held_by h' s)"
  by (auto simp: acquire_def Let_def held_by_def holding_def split: if_splits)

lemma acquire_inv:
  assumes inv: "spin_inv s" and acq: "acquire h l s = Inr s'"
  shows "spin_inv s'"
proof -
  have free: "l \<notin> held_by h s"
    using acq by (auto simp: acquire_def Let_def held_by_def holding_def split: if_splits)
  have s': "lks s' = (lks s)(l := (lks s l)\<lparr>locked := 1, lcpu := Some h\<rparr>)"
      "cpus s' = cpus (push_off h s)" "\<And>h'. intr_get h' s' \<longleftrightarrow> h' \<noteq> h \<and> intr_get h' s"
    using acq by (auto simp: acquire_def Let_def split: if_splits)
  show ?thesis
    using inv free s' by (auto simp: spin_inv_def held_by_acquired [OF acq])
qed

lemma release_effect:
  assumes "holding h l s" "\<not> intr_get h s" "1 \<le> noff (cpus s h)"
  shows "\<exists>s'. release h l s = Inr s' \<and>
              lks s' = (lks s)(l := (lks s l)\<lparr>lcpu := None, locked := 0\<rparr>) \<and>
              (\<forall>g. noff (cpus s' g) = (if g = h then noff (cpus s h) - 1 else noff (cpus s g))) \<and>
              (\<forall>g. intr_get g s' \<longrightarrow> intr_get g s \<or> g = h \<and> noff (cpus s h) = 1)"
  using assms
  by (cases "noff (cpus s h) = 1 \<and> intena (cpus s h)") (simp_all add: release_def pop_off_def Let_def)

lemma release_ok:
  assumes inv: "spin_inv s" and hold: "holding h l s"
  shows "\<exists>s'. release h l s = Inr s' \<and> spin_inv s' \<and>
              held_by h s' = held_by h s - {l} \<and>
              (\<forall>h'. h' \<noteq> h \<longrightarrow> held_by h' s' = held_by h' s)"
proof -
  let ?t = "s\<lparr>lks := (lks s)(l := (lks s l)\<lparr>lcpu := None, locked := 0\<rparr>)\<rparr>"
  have lh: "l \<in> held_by h s" using hold by (simp add: held_by_def)
  have fin: "finite (held_by h s)" and nf: "noff (cpus s h) = int (card (held_by h s))"
    using inv by (auto simp: spin_inv_def)
  have pos: "0 < card (held_by h s)" using lh fin by (auto simp: card_gt_0_iff)
  have off: "\<not> intr_get h s" using inv lh by (auto simp: spin_inv_def)
  obtain s' where rel: "release h l s = Inr s'"
    and lk: "lks s' = lks ?t"
    and cp: "\<And>h'. noff (cpus s' h') = (if h' = h then noff (cpus s h) - 1 else noff (cpus s h'))"
    and ig: "\<And>h'. intr_get h' s' \<Longrightarrow> intr_get h' s \<or> h' = h \<and> noff (cpus s h) = 1"
    using release_effect [OF hold off] pos nf by auto
  have hb: "held_by h s' = held_by h s - {l}"
    using lk by (auto simp: held_by_def holding_def)
  have ho: "\<And>h'. h' \<noteq> h \<Longrightarrow> held_by h' s' = held_by h' s"
    using lk hold by (auto simp: held_by_def holding_def)
  have cd: "card (held_by h s') = card (held_by h s) - 1" using hb lh by simp
  have "spin_inv s'"
    unfolding spin_inv_def
  proof (intro conjI allI)
    fix k show "(locked (lks s' k) \<noteq> 0) = (lcpu (lks s' k) \<noteq> None)"
      using inv lk by (auto simp: spin_inv_def)
  next
    fix g show "finite (held_by g s')"
      using inv hb ho by (cases "g = h") (auto simp: spin_inv_def)
  next
    fix g show "noff (cpus s' g) = int (card (held_by g s'))"
      using inv cp cd ho pos nf by (cases "g = h") (auto simp: spin_inv_def of_nat_diff)
  next
    fix g show "held_by g s' \<noteq> {} \<longrightarrow> \<not> intr_get g s'"
    proof (cases "g = h")
      case True
      have "held_by h s' = {}" if c: "card (held_by h s) = 1"
      proof -
        from c obtain k where "held_by h s = {k}" by (rule card_1_singletonE)
        with lh hb show ?thesis by simp
      qed
      then show ?thesis using ig [of h] off nf True by auto
    next
      case False
      then have "intr_get g s' \<Longrightarrow> intr_get g s" using ig [of g] by blast
      moreover have "held_by g s \<noteq> {} \<longrightarrow> \<not> intr_get g s" using inv by (simp add: spin_inv_def)
      ultimately show ?thesis using ho [OF False] by auto
    qed
  qed
  then show ?thesis using rel hb ho by blast
qed

section \<open>The interface the kernel relies on\<close>

locale lock_iface =
  fixes acq :: "lock \<Rightarrow> 's \<Rightarrow> 's res"
    and rel :: "lock \<Rightarrow> 's \<Rightarrow> 's res"
    and holds :: "'s \<Rightarrow> lock set"
    and inv :: "'s \<Rightarrow> bool"
  assumes acq_held: "l \<in> holds s \<Longrightarrow> acq l s = panic ''acquire''"
    and acq_ok: "inv s \<Longrightarrow> acq l s = Inr s' \<Longrightarrow> l \<notin> holds s \<and> holds s' = insert l (holds s) \<and> inv s'"
    and rel_free: "l \<notin> holds s \<Longrightarrow> rel l s = panic ''release''"
    and rel_ok: "inv s \<Longrightarrow> l \<in> holds s \<Longrightarrow> \<exists>s'. rel l s = Inr s' \<and> holds s' = holds s - {l} \<and> inv s'"
begin

lemma section_balanced:
  assumes "inv s" "acq l s = Inr s1"
    and body: "\<And>t. inv t \<Longrightarrow> l \<in> holds t \<Longrightarrow> inv (f t) \<and> holds (f t) = holds t"
  shows "\<exists>s2. rel l (f s1) = Inr s2 \<and> holds s2 = holds s \<and> inv s2"
proof -
  from acq_ok [OF assms(1,2)] have l: "l \<notin> holds s" and s1: "holds s1 = insert l (holds s)" "inv s1"
    by auto
  from body [of s1] s1 have f: "inv (f s1)" "holds (f s1) = insert l (holds s)" by auto
  from rel_ok [OF f(1), of l] f(2) l show ?thesis by auto
qed

lemma no_reacquire: "inv s \<Longrightarrow> acq l s = Inr s1 \<Longrightarrow> acq l s1 = panic ''acquire''"
  using acq_ok [of s l s1] acq_held [of l s1] by simp

lemma no_double_release:
  "inv s \<Longrightarrow> l \<in> holds s \<Longrightarrow> bindR (rel l s) (rel l) = panic ''release''"
proof -
  assume "inv s" "l \<in> holds s"
  then obtain s' where "rel l s = Inr s'" "holds s' = holds s - {l}" using rel_ok by blast
  then show ?thesis using rel_free [of l s'] by simp
qed

end

lemma acquire_panic_iff: "acquire h l s = panic ''acquire'' \<longleftrightarrow> l \<in> held_by h s"
  by (auto simp: acquire_def Let_def held_by_def holding_def)

interpretation hart: lock_iface "acquire h" "release h" "held_by h" spin_inv for h
proof
  fix l s s'
  show "l \<in> held_by h s \<Longrightarrow> acquire h l s = panic ''acquire''"
    by (simp add: acquire_panic_iff)
  show "l \<notin> held_by h s \<and> held_by h s' = insert l (held_by h s) \<and> spin_inv s'"
    if "spin_inv s" "acquire h l s = Inr s'"
    using that acquire_inv [OF that] held_by_acquired [OF that(2), of h] acquire_panic_iff [of h l s]
    by auto
  show "l \<notin> held_by h s \<Longrightarrow> release h l s = panic ''release''"
    by (simp add: release_def held_by_def)
  show "\<exists>s'. release h l s = Inr s' \<and> held_by h s' = held_by h s - {l} \<and> spin_inv s'"
    if "spin_inv s" "l \<in> held_by h s"
    using release_ok [of s h l] that by (auto simp: held_by_def)
qed

section \<open>Runs of several harts\<close>

text \<open>
  Harts take and release locks in any interleaving; a hart that holds none may switch its
  interrupts on or off (\<open>scheduler()\<close> and \<open>usertrapret()\<close> do).
\<close>

inductive lock_step :: "lockstate \<Rightarrow> lockstate \<Rightarrow> bool" where
  acquires: "acquire h l s = Inr s' \<Longrightarrow> lock_step s s'"
| releases: "release h l s = Inr s' \<Longrightarrow> lock_step s s'"
| enables: "noff (cpus s h) = 0 \<Longrightarrow> lock_step s (intr_on h s)"
| disables: "lock_step s (intr_off h s)"

inductive_cases lock_stepE: "lock_step s s'"

definition lock_boot :: lockstate where
  "lock_boot = \<lparr>lks = (\<lambda>_. \<lparr>locked = 0, lname = [], lcpu = None\<rparr>),
                cpus = (\<lambda>_. \<lparr>noff = 0, intena = False\<rparr>), sstatus = (\<lambda>_. 0)\<rparr>"

lemma held_by_intr [simp]:
  "held_by h (intr_on g s) = held_by h s" "held_by h (intr_off g s) = held_by h s"
  by (simp_all add: held_by_def holding_def)

lemma lock_step_inv: "lock_step s s' \<Longrightarrow> spin_inv s \<Longrightarrow> spin_inv s'"
proof (erule lock_stepE)
  fix h l assume "acquire h l s = Inr s'" "spin_inv s"
  then show "spin_inv s'" by (rule acquire_inv [rotated])
next
  fix h l assume r: "release h l s = Inr s'" and i: "spin_inv s"
  from r have "holding h l s" by (auto simp: release_def split: if_splits)
  from release_ok [OF i this] r show "spin_inv s'" by auto
next
  fix h assume "s' = intr_on h s" "noff (cpus s h) = 0" "spin_inv s"
  then show "spin_inv s'" by (auto simp: spin_inv_def)
next
  fix h assume "s' = intr_off h s" "spin_inv s"
  then show "spin_inv s'" by (auto simp: spin_inv_def)
qed

lemma lock_boot_inv: "spin_inv lock_boot"
  by (simp add: spin_inv_def lock_boot_def held_by_def holding_def)

lemma lock_run_inv: "lock_step\<^sup>*\<^sup>* s s' \<Longrightarrow> spin_inv s \<Longrightarrow> spin_inv s'"
  by (induction rule: rtranclp_induct) (auto intro: lock_step_inv)

text \<open>C20: Mutual exclusion. In every state that any number of harts reach by taking and releasing locks in
  any order, a lock has at most one holder; a hart that holds a lock has its interrupts off and its
  \<open>noff\<close> is the number of locks it holds, so that \<open>pop_off\<close> cannot panic in a \<open>release\<close>; a second \<open>acquire\<close> by the holder
  panics, one by another hart does not return, and the holder's \<open>release\<close> does.\<close>

theorem spinlock_exclusive:
  assumes "lock_step\<^sup>*\<^sup>* lock_boot s"
  shows "\<forall>h l. holding h l s \<longrightarrow> (\<forall>g. holding g l s \<longrightarrow> g = h) \<and> \<not> intr_get h s \<and>
    noff (cpus s h) = int (card {k. holding h k s}) \<and>
    acquire h l s = panic ''acquire'' \<and> (\<forall>g. g \<noteq> h \<longrightarrow> acquire g l s = Inl Spin \<and> release g l s = panic ''release'') \<and>
    (\<exists>s'. release h l s = Inr s' \<and> (\<forall>g. \<not> holding g l s'))"
proof (intro allI impI)
  fix h l assume h: "holding h l s"
  have inv: "spin_inv s" by (rule lock_run_inv [OF assms lock_boot_inv])
  obtain s' where s': "release h l s = Inr s'" "held_by h s' = held_by h s - {l}"
    "\<And>g. g \<noteq> h \<Longrightarrow> held_by g s' = held_by g s"
    using release_ok [OF inv h] by blast
  have one: "g = h" if "holding g l s" for g using that h by (simp add: holding_def)
  have "\<not> holding g l s'" for g using s'(2) s'(3) [of g] one [of g] by (cases "g = h") (auto simp: held_by_def)
  moreover have "acquire g l s = Inl Spin" if "g \<noteq> h" for g
    using that h by (auto simp: acquire_def Let_def holding_def)
  moreover have "release g l s = panic ''release''" if "g \<noteq> h" for g using that one by (auto simp: release_def)
  moreover have off: "\<not> intr_get h s" "noff (cpus s h) = int (card {k. holding h k s})"
    using inv h by (auto simp: spin_inv_def held_by_def)
  moreover have "acquire h l s = panic ''acquire''" using h by (simp add: acquire_panic_iff held_by_def)
  ultimately show "(\<forall>g. holding g l s \<longrightarrow> g = h) \<and> \<not> intr_get h s \<and>
    noff (cpus s h) = int (card {k. holding h k s}) \<and>
    acquire h l s = panic ''acquire'' \<and> (\<forall>g. g \<noteq> h \<longrightarrow> acquire g l s = Inl Spin \<and> release g l s = panic ''release'') \<and>
    (\<exists>s'. release h l s = Inr s' \<and> (\<forall>g. \<not> holding g l s'))"
    using one off s'(1) by blast
qed

theorem spinlock_exclusive_witness:
  "\<exists>s. acquire 0 Lkmem lock_boot = Inr s \<and> holding 0 Lkmem s \<and> acquire 1 Lkmem s = Inl Spin"
proof -
  obtain s where s: "acquire 0 Lkmem lock_boot = Inr s" "holding 0 Lkmem s"
    by (simp add: acquire_def Let_def holding_def lock_boot_def)
  then have "lock_step\<^sup>*\<^sup>* lock_boot s" by (auto intro: lock_step.acquires)
  from spinlock_exclusive [OF this] s show ?thesis by (metis one_neq_zero)
qed

section \<open>The machine seen by one hart\<close>

text \<open>
  The state every other component extends: physical memory, the spin locks this hart holds,
  the scheduler the kernel was built for (\<^verbatim>\<open>-D$(SCHEDULER)\<close> in the \<^verbatim>\<open>Makefile\<close>) and the
  addresses the linker script chooses (\<open>end\<close>, \<open>etext\<close>, \<open>trampoline\<close>).
\<close>

datatype sched_policy = DEFAULT | LBS | FCFS | PBS | MLFQ

record machine =
  mem :: memory
  held :: "lock set"
  SCHEDULER :: sched_policy
  kend :: u64
  etext :: u64
  trampoline :: u64

definition acq :: "lock \<Rightarrow> 'z machine_scheme \<Rightarrow> 'z machine_scheme res" where
  "acq l s = (if l \<in> held s then panic ''acquire'' else Inr (s\<lparr>held := insert l (held s)\<rparr>))"

definition rel :: "lock \<Rightarrow> 'z machine_scheme \<Rightarrow> 'z machine_scheme res" where
  "rel l s = (if l \<in> held s then Inr (s\<lparr>held := held s - {l}\<rparr>) else panic ''release'')"

interpretation one_hart: lock_iface acq rel held "\<lambda>_. True"
proof
  fix l and s s' :: "'z machine_scheme"
  show "l \<in> held s \<Longrightarrow> acq l s = panic ''acquire''" by (simp add: acq_def)
  show "l \<notin> held s \<Longrightarrow> rel l s = panic ''release''" by (simp add: rel_def)
  show "acq l s = Inr s' \<Longrightarrow> l \<notin> held s \<and> held s' = insert l (held s) \<and> True"
    by (auto simp: acq_def split: if_splits)
  show "l \<in> held s \<Longrightarrow> \<exists>s'. rel l s = Inr s' \<and> held s' = held s - {l} \<and> True"
    by (simp add: rel_def)
qed

end
