(* ===== verification/Kalloc.thy ===== *)
theory Kalloc
  imports Spinlock
begin

text \<open>
  \<^verbatim>\<open>kernel/kalloc.c\<close>: the page allocator, with the reference counts that copy-on-write
  fork added to it. The free list is the linked list the code builds inside the free pages
  (the first eight bytes of a free page are its \<open>next\<close> pointer), so it lives in \<open>mem\<close>.

  \<open>kmem_inv s fl\<close> says that the list is \<open>fl\<close>: page-aligned addresses of RAM, no repetition,
  each with reference count 0. Every operation is described from that invariant and keeps it.
  A count is an \<open>int\<close> in C; here it is not cut off at 31 bits, because each reference is an entry of
  a page table in RAM or a pointer in the process table, of which there are fewer than \<open>2 ^ 25\<close>.
  The locale \<open>page_alloc\<close> is the contract the page-table code and the process code rely on.
\<close>

section \<open>State and operations\<close>

record kmem = machine +
  freelist :: u64
  refcnt :: "nat \<Rightarrow> int"

text \<open>The number of entries of \<open>refcnt.count\<close>: \<open>PHYSTOP / PGSIZE\<close>.\<close>

abbreviation (input) NREF :: nat where "NREF \<equiv> 0x88000"

definition pno :: "u64 \<Rightarrow> nat" where
  "pno pa = unat pa div 4096"

definition krefincr :: "u64 \<Rightarrow> 'z kmem_scheme \<Rightarrow> 'z kmem_scheme res" where
  "krefincr pa s =
     bindR (acq Lkmem s) (\<lambda>s.
       let pn = pno pa in
       if pa > PHYSTOP then panic ''Physical Address limit exceeded''
       else if NREF \<le> pn then Inl (UB ''refcnt.count: index out of range'')
       else rel Lkmem (s\<lparr>refcnt := (refcnt s)(pn := refcnt s pn + 1)\<rparr>))"

definition krefdecr :: "u64 \<Rightarrow> 'z kmem_scheme \<Rightarrow> 'z kmem_scheme res" where
  "krefdecr pa s =
     bindR (acq Lkmem s) (\<lambda>s.
       let pn = pno pa in
       if pa > PHYSTOP then panic ''Physical Address limit exceeded''
       else if NREF \<le> pn then Inl (UB ''refcnt.count: index out of range'')
       else rel Lkmem (s\<lparr>refcnt := (refcnt s)(pn := refcnt s pn - 1)\<rparr>))"

definition kfree :: "u64 \<Rightarrow> 'z kmem_scheme \<Rightarrow> 'z kmem_scheme res" where
  "kfree pa s =
     (if pa mod PGSIZE \<noteq> 0 \<or> pa < kend s \<or> pa \<ge> PHYSTOP then panic ''kfree'' else
      bindR (acq Lkmem s) (\<lambda>s.
        let pn = pno pa in
        if refcnt s pn < 1 then bindR (rel Lkmem s) (\<lambda>s. panic ''kfree_decr'')
        else
          let s = s\<lparr>refcnt := (refcnt s)(pn := refcnt s pn - 1)\<rparr> in
          if refcnt s pn > 0 then rel Lkmem s
          else
            bindR (rel Lkmem s) (\<lambda>s.
              let s = s\<lparr>mem := memset (mem s) (unat pa) 1 4096\<rparr> in
              bindR (acq Lkmem s) (\<lambda>s.
                let s = s\<lparr>mem := st64 (mem s) (unat pa) (freelist s)\<rparr>;
                    s = s\<lparr>freelist := pa\<rparr>
                in rel Lkmem s))))"

definition kalloc :: "'z kmem_scheme \<Rightarrow> (u64 \<times> 'z kmem_scheme) res" where
  "kalloc s =
     bindR (acq Lkmem s) (\<lambda>s.
       let r = freelist s in
       if r \<noteq> 0 then
         let pn = pno r in
         if NREF \<le> pn then Inl (UB ''refcnt.count: index out of range'')
         else if refcnt s pn > 0 then bindR (rel Lkmem s) (\<lambda>s. Inr (0, s))
         else
           let s = s\<lparr>refcnt := (refcnt s)(pn := 1)\<rparr>;
               s = s\<lparr>freelist := ld64 (mem s) (unat r)\<rparr>
           in bindR (rel Lkmem s) (\<lambda>s. Inr (r, s\<lparr>mem := memset (mem s) (unat r) 5 4096\<rparr>))
       else bindR (rel Lkmem s) (\<lambda>s. Inr (r, s)))"

function freerange_loop :: "u64 \<Rightarrow> u64 \<Rightarrow> 'z kmem_scheme \<Rightarrow> 'z kmem_scheme res" where
  "freerange_loop p pa_end s =
     (if p + PGSIZE \<le> pa_end then
        (let pn = pno p in
         if NREF \<le> pn then Inl (UB ''refcnt.count: index out of range'')
         else bindR (kfree p (s\<lparr>refcnt := (refcnt s)(pn := 1)\<rparr>)) (\<lambda>s.
           freerange_loop (p + PGSIZE) pa_end s))
      else Inr s)"
  by pat_completeness auto

lemma kfree_bound: "kfree p s = Inr s' \<Longrightarrow> kend s \<le> p \<and> p < PHYSTOP \<and> 4096 dvd unat p"
  by (auto simp: kfree_def page_aligned_iff not_less not_le split: if_splits)

lemma unat_next_page: "p < PHYSTOP \<Longrightarrow> unat (p + PGSIZE) = unat p + 4096"
  by (subst unat_plus_u64) (auto simp: word_less_nat_alt)

termination freerange_loop
proof (relation "measure (\<lambda>(p, pa_end, s). 2 ^ 64 - unat p)", goal_cases)
  case (2 p pa_end s pn s')
  then have "p < PHYSTOP" using kfree_bound by blast
  then show ?case using unat_next_page [of p] unat_less_u64 [of "p + PGSIZE"] by simp
qed simp

declare freerange_loop.simps [simp del]

definition freerange :: "u64 \<Rightarrow> u64 \<Rightarrow> 'z kmem_scheme \<Rightarrow> 'z kmem_scheme res" where
  "freerange pa_start pa_end s = freerange_loop (PGROUNDUP pa_start) pa_end s"

text \<open>\<open>initlock(&kmem.lock)\<close> leaves the lock free, which \<open>held\<close> already says at boot.\<close>

definition kinit :: "'z kmem_scheme \<Rightarrow> 'z kmem_scheme res" where
  "kinit s = freerange (kend s) PHYSTOP (s\<lparr>held := held s - {Lkmem}\<rparr>)"

section \<open>The invariant\<close>

fun chain :: "memory \<Rightarrow> u64 \<Rightarrow> u64 list \<Rightarrow> bool" where
  "chain m p [] \<longleftrightarrow> p = 0"
| "chain m p (q # qs) \<longleftrightarrow> p = q \<and> q \<noteq> 0 \<and> chain m (ld64 m (unat q)) qs"

definition ram_page :: "'z machine_scheme \<Rightarrow> u64 \<Rightarrow> bool" where
  "ram_page s p \<longleftrightarrow> 4096 dvd unat p \<and> kend s \<le> p \<and> p < PHYSTOP"

definition kmem_inv :: "'z kmem_scheme \<Rightarrow> u64 list \<Rightarrow> bool" where
  "kmem_inv s fl \<longleftrightarrow>
     Lkmem \<notin> held s \<and> KERNBASE \<le> kend s \<and> chain (mem s) (freelist s) fl \<and> distinct fl \<and>
     (\<forall>p\<in>set fl. ram_page s p \<and> refcnt s (pno p) = 0) \<and> (\<forall>n. 0 \<le> refcnt s n)"

text \<open>The bytes of the page at \<open>p\<close>.\<close>

definition page_bytes :: "u64 \<Rightarrow> nat set" where
  "page_bytes p = {unat p ..< unat p + 4096}"

lemma page_bytes_disjoint:
  "4096 dvd unat p \<Longrightarrow> 4096 dvd unat q \<Longrightarrow> p \<noteq> q \<Longrightarrow> page_bytes p \<inter> page_bytes q = {}"
  using mult_disjoint [of 4096 "unat p" "unat q"] by (auto simp: page_bytes_def word_unat_eq_iff)

lemma memset_page_other: "x \<notin> page_bytes p \<Longrightarrow> memset m (unat p) c 4096 x = m x"
  by (auto simp: memset_eq page_bytes_def)

lemma st64_page_other: "i + 8 \<le> 4096 \<Longrightarrow> x \<notin> page_bytes p \<Longrightarrow> st64 m (unat p + i) v x = m x"
  by (auto simp: storew_def page_bytes_def)

lemma pno_inj: "4096 dvd unat p \<Longrightarrow> 4096 dvd unat q \<Longrightarrow> pno p = pno q \<Longrightarrow> p = q"
  by (auto simp: pno_def word_unat_eq_iff elim!: dvdE)

lemma ram_page_pno: "ram_page s p \<Longrightarrow> pno p < NREF"
  by (simp add: ram_page_def pno_def word_less_nat_alt div_less_iff_less_mult)

lemma ram_page_nonzero: "KERNBASE \<le> kend s \<Longrightarrow> ram_page s p \<Longrightarrow> p \<noteq> 0"
  by (auto simp: ram_page_def word_le_nat_alt)

lemma ram_page_next: "ram_page s p \<Longrightarrow> unat p + 4096 \<le> 0x88000000"
  by (auto simp: ram_page_def word_less_nat_alt elim!: dvdE)

lemma chain_frame:
  assumes "chain m p fl"
    and "\<And>q x. q \<in> set fl \<Longrightarrow> x \<in> page_bytes q \<Longrightarrow> m' x = m x"
  shows "chain m' p fl"
  using assms
proof (induction fl arbitrary: p)
  case (Cons q fl)
  have "ld64 m' (unat q) = ld64 m (unat q)"
    by (rule loadw_cong) (use Cons.prems(2) [of q] in \<open>auto simp: page_bytes_def\<close>)
  with Cons show ?case by auto
qed auto

lemma held_id [simp]: "s\<lparr>held := held s\<rparr> = (s :: 'z machine_scheme)"
  by (cases s) simp

lemma insert_held [simp]: "l \<notin> H \<Longrightarrow> insert l H - {l} = H"
  by auto

lemma acq_free [simp]: "l \<notin> held s \<Longrightarrow> acq l s = Inr (s\<lparr>held := insert l (held s)\<rparr>)"
  by (simp add: acq_def)

lemma rel_held [simp]: "l \<in> held s \<Longrightarrow> rel l s = Inr (s\<lparr>held := held s - {l}\<rparr>)"
  by (simp add: rel_def)

section \<open>What the operations do\<close>

lemma kmem_invD:
  assumes "kmem_inv s fl"
  shows "Lkmem \<notin> held s" "KERNBASE \<le> kend s" "chain (mem s) (freelist s) fl" "distinct fl"
    "\<And>p. p \<in> set fl \<Longrightarrow> ram_page s p" "\<And>p. p \<in> set fl \<Longrightarrow> refcnt s (pno p) = 0"
    "\<And>n. 0 \<le> refcnt s n"
  using assms by (auto simp: kmem_inv_def)

lemma kalloc_empty: "kmem_inv s [] \<Longrightarrow> kalloc s = Inr (0, s)"
  by (simp add: kalloc_def kmem_inv_def)

text \<open>The state after a successful \<open>kalloc\<close>.\<close>

definition kalloc_post :: "u64 \<Rightarrow> 'z kmem_scheme \<Rightarrow> 'z kmem_scheme" where
  "kalloc_post p s =
     s\<lparr>mem := memset (mem s) (unat p) 5 4096, freelist := ld64 (mem s) (unat p),
       refcnt := (refcnt s)(pno p := 1)\<rparr>"

lemma kalloc_cons:
  assumes "kmem_inv s (p # fl)"
  shows "kalloc s = Inr (p, kalloc_post p s)"
proof -
  have "freelist s = p" "p \<noteq> 0" "pno p < NREF" "refcnt s (pno p) = 0" "Lkmem \<notin> held s"
    using assms ram_page_pno [of s p] by (auto simp: kmem_inv_def)
  then show ?thesis by (simp add: kalloc_def kalloc_post_def Let_def)
qed

lemma kalloc_post_inv:
  assumes "kmem_inv s (p # fl)"
  shows "kmem_inv (kalloc_post p s) fl"
proof -
  note inv = kmem_invD [OF assms]
  have dj: "page_bytes q \<inter> page_bytes p = {}" "pno q \<noteq> pno p" if "q \<in> set fl" for q
  proof -
    from inv(5) [of p] inv(5) [of q] that have "4096 dvd unat p" "4096 dvd unat q"
      by (auto simp: ram_page_def)
    moreover from that inv(4) have "p \<noteq> q" by auto
    ultimately show "page_bytes q \<inter> page_bytes p = {}" "pno q \<noteq> pno p"
      using page_bytes_disjoint [of q p] pno_inj [of q p] by auto
  qed
  have "chain (memset (mem s) (unat p) 5 4096) (ld64 (mem s) (unat p)) fl"
  proof (rule chain_frame [of "mem s"])
    fix q x assume "q \<in> set fl" "x \<in> page_bytes q"
    with dj(1) show "memset (mem s) (unat p) 5 4096 x = mem s x"
      by (intro memset_page_other) auto
  qed (use inv(3) in simp)
  then show ?thesis
    using inv dj(2) by (auto simp: kmem_inv_def kalloc_post_def ram_page_def)
qed

lemma kfree_bad:
  "\<not> ram_page s p \<Longrightarrow> kfree p s = panic ''kfree''"
  by (auto simp: kfree_def ram_page_def page_aligned_iff)

lemma kfree_free:
  "ram_page s p \<Longrightarrow> Lkmem \<notin> held s \<Longrightarrow> refcnt s (pno p) < 1 \<Longrightarrow> kfree p s = panic ''kfree_decr''"
  by (auto simp: kfree_def ram_page_def page_aligned_iff Let_def)

lemma kfree_shared:
  "ram_page s p \<Longrightarrow> Lkmem \<notin> held s \<Longrightarrow> 1 < refcnt s (pno p) \<Longrightarrow>
     kfree p s = Inr (s\<lparr>refcnt := (refcnt s)(pno p := refcnt s (pno p) - 1)\<rparr>)"
  by (auto simp: kfree_def ram_page_def page_aligned_iff Let_def)

text \<open>The state after the last reference to a page is dropped.\<close>

definition kfree_post :: "u64 \<Rightarrow> 'z kmem_scheme \<Rightarrow> 'z kmem_scheme" where
  "kfree_post p s =
     s\<lparr>mem := st64 (memset (mem s) (unat p) 1 4096) (unat p) (freelist s), freelist := p,
       refcnt := (refcnt s)(pno p := 0)\<rparr>"

lemma kfree_last:
  "ram_page s p \<Longrightarrow> Lkmem \<notin> held s \<Longrightarrow> refcnt s (pno p) = 1 \<Longrightarrow> kfree p s = Inr (kfree_post p s)"
  by (auto simp: kfree_def kfree_post_def ram_page_def page_aligned_iff Let_def)

lemma kfree_post_inv:
  assumes "kmem_inv s fl" "ram_page s p" "refcnt s (pno p) = 1"
  shows "kmem_inv (kfree_post p s) (p # fl)"
proof -
  note inv = kmem_invD [OF assms(1)]
  have nin: "p \<notin> set fl" using inv(6) assms(3) by force
  have dj: "page_bytes q \<inter> page_bytes p = {}" "pno q \<noteq> pno p" if "q \<in> set fl" for q
  proof -
    from inv(5) [of q] assms(2) that have "4096 dvd unat p" "4096 dvd unat q"
      by (auto simp: ram_page_def)
    moreover from that nin have "p \<noteq> q" by auto
    ultimately show "page_bytes q \<inter> page_bytes p = {}" "pno q \<noteq> pno p"
      using page_bytes_disjoint [of q p] pno_inj [of q p] by auto
  qed
  have "chain (st64 (memset (mem s) (unat p) 1 4096) (unat p) (freelist s)) (freelist s) fl"
  proof (rule chain_frame [of "mem s"])
    fix q x assume "q \<in> set fl" "x \<in> page_bytes q"
    with dj(1) have x: "x \<notin> page_bytes p" by auto
    show "st64 (memset (mem s) (unat p) 1 4096) (unat p) (freelist s) x = mem s x"
      using st64_page_other [of 0, OF _ x] memset_page_other [OF x] by simp
  qed (use inv(3) in simp)
  then show ?thesis
    using inv dj(2) assms nin ram_page_nonzero [OF inv(2) assms(2)]
    by (auto simp: kmem_inv_def kfree_post_def ram_page_def)
qed

lemma krefincr_ok:
  "Lkmem \<notin> held s \<Longrightarrow> pa < PHYSTOP \<Longrightarrow>
     krefincr pa s = Inr (s\<lparr>refcnt := (refcnt s)(pno pa := refcnt s (pno pa) + 1)\<rparr>)"
  by (auto simp: krefincr_def Let_def pno_def word_less_nat_alt not_le div_less_iff_less_mult)

lemma krefdecr_ok:
  "Lkmem \<notin> held s \<Longrightarrow> pa < PHYSTOP \<Longrightarrow>
     krefdecr pa s = Inr (s\<lparr>refcnt := (refcnt s)(pno pa := refcnt s (pno pa) - 1)\<rparr>)"
  by (auto simp: krefdecr_def Let_def pno_def word_less_nat_alt not_le div_less_iff_less_mult)

section \<open>Initialisation\<close>

text \<open>The \<open>n\<close> consecutive pages from \<open>p\<close>.\<close>

definition pages_from :: "u64 \<Rightarrow> nat \<Rightarrow> u64 list" where
  "pages_from p n = map (\<lambda>i. p + of_nat i * PGSIZE) [0..<n]"

lemma pages_from_Suc: "pages_from p (Suc n) = p # pages_from (p + PGSIZE) n"
proof -
  have "pages_from p (Suc n) = p # map (\<lambda>i. p + of_nat (Suc i) * PGSIZE) [0..<n]"
    by (simp only: pages_from_def upt_conv_Cons [OF zero_less_Suc] map_Suc_upt [symmetric]) simp
  then show ?thesis by (simp add: pages_from_def algebra_simps)
qed

lemma pages_from_ge:
  assumes "unat p + n * 4096 \<le> 0x88000000" "q \<in> set (pages_from p n)"
  shows "p \<le> q"
proof -
  from assms(2) obtain i where i: "i < n" "q = p + of_nat i * PGSIZE" by (auto simp: pages_from_def)
  have "unat (of_nat i * PGSIZE :: u64) = i * 4096"
    using i(1) assms(1) by (simp add: unat_word_ariths)
  moreover have "unat p + i * 4096 < 2 ^ 64" using i(1) assms(1) by simp
  ultimately have "unat q = unat p + i * 4096" unfolding i(2) by (subst unat_plus_u64) auto
  then show ?thesis by (simp add: word_le_nat_alt)
qed

lemma freerange_page:
  assumes "kmem_inv s fl" "ram_page s p" "p \<notin> set fl"
  shows "\<exists>s'. kfree p (s\<lparr>refcnt := (refcnt s)(pno p := 1)\<rparr>) = Inr s' \<and>
              kmem_inv s' (p # fl) \<and> kend s' = kend s"
proof -
  let ?t = "s\<lparr>refcnt := (refcnt s)(pno p := 1)\<rparr>"
  have "pno q \<noteq> pno p" if "q \<in> set fl" for q
    using pno_inj [of q p] that assms by (auto simp: kmem_inv_def ram_page_def)
  then have t: "kmem_inv ?t fl" "ram_page ?t p"
    using assms by (auto simp: kmem_inv_def ram_page_def)
  then have "kfree p ?t = Inr (kfree_post p ?t)"
    by (intro kfree_last) (auto simp: kmem_inv_def)
  with kfree_post_inv [OF t] show ?thesis by (auto simp: kfree_post_def)
qed

lemma freerange_loop_spec:
  assumes "kmem_inv s fl" "4096 dvd unat p" "kend s \<le> p" "unat p + n * 4096 = 0x88000000"
    and "\<And>q. q \<in> set fl \<Longrightarrow> q < p"
  shows "\<exists>s'. freerange_loop p PHYSTOP s = Inr s' \<and>
              kmem_inv s' (rev (pages_from p n) @ fl) \<and> kend s' = kend s"
  using assms
proof (induction n arbitrary: s fl p)
  case 0
  then have "p = PHYSTOP" by (simp add: word_unat_eq_iff)
  with 0 show ?case by (simp add: freerange_loop.simps pages_from_def)
next
  case (Suc n)
  have p: "p < PHYSTOP" using Suc.prems(4) by (simp add: word_less_nat_alt)
  then have rp: "ram_page s p" using Suc.prems by (simp add: ram_page_def)
  have nx: "unat (p + PGSIZE) = unat p + 4096" by (rule unat_next_page [OF p])
  from freerange_page [OF Suc.prems(1) rp] Suc.prems(5) obtain s1 where
    s1: "kfree p (s\<lparr>refcnt := (refcnt s)(pno p := 1)\<rparr>) = Inr s1" "kmem_inv s1 (p # fl)"
      "kend s1 = kend s" by auto
  have "\<exists>s'. freerange_loop (p + PGSIZE) PHYSTOP s1 = Inr s' \<and>
             kmem_inv s' (rev (pages_from (p + PGSIZE) n) @ (p # fl)) \<and> kend s' = kend s1"
  proof (rule Suc.IH)
    show "kend s1 \<le> p + PGSIZE" using Suc.prems(3) nx s1(3) by (simp add: word_le_nat_alt)
    show "q < p + PGSIZE" if "q \<in> set (p # fl)" for q
      using that Suc.prems(5) [of q] nx by (auto simp: word_less_nat_alt)
  qed (use s1 Suc.prems nx in auto)
  then show ?case
    using s1(1,3) nx Suc.prems(4) ram_page_pno [OF rp]
    by (subst freerange_loop.simps) (auto simp: pages_from_Suc word_le_nat_alt)
qed

section \<open>The contract of the allocator\<close>

locale page_alloc =
  fixes alloc :: "'s \<Rightarrow> (u64 \<times> 's) res"
    and free :: "u64 \<Rightarrow> 's \<Rightarrow> 's res"
    and inv :: "'s \<Rightarrow> u64 list \<Rightarrow> bool"
    and cnt :: "'s \<Rightarrow> u64 \<Rightarrow> int"
    and valid :: "'s \<Rightarrow> u64 \<Rightarrow> bool"
  assumes alloc_none: "inv s [] \<Longrightarrow> alloc s = Inr (0, s)"
    and alloc_some: "inv s (p # fl) \<Longrightarrow>
          \<exists>s'. alloc s = Inr (p, s') \<and> inv s' fl \<and> cnt s' p = 1 \<and> valid s' p \<and> p \<noteq> 0"
    and inv_distinct: "inv s fl \<Longrightarrow> distinct fl"
    and free_last: "inv s fl \<Longrightarrow> valid s p \<Longrightarrow> cnt s p = 1 \<Longrightarrow>
          \<exists>s'. free p s = Inr s' \<and> inv s' (p # fl)"
    and free_shared: "inv s fl \<Longrightarrow> valid s p \<Longrightarrow> 1 < cnt s p \<Longrightarrow>
          \<exists>s'. free p s = Inr s' \<and> inv s' fl \<and> cnt s' p = cnt s p - 1"
    and free_unused: "inv s fl \<Longrightarrow> p \<in> set fl \<Longrightarrow> \<exists>m. free p s = panic m"

text \<open>\<open>n\<close> calls of an allocator in a row, as \<open>proc_mapstacks\<close> and \<open>virtio_disk_init\<close> make them.\<close>

fun alloc_n :: "('s \<Rightarrow> (u64 \<times> 's) res) \<Rightarrow> nat \<Rightarrow> 's \<Rightarrow> (u64 list \<times> 's) res" where
  "alloc_n f 0 s = Inr ([], s)"
| "alloc_n f (Suc n) s = bindR (f s) (\<lambda>(p, s). bindR (alloc_n f n s) (\<lambda>(ps, s). Inr (p # ps, s)))"

context page_alloc
begin

lemma alloc_many:
  "inv s (ps @ fl) \<Longrightarrow> \<exists>s'. alloc_n alloc (length ps) s = Inr (ps, s') \<and> inv s' fl"
proof (induction ps arbitrary: s)
  case (Cons p ps)
  then obtain s1 where s1: "alloc s = Inr (p, s1)" "inv s1 (ps @ fl)"
    using alloc_some [of s p "ps @ fl"] by auto
  from Cons.IH [OF s1(2)] s1(1) show ?case by auto
qed auto

lemma alloc_many_distinct: "inv s (ps @ fl) \<Longrightarrow> distinct ps"
  using inv_distinct by fastforce

lemma alloc_free_roundtrip:
  assumes "inv s (p # fl)" "alloc s = Inr (p, s1)"
  shows "\<exists>s2. free p s1 = Inr s2 \<and> inv s2 (p # fl)"
  using alloc_some [OF assms(1)] assms(2) free_last [of s1 fl p] by auto

lemma no_double_free:
  assumes "inv s fl" "valid s p" "cnt s p = 1" "free p s = Inr s1"
  shows "\<exists>m. free p s1 = panic m"
  using free_last [OF assms(1-3)] assms(4) free_unused [of s1 "p # fl" p] by auto

end

interpretation kpages: page_alloc kalloc kfree kmem_inv "\<lambda>s p. refcnt s (pno p)" ram_page
proof
  fix s s' :: "'z kmem_scheme" and p fl
  show "kmem_inv s [] \<Longrightarrow> kalloc s = Inr (0, s)" by (rule kalloc_empty)
  show "kmem_inv s fl \<Longrightarrow> distinct fl" by (rule kmem_invD)
  show "\<exists>s'. kalloc s = Inr (p, s') \<and> kmem_inv s' fl \<and> refcnt s' (pno p) = 1 \<and> ram_page s' p \<and> p \<noteq> 0"
    if "kmem_inv s (p # fl)"
    using kalloc_cons [OF that] kalloc_post_inv [OF that] kmem_invD(2,5) [OF that] ram_page_nonzero [of s p]
    by (auto simp: kalloc_post_def ram_page_def)
  show "\<exists>s'. kfree p s = Inr s' \<and> kmem_inv s' (p # fl)"
    if "kmem_inv s fl" "ram_page s p" "refcnt s (pno p) = 1"
    using kfree_last [of s p] kfree_post_inv [of s fl p] that by (auto simp: kmem_inv_def)
  show "\<exists>s'. kfree p s = Inr s' \<and> kmem_inv s' fl \<and> refcnt s' (pno p) = refcnt s (pno p) - 1"
    if "kmem_inv s fl" "ram_page s p" "1 < refcnt s (pno p)"
  proof -
    have "pno q \<noteq> pno p" if "q \<in> set fl" for q
    proof -
      have "refcnt s (pno q) = 0" using \<open>kmem_inv s fl\<close> that by (simp add: kmem_inv_def)
      then show ?thesis using \<open>1 < refcnt s (pno p)\<close> by auto
    qed
    then show ?thesis
      using that kfree_shared [of s p] by (auto simp: kmem_inv_def ram_page_def)
  qed
  show "\<exists>m. kfree p s = panic m" if "kmem_inv s fl" "p \<in> set fl"
    using kfree_free [of s p] that by (auto simp: kmem_inv_def)
qed

section \<open>Properties\<close>

text \<open>A small allocator state, with the \<open>end\<close> of the built kernel: two free pages.\<close>

definition kmem_demo :: kmem where
  "kmem_demo = \<lparr>mem = st64 (\<lambda>_. 0) 0x87fff000 0x87ffe000, held = {}, SCHEDULER = DEFAULT,
     kend = 0x802442c8, etext = 0x80008000, trampoline = 0x80007000,
     freelist = 0x87fff000, refcnt = (\<lambda>_. 0)\<rparr>"

lemma kmem_demo_inv: "kmem_inv kmem_demo [0x87fff000, 0x87ffe000]"
  by (simp add: kmem_inv_def kmem_demo_def ram_page_def loadw_storew_other)

text \<open>A memory that holds a given free list, and a list of sixteen pages to put on it.\<close>

fun chain_mem :: "u64 list \<Rightarrow> memory" where
  "chain_mem [] = (\<lambda>_. 0)"
| "chain_mem (p # ps) = st64 (chain_mem ps) (unat p) (if ps = [] then 0 else hd ps)"

lemma chain_mem_chain:
  assumes "\<And>p. p \<in> set ps \<Longrightarrow> p \<noteq> 0 \<and> 4096 dvd unat p" "distinct ps"
  shows "chain (chain_mem ps) (if ps = [] then 0 else hd ps) ps"
  using assms
proof (induction ps)
  case (Cons p ps)
  have "st64 (chain_mem ps) (unat p) v x = chain_mem ps x" if "q \<in> set ps" "x \<in> page_bytes q" for q x v
  proof (rule storew_outside)
    have "page_bytes q \<inter> page_bytes p = {}" by (rule page_bytes_disjoint) (use Cons.prems that in auto)
    with that(2) show "x < unat p \<or> unat p + 8 \<le> x" by (auto simp: page_bytes_def)
  qed
  then have "chain (chain_mem (p # ps)) (if ps = [] then 0 else hd ps) ps"
    using chain_frame [OF Cons.IH] Cons.prems by auto
  then show ?case using Cons.prems(1) by simp
qed simp

definition demo_pages :: "u64 list" where
  "demo_pages = [0x87ff0000, 0x87ff1000, 0x87ff2000, 0x87ff3000, 0x87ff4000, 0x87ff5000, 0x87ff6000, 0x87ff7000,
     0x87ff8000, 0x87ff9000, 0x87ffa000, 0x87ffb000, 0x87ffc000, 0x87ffd000, 0x87ffe000, 0x87fff000]"

lemma demo_pages_inv:
  assumes "Lkmem \<notin> held s" "KERNBASE \<le> kend s" "kend s \<le> 0x87ff0000" "mem s = chain_mem demo_pages"
    "freelist s = 0x87ff0000" "refcnt s = (\<lambda>_. 0)"
  shows "kmem_inv s demo_pages"
proof -
  have "p \<noteq> 0 \<and> 4096 dvd unat p \<and> 0x87ff0000 \<le> p \<and> p < PHYSTOP" if "p \<in> set demo_pages" for p
    using that by (auto simp: demo_pages_def)
  moreover have "distinct demo_pages" by (simp add: demo_pages_def)
  moreover have "chain (mem s) (freelist s) demo_pages"
    using chain_mem_chain [of demo_pages] calculation assms(4,5) by (simp add: demo_pages_def)
  ultimately show ?thesis using assms by (auto simp: kmem_inv_def ram_page_def intro: order_trans)
qed

text \<open>
  C12: \<open>kalloc\<close> on a state whose free list is \<open>p # fl\<close> returns \<open>p\<close>, a non-null page of RAM that
  was free, with reference count 1 and every byte 5; the free list is then \<open>fl\<close>, no other page's
  count or contents change, and no lock stays held. On an empty free list it returns 0 and changes
  nothing, so that it returns 0 exactly then.
\<close>

theorem kalloc_spec:
  assumes "kmem_inv s fls"
  shows "case fls of
      [] \<Rightarrow> kalloc s = Inr (0, s)
    | p # fl \<Rightarrow> \<exists>s'. kalloc s = Inr (p, s') \<and> p \<noteq> 0 \<and> ram_page s p \<and> kmem_inv s' fl \<and>
              refcnt s' = (refcnt s)(pno p := 1) \<and> refcnt s (pno p) = 0 \<and>
              (\<forall>x\<in>page_bytes p. mem s' x = 5) \<and> (\<forall>x. x \<notin> page_bytes p \<longrightarrow> mem s' x = mem s x) \<and>
              held s' = held s"
proof (cases fls)
  case Nil
  then show ?thesis using assms kalloc_empty by simp
next
  case (Cons p fl)
  then have inv: "kmem_inv s (p # fl)" using assms by simp
  show ?thesis
    using kalloc_cons [OF inv] kalloc_post_inv [OF inv] kmem_invD [OF inv] ram_page_nonzero [of s p] Cons
    by (auto simp: kalloc_post_def memset_eq page_bytes_def)
qed

theorem kalloc_spec_witness:
  "(\<exists>s'. kalloc kmem_demo = Inr (0x87fff000, s') \<and> kmem_inv s' [0x87ffe000]) \<and>
     kalloc (kmem_demo\<lparr>freelist := 0\<rparr>) = Inr (0, kmem_demo\<lparr>freelist := 0\<rparr>)"
  using kalloc_spec [OF kmem_demo_inv] kalloc_spec [of "kmem_demo\<lparr>freelist := 0\<rparr>" "[]"]
  by (auto simp: kmem_inv_def kmem_demo_def)

text \<open>
  C13: \<open>kfree\<close> on a page of RAM with a positive reference count drops the count by one. If it
  reaches 0 the page goes to the front of the free list: its first eight bytes are the old head of
  the list and all others are 1. Otherwise the free list and memory stay as they are. The invariant
  holds afterwards in both cases.
\<close>

theorem kfree_spec:
  assumes "kmem_inv s fl" "ram_page s p" "0 < refcnt s (pno p)"
  shows "\<exists>s'. kfree p s = Inr s' \<and> refcnt s' = (refcnt s)(pno p := refcnt s (pno p) - 1) \<and>
              held s' = held s \<and> (\<forall>x. x \<notin> page_bytes p \<longrightarrow> mem s' x = mem s x) \<and>
              (if refcnt s (pno p) = 1
               then kmem_inv s' (p # fl) \<and> ld64 (mem s') (unat p) = freelist s \<and>
                 (\<forall>x. unat p + 8 \<le> x \<and> x < unat p + 4096 \<longrightarrow> mem s' x = 1)
               else kmem_inv s' fl \<and> mem s' = mem s)"
proof (cases "refcnt s (pno p) = 1")
  case True
  have out: "st64 (memset (mem s) (unat p) 1 4096) (unat p) v x = mem s x" if "x \<notin> page_bytes p" for v x
    using st64_page_other [of 0, OF _ that] memset_page_other [OF that] by simp
  have ones: "st64 (memset (mem s) (unat p) 1 4096) (unat p) v x = 1" if "unat p + 8 \<le> x \<and> x < unat p + 4096" for v x
    using that by (simp add: storew_def memset_eq)
  have "kfree p s = Inr (kfree_post p s)" using kfree_last assms True by (auto simp: kmem_inv_def)
  moreover have "kmem_inv (kfree_post p s) (p # fl)" using kfree_post_inv [OF assms(1,2) True] .
  ultimately show ?thesis using True out ones by (auto simp: kfree_post_def)
next
  case False
  then have gt: "1 < refcnt s (pno p)" using assms(3) by simp
  moreover have "Lkmem \<notin> held s" using assms(1) by (simp add: kmem_inv_def)
  ultimately have "kfree p s = Inr (s\<lparr>refcnt := (refcnt s)(pno p := refcnt s (pno p) - 1)\<rparr>)"
    using kfree_shared assms(2) by blast
  with kpages.free_shared [OF assms(1,2) gt] False show ?thesis by auto
qed

text \<open>The state after the first page of \<open>kmem_demo\<close> was handed out.\<close>

lemma kalloc_demo_inv:
  "kmem_inv (kalloc_post 0x87fff000 kmem_demo) [0x87ffe000]"
  "ram_page (kalloc_post 0x87fff000 kmem_demo) 0x87fff000"
  "refcnt (kalloc_post 0x87fff000 kmem_demo) (pno 0x87fff000) = 1"
  using kalloc_post_inv [OF kmem_demo_inv]
  by (simp_all add: kalloc_post_def kmem_demo_def ram_page_def)

theorem kfree_spec_witness:
  "\<exists>s'. kfree 0x87fff000 (kalloc_post 0x87fff000 kmem_demo) = Inr s' \<and>
        kmem_inv s' [0x87fff000, 0x87ffe000] \<and> mem s' 0x87fff123 = 1"
  using kfree_spec [OF kalloc_demo_inv(1,2)] kalloc_demo_inv(3) by auto

text \<open>
  C14: \<open>kinit\<close> from a boot state (no page on the free list, all counts 0) returns, and the free
  list is then every page from \<open>PGROUNDUP(end)\<close> up to \<open>PHYSTOP\<close>, each once, the highest first.
\<close>

theorem kinit_spec:
  assumes "freelist s = 0" "refcnt s = (\<lambda>_. 0)" "KERNBASE \<le> kend s" "kend s \<le> PHYSTOP"
  shows "\<exists>s'. kinit s = Inr s' \<and>
              kmem_inv s' (rev (pages_from (PGROUNDUP (kend s)) ((0x88000000 - unat (PGROUNDUP (kend s))) div 4096)))"
proof -
  let ?p = "PGROUNDUP (kend s)" and ?n = "(0x88000000 - unat (PGROUNDUP (kend s))) div 4096"
  have k: "0x80000000 \<le> unat (kend s)" "unat (kend s) \<le> 0x88000000"
    using assms(3,4) by (simp_all add: word_le_nat_alt)
  have up: "unat ?p = (unat (kend s) + 0xFFF) div 4096 * 4096"
    using k by (intro unat_PGROUNDUP) simp
  have le: "unat (kend s) \<le> unat ?p" "unat ?p \<le> 0x88000000" "4096 dvd unat ?p"
    using k unfolding up by simp_all
  have n: "unat ?p + ?n * 4096 = 0x88000000"
    using le(2,3) by (auto elim!: dvdE)
  have "kmem_inv (s\<lparr>held := held s - {Lkmem}\<rparr>) []"
    using assms by (simp add: kmem_inv_def)
  from freerange_loop_spec [OF this le(3) _ n] le(1) show ?thesis
    by (auto simp: kinit_def freerange_def word_le_nat_alt)
qed

theorem kinit_spec_witness:
  "\<exists>s'. kinit (kmem_demo\<lparr>freelist := 0\<rparr>) = Inr s' \<and>
        kmem_inv s' (rev (pages_from (PGROUNDUP 0x802442c8)
          ((0x88000000 - unat (PGROUNDUP 0x802442c8)) div 4096)))"
  using kinit_spec [of "kmem_demo\<lparr>freelist := 0\<rparr>"] by (simp add: kmem_demo_def)

text \<open>
  C15: \<open>n\<close> allocations in a row, without a free between them, return the first \<open>n\<close> pages of the
  free list: pairwise different pages, none of them null.
\<close>

theorem kalloc_many_distinct:
  assumes "kmem_inv s (ps @ fl)"
  shows "(\<exists>s'. alloc_n kalloc (length ps) s = Inr (ps, s') \<and> kmem_inv s' fl) \<and> distinct ps \<and> 0 \<notin> set ps"
proof -
  have "0 \<notin> set ps"
    using kmem_invD(2,5) [OF assms] ram_page_nonzero [of s 0] by auto
  then show ?thesis using kpages.alloc_many [OF assms] kpages.alloc_many_distinct [OF assms] by blast
qed

theorem kalloc_many_distinct_witness:
  "\<exists>s'. alloc_n kalloc 2 kmem_demo = Inr ([0x87fff000, 0x87ffe000], s') \<and> kmem_inv s' []"
  using kalloc_many_distinct [of kmem_demo "[0x87fff000, 0x87ffe000]" "[]"] kmem_demo_inv
  by (simp add: numeral_2_eq_2)

text \<open>
  C16: \<open>kfree\<close> never puts a page on the free list twice. From the invariant it panics for every page
  that is on the free list; more exactly it panics with \<open>kfree\<close> for an address that is not a page of RAM
  after the kernel and with \<open>kfree_decr\<close> for a page of RAM with count 0, and returns in all other
  cases. In particular the second of two frees of a page with one reference panics.
\<close>

theorem kfree_no_double:
  assumes "kmem_inv s fl"
  shows "(p \<in> set fl \<longrightarrow> kfree p s = panic ''kfree_decr'') \<and>
    (if \<not> ram_page s p then kfree p s = panic ''kfree''
     else if refcnt s (pno p) = 0 then kfree p s = panic ''kfree_decr''
     else \<exists>s1. kfree p s = Inr s1 \<and> (refcnt s (pno p) = 1 \<longrightarrow> kfree p s1 = panic ''kfree_decr''))"
proof -
  note inv = kmem_invD [OF assms]
  have free: "kfree p s = panic ''kfree_decr''" if "ram_page s p" "refcnt s (pno p) = 0"
    using kfree_free [OF that(1) inv(1)] that(2) by simp
  have "\<exists>s1. kfree p s = Inr s1 \<and> (refcnt s (pno p) = 1 \<longrightarrow> kfree p s1 = panic ''kfree_decr'')"
    if rp: "ram_page s p" "refcnt s (pno p) \<noteq> 0"
  proof (cases "refcnt s (pno p) = 1")
    case True
    have "kmem_inv (kfree_post p s) (p # fl)" by (rule kfree_post_inv [OF assms rp(1) True])
    then have "kfree p (kfree_post p s) = panic ''kfree_decr''"
      using kfree_free [of "kfree_post p s" p] kmem_invD [of "kfree_post p s" "p # fl"] by auto
    then show ?thesis using kfree_last [OF rp(1) inv(1) True] by blast
  next
    case False
    then have "1 < refcnt s (pno p)" using rp(2) inv(7) [of "pno p"] by simp
    then show ?thesis using kfree_shared [OF rp(1) inv(1)] by auto
  qed
  then show ?thesis using free inv(5,6) kfree_bad by auto
qed

theorem kfree_no_double_witness:
  "kfree 0x87ffe000 kmem_demo = panic ''kfree_decr'' \<and> kfree 0x87fff123 kmem_demo = panic ''kfree'' \<and>
   bindR (kfree 0x87fff000 (kalloc_post 0x87fff000 kmem_demo)) (kfree 0x87fff000) = panic ''kfree_decr''"
proof -
  have "\<not> ram_page kmem_demo 0x87fff123" by (simp add: ram_page_def)
  then show ?thesis
    using kfree_no_double [OF kmem_demo_inv, of "0x87ffe000"] kfree_no_double [OF kmem_demo_inv, of "0x87fff123"]
      kfree_no_double [OF kalloc_demo_inv(1), of "0x87fff000"] kalloc_demo_inv(2,3) by auto
qed

text \<open>The address check of the two counting functions admits \<open>PHYSTOP\<close>, one past the end of the array.\<close>

lemma krefincr_cases:
  assumes "Lkmem \<notin> held s"
  shows "krefincr pa s =
    (if pa > PHYSTOP then panic ''Physical Address limit exceeded''
     else if pa = PHYSTOP then Inl (UB ''refcnt.count: index out of range'')
     else Inr (s\<lparr>refcnt := (refcnt s)(pno pa := refcnt s (pno pa) + 1)\<rparr>))"
proof (cases "pa < PHYSTOP")
  case True
  then show ?thesis using krefincr_ok [OF assms] by auto
next
  case False
  then show ?thesis using assms by (auto simp: krefincr_def pno_def Let_def)
qed

text \<open>\<open>n\<close> calls in a row of an operation on one page.\<close>

fun repeatR :: "nat \<Rightarrow> ('s \<Rightarrow> 's res) \<Rightarrow> 's \<Rightarrow> 's res" where
  "repeatR 0 f s = Inr s"
| "repeatR (Suc n) f s = bindR (f s) (repeatR n f)"

lemma krefincr_many:
  assumes "Lkmem \<notin> held s" "pa < PHYSTOP"
  shows "repeatR n (krefincr pa) s = Inr (s\<lparr>refcnt := (refcnt s)(pno pa := refcnt s (pno pa) + int n)\<rparr>)"
  using assms
proof (induction n arbitrary: s)
  case (Suc n)
  show ?case using Suc.IH [of "s\<lparr>refcnt := (refcnt s)(pno pa := refcnt s (pno pa) + 1)\<rparr>"] Suc.prems
    by (simp add: krefincr_ok add.assoc cong: if_cong)
qed simp

lemma kfree_many:
  assumes "Lkmem \<notin> held s" "ram_page s p" "refcnt s (pno p) > int m"
  shows "repeatR m (kfree p) s = Inr (s\<lparr>refcnt := (refcnt s)(pno p := refcnt s (pno p) - int m)\<rparr>)"
  using assms
proof (induction m arbitrary: s)
  case (Suc m)
  let ?s = "s\<lparr>refcnt := (refcnt s)(pno p := refcnt s (pno p) - 1)\<rparr>"
  have "kfree p s = Inr ?s" by (rule kfree_shared) (use Suc.prems in auto)
  moreover have "repeatR m (kfree p) ?s = Inr (?s\<lparr>refcnt := (refcnt ?s)(pno p := refcnt ?s (pno p) - int m)\<rparr>)"
    using Suc.prems by (intro Suc.IH) (auto simp: ram_page_def)
  ultimately show ?case by (simp add: algebra_simps fun_upd_def cong: if_cong)
qed simp



end
