(* ===== verification/Vm.thy ===== *)
theory Vm
  imports Kalloc
begin

text \<open>
  \<^verbatim>\<open>kernel/vm.c\<close> and \<open>cowalloc\<close> of \<^verbatim>\<open>kernel/trap.c\<close>: Sv39 page tables in physical memory,
  the user address space, and copy-on-write. A page table is the address of its root page; a
  pointer to a page-table entry is an address too, 0 for the null pointer. Buffers of the kernel
  that the copy functions read or fill are byte lists.

  The loops of \<open>mappages\<close>, \<open>uvmunmap\<close>, \<open>uvmalloc\<close> and \<open>uvmcopy\<close> stop because \<open>walk\<close> panics
  from \<open>MAXVA\<close> on; their termination proofs use that. \<open>freewalk\<close> recurses through pointers found
  in memory, so it takes a fuel argument, the depth of the table.
\<close>

section \<open>Walking a page table\<close>

definition ldpte :: "'z kmem_scheme \<Rightarrow> u64 \<Rightarrow> u64" where
  "ldpte s a = ld64 (mem s) (unat a)"

definition stpte :: "u64 \<Rightarrow> u64 \<Rightarrow> 'z kmem_scheme \<Rightarrow> 'z kmem_scheme" where
  "stpte a v s = s\<lparr>mem := st64 (mem s) (unat a) v\<rparr>"

definition zero_page :: "u64 \<Rightarrow> 'z kmem_scheme \<Rightarrow> 'z kmem_scheme" where
  "zero_page p s = s\<lparr>mem := memset (mem s) (unat p) 0 4096\<rparr>"

fun walk_loop :: "nat \<Rightarrow> u64 \<Rightarrow> u64 \<Rightarrow> bool \<Rightarrow> 'z kmem_scheme \<Rightarrow> (u64 \<times> 'z kmem_scheme) res" where
  "walk_loop 0 pagetable va alloc s = Inr (pagetable + 8 * PX 0 va, s)"
| "walk_loop (Suc level) pagetable va alloc s =
     (let pte = pagetable + 8 * PX (Suc level) va in
      if ldpte s pte AND PTE_V \<noteq> 0 then walk_loop level (PTE2PA (ldpte s pte)) va alloc s
      else if \<not> alloc then Inr (0, s)
      else bindR (kalloc s) (\<lambda>(pagetable, s).
        if pagetable = 0 then Inr (0, s)
        else
          let s = zero_page pagetable s;
              s = stpte pte (PA2PTE pagetable OR PTE_V) s
          in walk_loop level pagetable va alloc s))"

definition walk :: "u64 \<Rightarrow> u64 \<Rightarrow> bool \<Rightarrow> 'z kmem_scheme \<Rightarrow> (u64 \<times> 'z kmem_scheme) res" where
  "walk pagetable va alloc s =
     (if va \<ge> MAXVA then panic ''walk'' else walk_loop 2 pagetable va alloc s)"

definition walkaddr :: "u64 \<Rightarrow> u64 \<Rightarrow> 'z kmem_scheme \<Rightarrow> u64 res" where
  "walkaddr pagetable va s =
     (if va \<ge> MAXVA then Inr 0
      else bindR (walk pagetable va False s) (\<lambda>(pte, s).
        if pte = 0 then Inr 0
        else if ldpte s pte AND PTE_V = 0 then Inr 0
        else if ldpte s pte AND PTE_U = 0 then Inr 0
        else Inr (PTE2PA (ldpte s pte))))"

lemma walk_bound: "walk pt va al s = Inr r \<Longrightarrow> va < MAXVA"
  by (auto simp: walk_def not_le split: if_splits)

lemma unat_next_va: "va < MAXVA \<Longrightarrow> unat (va + PGSIZE) = unat va + 4096"
  by (subst unat_plus_u64) (auto simp: word_less_nat_alt)

lemma walk_measure:
  assumes "walk pt va al s = Inr r"
  shows "2 ^ 64 - unat (va + PGSIZE) < 2 ^ 64 - unat va"
  using unat_next_va [OF walk_bound [OF assms]] unat_less_u64 [of "va + PGSIZE"] by simp

section \<open>Mapping and unmapping\<close>

function mappages_loop ::
  "u64 \<Rightarrow> u64 \<Rightarrow> u64 \<Rightarrow> u64 \<Rightarrow> u64 \<Rightarrow> 'z kmem_scheme \<Rightarrow> (int \<times> 'z kmem_scheme) res" where
  "mappages_loop pagetable a lastva pa perm s =
     bindR (walk pagetable a True s) (\<lambda>(pte, s).
       if pte = 0 then Inr (-1, s)
       else if ldpte s pte AND PTE_V \<noteq> 0 then panic ''mappages: remap''
       else
         let s = stpte pte (PA2PTE pa OR perm OR PTE_V) s in
         if a = lastva then Inr (0, s)
         else mappages_loop pagetable (a + PGSIZE) lastva (pa + PGSIZE) perm s)"
  by pat_completeness auto
termination
  by (relation "measure (\<lambda>(pt, a, lastva, pa, perm, s). 2 ^ 64 - unat a)") (auto dest!: walk_measure)

definition mappages ::
  "u64 \<Rightarrow> u64 \<Rightarrow> u64 \<Rightarrow> u64 \<Rightarrow> u64 \<Rightarrow> 'z kmem_scheme \<Rightarrow> (int \<times> 'z kmem_scheme) res" where
  "mappages pagetable va sz pa perm s =
     (if sz = 0 then panic ''mappages: size''
      else mappages_loop pagetable (PGROUNDDOWN va) (PGROUNDDOWN (va + sz - 1)) pa perm s)"

definition kvmmap ::
  "u64 \<Rightarrow> u64 \<Rightarrow> u64 \<Rightarrow> u64 \<Rightarrow> u64 \<Rightarrow> 'z kmem_scheme \<Rightarrow> 'z kmem_scheme res" where
  "kvmmap kpgtbl va pa sz perm s =
     bindR (mappages kpgtbl va sz pa perm s) (\<lambda>(r, s). if r \<noteq> 0 then panic ''kvmmap'' else Inr s)"

function uvmunmap_loop :: "u64 \<Rightarrow> u64 \<Rightarrow> u64 \<Rightarrow> bool \<Rightarrow> 'z kmem_scheme \<Rightarrow> 'z kmem_scheme res" where
  "uvmunmap_loop pagetable a stop do_free s =
     (if a < stop then
        bindR (walk pagetable a False s) (\<lambda>(pte, s).
          if pte = 0 then panic ''uvmunmap: walk''
          else if ldpte s pte AND PTE_V = 0 then panic ''uvmunmap: not mapped''
          else if PTE_FLAGS (ldpte s pte) = PTE_V then panic ''uvmunmap: not a leaf''
          else bindR (if do_free then kfree (PTE2PA (ldpte s pte)) s else Inr s) (\<lambda>s.
            uvmunmap_loop pagetable (a + PGSIZE) stop do_free (stpte pte 0 s)))
      else Inr s)"
  by pat_completeness auto
termination
  by (relation "measure (\<lambda>(pt, a, stop, f, s). 2 ^ 64 - unat a)") (auto dest!: walk_measure)

definition uvmunmap :: "u64 \<Rightarrow> u64 \<Rightarrow> u64 \<Rightarrow> bool \<Rightarrow> 'z kmem_scheme \<Rightarrow> 'z kmem_scheme res" where
  "uvmunmap pagetable va npages do_free s =
     (if va mod PGSIZE \<noteq> 0 then panic ''uvmunmap: not aligned''
      else uvmunmap_loop pagetable va (va + npages * PGSIZE) do_free s)"

definition uvmcreate :: "'z kmem_scheme \<Rightarrow> (u64 \<times> 'z kmem_scheme) res" where
  "uvmcreate s =
     bindR (kalloc s) (\<lambda>(pagetable, s).
       if pagetable = 0 then Inr (0, s) else Inr (pagetable, zero_page pagetable s))"

text \<open>A kernel buffer copied into memory.\<close>

definition store_bytes :: "memory \<Rightarrow> nat \<Rightarrow> byte list \<Rightarrow> memory" where
  "store_bytes m a bs = (\<lambda>x. if a \<le> x \<and> x < a + length bs then bs ! (x - a) else m x)"

definition uvmfirst :: "u64 \<Rightarrow> byte list \<Rightarrow> 'z kmem_scheme \<Rightarrow> 'z kmem_scheme res" where
  "uvmfirst pagetable src s =
     (if length src \<ge> 4096 then panic ''uvmfirst: more than a page'' else
      bindR (kalloc s) (\<lambda>(mem_pa, s).
        if mem_pa = 0 then Inl (UB ''uvmfirst: null page'') else
        bindR (mappages pagetable 0 PGSIZE mem_pa (PTE_W OR PTE_R OR PTE_X OR PTE_U) (zero_page mem_pa s))
          (\<lambda>(_, s). Inr (s\<lparr>mem := store_bytes (mem s) (unat mem_pa) src\<rparr>))))"

section \<open>Growing and shrinking a process\<close>

definition uvmdealloc :: "u64 \<Rightarrow> u64 \<Rightarrow> u64 \<Rightarrow> 'z kmem_scheme \<Rightarrow> (u64 \<times> 'z kmem_scheme) res" where
  "uvmdealloc pagetable oldsz newsz s =
     (if newsz \<ge> oldsz then Inr (oldsz, s)
      else if PGROUNDUP newsz < PGROUNDUP oldsz then
        let npages = ucast ((PGROUNDUP oldsz - PGROUNDUP newsz) div PGSIZE) :: u32 in
        bindR (uvmunmap pagetable (PGROUNDUP newsz) (scast npages) True s) (\<lambda>s. Inr (newsz, s))
      else Inr (newsz, s))"

lemma mappages_page_bound: "mappages pt a PGSIZE pa perm s = Inr r \<Longrightarrow> PGROUNDDOWN a < MAXVA"
  by (auto simp: mappages_def mappages_loop.simps [of pt "PGROUNDDOWN a"] res_simps dest: walk_bound)

function uvmalloc_loop ::
  "u64 \<Rightarrow> u64 \<Rightarrow> u64 \<Rightarrow> u64 \<Rightarrow> u64 \<Rightarrow> 'z kmem_scheme \<Rightarrow> (u64 \<times> 'z kmem_scheme) res" where
  "uvmalloc_loop pagetable a oldsz newsz xperm s =
     (if a < newsz then
        bindR (kalloc s) (\<lambda>(mem_pa, s).
          if mem_pa = 0 then bindR (uvmdealloc pagetable a oldsz s) (\<lambda>(_, s). Inr (0, s))
          else
            bindR (mappages pagetable a PGSIZE mem_pa (PTE_R OR PTE_U OR xperm) (zero_page mem_pa s))
              (\<lambda>(r, s).
                if r \<noteq> 0 then
                  bindR (kfree mem_pa s) (\<lambda>s.
                    bindR (uvmdealloc pagetable a oldsz s) (\<lambda>(_, s). Inr (0, s)))
                else uvmalloc_loop pagetable (a + PGSIZE) oldsz newsz xperm s))
      else Inr (newsz, s))"
  by pat_completeness auto

lemma PGROUNDDOWN_measure:
  assumes "PGROUNDDOWN a < MAXVA"
  shows "2 ^ 64 - unat (a + PGSIZE) < 2 ^ 64 - unat a"
proof -
  have "unat a div 4096 * 4096 < 0x4000000000" using assms by (simp add: word_less_nat_alt unat_PGROUNDDOWN)
  then have "unat a < 0x4000001000"
    using div_mult_mod_eq [of "unat a" 4096] mod_less_divisor [of 4096 "unat a"] by linarith
  then have "unat (a + PGSIZE) = unat a + 4096" by (subst unat_plus_u64) auto
  then show ?thesis using unat_less_u64 [of "a + PGSIZE"] by simp
qed

termination uvmalloc_loop
  by (relation "measure (\<lambda>(pt, a, oldsz, newsz, xp, s). 2 ^ 64 - unat a)")
    (auto dest!: mappages_page_bound PGROUNDDOWN_measure)

definition uvmalloc :: "u64 \<Rightarrow> u64 \<Rightarrow> u64 \<Rightarrow> u64 \<Rightarrow> 'z kmem_scheme \<Rightarrow> (u64 \<times> 'z kmem_scheme) res" where
  "uvmalloc pagetable oldsz newsz xperm s =
     (if newsz < oldsz then Inr (oldsz, s)
      else uvmalloc_loop pagetable (PGROUNDUP oldsz) (PGROUNDUP oldsz) newsz xperm s)"

text \<open>
  \<open>freewalk_loop\<close> is the loop over the entries from \<open>i\<close> on; the fuel bounds the depth of the
  recursion, which on a page table of this kernel is three levels.
\<close>

function freewalk_loop :: "nat \<Rightarrow> u64 \<Rightarrow> nat \<Rightarrow> 'z kmem_scheme \<Rightarrow> 'z kmem_scheme res"
  and freewalk :: "nat \<Rightarrow> u64 \<Rightarrow> 'z kmem_scheme \<Rightarrow> 'z kmem_scheme res" where
  "freewalk_loop fuel pagetable i s =
     (if i < 512 then
        let pte = ldpte s (pagetable + 8 * of_nat i) in
        if pte AND PTE_V \<noteq> 0 \<and> pte AND (PTE_R OR PTE_W OR PTE_X) = 0 then
          bindR (case fuel of 0 \<Rightarrow> Inl (UB ''freewalk: recursion too deep'')
                 | Suc fuel \<Rightarrow> freewalk fuel (PTE2PA pte) s) (\<lambda>s.
            freewalk_loop fuel pagetable (i + 1) (stpte (pagetable + 8 * of_nat i) 0 s))
        else if pte AND PTE_V \<noteq> 0 then panic ''freewalk: leaf''
        else freewalk_loop fuel pagetable (i + 1) s
      else Inr s)"
| "freewalk fuel pagetable s = bindR (freewalk_loop fuel pagetable 0 s) (\<lambda>s. kfree pagetable s)"
  by pat_completeness auto
termination
  by (relation "measures [\<lambda>x. case x of Inl (f, pt, i, s) \<Rightarrow> 2 * f | Inr (f, pt, s) \<Rightarrow> 2 * f + 1,
                          \<lambda>x. case x of Inl (f, pt, i, s) \<Rightarrow> 512 - i | Inr (f, pt, s) \<Rightarrow> 0]") auto

definition uvmfree :: "u64 \<Rightarrow> u64 \<Rightarrow> 'z kmem_scheme \<Rightarrow> 'z kmem_scheme res" where
  "uvmfree pagetable sz s =
     bindR (if sz > 0 then uvmunmap pagetable 0 (PGROUNDUP sz div PGSIZE) True s else Inr s) (\<lambda>s.
       freewalk 2 pagetable s)"

definition uvmclear :: "u64 \<Rightarrow> u64 \<Rightarrow> 'z kmem_scheme \<Rightarrow> 'z kmem_scheme res" where
  "uvmclear pagetable va s =
     bindR (walk pagetable va False s) (\<lambda>(pte, s).
       if pte = 0 then panic ''uvmclear'' else Inr (stpte pte (ldpte s pte AND NOT PTE_U) s))"

section \<open>Copy-on-write\<close>

function uvmcopy_loop :: "u64 \<Rightarrow> u64 \<Rightarrow> u64 \<Rightarrow> u64 \<Rightarrow> 'z kmem_scheme \<Rightarrow> (int \<times> 'z kmem_scheme) res" where
  "uvmcopy_loop old new sz i s =
     (if i < sz then
        bindR (walk old i False s) (\<lambda>(pte, s).
          if pte = 0 then panic ''uvmcopy: pte should exist''
          else if ldpte s pte AND PTE_V = 0 then panic ''uvmcopy: page not present''
          else
            let pa = PTE2PA (ldpte s pte);
                flags = PTE_FLAGS (ldpte s pte);
                flags = (if flags AND PTE_W \<noteq> 0 then (flags OR PTE_C) AND NOT PTE_W else flags);
                flags = flags OR PTE_C
            in bindR (krefincr pa s) (\<lambda>s.
                 bindR (mappages new i PGSIZE pa flags s) (\<lambda>(r, s).
                   if r \<noteq> 0 then bindR (uvmunmap new 0 (i div PGSIZE) True s) (\<lambda>s. Inr (-1, s))
                   else uvmcopy_loop old new sz (i + PGSIZE) s)))
      else Inr (0, s))"
  by pat_completeness auto
termination
  by (relation "measure (\<lambda>(old, new, sz, i, s). 2 ^ 64 - unat i)") (auto dest!: walk_measure)

definition uvmcopy :: "u64 \<Rightarrow> u64 \<Rightarrow> u64 \<Rightarrow> 'z kmem_scheme \<Rightarrow> (int \<times> 'z kmem_scheme) res" where
  "uvmcopy old new sz s = uvmcopy_loop old new sz 0 s"

definition cowalloc :: "u64 \<Rightarrow> u64 \<Rightarrow> 'z kmem_scheme \<Rightarrow> (int \<times> 'z kmem_scheme) res" where
  "cowalloc pagetable va s =
     (if va = 0 then Inr (-1, s)
      else if va \<ge> MAXVA then Inr (-1, s)
      else bindR (walk pagetable va False s) (\<lambda>(pte, s).
        if pte = 0 then Inr (-1, s)
        else if ldpte s pte AND PTE_U = 0 \<or> ldpte s pte AND PTE_V = 0 then Inr (-1, s)
        else
          let pa = PTE2PA (ldpte s pte) in
          if pa = 0 then Inr (-1, s)
          else if ldpte s pte AND PTE_C \<noteq> 0 then
            bindR (kalloc s) (\<lambda>(ka, s).
              if ka = 0 then Inr (-1, s)
              else
                let s = s\<lparr>mem := memmove (mem s) (unat ka) (unat pa) 4096\<rparr>;
                    s = stpte pte (PA2PTE ka OR PTE_U OR PTE_V OR PTE_W OR PTE_X OR PTE_R) s;
                    s = stpte pte (ldpte s pte AND NOT PTE_C) s
                in bindR (krefdecr pa s) (\<lambda>s. Inr (0, s)))
          else Inr (0, s)))"

section \<open>Copying between kernel and user memory\<close>

text \<open>The bytes left on the page of \<open>va\<close>: \<open>PGSIZE - (va - va0)\<close> in the three copy functions.\<close>

definition page_rest :: "u64 \<Rightarrow> nat" where
  "page_rest va = unat (PGSIZE - (va - PGROUNDDOWN va))"

lemma unat_offset: "unat (va - PGROUNDDOWN va) = unat va mod 4096"
proof -
  have "unat va div 4096 * 4096 \<le> unat va" by (rule div_times_less_eq_dividend)
  then show ?thesis
    by (subst unat_sub) (auto simp: word_le_nat_alt unat_PGROUNDDOWN modulo_nat_def)
qed

lemma page_rest_eq: "page_rest va = 4096 - unat va mod 4096"
  unfolding page_rest_def by (subst unat_sub) (auto simp: word_le_nat_alt unat_offset)

lemma page_rest_pos [simp]: "0 < page_rest va"
  by (simp add: page_rest_eq)

function copyout :: "u64 \<Rightarrow> u64 \<Rightarrow> byte list \<Rightarrow> 'z kmem_scheme \<Rightarrow> (int \<times> 'z kmem_scheme) res" where
  "copyout pagetable dstva src s =
     (if src \<noteq> [] then
        let va0 = PGROUNDDOWN dstva in
        if va0 > MAXVA then Inr (-1, s)
        else bindR (cowalloc pagetable va0 s) (\<lambda>(r, s).
          if r < 0 then Inr (-1, s)
          else bindR (walkaddr pagetable va0 s) (\<lambda>pa0.
            if pa0 = 0 then Inr (-1, s)
            else
              let n = min (page_rest dstva) (length src);
                  s = s\<lparr>mem := store_bytes (mem s) (unat (pa0 + (dstva - va0))) (take n src)\<rparr>
              in copyout pagetable (va0 + PGSIZE) (drop n src) s))
      else Inr (0, s))"
  by pat_completeness auto
termination
  by (relation "measure (\<lambda>(pt, va, src, s). length src)") (auto simp: min_def)

definition load_bytes :: "memory \<Rightarrow> nat \<Rightarrow> nat \<Rightarrow> byte list" where
  "load_bytes m a n = map (\<lambda>i. m (a + i)) [0..<n]"

text \<open>The second component is what has been written to \<open>dst\<close>, also when the copy fails.\<close>

function copyin :: "u64 \<Rightarrow> u64 \<Rightarrow> nat \<Rightarrow> 'z kmem_scheme \<Rightarrow> (int \<times> byte list) res" where
  "copyin pagetable srcva len s =
     (if len > 0 then
        let va0 = PGROUNDDOWN srcva in
        bindR (walkaddr pagetable va0 s) (\<lambda>pa0.
          if pa0 = 0 then Inr (-1, [])
          else
            let n = min (page_rest srcva) len;
                bs = load_bytes (mem s) (unat (pa0 + (srcva - va0))) n
            in bindR (copyin pagetable (va0 + PGSIZE) (len - n) s) (\<lambda>(r, rest). Inr (r, bs @ rest)))
      else Inr (0, []))"
  by pat_completeness auto
termination
  by (relation "measure (\<lambda>(pt, va, len, s). len)") (auto simp: min_def)

text \<open>The inner loop of \<open>copyinstr\<close>: the bytes copied and whether the last one is the NUL.\<close>

fun scan_str :: "memory \<Rightarrow> nat \<Rightarrow> nat \<Rightarrow> byte list \<times> bool" where
  "scan_str m p 0 = ([], False)"
| "scan_str m p (Suc n) =
     (if m p = 0 then ([0], True) else let (bs, g) = scan_str m (p + 1) n in (m p # bs, g))"

function copyinstr :: "u64 \<Rightarrow> u64 \<Rightarrow> nat \<Rightarrow> 'z kmem_scheme \<Rightarrow> (int \<times> byte list) res" where
  "copyinstr pagetable srcva mx s =
     (if mx > 0 then
        let va0 = PGROUNDDOWN srcva in
        bindR (walkaddr pagetable va0 s) (\<lambda>pa0.
          if pa0 = 0 then Inr (-1, [])
          else
            let n = min (page_rest srcva) mx;
                (bs, got_null) = scan_str (mem s) (unat (pa0 + (srcva - va0))) n
            in if got_null then Inr (0, bs)
               else bindR (copyinstr pagetable (va0 + PGSIZE) (mx - n) s) (\<lambda>(r, rest). Inr (r, bs @ rest)))
      else Inr (-1, []))"
  by pat_completeness auto
termination
  by (relation "measure (\<lambda>(pt, va, mx, s). mx)") (auto simp: min_def)

declare mappages_loop.simps [simp del] uvmunmap_loop.simps [simp del] uvmalloc_loop.simps [simp del]
  freewalk_loop.simps [simp del] freewalk.simps [simp del] uvmcopy_loop.simps [simp del]
  copyout.simps [simp del] copyin.simps [simp del] copyinstr.simps [simp del]

end
