(* ===== verification/PageTable.thy ===== *)
theory PageTable
  imports Vm
begin

text \<open>
  What the page-table operations of \<^verbatim>\<open>kernel/vm.c\<close> do to a well-formed table. \<open>pt_inv s root N\<close>
  describes the table in memory by the map \<open>N\<close> from paths of indices to the addresses of the
  page-table pages, and \<open>leaf s N v\<close> is the bottom entry of virtual page \<open>v\<close>, 0 where the table
  has no page for it. Walking, mapping and unmapping are then updates of the function
  \<open>leaf s N\<close>; \<open>grows\<close> records which memory and which reference counts they may touch, so that
  other tables and the data pages are left alone.
\<close>

section \<open>The shape of a page table\<close>

type_synonym nodes = "nat list \<Rightarrow> u64 option"

definition node_entry :: "u64 \<Rightarrow> u64 option \<Rightarrow> bool" where
  "node_entry e q = (case q of None \<Rightarrow> e AND PTE_V = 0 | Some q \<Rightarrow> e = PA2PTE q OR PTE_V)"

definition pt_inv :: "'z kmem_scheme \<Rightarrow> u64 \<Rightarrow> nodes \<Rightarrow> bool" where
  "pt_inv s root N \<longleftrightarrow>
     N [] = Some root \<and> inj_on N (dom N) \<and>
     (\<forall>\<pi> p. N \<pi> = Some p \<longrightarrow>
        length \<pi> \<le> 2 \<and> (\<forall>i\<in>set \<pi>. i < 512) \<and> ram_page s p \<and> refcnt s (pno p) = 1) \<and>
     (\<forall>\<pi> i. length \<pi> < 2 \<longrightarrow> i < 512 \<longrightarrow>
        (case N \<pi> of None \<Rightarrow> N (\<pi> @ [i]) = None
         | Some p \<Rightarrow> node_entry (ld64 (mem s) (unat p + 8 * i)) (N (\<pi> @ [i]))))"

definition vpath :: "nat \<Rightarrow> nat list" where
  "vpath v = [v div 0x40000 mod 512, v div 512 mod 512]"

definition vpn :: "u64 \<Rightarrow> nat" where
  "vpn va = unat va div 4096"

definition leaf_addr :: "nodes \<Rightarrow> nat \<Rightarrow> nat option" where
  "leaf_addr N v =
     (if v < 0x8000000 then map_option (\<lambda>p. unat p + 8 * (v mod 512)) (N (vpath v)) else None)"

definition leaf :: "'z kmem_scheme \<Rightarrow> nodes \<Rightarrow> nat \<Rightarrow> u64" where
  "leaf s N v = (case leaf_addr N v of None \<Rightarrow> 0 | Some a \<Rightarrow> ld64 (mem s) a)"

text \<open>The pointer \<open>walk\<close> returns.\<close>

definition slot :: "nodes \<Rightarrow> u64 \<Rightarrow> u64" where
  "slot N va = (case N (vpath (vpn va)) of None \<Rightarrow> 0 | Some p \<Rightarrow> p + 8 * PX 0 va)"

lemma pt_invD:
  assumes "pt_inv s root N"
  shows "N [] = Some root" "inj_on N (dom N)"
    "\<And>\<pi> p. N \<pi> = Some p \<Longrightarrow> length \<pi> \<le> 2"
    "\<And>\<pi> p i. N \<pi> = Some p \<Longrightarrow> i \<in> set \<pi> \<Longrightarrow> i < 512"
    "\<And>\<pi> p. N \<pi> = Some p \<Longrightarrow> ram_page s p" "\<And>\<pi> p. N \<pi> = Some p \<Longrightarrow> refcnt s (pno p) = 1"
    "\<And>\<pi> i p. length \<pi> < 2 \<Longrightarrow> i < 512 \<Longrightarrow> N \<pi> = Some p \<Longrightarrow>
        node_entry (ld64 (mem s) (unat p + 8 * i)) (N (\<pi> @ [i]))"
    "\<And>\<pi> i. length \<pi> < 2 \<Longrightarrow> i < 512 \<Longrightarrow> N \<pi> = None \<Longrightarrow> N (\<pi> @ [i]) = None"
  using assms unfolding pt_inv_def by (auto split: option.splits)

lemma node_inj: "pt_inv s root N \<Longrightarrow> N \<pi> = Some p \<Longrightarrow> N \<rho> = Some p \<Longrightarrow> \<pi> = \<rho>"
  using inj_onD [OF pt_invD(2), of s root N \<pi> \<rho>] by auto

lemma vpath_PX: "va < MAXVA \<Longrightarrow> vpath (vpn va) = [unat (PX 2 va), unat (PX 1 va)]"
  by (simp add: vpath_def vpn_def unat_PX div_mult2_eq [symmetric])

lemma vpn_mod_PX: "vpn va mod 512 = unat (PX 0 va)"
  by (simp add: vpn_def unat_PX)

lemma vpath_inj:
  assumes "vpath v = vpath w" "v mod 512 = w mod 512" "v < 0x8000000" "w < 0x8000000"
  shows "v = w"
proof -
  have *: "x = x div 0x40000 mod 512 * 0x40000 + x div 512 mod 512 * 512 + x mod 512" if "x < 0x8000000" for x :: nat
  proof -
    have "x div 0x40000 mod 512 = x div 0x40000" using that by (simp add: div_less_iff_less_mult)
    moreover have "x div 512 div 512 = x div 0x40000" by (simp add: div_mult2_eq [symmetric])
    ultimately show ?thesis
      using div_mult_mod_eq [of x 512] div_mult_mod_eq [of "x div 512" 512] by linarith
  qed
  have "v div 0x40000 mod 512 = w div 0x40000 mod 512" "v div 512 mod 512 = w div 512 mod 512"
    using assms(1) by (simp_all add: vpath_def)
  with * [OF assms(3)] * [OF assms(4)] assms(2) show ?thesis by metis
qed

lemma vpn_bound: "va < MAXVA \<Longrightarrow> vpn va < 0x4000000"
  by (simp add: vpn_def word_less_nat_alt div_less_iff_less_mult)

lemma unat_pte_addr:
  assumes "ram_page s p" "unat i < 512"
  shows "unat (p + 8 * i) = unat p + 8 * unat i"
proof -
  have "unat (8 * i) = 8 * unat i" using assms(2) by (simp add: unat_word_ariths)
  moreover have "unat p < 0x88000000" using assms(1) by (simp add: ram_page_def word_less_nat_alt)
  ultimately show ?thesis using assms(2) by (subst unat_plus_u64) auto
qed

lemma PTE2PA_ram:
  "ram_page s p \<Longrightarrow> f AND NOT 0x3FF = 0 \<Longrightarrow> PTE2PA (PA2PTE p OR f) = p"
  by (rule PTE2PA_PA2PTE) (auto simp: ram_page_def word_less_nat_alt)

lemma node_entry_Some:
  assumes "node_entry e (Some q)" "ram_page s q"
  shows "e AND PTE_V \<noteq> 0" "PTE2PA e = q"
proof -
  have "bit (e AND 1) 0" using assms(1) by (simp add: node_entry_def bit_simps)
  then show "e AND PTE_V \<noteq> 0" by (metis bit_0_eq bot_apply bot_bool_def)
  show "PTE2PA e = q" using assms PTE2PA_ram [OF assms(2), of 1] by (simp add: node_entry_def)
qed

section \<open>Looking up\<close>

lemma walk_step:
  assumes "pt_inv s root N" "N \<pi> = Some p" "length \<pi> < 2"
  shows "walk_loop (Suc level) p va alloc s =
    (case N (\<pi> @ [unat (PX (Suc level) va)]) of Some q \<Rightarrow> walk_loop level q va alloc s
     | None \<Rightarrow> if \<not> alloc then Inr (0, s) else
        bindR (kalloc s) (\<lambda>(q, s). if q = 0 then Inr (0, s) else
          walk_loop level q va alloc
            (stpte (p + 8 * PX (Suc level) va) (PA2PTE q OR PTE_V) (zero_page q s))))"
proof -
  let ?i = "PX (Suc level) va"
  have "unat (p + 8 * ?i) = unat p + 8 * unat ?i"
    using unat_pte_addr [OF pt_invD(5) [OF assms(1,2)]] by simp
  moreover have "node_entry (ld64 (mem s) (unat p + 8 * unat ?i)) (N (\<pi> @ [unat ?i]))"
    using pt_invD(7) [OF assms(1,3) _ assms(2)] by simp
  ultimately have ne: "node_entry (ldpte s (p + 8 * ?i)) (N (\<pi> @ [unat ?i]))"
    by (simp add: ldpte_def)
  show ?thesis
  proof (cases "N (\<pi> @ [unat ?i])")
    case None
    with ne have "ldpte s (p + 8 * ?i) AND PTE_V = 0" by (simp add: node_entry_def)
    with None show ?thesis unfolding walk_loop.simps Let_def by simp
  next
    case (Some q)
    with node_entry_Some [of _ q s] ne pt_invD(5) [OF assms(1) Some] show ?thesis by simp
  qed
qed

lemma walk_lookup:
  assumes "pt_inv s root N" "va < MAXVA"
  shows "walk root va False s = Inr (slot N va, s)"
proof -
  have two: "walk_loop 2 root va False s = walk_loop (Suc (Suc 0)) root va False s"
    by (simp add: numeral_2_eq_2)
  note PX2 = vpath_PX [OF assms(2)]
  have w2: "walk_loop 2 root va False s = (case N [unat (PX 2 va)] of Some q \<Rightarrow> walk_loop 1 q va False s
     | None \<Rightarrow> Inr (0, s))"
    using walk_step [OF assms(1) pt_invD(1) [OF assms(1)], of 1 va False]
    by (simp add: two numeral_2_eq_2)
  show ?thesis
  proof (cases "N [unat (PX 2 va)]")
    case None
    have "N ([unat (PX 2 va)] @ [unat (PX 1 va)]) = None"
      by (rule pt_invD(8) [OF assms(1)]) (use None in auto)
    with None w2 PX2 assms(2) show ?thesis by (simp add: walk_def slot_def)
  next
    case (Some q)
    have "walk_loop 1 q va False s = (case N [unat (PX 2 va), unat (PX 1 va)] of
        Some q \<Rightarrow> walk_loop 0 q va False s | None \<Rightarrow> Inr (0, s))"
      using walk_step [OF assms(1) Some, of 0 va False] by simp
    with Some w2 PX2 assms(2) show ?thesis
      by (auto simp: walk_def slot_def split: option.splits)
  qed
qed

lemma leaf_slot:
  assumes "pt_inv s root N" "slot N va \<noteq> 0" "va < MAXVA"
  shows "ldpte s (slot N va) = leaf s N (vpn va)"
proof -
  from assms(2) obtain p where p: "N (vpath (vpn va)) = Some p" "slot N va = p + 8 * PX 0 va"
    by (auto simp: slot_def split: option.splits)
  have "unat (p + 8 * PX 0 va) = unat p + 8 * unat (PX 0 va)"
    by (rule unat_pte_addr [OF pt_invD(5) [OF assms(1) p(1)]]) simp
  then show ?thesis
    using p vpn_bound [OF assms(3)] by (simp add: ldpte_def leaf_def leaf_addr_def vpn_mod_PX)
qed

section \<open>Frames\<close>

lemma ram_disjoint: "ram_page s p \<Longrightarrow> ram_page s q \<Longrightarrow> p \<noteq> q \<Longrightarrow> page_bytes p \<inter> page_bytes q = {}"
  by (rule page_bytes_disjoint) (auto simp: ram_page_def)

lemma page_out: "x \<in> page_bytes q \<Longrightarrow> ram_page s q \<Longrightarrow> ram_page s p \<Longrightarrow> q \<noteq> p \<Longrightarrow> x \<notin> page_bytes p"
  using ram_disjoint [of s q p] by auto

lemma ram_page_cong: "kend s' = kend s \<Longrightarrow> ram_page s' p = ram_page s p"
  by (simp add: ram_page_def)

lemma ld64_page:
  assumes "\<And>x. x \<in> page_bytes p \<Longrightarrow> m' x = m x" "i < 512"
  shows "ld64 m' (unat p + 8 * i) = ld64 m (unat p + 8 * i)"
  by (rule loadw_cong) (use assms in \<open>auto simp: page_bytes_def\<close>)

lemma pt_inv_frame:
  assumes "pt_inv s root N" "kend s' = kend s"
    and "\<And>p x. p \<in> ran N \<Longrightarrow> x \<in> page_bytes p \<Longrightarrow> mem s' x = mem s x"
    and "\<And>p. p \<in> ran N \<Longrightarrow> refcnt s' (pno p) = refcnt s (pno p)"
  shows "pt_inv s' root N" "leaf s' N = leaf s N"
proof -
  have ld: "ld64 (mem s') (unat p + 8 * i) = ld64 (mem s) (unat p + 8 * i)" if "p \<in> ran N" "i < 512" for p i
    by (rule ld64_page) (use assms(3) that in auto)
  note inv = pt_invD [OF assms(1)]
  show "pt_inv s' root N"
    unfolding pt_inv_def ram_page_cong [OF assms(2)]
  proof (intro conjI allI impI)
    fix \<pi> :: "nat list" and i assume "length \<pi> < 2" "i < (512 :: nat)"
    then show "case N \<pi> of None \<Rightarrow> N (\<pi> @ [i]) = None
      | Some q \<Rightarrow> node_entry (ld64 (mem s') (unat q + 8 * i)) (N (\<pi> @ [i]))"
      using inv(7,8) ld [of _ i] ranI [of N \<pi>] by (auto split: option.splits)
  qed (use inv assms(4) ranI [of N] in auto)
  show "leaf s' N = leaf s N"
    using ld ranI [of N] by (auto simp: fun_eq_iff leaf_def leaf_addr_def split: option.splits)
qed

lemma kmem_inv_frame:
  assumes "kmem_inv s fl" "held s' = held s" "kend s' = kend s" "freelist s' = freelist s"
    and "\<And>p x. p \<in> set fl \<Longrightarrow> x \<in> page_bytes p \<Longrightarrow> mem s' x = mem s x"
    and "\<And>p. p \<in> set fl \<Longrightarrow> refcnt s' (pno p) = 0" "\<And>n. 0 \<le> refcnt s' n"
  shows "kmem_inv s' fl"
proof -
  have "chain (mem s') (freelist s') fl"
    using chain_frame [OF kmem_invD(3) [OF assms(1)] assms(5)] assms(4) by simp
  then show ?thesis
    using assms kmem_invD [OF assms(1)] unfolding kmem_inv_def ram_page_cong [OF assms(3)] by auto
qed

lemma node_not_free:
  "pt_inv s root N \<Longrightarrow> kmem_inv s fl \<Longrightarrow> p \<in> ran N \<Longrightarrow> p \<notin> set fl"
  using kmem_invD(6) pt_invD(6) by (fastforce simp: ran_def)

lemma node_ram: "pt_inv s root N \<Longrightarrow> p \<in> ran N \<Longrightarrow> ram_page s p"
  using pt_invD(5) by (fastforce simp: ran_def)

lemma stpte_fields [simp]:
  "held (stpte a v s) = held s" "kend (stpte a v s) = kend s" "freelist (stpte a v s) = freelist s"
  "refcnt (stpte a v s) = refcnt s" "ram_page (stpte a v s) = ram_page s"
  by (auto simp: stpte_def ram_page_def)

lemma stpte_mem_other:
  assumes "ram_page s p" "i < (512 :: u64)" "x \<notin> page_bytes p"
  shows "mem (stpte (p + 8 * i) v s) x = mem s x"
proof -
  have "unat i < 512" using assms(2) by (simp add: word_less_nat_alt)
  then show ?thesis
    using st64_page_other [OF _ assms(3), of "8 * unat i"] unat_pte_addr [OF assms(1), of i]
    by (simp add: stpte_def)
qed

lemma PX_less [simp]: "PX l va < 512"
  by (simp add: word_less_nat_alt)

text \<open>Storing into the bottom entry of a virtual page changes that entry and nothing else.\<close>

lemma leaf_store:
  fixes e :: u64
  assumes "pt_inv s root N" "kmem_inv s fl" "N (vpath (vpn va)) = Some p" "va < MAXVA"
  defines "s' \<equiv> stpte (slot N va) e s"
  shows "pt_inv s' root N" "kmem_inv s' fl"
    "leaf s' N = (leaf s N)(vpn va := e)"
    "x \<notin> page_bytes p \<Longrightarrow> mem s' x = mem s x"
proof -
  note inv = pt_invD [OF assms(1)]
  have sl: "slot N va = p + 8 * PX 0 va" using assms(3) by (simp add: slot_def)
  have rp: "ram_page s p" by (rule inv(5) [OF assms(3)])
  have ua: "unat (p + 8 * PX 0 va) = unat p + 8 * (vpn va mod 512)"
    using unat_pte_addr [OF rp, of "PX 0 va"] by (simp add: vpn_mod_PX)
  show other: "mem s' x = mem s x" if "x \<notin> page_bytes p" for x
    unfolding s'_def sl by (rule stpte_mem_other [OF rp _ that]) simp
  have ld: "ld64 (mem s') (unat q + 8 * i) =
      (if q = p \<and> i = vpn va mod 512 then e else ld64 (mem s) (unat q + 8 * i))"
    if "ram_page s q" "i < 512" for q i
  proof (cases "q = p")
    case True
    show ?thesis
    proof (cases "i = vpn va mod 512")
      case True
      with \<open>q = p\<close> show ?thesis by (simp add: s'_def sl stpte_def ua)
    next
      case False
      then show ?thesis using \<open>q = p\<close> unfolding s'_def sl stpte_def
        by (simp add: ua) (rule loadw_storew_other, auto)
    qed
  next
    case False
    have "ld64 (mem s') (unat q + 8 * i) = ld64 (mem s) (unat q + 8 * i)"
      by (rule ld64_page) (use ram_disjoint [OF that(1) rp False] other that in auto)
    with False show ?thesis by simp
  qed
  have short: "q \<noteq> p" if "N \<pi> = Some q" "length \<pi> < 2" for \<pi> q
    using node_inj [OF assms(1,3), of \<pi>] that by (auto simp: vpath_def)
  show "pt_inv s' root N"
    unfolding pt_inv_def
  proof (intro conjI allI impI)
    fix \<pi> :: "nat list" and i assume "length \<pi> < 2" "i < (512 :: nat)"
    then show "case N \<pi> of None \<Rightarrow> N (\<pi> @ [i]) = None
      | Some q \<Rightarrow> node_entry (ld64 (mem s') (unat q + 8 * i)) (N (\<pi> @ [i]))"
      using inv(7,8) ld [of _ i] short [of \<pi>] inv(5) [of \<pi>] by (auto split: option.splits)
  qed (use inv in \<open>auto simp: s'_def\<close>)
  have nf: "p \<notin> set fl" by (rule node_not_free [OF assms(1,2)]) (use assms(3) in \<open>auto simp: ran_def\<close>)
  show "kmem_inv s' fl"
  proof (rule kmem_inv_frame [OF assms(2)])
    fix q x assume q: "q \<in> set fl" "x \<in> page_bytes q"
    with nf have "x \<notin> page_bytes p" by (intro page_out [OF q(2) _ rp] kmem_invD(5) [OF assms(2)]) auto
    then show "mem s' x = mem s x" by (rule other)
  qed (use kmem_invD [OF assms(2)] in \<open>simp_all add: s'_def\<close>)
  show "leaf s' N = (leaf s N)(vpn va := e)"
  proof
    fix v
    have *: "v = vpn va \<longleftrightarrow> v < 0x8000000 \<and> vpath v = vpath (vpn va) \<and> v mod 512 = vpn va mod 512"
      using vpath_inj [of v "vpn va"] vpn_bound [OF assms(4)] by auto
    have "q = p \<longleftrightarrow> \<pi> = vpath (vpn va)" if "N \<pi> = Some q" for \<pi> q
      using node_inj [OF assms(1,3), of \<pi>] assms(3) that by auto
    then show "leaf s' N v = ((leaf s N)(vpn va := e)) v"
      using ld [of _ "v mod 512"] inv(5) [of "vpath v"] * assms(3)
      by (auto simp: leaf_def leaf_addr_def split: option.splits)
  qed
qed

section \<open>Growing a table\<close>

text \<open>Only the fields of the allocator and memory change.\<close>

definition konly :: "'z kmem_scheme \<Rightarrow> 'z kmem_scheme \<Rightarrow> bool" where
  "konly s s' \<longleftrightarrow> (\<exists>m f r. s' = s\<lparr>mem := m, freelist := f, refcnt := r\<rparr>)"

lemma konly_refl [simp]: "konly s s"
  unfolding konly_def by (intro exI [of _ "mem s"] exI [of _ "freelist s"] exI [of _ "refcnt s"]) simp

lemma konly_trans [trans]: "konly s s' \<Longrightarrow> konly s' s'' \<Longrightarrow> konly s s''"
  unfolding konly_def by clarsimp (intro exI, rule refl)

lemma konlyD:
  assumes "konly s s'"
  shows "held s' = held s" "kend s' = kend s" "SCHEDULER s' = SCHEDULER s" "etext s' = etext s"
    "trampoline s' = trampoline s" "ram_page s' = ram_page s"
  using assms by (auto simp: konly_def ram_page_def)

lemma konly_intros [simp]:
  "konly s (s\<lparr>mem := m\<rparr>)" "konly s (s\<lparr>refcnt := r\<rparr>)" "konly s (stpte a v s)" "konly s (zero_page p s)"
  "konly s (kalloc_post p s)" "konly s (kfree_post p s)"
proof -
  show 1: "konly s (s\<lparr>mem := m\<rparr>)" for s :: "'z kmem_scheme" and m
    unfolding konly_def by (intro exI [of _ m] exI [of _ "freelist s"] exI [of _ "refcnt s"]) simp
  show "konly s (s\<lparr>refcnt := r\<rparr>)"
    unfolding konly_def by (intro exI [of _ "mem s"] exI [of _ "freelist s"] exI [of _ r]) simp
  show "konly s (stpte a v s)" "konly s (zero_page p s)"
    by (simp_all add: stpte_def zero_page_def 1)
  show "konly s (kalloc_post p s)" "konly s (kfree_post p s)"
    by (auto simp: konly_def kalloc_post_def kfree_post_def)
qed

text \<open>
  The table takes pages from the front of the free list; memory outside its old pages and the
  free pages keeps its contents.
\<close>

definition grows ::
  "'z kmem_scheme \<Rightarrow> u64 \<Rightarrow> nodes \<Rightarrow> u64 list \<Rightarrow> 'z kmem_scheme \<Rightarrow> nodes \<Rightarrow> u64 list \<Rightarrow> bool" where
  "grows s root N fl s' N' fl' \<longleftrightarrow>
     kmem_inv s' fl' \<and> pt_inv s' root N' \<and> konly s s' \<and> map_le N N' \<and>
     (\<exists>taken. fl = taken @ fl' \<and> ran N' = ran N \<union> set taken \<and>
        refcnt s' = (\<lambda>n. if n \<in> pno ` set taken then 1 else refcnt s n)) \<and>
     (\<forall>x. (\<forall>p\<in>ran N \<union> set fl. x \<notin> page_bytes p) \<longrightarrow> mem s' x = mem s x)"

lemma grows_refl: "kmem_inv s fl \<Longrightarrow> pt_inv s root N \<Longrightarrow> grows s root N fl s N fl"
  unfolding grows_def by auto

lemma grows_trans:
  assumes "grows s root N fl s' N' fl'" "grows s' root N' fl' s'' N'' fl''"
  shows "grows s root N fl s'' N'' fl''"
proof -
  from assms obtain t t' where t:
    "fl = t @ fl'" "ran N' = ran N \<union> set t" "refcnt s' = (\<lambda>n. if n \<in> pno ` set t then 1 else refcnt s n)"
    "fl' = t' @ fl''" "ran N'' = ran N' \<union> set t'"
    "refcnt s'' = (\<lambda>n. if n \<in> pno ` set t' then 1 else refcnt s' n)"
    unfolding grows_def by auto
  have "fl = (t @ t') @ fl''" "ran N'' = ran N \<union> set (t @ t')"
    "refcnt s'' = (\<lambda>n. if n \<in> pno ` set (t @ t') then 1 else refcnt s n)"
    using t by (auto simp: fun_eq_iff)
  moreover have "mem s'' x = mem s x" if "\<forall>p\<in>ran N \<union> set fl. x \<notin> page_bytes p" for x
  proof -
    have "\<forall>p\<in>ran N' \<union> set fl'. x \<notin> page_bytes p" using that t by auto
    with assms that show ?thesis unfolding grows_def by metis
  qed
  ultimately show ?thesis
    using assms konly_trans map_le_trans unfolding grows_def by blast
qed

lemma growsD:
  assumes "grows s root N fl s' N' fl'"
  shows "kmem_inv s' fl'" "pt_inv s' root N'" "konly s s'" "set fl' \<subseteq> set fl" "ran N \<subseteq> ran N'"
    "\<And>\<pi> p. N \<pi> = Some p \<Longrightarrow> N' \<pi> = Some p" "ran N' \<subseteq> ran N \<union> set fl"
    "\<And>x. (\<And>p. p \<in> ran N \<union> set fl \<Longrightarrow> x \<notin> page_bytes p) \<Longrightarrow> mem s' x = mem s x"
    "\<And>n. n \<notin> pno ` set fl \<Longrightarrow> refcnt s' n = refcnt s n"
    "length fl' \<le> length fl"
proof -
  show "\<And>\<pi> p. N \<pi> = Some p \<Longrightarrow> N' \<pi> = Some p"
    using assms unfolding grows_def map_le_def by (metis domI)
qed (use assms in \<open>auto simp: grows_def\<close>)

lemma zero_page_fields [simp]:
  "held (zero_page p s) = held s" "kend (zero_page p s) = kend s" "freelist (zero_page p s) = freelist s"
  "refcnt (zero_page p s) = refcnt s"
  by (simp_all add: zero_page_def)

lemma kalloc_post_fields [simp]:
  "held (kalloc_post p s) = held s" "kend (kalloc_post p s) = kend s"
  "refcnt (kalloc_post p s) = (refcnt s)(pno p := 1)"
  by (simp_all add: kalloc_post_def)

lemma zero_fresh_mem:
  "x \<notin> page_bytes q \<Longrightarrow> mem (zero_page q (kalloc_post q s)) x = mem s x"
  "x \<in> page_bytes q \<Longrightarrow> mem (zero_page q (kalloc_post q s)) x = 0"
  by (auto simp: zero_page_def kalloc_post_def memset_eq page_bytes_def)

lemma kmem_inv_zero_page:
  assumes "kmem_inv s fl" "ram_page s q" "q \<notin> set fl"
  shows "kmem_inv (zero_page q s) fl"
proof (rule kmem_inv_frame [OF assms(1)])
  fix p x assume "p \<in> set fl" "x \<in> page_bytes p"
  then have "x \<notin> page_bytes q"
    using assms kmem_invD(5) [OF assms(1)] by (intro page_out [of x p s q]) auto
  then show "mem (zero_page q s) x = mem s x" by (simp add: zero_page_def memset_page_other)
qed (use kmem_invD [OF assms(1)] in simp_all)

text \<open>The step of \<open>walk\<close> that adds the fresh page \<open>q\<close> as entry \<open>i\<close> of the node \<open>p\<close> at path \<open>\<pi>\<close>.\<close>

definition addnode :: "u64 \<Rightarrow> u64 \<Rightarrow> u64 \<Rightarrow> 'z kmem_scheme \<Rightarrow> 'z kmem_scheme" where
  "addnode p i q s = stpte (p + 8 * i) (PA2PTE q OR PTE_V) (zero_page q (kalloc_post q s))"

definition extendable ::
  "'z kmem_scheme \<Rightarrow> u64 \<Rightarrow> nodes \<Rightarrow> u64 \<Rightarrow> u64 list \<Rightarrow> nat list \<Rightarrow> u64 \<Rightarrow> u64 \<Rightarrow> bool" where
  "extendable s root N q fl \<pi> p i \<longleftrightarrow>
     pt_inv s root N \<and> kmem_inv s (q # fl) \<and> N \<pi> = Some p \<and> length \<pi> < 2 \<and> unat i < 512 \<and>
     N (\<pi> @ [unat i]) = None"

lemma extendableD:
  assumes "extendable s root N q fl \<pi> p i"
  shows "pt_inv s root N" "kmem_inv s (q # fl)" "N \<pi> = Some p" "length \<pi> < 2" "unat i < 512"
    "N (\<pi> @ [unat i]) = None" "ram_page s p" "ram_page s q" "q \<notin> ran N" "q \<noteq> p" "i < 512"
    "unat (p + 8 * i) = unat p + 8 * unat i"
proof -
  show 1: "pt_inv s root N" "kmem_inv s (q # fl)" "N \<pi> = Some p" "length \<pi> < 2" "unat i < 512"
    "N (\<pi> @ [unat i]) = None" using assms by (auto simp: extendable_def)
  show rp: "ram_page s p" "ram_page s q" using pt_invD(5) [OF 1(1,3)] kmem_invD(5) [OF 1(2)] by auto
  show "q \<notin> ran N" using node_not_free [OF 1(1,2), of q] by auto
  then show "q \<noteq> p" using 1(3) by (auto simp: ran_def)
  show "i < 512" using 1(5) by (simp add: word_less_nat_alt)
  show "unat (p + 8 * i) = unat p + 8 * unat i" by (rule unat_pte_addr [OF rp(1) 1(5)])
qed

lemma extend_mem:
  assumes "extendable s root N q fl \<pi> p i"
  shows "x \<in> page_bytes q \<Longrightarrow> mem (addnode p i q s) x = 0"
    and "x \<notin> page_bytes q \<Longrightarrow> x \<notin> page_bytes p \<Longrightarrow> mem (addnode p i q s) x = mem s x"
proof -
  note e = extendableD [OF assms]
  have rp: "ram_page (zero_page q (kalloc_post q s)) p" using e(7) by (simp add: ram_page_def)
  show "mem (addnode p i q s) x = 0" if "x \<in> page_bytes q"
    using stpte_mem_other [OF rp e(11) page_out [OF that e(8,7,10)]] zero_fresh_mem(2) [OF that]
    by (simp add: addnode_def)
  show "mem (addnode p i q s) x = mem s x" if "x \<notin> page_bytes q" "x \<notin> page_bytes p"
    using stpte_mem_other [OF rp e(11) that(2)] zero_fresh_mem(1) [OF that(1)] by (simp add: addnode_def)
qed

lemma extend_ld_fresh:
  "extendable s root N q fl \<pi> p i \<Longrightarrow> j < 512 \<Longrightarrow> ld64 (mem (addnode p i q s)) (unat q + 8 * j) = 0"
  by (rule loadw_zeroI, rule extend_mem(1)) (auto simp: page_bytes_def)

lemma extend_ld_node:
  assumes "extendable s root N q fl \<pi> p i" "j < 512" "r \<in> ran N"
  shows "ld64 (mem (addnode p i q s)) (unat r + 8 * j) =
    (if r = p \<and> j = unat i then PA2PTE q OR PTE_V else ld64 (mem s) (unat r + 8 * j))"
proof (cases "r = p")
  case True
  note e = extendableD [OF assms(1)]
  have "ld64 (mem (zero_page q (kalloc_post q s))) (unat p + 8 * j) = ld64 (mem s) (unat p + 8 * j)"
    by (rule ld64_page) (use zero_fresh_mem(1) page_out [OF _ e(7,8)] e(10) assms(2) in blast)+
  moreover have "j \<noteq> unat i \<Longrightarrow> ld64 (mem (addnode p i q s)) (unat p + 8 * j) =
      ld64 (mem (zero_page q (kalloc_post q s))) (unat p + 8 * j)"
    unfolding addnode_def stpte_def by (simp add: e(12)) (rule loadw_storew_other, auto)
  ultimately show ?thesis using True by (auto simp: addnode_def stpte_def e(12))
next
  case False
  note e = extendableD [OF assms(1)]
  have "ld64 (mem (addnode p i q s)) (unat r + 8 * j) = ld64 (mem s) (unat r + 8 * j)"
  proof (rule ld64_page [OF _ assms(2)])
    fix x assume x: "x \<in> page_bytes r"
    have "ram_page s r" by (rule node_ram [OF e(1) assms(3)])
    with page_out [OF x _ e(7)] page_out [OF x _ e(8)] False assms(3) e(9)
    show "mem (addnode p i q s) x = mem s x" by (intro extend_mem(2) [OF assms(1)]) auto
  qed
  with False show ?thesis by simp
qed

lemma extend_kmem_inv:
  assumes "extendable s root N q fl \<pi> p i"
  shows "kmem_inv (addnode p i q s) fl"
proof -
  note e = extendableD [OF assms]
  have k: "kmem_inv (zero_page q (kalloc_post q s)) fl"
    using kalloc_post_inv [OF e(2)] e(8) kmem_invD(4) [OF e(2)]
    by (intro kmem_inv_zero_page) (auto simp: ram_page_def)
  show ?thesis
  proof (rule kmem_inv_frame [OF k])
    fix r x assume r: "r \<in> set fl" "x \<in> page_bytes r"
    then have "ram_page s r" "r \<noteq> p"
      using kmem_invD(5) [OF e(2)] node_not_free [OF e(1,2), of p] e(3) by (auto simp: ran_def)
    then have "x \<notin> page_bytes p" using e(7) by (intro page_out [OF r(2)]) auto
    then show "mem (addnode p i q s) x = mem (zero_page q (kalloc_post q s)) x"
      unfolding addnode_def
      by (intro stpte_mem_other) (use e(7,11) in \<open>auto simp: ram_page_def\<close>)
  qed (use kmem_invD [OF k] in \<open>simp_all add: addnode_def\<close>)
qed

lemma extend_pt_inv:
  assumes "extendable s root N q fl \<pi> p i"
  shows "pt_inv (addnode p i q s) root (N(\<pi> @ [unat i] \<mapsto> q))"
proof -
  note e = extendableD [OF assms] and inv = pt_invD [OF extendableD(1) [OF assms]]
  let ?N = "N(\<pi> @ [unat i] \<mapsto> q)"
  have rc: "refcnt (addnode p i q s) = (refcnt s)(pno q := 1)" "ram_page (addnode p i q s) = ram_page s"
    by (auto simp: addnode_def ram_page_def)
  have idx: "\<forall>j\<in>set \<pi>. j < 512" using inv(4) [OF e(3)] by auto
  show ?thesis
    unfolding pt_inv_def rc
  proof (intro conjI allI impI)
    show "?N [] = Some root" using inv(1) by simp
    show "inj_on ?N (dom ?N)"
      using inv(2) e(9) by (auto simp: inj_on_def dom_def ran_def)
  next
    fix \<rho> r assume "?N \<rho> = Some r"
    then show "length \<rho> \<le> 2" "\<forall>j\<in>set \<rho>. j < 512" "ram_page s r" "((refcnt s)(pno q := 1)) (pno r) = 1"
      using inv(3-6) e(4,5,8) idx by (auto split: if_splits)
  next
    fix \<rho> :: "nat list" and j assume \<rho>: "length \<rho> < 2" "j < (512 :: nat)"
    show "case ?N \<rho> of None \<Rightarrow> ?N (\<rho> @ [j]) = None
      | Some r \<Rightarrow> node_entry (ld64 (mem (addnode p i q s)) (unat r + 8 * j)) (?N (\<rho> @ [j]))"
    proof (cases "\<rho> = \<pi> @ [unat i]")
      case True
      have "N (\<rho> @ [j]) = None" by (rule inv(8)) (use \<rho> True e(6) in auto)
      then show ?thesis using True extend_ld_fresh [OF assms \<rho>(2)] by (simp add: node_entry_def)
    next
      case False
      show ?thesis
      proof (cases "N \<rho>")
        case None
        with inv(8) [OF \<rho> None] e(3) False show ?thesis by auto
      next
        case (Some r)
        have "r = p \<longleftrightarrow> \<rho> = \<pi>" using node_inj [OF e(1,3), of \<rho>] Some e(3) by auto
        then show ?thesis
          using False Some extend_ld_node [OF assms \<rho>(2), of r] ranI [of N \<rho> r] inv(7) [OF \<rho> Some] e(6)
          by (auto simp: node_entry_def)
      qed
    qed
  qed
qed

lemma extend_leaf:
  assumes "extendable s root N q fl \<pi> p i"
  shows "leaf (addnode p i q s) (N(\<pi> @ [unat i] \<mapsto> q)) = leaf s N"
proof
  fix v
  show "leaf (addnode p i q s) (N(\<pi> @ [unat i] \<mapsto> q)) v = leaf s N v"
  proof (cases "vpath v = \<pi> @ [unat i]")
    case True
    then show ?thesis
      using extendableD(6) [OF assms] extend_ld_fresh [OF assms, of "v mod 512"]
      by (simp add: leaf_def leaf_addr_def)
  next
    case False
    note e = extendableD [OF assms]
    have "vpath v \<noteq> \<pi>" using e(4) by (auto simp: vpath_def)
    then have "N (vpath v) = Some r \<Longrightarrow> r \<noteq> p" for r using node_inj [OF e(1,3)] by metis
    with False show ?thesis
      using extend_ld_node [OF assms, of "v mod 512"] ranI [of N "vpath v"]
      by (auto simp: leaf_def leaf_addr_def split: option.splits)
  qed
qed

lemma extend_grows:
  assumes "extendable s root N q fl \<pi> p i"
  shows "grows s root N (q # fl) (addnode p i q s) (N(\<pi> @ [unat i] \<mapsto> q)) fl"
proof -
  note e = extendableD [OF assms]
  have "konly s (addnode p i q s)"
    unfolding addnode_def by (rule konly_trans [OF konly_trans [OF konly_intros(5) konly_intros(4)] konly_intros(3)])
  moreover have "map_le N (N(\<pi> @ [unat i] \<mapsto> q))" using e(6) by (auto simp: map_le_def)
  moreover have "ran (N(\<pi> @ [unat i] \<mapsto> q)) = ran N \<union> set [q]" using e(6) by simp
  moreover have "refcnt (addnode p i q s) = (\<lambda>n. if n \<in> pno ` set [q] then 1 else refcnt s n)"
    by (auto simp: addnode_def)
  moreover have "mem (addnode p i q s) x = mem s x" if "\<forall>r\<in>ran N \<union> set (q # fl). x \<notin> page_bytes r" for x
    using that e(3) by (intro extend_mem(2) [OF assms]) (auto simp: ran_def)
  ultimately show ?thesis
    using extend_kmem_inv [OF assms] extend_pt_inv [OF assms] unfolding grows_def
    by (intro conjI exI [of _ "[q]"] allI impI) auto
qed

lemma slot_nonzero:
  assumes "pt_inv s root N" "KERNBASE \<le> kend s" "N (vpath (vpn va)) = Some p"
  shows "slot N va \<noteq> 0"
proof -
  have rp: "ram_page s p" by (rule pt_invD(5) [OF assms(1,3)])
  then have "unat p \<noteq> 0" using ram_page_nonzero [OF assms(2)] by (simp add: unat_eq_0)
  then have "unat (p + 8 * PX 0 va) \<noteq> 0" using unat_pte_addr [OF rp, of "PX 0 va"] by simp
  then show ?thesis using assms(3) by (simp add: slot_def unat_eq_0)
qed

lemma walk_loop_alloc:
  assumes "pt_inv s root N" "kmem_inv s fl" "N \<pi> = Some p"
    and "\<pi> @ map (\<lambda>l. unat (PX l va)) (rev [1..<Suc level]) = vpath (vpn va)"
  shows "\<exists>r s' N' fl'. walk_loop level p va True s = Inr (r, s') \<and> grows s root N fl s' N' fl' \<and>
    leaf s' N' = leaf s N \<and> length fl \<le> length fl' + level \<and>
    (r = 0 \<and> fl' = [] \<and> length fl < level \<or> r = slot N' va \<and> N' (vpath (vpn va)) \<noteq> None)"
  using assms
proof (induction level arbitrary: s N fl \<pi> p)
  case 0
  then show ?case using grows_refl [OF 0(2,1)] by (fastforce simp: slot_def)
next
  case (Suc level)
  let ?i = "PX (Suc level) va"
  have path: "(\<pi> @ [unat ?i]) @ map (\<lambda>l. unat (PX l va)) (rev [1..<Suc level]) = vpath (vpn va)"
    using Suc.prems(4) by simp
  then have len: "length \<pi> < 2" by (drule_tac arg_cong [of _ _ length]) (simp add: vpath_def)
  note step = walk_step [OF Suc.prems(1,3) len, of level va True]
  show ?case
  proof (cases "N (\<pi> @ [unat ?i])")
    case (Some q)
    from Suc.IH [OF Suc.prems(1,2) Some path] obtain r s' N' fl' where
      r: "walk_loop level q va True s = Inr (r, s')" "grows s root N fl s' N' fl'" "leaf s' N' = leaf s N"
        "length fl \<le> length fl' + level"
        "r = 0 \<and> fl' = [] \<and> length fl < level \<or> r = slot N' va \<and> N' (vpath (vpn va)) \<noteq> None" by blast
    moreover have "walk_loop (Suc level) p va True s = Inr (r, s')" using r(1) step Some by simp
    ultimately show ?thesis by (intro exI [of _ r] exI [of _ s'] exI [of _ N'] exI [of _ fl']) auto
  next
    case None
    show ?thesis
    proof (cases fl)
      case Nil
      then show ?thesis
        using None step kalloc_empty [of s] Suc.prems(1,2) grows_refl [OF Suc.prems(2,1)] by fastforce
    next
      case (Cons q fl1)
      have ex: "extendable s root N q fl1 \<pi> p ?i"
        using Suc.prems Cons len None by (simp add: extendable_def)
      let ?s = "addnode p ?i q s" and ?N = "N(\<pi> @ [unat ?i] \<mapsto> q)"
      have g: "grows s root N fl ?s ?N fl1" using extend_grows [OF ex] Cons by simp
      have "q \<noteq> 0"
        using ram_page_nonzero [OF kmem_invD(2) [OF Suc.prems(2)]] extendableD(8) [OF ex] by auto
      then have w: "walk_loop (Suc level) p va True s = walk_loop level q va True ?s"
        using step None kalloc_cons [of s q fl1] Suc.prems(2) Cons by (simp add: addnode_def)
      obtain r s' N' fl' where r: "walk_loop level q va True ?s = Inr (r, s')" "grows ?s root ?N fl1 s' N' fl'"
          "leaf s' N' = leaf ?s ?N" "length fl1 \<le> length fl' + level"
          "r = 0 \<and> fl' = [] \<and> length fl1 < level \<or> r = slot N' va \<and> N' (vpath (vpn va)) \<noteq> None"
        using Suc.IH [OF extend_pt_inv [OF ex] extend_kmem_inv [OF ex] _ path] by fastforce
      then show ?thesis using w grows_trans [OF g r(2)] extend_leaf [OF ex] Cons
        by (intro exI [of _ r] exI [of _ s'] exI [of _ N'] exI [of _ fl']) auto
    qed
  qed
qed

lemma walk_alloc:
  assumes "pt_inv s root N" "kmem_inv s fl" "va < MAXVA"
  shows "\<exists>r s' N' fl'. walk root va True s = Inr (r, s') \<and> grows s root N fl s' N' fl' \<and>
    leaf s' N' = leaf s N \<and> length fl \<le> length fl' + 2 \<and>
    (r = 0 \<and> fl' = [] \<and> length fl < 2 \<or> r = slot N' va \<and> N' (vpath (vpn va)) \<noteq> None)"
proof -
  have "[] @ map (\<lambda>l. unat (PX l va)) (rev [1..<Suc 2]) = vpath (vpn va)"
    using vpath_PX [OF assms(3)] by (simp add: upt_rec numeral_2_eq_2)
  from walk_loop_alloc [OF assms(1,2) pt_invD(1) [OF assms(1)] this] assms(3) show ?thesis
    unfolding walk_def not_le [symmetric] by (simp only: if_False)
qed

section \<open>Mapping\<close>

text \<open>\<open>n\<close> consecutive pages from \<open>pa\<close> mapped at virtual page \<open>v0\<close>.\<close>

definition map_range :: "nat \<Rightarrow> nat \<Rightarrow> u64 \<Rightarrow> u64 \<Rightarrow> (nat \<Rightarrow> u64) \<Rightarrow> nat \<Rightarrow> u64" where
  "map_range v0 n pa perm L =
     (\<lambda>v. if v0 \<le> v \<and> v < v0 + n then PA2PTE (pa + PGSIZE * of_nat (v - v0)) OR perm OR PTE_V else L v)"

lemma map_range_0 [simp]: "map_range v0 0 pa perm L = L"
  by (auto simp: map_range_def fun_eq_iff)

lemma map_range_Suc:
  "map_range v0 (Suc n) pa perm L =
     map_range (Suc v0) n (pa + PGSIZE) perm (L(v0 := PA2PTE pa OR perm OR PTE_V))"
proof
  fix v
  have "of_nat (v - v0) = 1 + (of_nat (v - Suc v0) :: u64)" if "v0 < v"
    using that by (metis Suc_diff_Suc of_nat_Suc)
  then show "map_range v0 (Suc n) pa perm L v =
     map_range (Suc v0) n (pa + PGSIZE) perm (L(v0 := PA2PTE pa OR perm OR PTE_V)) v"
    by (cases "v0 < v") (auto simp: map_range_def algebra_simps)
qed

lemma vpn_next: "va < MAXVA \<Longrightarrow> vpn (va + PGSIZE) = Suc (vpn va)"
  using unat_next_va [of va] by (simp add: vpn_def)

lemma grows_leaf_store:
  assumes "grows s root N fl s' N' fl'" "N' (vpath (vpn va)) = Some p" "va < MAXVA"
  shows "grows s root N fl (stpte (slot N' va) e s') N' fl'"
    "leaf (stpte (slot N' va) e s') N' = (leaf s' N')(vpn va := e)"
proof -
  note g = growsD [OF assms(1)]
  note st = leaf_store [OF g(2,1) assms(2,3), where e = e]
  have "p \<in> ran N \<union> set fl" using assms(2) g(7) by (auto simp: ran_def)
  then have "mem (stpte (slot N' va) e s') x = mem s x" if "\<forall>p\<in>ran N \<union> set fl. x \<notin> page_bytes p" for x
    using that st(4) [of x] g(8) [of x] by auto
  moreover have "konly s (stpte (slot N' va) e s')" using konly_trans [OF g(3)] by simp
  ultimately show "grows s root N fl (stpte (slot N' va) e s') N' fl'"
    using assms(1) st(1,2) unfolding grows_def stpte_fields by blast
  show "leaf (stpte (slot N' va) e s') N' = (leaf s' N')(vpn va := e)" by (rule st(3))
qed

text \<open>One iteration of the loop.\<close>

lemma mappages_iter:
  fixes e :: u64
  assumes "pt_inv s root N" "kmem_inv s fl" "a < MAXVA" "leaf s N (vpn a) AND PTE_V = 0"
  obtains (full) s' N' where "walk root a True s = Inr (0, s')" "grows s root N fl s' N' []"
      "leaf s' N' = leaf s N" "length fl < 2"
    | (mapped) pte s1 N' fl' where "walk root a True s = Inr (pte, s1)" "pte \<noteq> 0" "ldpte s1 pte AND PTE_V = 0"
      "grows s root N fl (stpte pte e s1) N' fl'" "leaf (stpte pte e s1) N' = (leaf s N)(vpn a := e)"
      "length fl \<le> length fl' + 2"
proof -
  obtain r s1 N1 fl1 where w: "walk root a True s = Inr (r, s1)" "grows s root N fl s1 N1 fl1"
    "leaf s1 N1 = leaf s N" "r = 0 \<and> fl1 = [] \<and> length fl < 2 \<or> r = slot N1 a \<and> N1 (vpath (vpn a)) \<noteq> None"
    "length fl \<le> length fl1 + 2"
    using walk_alloc [OF assms(1-3)] by blast
  note g = growsD [OF w(2)]
  show ?thesis
  proof (cases "N1 (vpath (vpn a)) = None \<or> r = 0")
    case True
    with w slot_nonzero [OF g(2) kmem_invD(2) [OF g(1)]] have "r = 0" "fl1 = []" "length fl < 2" by auto
    with w full show ?thesis by simp
  next
    case False
    then obtain p where p: "r = slot N1 a" "N1 (vpath (vpn a)) = Some p" "r \<noteq> 0" using w(4) by auto
    have "ldpte s1 r AND PTE_V = 0" using leaf_slot [OF g(2) _ assms(3)] p w(3) assms(4) by simp
    with mapped w(1,3,5) p grows_leaf_store [OF w(2) p(2) assms(3), where e = e] show ?thesis by simp
  qed
qed

lemma mappages_loop_spec:
  assumes "pt_inv s root N" "kmem_inv s fl" "unat a + 4096 * Suc n \<le> 0x4000000000"
    and "\<And>v. vpn a \<le> v \<Longrightarrow> v \<le> vpn a + n \<Longrightarrow> leaf s N v AND PTE_V = 0"
  shows "\<exists>r s' N' fl' k. mappages_loop root a (a + PGSIZE * of_nat n) pa perm s = Inr (r, s') \<and>
    grows s root N fl s' N' fl' \<and> leaf s' N' = map_range (vpn a) k pa perm (leaf s N) \<and>
    (r = 0 \<and> k = Suc n \<or> r = - 1 \<and> fl' = [] \<and> k \<le> n)"
  using assms
proof (induction n arbitrary: s N fl a pa)
  case (0 s N fl a pa)
  have a: "a < MAXVA" using 0(3) by (simp add: word_less_nat_alt)
  from 0(4) have "leaf s N (vpn a) AND PTE_V = 0" by simp
  from 0(1,2) a this show ?case
  proof (cases rule: mappages_iter [where e = "PA2PTE pa OR perm OR PTE_V"])
    case (full s' N')
    then show ?thesis by (subst mappages_loop.simps) fastforce
  next
    case (mapped pte s1 N' fl')
    then show ?thesis by (subst mappages_loop.simps) (fastforce simp: map_range_Suc)
  qed
next
  case (Suc n s N fl a pa)
  let ?e = "PA2PTE pa OR perm OR PTE_V"
  have a: "a < MAXVA" using Suc.prems(3) by (simp add: word_less_nat_alt)
  have nx: "unat (a + PGSIZE) = unat a + 4096" "vpn (a + PGSIZE) = Suc (vpn a)"
    using unat_next_va [OF a] vpn_next [OF a] .
  have "unat (PGSIZE * of_nat (Suc n)) = 4096 * Suc n"
    using Suc.prems(3) by (simp add: unat_word_ariths)
  then have ne: "a \<noteq> a + PGSIZE * of_nat (Suc n)" by (metis add_cancel_left_right mult_is_0 nat.distinct(1) unat_0 zero_neq_numeral)
  from Suc.prems(4) have "leaf s N (vpn a) AND PTE_V = 0" by simp
  from Suc.prems(1,2) a this show ?case
  proof (cases rule: mappages_iter [where e = ?e])
    case (full s' N')
    then show ?thesis by (subst mappages_loop.simps) (fastforce intro: exI [of _ 0])
  next
    case (mapped pte s1 N' fl')
    note g = growsD [OF mapped(4)]
    have "\<exists>r s2 N2 fl2 k. mappages_loop root (a + PGSIZE) (a + PGSIZE + PGSIZE * of_nat n) (pa + PGSIZE) perm (stpte pte ?e s1) = Inr (r, s2) \<and>
      grows (stpte pte ?e s1) root N' fl' s2 N2 fl2 \<and>
      leaf s2 N2 = map_range (vpn (a + PGSIZE)) k (pa + PGSIZE) perm (leaf (stpte pte ?e s1) N') \<and>
      (r = 0 \<and> k = Suc n \<or> r = - 1 \<and> fl2 = [] \<and> k \<le> n)"
      by (rule Suc.IH [OF g(2,1)]) (use Suc.prems(3,4) nx mapped(5) in auto)
    then obtain r s2 N2 fl2 k where r: "mappages_loop root (a + PGSIZE) (a + PGSIZE + PGSIZE * of_nat n) (pa + PGSIZE) perm (stpte pte ?e s1) = Inr (r, s2)"
      "grows (stpte pte ?e s1) root N' fl' s2 N2 fl2"
      "leaf s2 N2 = map_range (vpn a) (Suc k) pa perm (leaf s N)"
      "r = 0 \<and> k = Suc n \<or> r = - 1 \<and> fl2 = [] \<and> k \<le> n"
      by (auto simp: nx mapped(5) map_range_Suc)
    have "mappages_loop root a (a + PGSIZE * of_nat (Suc n)) pa perm s = Inr (r, s2)"
      using mapped(1-3) ne r(1) by (subst mappages_loop.simps) (simp add: add.assoc)
    with r(3,4) grows_trans [OF mapped(4) r(2)] show ?thesis
      by (intro exI [of _ r] exI [of _ s2] exI [of _ N2] exI [of _ fl2] exI [of _ "Suc k"]) auto
  qed
qed

lemma vpn_PGROUNDDOWN [simp]: "vpn (PGROUNDDOWN va) = vpn va"
  by (simp add: vpn_def unat_PGROUNDDOWN)

lemma mappages_any:
  assumes "pt_inv s root N" "kmem_inv s fl" "sz \<noteq> 0" "unat va + unat sz \<le> 0x4000000000"
    and "\<And>v. vpn va \<le> v \<Longrightarrow> v \<le> vpn (va + sz - 1) \<Longrightarrow> leaf s N v AND PTE_V = 0"
  shows "\<exists>r s' N' fl' k. mappages root va sz pa perm s = Inr (r, s') \<and>
    grows s root N fl s' N' fl' \<and> leaf s' N' = map_range (vpn va) k pa perm (leaf s N) \<and>
    (r = 0 \<and> k = Suc (vpn (va + sz - 1) - vpn va) \<or>
     r = - 1 \<and> fl' = [] \<and> k \<le> vpn (va + sz - 1) - vpn va)"
proof -
  let ?a = "PGROUNDDOWN va" and ?n = "vpn (va + sz - 1) - vpn va"
  have u: "unat (va + sz - 1) = unat va + unat sz - 1"
  proof -
    have "unat (va + sz) = unat va + unat sz" using assms(4) by (subst unat_plus_u64) auto
    moreover have "unat sz \<noteq> 0" using assms(3) by (simp add: unat_eq_0)
    ultimately show ?thesis by (subst unat_minus_one) (auto simp: unat_eq_0 [symmetric])
  qed
  moreover have "unat sz \<noteq> 0" using assms(3) by (simp add: unat_eq_0)
  ultimately have le: "vpn va \<le> vpn (va + sz - 1)" by (simp add: vpn_def div_le_mono)
  have "vpn (va + sz - 1) < 0x4000000"
    using u assms(4) \<open>unat sz \<noteq> 0\<close> by (simp add: vpn_def div_less_iff_less_mult)
  then have b: "unat ?a + 4096 * Suc ?n \<le> 0x4000000000"
    using le by (simp add: unat_PGROUNDDOWN vpn_def)
  have last: "PGROUNDDOWN (va + sz - 1) = ?a + PGSIZE * of_nat ?n"
  proof (rule word_unat_eq_iff [THEN iffD2])
    have "unat (PGSIZE * of_nat ?n) = 4096 * ?n" using b by (simp add: unat_word_ariths)
    moreover from this have "unat (?a + PGSIZE * of_nat ?n) = unat ?a + 4096 * ?n"
      using b by (subst unat_plus_u64) auto
    moreover have "unat ?a = vpn va * 4096" "unat (PGROUNDDOWN (va + sz - 1)) = vpn (va + sz - 1) * 4096"
      by (simp_all add: unat_PGROUNDDOWN vpn_def)
    ultimately show "unat (PGROUNDDOWN (va + sz - 1)) = unat (?a + PGSIZE * of_nat ?n)"
      using le by linarith
  qed
  have "leaf s N v AND PTE_V = 0" if "vpn ?a \<le> v" "v \<le> vpn ?a + ?n" for v
    using assms(5) that le by simp
  from mappages_loop_spec [OF assms(1,2) b this] show ?thesis
    using assms(3) by (simp add: mappages_def last)
qed

text \<open>The case the user-memory functions use: one page at a page-aligned address.\<close>

lemma mappages_page:
  assumes "pt_inv s root N" "kmem_inv s fl" "va < MAXVA" "4096 dvd unat va" "leaf s N (vpn va) AND PTE_V = 0"
  shows "\<exists>r s' N' fl'. mappages root va PGSIZE pa perm s = Inr (r, s') \<and> grows s root N fl s' N' fl' \<and>
    length fl \<le> length fl' + 2 \<and>
    (r = 0 \<and> leaf s' N' = (leaf s N)(vpn va := PA2PTE pa OR perm OR PTE_V) \<or>
     r = - 1 \<and> fl' = [] \<and> length fl < 2 \<and> leaf s' N' = leaf s N)"
proof -
  have le: "unat va + 4096 \<le> 0x4000000000"
    using assms(3,4) mult_gap [of 4096 "unat va" "0x4000000000"] by (simp add: word_less_nat_alt)
  have "unat (va + 4095) = unat va + 4095" using le by (subst unat_plus_u64) auto
  then have rd: "PGROUNDDOWN (va + 4095) = va" "PGROUNDDOWN va = va"
    using assms(4) by (auto simp: word_unat_eq_iff unat_PGROUNDDOWN elim!: dvdE)
  have eq: "va + PGSIZE - 1 = va + 4095" and "(PGSIZE = 0) = False" by simp_all
  then have run: "mappages root va PGSIZE pa perm s = mappages_loop root va va pa perm s"
    unfolding mappages_def by (simp only: eq rd if_False)
  from assms(1-3,5) show ?thesis
  proof (cases rule: mappages_iter [where e = "PA2PTE pa OR perm OR PTE_V"])
    case (full s' N')
    then show ?thesis by (auto simp: run mappages_loop.simps)
  next
    case (mapped pte s1 N' fl')
    then show ?thesis
      unfolding run by (subst mappages_loop.simps) (auto simp: Let_def)
  qed
qed

section \<open>Unmapping\<close>

lemma kfree_step:
  assumes "kmem_inv s fl" "ram_page s p" "1 \<le> refcnt s (pno p)"
  obtains s' fl' where "kfree p s = Inr s'" "kmem_inv s' fl'" "konly s s'"
    "refcnt s' = (refcnt s)(pno p := refcnt s (pno p) - 1)"
    "fl' = (if refcnt s (pno p) = 1 then p # fl else fl)"
    "\<And>x. x \<notin> page_bytes p \<or> p \<notin> set fl' \<Longrightarrow> mem s' x = mem s x"
proof (cases "refcnt s (pno p) = 1")
  case True
  have "mem (kfree_post p s) x = mem s x" if "x \<notin> page_bytes p" for x
    using st64_page_other [OF _ that, of 0] memset_page_other [OF that] by (simp add: kfree_post_def)
  with True show ?thesis
    using kfree_last [OF assms(2) kmem_invD(1) [OF assms(1)] True] kfree_post_inv [OF assms(1,2) True]
    by (intro that [of "kfree_post p s" "p # fl"]) (auto simp: kfree_post_def konly_intros(6) [unfolded kfree_post_def])
next
  case False
  let ?s = "s\<lparr>refcnt := (refcnt s)(pno p := refcnt s (pno p) - 1)\<rparr>"
  have nf: "p \<notin> set fl" using kmem_invD(6) [OF assms(1)] assms(3) by force
  have "kmem_inv ?s fl"
  proof (rule kmem_inv_frame [OF assms(1)])
    fix q assume "q \<in> set fl"
    then have "pno q \<noteq> pno p" using kmem_invD(6) [OF assms(1), of q] assms(3) by auto
    then show "refcnt ?s (pno q) = 0" using kmem_invD(6) [OF assms(1) \<open>q \<in> set fl\<close>] by simp
  qed (use kmem_invD(7) [OF assms(1)] assms(3) in auto)
  with False show ?thesis
    using kfree_shared [OF assms(2) kmem_invD(1) [OF assms(1)]] assms(3)
    by (intro that [of ?s fl]) auto
qed

definition refs :: "(nat \<Rightarrow> u64) \<Rightarrow> nat \<Rightarrow> nat \<Rightarrow> nat \<Rightarrow> int" where
  "refs L v0 n k = int (length (filter (\<lambda>v. pno (PTE2PA (L v)) = k) [v0..<v0 + n]))"

lemma refs_0 [simp]: "refs L v0 0 k = 0"
  by (simp add: refs_def)

lemma refs_nonneg [simp]: "0 \<le> refs L v0 n k"
  by (simp add: refs_def)

lemma refs_Suc: "refs L v0 (Suc n) k = (if pno (PTE2PA (L v0)) = k then 1 else 0) + refs L (Suc v0) n k"
proof -
  have "[v0..<v0 + Suc n] = v0 # [Suc v0..<Suc v0 + n]" by (simp add: upt_conv_Cons del: upt_Suc)
  then show ?thesis unfolding refs_def by simp
qed

lemma refs_cong:
  "(\<And>v. v0 \<le> v \<Longrightarrow> v < v0 + n \<Longrightarrow> PTE2PA (L v) = PTE2PA (L' v)) \<Longrightarrow> refs L v0 n = refs L' v0 n"
  unfolding refs_def by (intro ext arg_cong [of _ _ int] arg_cong [of _ _ length] filter_cong) auto

lemma refs_zero:
  "(\<And>v. v0 \<le> v \<Longrightarrow> v < v0 + n \<Longrightarrow> pno (PTE2PA (L v)) \<noteq> k) \<Longrightarrow> refs L v0 n k = 0"
  by (simp add: refs_def filter_empty_conv)

definition unmap_range :: "nat \<Rightarrow> nat \<Rightarrow> (nat \<Rightarrow> u64) \<Rightarrow> nat \<Rightarrow> u64" where
  "unmap_range v0 n L = (\<lambda>v. if v0 \<le> v \<and> v < v0 + n then 0 else L v)"

lemma unmap_range_0 [simp]: "unmap_range v0 0 L = L"
  by (auto simp: unmap_range_def fun_eq_iff)

lemma unmap_range_Suc: "unmap_range v0 (Suc n) L = unmap_range (Suc v0) n (L(v0 := 0))"
  by (auto simp: unmap_range_def fun_eq_iff)

text \<open>The entries of a range may be unmapped, and their pages freed.\<close>

definition unmappable :: "'z kmem_scheme \<Rightarrow> nodes \<Rightarrow> bool \<Rightarrow> nat \<Rightarrow> nat \<Rightarrow> bool" where
  "unmappable s N do_free v0 n \<longleftrightarrow>
     (\<forall>v. v0 \<le> v \<longrightarrow> v < v0 + n \<longrightarrow>
        leaf s N v AND PTE_V \<noteq> 0 \<and> PTE_FLAGS (leaf s N v) \<noteq> PTE_V \<and>
        (do_free \<longrightarrow> ram_page s (PTE2PA (leaf s N v)) \<and> PTE2PA (leaf s N v) \<notin> ran N)) \<and>
     (do_free \<longrightarrow> (\<forall>k. refs (leaf s N) v0 n k \<le> refcnt s k))"

lemma unmap_free:
  assumes "pt_inv s root N" "kmem_inv s fl" "unmappable s N do_free v (Suc n)"
  obtains s1 fl' where
    "(if do_free then kfree (PTE2PA (leaf s N v)) s else Inr s) = Inr s1"
    "pt_inv s1 root N" "kmem_inv s1 fl'" "konly s s1" "leaf s1 N = leaf s N"
    "refcnt s1 = (\<lambda>k. refcnt s k - (if do_free \<and> pno (PTE2PA (leaf s N v)) = k then 1 else 0))"
    "set fl \<subseteq> set fl'" "\<And>x. (\<And>p. p \<in> set fl' \<Longrightarrow> x \<notin> page_bytes p) \<Longrightarrow> mem s1 x = mem s x"
    "set fl' \<subseteq> set fl \<union> (if do_free then {PTE2PA (leaf s N v)} else {})"
proof (cases do_free)
  case True
  let ?p = "PTE2PA (leaf s N v)"
  have p: "ram_page s ?p" "?p \<notin> ran N" "refs (leaf s N) v (Suc n) (pno ?p) \<le> refcnt s (pno ?p)"
    using assms(3) True by (auto simp: unmappable_def)
  then have "1 \<le> refcnt s (pno ?p)"
    using refs_nonneg [of "leaf s N" "Suc v" n "pno ?p"] by (simp add: refs_Suc del: refs_nonneg)
  from kfree_step [OF assms(2) p(1) this] obtain s1 fl' where s1:
    "kfree ?p s = Inr s1" "kmem_inv s1 fl'" "konly s s1"
    "refcnt s1 = (refcnt s)(pno ?p := refcnt s (pno ?p) - 1)"
    "fl' = (if refcnt s (pno ?p) = 1 then ?p # fl else fl)"
    "\<And>x. x \<notin> page_bytes ?p \<or> ?p \<notin> set fl' \<Longrightarrow> mem s1 x = mem s x" by blast
  have nd: "pno q \<noteq> pno ?p" "x \<in> page_bytes q \<Longrightarrow> x \<notin> page_bytes ?p" if "q \<in> ran N" for q x
  proof -
    have q: "ram_page s q" "q \<noteq> ?p" using node_ram [OF assms(1) that] that p(2) by auto
    then show "pno q \<noteq> pno ?p" using pno_inj [of q ?p] p(1) by (auto simp: ram_page_def)
    show "x \<in> page_bytes q \<Longrightarrow> x \<notin> page_bytes ?p" using page_out [OF _ q(1) p(1) q(2)] .
  qed
  have "pt_inv s1 root N" "leaf s1 N = leaf s N"
    using nd s1(4,6) konlyD(2) [OF s1(3)] by (intro pt_inv_frame [OF assms(1)]; simp)+
  moreover have "mem s1 x = mem s x" if "\<And>p. p \<in> set fl' \<Longrightarrow> x \<notin> page_bytes p" for x
    using s1(6) [of x] that by blast
  ultimately show ?thesis
    using s1(1-5) True by (intro that [of s1 fl']) (auto simp: fun_eq_iff)
qed (use assms in \<open>auto intro!: that [of s fl]\<close>)

text \<open>One iteration: the page is freed if asked, and the entry is cleared.\<close>

lemma unmap_iter:
  assumes "pt_inv s root N" "kmem_inv s fl" "a < MAXVA" "unmappable s N do_free (vpn a) (Suc n)"
  obtains s1 s' fl' where
    "(if do_free then kfree (PTE2PA (leaf s N (vpn a))) s else Inr s) = Inr s1"
    "s' = stpte (slot N a) 0 s1" "slot N a \<noteq> 0"
    "pt_inv s' root N" "kmem_inv s' fl'" "konly s s'" "leaf s' N = (leaf s N)(vpn a := 0)"
    "refcnt s' = (\<lambda>k. refcnt s k - (if do_free \<and> pno (PTE2PA (leaf s N (vpn a))) = k then 1 else 0))"
    "set fl \<subseteq> set fl'" "\<And>x. (\<And>p. p \<in> ran N \<union> set fl' \<Longrightarrow> x \<notin> page_bytes p) \<Longrightarrow> mem s' x = mem s x"
    "unmappable s' N do_free (Suc (vpn a)) n"
    "set fl' \<subseteq> set fl \<union> (if do_free then {PTE2PA (leaf s N (vpn a))} else {})"
proof -
  from unmap_free [OF assms(1,2,4)] obtain s1 fl' where s1:
    "(if do_free then kfree (PTE2PA (leaf s N (vpn a))) s else Inr s) = Inr s1"
    "pt_inv s1 root N" "kmem_inv s1 fl'" "konly s s1" "leaf s1 N = leaf s N"
    "refcnt s1 = (\<lambda>k. refcnt s k - (if do_free \<and> pno (PTE2PA (leaf s N (vpn a))) = k then 1 else 0))"
    "set fl \<subseteq> set fl'" "\<And>x. (\<And>p. p \<in> set fl' \<Longrightarrow> x \<notin> page_bytes p) \<Longrightarrow> mem s1 x = mem s x"
    "set fl' \<subseteq> set fl \<union> (if do_free then {PTE2PA (leaf s N (vpn a))} else {})"
    by blast
  have "leaf s N (vpn a) AND PTE_V \<noteq> 0" using assms(4) by (auto simp: unmappable_def)
  then have "leaf s N (vpn a) \<noteq> 0" by auto
  then obtain p where p: "N (vpath (vpn a)) = Some p"
    by (auto simp: leaf_def leaf_addr_def split: option.splits if_splits)
  note st = leaf_store [OF s1(2,3) p assms(3), where e = 0]
  let ?s = "stpte (slot N a) 0 s1"
  have k: "konly s ?s" using konly_trans [OF s1(4)] by simp
  have "unmappable ?s N do_free (Suc (vpn a)) n"
  proof -
    have eq: "refs (leaf ?s N) (Suc (vpn a)) n = refs (leaf s N) (Suc (vpn a)) n"
      by (rule refs_cong) (simp add: st(3) s1(5))
    have le: "refs (leaf s N) (vpn a) (Suc n) k \<le> refcnt s k" if do_free for k
      using assms(4) that by (simp add: unmappable_def)
    have "refs (leaf ?s N) (Suc (vpn a)) n k \<le> refcnt ?s k" if do_free for k
      using le [OF that, of k] that by (auto simp: refs_Suc s1(6) eq split: if_splits)
    then show ?thesis
      using assms(4) by (auto simp: unmappable_def st(3) s1(5) konlyD(6) [OF s1(4)])
  qed
  moreover have "mem ?s x = mem s x" if "\<And>p. p \<in> ran N \<union> set fl' \<Longrightarrow> x \<notin> page_bytes p" for x
    using st(4) [of x] s1(8) [of x] that p by (auto simp: ran_def)
  moreover have "slot N a \<noteq> 0" by (rule slot_nonzero [OF s1(2) kmem_invD(2) [OF s1(3)] p])
  ultimately show ?thesis
    using s1 st(1-3) k by (intro that [of s1 ?s fl']) auto
qed

lemma uvmunmap_loop_spec:
  assumes "pt_inv s root N" "kmem_inv s fl" "unat a + 4096 * n \<le> 0x4000000000"
    and "unmappable s N do_free (vpn a) n"
  shows "\<exists>s' fl'. uvmunmap_loop root a (a + PGSIZE * of_nat n) do_free s = Inr s' \<and>
    pt_inv s' root N \<and> kmem_inv s' fl' \<and> konly s s' \<and> leaf s' N = unmap_range (vpn a) n (leaf s N) \<and>
    refcnt s' = (\<lambda>k. refcnt s k - (if do_free then refs (leaf s N) (vpn a) n k else 0)) \<and>
    set fl \<subseteq> set fl' \<and> (\<forall>x. (\<forall>p\<in>ran N \<union> set fl'. x \<notin> page_bytes p) \<longrightarrow> mem s' x = mem s x) \<and>
    set fl' \<subseteq> set fl \<union> (if do_free then (\<lambda>v. PTE2PA (leaf s N v)) ` {vpn a..<vpn a + n} else {})"
  using assms
proof (induction n arbitrary: s fl a)
  case 0
  then show ?case
    by (subst uvmunmap_loop.simps) (auto simp: fun_eq_iff intro!: exI [of _ s] exI [of _ fl])
next
  case (Suc n s fl a)
  have a: "a < MAXVA" using Suc.prems(3) by (simp add: word_less_nat_alt)
  have nx: "unat (a + PGSIZE) = unat a + 4096" "vpn (a + PGSIZE) = Suc (vpn a)"
    using unat_next_va [OF a] vpn_next [OF a] .
  have "unat (PGSIZE * of_nat (Suc n)) = 4096 * Suc n" using Suc.prems(3) by (simp add: unat_word_ariths)
  then have "unat (a + PGSIZE * of_nat (Suc n)) = unat a + 4096 * Suc n"
    using Suc.prems(3) by (subst unat_plus_u64) auto
  then have lt: "a < a + PGSIZE * of_nat (Suc n)" by (simp add: word_less_nat_alt)
  from unmap_iter [OF Suc.prems(1,2) a Suc.prems(4)] obtain s1 s2 fl2 where i:
    "(if do_free then kfree (PTE2PA (leaf s N (vpn a))) s else Inr s) = Inr s1"
    "s2 = stpte (slot N a) 0 s1" "slot N a \<noteq> 0"
    "pt_inv s2 root N" "kmem_inv s2 fl2" "konly s s2" "leaf s2 N = (leaf s N)(vpn a := 0)"
    "refcnt s2 = (\<lambda>k. refcnt s k - (if do_free \<and> pno (PTE2PA (leaf s N (vpn a))) = k then 1 else 0))"
    "set fl \<subseteq> set fl2" "\<And>x. (\<And>p. p \<in> ran N \<union> set fl2 \<Longrightarrow> x \<notin> page_bytes p) \<Longrightarrow> mem s2 x = mem s x"
    "unmappable s2 N do_free (Suc (vpn a)) n"
    "set fl2 \<subseteq> set fl \<union> (if do_free then {PTE2PA (leaf s N (vpn a))} else {})" by blast
  have ld: "ldpte s (slot N a) = leaf s N (vpn a)" by (rule leaf_slot [OF Suc.prems(1) i(3) a])
  have "leaf s N (vpn a) AND PTE_V \<noteq> 0" "PTE_FLAGS (leaf s N (vpn a)) \<noteq> PTE_V"
    using Suc.prems(4) by (auto simp: unmappable_def)
  then have run: "uvmunmap_loop root a (a + PGSIZE * of_nat (Suc n)) do_free s =
      uvmunmap_loop root (a + PGSIZE) (a + PGSIZE * of_nat (Suc n)) do_free s2"
    using lt walk_lookup [OF Suc.prems(1) a] i(1,2,3) ld
    by (subst uvmunmap_loop.simps) (cases do_free; simp)
  have b: "unat (a + PGSIZE) + 4096 * n \<le> 0x4000000000" "unmappable s2 N do_free (vpn (a + PGSIZE)) n"
    using Suc.prems(3) nx i(11) by auto
  have eq: "a + PGSIZE + PGSIZE * of_nat n = a + PGSIZE * of_nat (Suc n)" by (simp add: algebra_simps)
  obtain s' fl' where r:
    "uvmunmap_loop root (a + PGSIZE) (a + PGSIZE * of_nat (Suc n)) do_free s2 = Inr s'"
    "pt_inv s' root N" "kmem_inv s' fl'" "konly s2 s'" "leaf s' N = unmap_range (Suc (vpn a)) n (leaf s2 N)"
    "refcnt s' = (\<lambda>k. refcnt s2 k - (if do_free then refs (leaf s2 N) (Suc (vpn a)) n k else 0))"
    "set fl2 \<subseteq> set fl'" "\<forall>x. (\<forall>p\<in>ran N \<union> set fl'. x \<notin> page_bytes p) \<longrightarrow> mem s' x = mem s2 x"
    "set fl' \<subseteq> set fl2 \<union> (if do_free then (\<lambda>v. PTE2PA (leaf s2 N v)) ` {Suc (vpn a)..<Suc (vpn a) + n} else {})"
    using Suc.IH [OF i(4,5) b] unfolding nx(2) eq by blast
  have "refs (leaf s2 N) (Suc (vpn a)) n = refs (leaf s N) (Suc (vpn a)) n"
    by (rule refs_cong) (simp add: i(7))
  then have "refcnt s' = (\<lambda>k. refcnt s k - (if do_free then refs (leaf s N) (vpn a) (Suc n) k else 0))"
    by (auto simp: r(6) i(8) refs_Suc fun_eq_iff)
  moreover have "leaf s' N = unmap_range (vpn a) (Suc n) (leaf s N)"
    by (simp add: r(5) i(7) unmap_range_Suc)
  moreover have "mem s' x = mem s x" if "\<forall>p\<in>ran N \<union> set fl'. x \<notin> page_bytes p" for x
    using r(8) i(10) [of x] that set_mp [OF r(7)] by auto
  moreover have "set fl' \<subseteq> set fl \<union> (if do_free then (\<lambda>v. PTE2PA (leaf s N v)) ` {vpn a..<vpn a + Suc n} else {})"
  proof -
    have "{vpn a..<vpn a + Suc n} = insert (vpn a) {Suc (vpn a)..<Suc (vpn a) + n}" by auto
    moreover have "(\<lambda>v. PTE2PA (leaf s2 N v)) ` {Suc (vpn a)..<Suc (vpn a) + n} =
        (\<lambda>v. PTE2PA (leaf s N v)) ` {Suc (vpn a)..<Suc (vpn a) + n}"
      by (rule image_cong) (auto simp: i(7))
    ultimately show ?thesis using r(9) i(12) by (auto split: if_splits)
  qed
  ultimately show ?case
    using trans [OF run r(1)] r(2,3) konly_trans [OF i(6) r(4)] subset_trans [OF i(9) r(7)]
    by (intro exI [of _ s'] exI [of _ fl'] conjI allI impI)
qed

section \<open>Page numbers of sizes and addresses\<close>

lemma unat_va: "i \<le> 0x4000000 \<Longrightarrow> unat (PGSIZE * of_nat i) = 4096 * i"
  by (simp add: unat_word_ariths)

lemma vpn_va: "i \<le> 0x4000000 \<Longrightarrow> vpn (PGSIZE * of_nat i) = i"
  using unat_va [of i] by (simp add: vpn_def)

lemma va_div: "i \<le> 0x4000000 \<Longrightarrow> PGSIZE * of_nat i div PGSIZE = of_nat i"
  using unat_va [of i] by (simp add: word_unat_eq_iff unat_div)

definition pages_of :: "u64 \<Rightarrow> nat" where
  "pages_of sz = (unat sz + 4095) div 4096"

lemma pages_of_less: "i < pages_of sz \<longleftrightarrow> 4096 * i < unat sz"
  by (auto simp: pages_of_def)

lemma PGROUNDUP_va:
  assumes "unat sz \<le> 0x4000000000"
  shows "PGROUNDUP sz = PGSIZE * of_nat (pages_of sz)" "pages_of sz \<le> 0x4000000"
proof -
  show le: "pages_of sz \<le> 0x4000000"
    using assms div_le_mono [of "unat sz + 4095" "0x4000000FFF" 4096] by (simp add: pages_of_def)
  have "unat (PGROUNDUP sz) = pages_of sz * 4096"
    using assms by (subst unat_PGROUNDUP) (auto simp: pages_of_def)
  then show "PGROUNDUP sz = PGSIZE * of_nat (pages_of sz)"
    using unat_va [OF le] by (simp add: word_unat_eq_iff)
qed

end
