(* ===== verification/UserMem.thy ===== *)
theory UserMem
  imports PageTable
begin

text \<open>
  User memory through a page table: what \<open>copyin\<close>, \<open>copyinstr\<close>, \<open>copyout\<close> and \<open>cowalloc\<close> read
  and write, and what \<open>uvmcopy\<close> shares between parent and child. \<open>ubyte s N a\<close> is the byte a
  process sees at virtual address \<open>a\<close>.
\<close>

section \<open>The user's view of memory\<close>

definition upage :: "'z kmem_scheme \<Rightarrow> nodes \<Rightarrow> nat \<Rightarrow> u64" where
  "upage s N v =
     (if leaf s N v AND PTE_V = 0 \<or> leaf s N v AND PTE_U = 0 then 0 else PTE2PA (leaf s N v))"

lemma upage_leaf:
  "upage s N v \<noteq> 0 \<Longrightarrow>
     upage s N v = PTE2PA (leaf s N v) \<and> leaf s N v AND PTE_V \<noteq> 0 \<and> leaf s N v AND PTE_U \<noteq> 0"
  by (auto simp: upage_def split: if_splits)

definition ubyte :: "'z kmem_scheme \<Rightarrow> nodes \<Rightarrow> nat \<Rightarrow> byte" where
  "ubyte s N a = mem s (unat (upage s N (a div 4096)) + a mod 4096)"

definition ubytes :: "'z kmem_scheme \<Rightarrow> nodes \<Rightarrow> nat \<Rightarrow> nat \<Rightarrow> byte list" where
  "ubytes s N a n = map (ubyte s N) [a..<a + n]"

definition readable :: "'z kmem_scheme \<Rightarrow> nodes \<Rightarrow> nat \<Rightarrow> bool" where
  "readable s N a \<longleftrightarrow> a < 0x4000000000 \<and> upage s N (a div 4096) \<noteq> 0"

lemma walkaddr_eq:
  assumes "pt_inv s root N" "KERNBASE \<le> kend s"
  shows "walkaddr root va s = Inr (if va < MAXVA then upage s N (vpn va) else 0)"
proof (cases "va < MAXVA")
  case True
  then have w: "walk root va False s = Inr (slot N va, s)" by (rule walk_lookup [OF assms(1)])
  show ?thesis
  proof (cases "N (vpath (vpn va))")
    case None
    then show ?thesis using w True by (simp add: walkaddr_def slot_def upage_def leaf_def leaf_addr_def)
  next
    case (Some p)
    have nz: "slot N va \<noteq> 0" by (rule slot_nonzero [OF assms Some])
    then show ?thesis using w True leaf_slot [OF assms(1) nz True] by (auto simp: walkaddr_def upage_def)
  qed
qed (auto simp: walkaddr_def not_less)

lemma PTE2PA_aligned: "4096 dvd unat (PTE2PA e)"
proof -
  have "unat (PTE2PA e) = take_bit 64 (push_bit 12 (unat (drop_bit 10 e)))"
    by (simp add: PTE2PA_def unsigned_push_bit_eq)
  also have "\<dots> = push_bit 12 (take_bit 52 (unat (drop_bit 10 e)))"
    by (simp add: push_bit_take_bit)
  finally show ?thesis by (simp add: push_bit_eq_mult)
qed

lemma upage_aligned: "4096 dvd unat (upage s N v)"
  using PTE2PA_aligned by (simp add: upage_def)

lemma page_addr:
  assumes "4096 dvd unat (pa :: u64)"
  shows "unat (pa + (va - PGROUNDDOWN va)) = unat pa + unat va mod 4096"
proof -
  have "unat pa + 4096 \<le> 2 ^ 64"
    using mult_gap [OF assms, of "2 ^ 64"] unat_less_u64 [of pa] by simp
  then show ?thesis
    using mod_less_divisor [of 4096 "unat va"]
    by (subst unat_plus_u64) (auto simp: unat_offset simp del: mod_less_divisor)
qed

lemma same_page:
  assumes "i < page_rest va"
  shows "(unat va + i) div 4096 = vpn va" "(unat va + i) mod 4096 = unat va mod 4096 + i"
proof -
  have "unat va + i = 4096 * vpn va + (unat va mod 4096 + i)"
    using div_mult_mod_eq [of "unat va" 4096] by (simp add: vpn_def)
  moreover have "unat va mod 4096 + i < 4096" using assms by (simp add: page_rest_eq less_diff_conv add.commute)
  ultimately show "(unat va + i) div 4096 = vpn va" "(unat va + i) mod 4096 = unat va mod 4096 + i"
    by (metis div_less div_mult_self4 zero_neq_numeral add.right_neutral,
        metis mod_less mod_mult_self4)
qed

section \<open>Reading\<close>

lemma ubytes_append: "ubytes s N a (m + n) = ubytes s N a m @ ubytes s N (a + m) n"
  by (simp only: ubytes_def upt_split map_append)

lemma ubytes_0 [simp]: "ubytes s N a 0 = []"
  by (simp add: ubytes_def)

lemma length_ubytes [simp]: "length (ubytes s N a n) = n"
  by (simp add: ubytes_def)

lemma ubytes_Suc: "ubytes s N a (Suc n) = ubyte s N a # ubytes s N (Suc a) n"
  by (simp add: ubytes_def upt_conv_Cons del: upt_Suc)

lemma load_page:
  assumes "n \<le> page_rest va"
  shows "load_bytes (mem s) (unat (upage s N (vpn va) + (va - PGROUNDDOWN va))) n = ubytes s N (unat va) n"
proof (rule nth_equalityI)
  fix i assume "i < length (load_bytes (mem s) (unat (upage s N (vpn va) + (va - PGROUNDDOWN va))) n)"
  then have i: "i < n" by (simp add: load_bytes_def)
  with assms same_page [of i va] show "load_bytes (mem s) (unat (upage s N (vpn va) + (va - PGROUNDDOWN va))) n ! i = ubytes s N (unat va) n ! i"
    by (simp add: load_bytes_def ubytes_def ubyte_def page_addr [OF upage_aligned] add.assoc)
qed (simp add: load_bytes_def)

text \<open>The bytes from \<open>a\<close> on that can be read before the first page that is not mapped.\<close>

definition rlen :: "'z kmem_scheme \<Rightarrow> nodes \<Rightarrow> nat \<Rightarrow> nat \<Rightarrow> nat" where
  "rlen s N a n = length (takeWhile (readable s N) [a..<a + n])"

lemma rlen_0 [simp]: "rlen s N a 0 = 0"
  by (simp add: rlen_def)

lemma rlen_le: "rlen s N a n \<le> n"
  using length_takeWhile_le [of "readable s N" "[a..<a + n]"] by (simp add: rlen_def)

lemma rlen_unreadable: "\<not> readable s N a \<Longrightarrow> rlen s N a n = 0"
  by (cases n) (simp_all add: rlen_def upt_conv_Cons del: upt_Suc)

lemma rlen_append: "(\<And>i. i < m \<Longrightarrow> readable s N (a + i)) \<Longrightarrow> rlen s N a (m + n) = m + rlen s N (a + m) n"
proof -
  assume r: "\<And>i. i < m \<Longrightarrow> readable s N (a + i)"
  have "x \<in> set [a..<a + m] \<Longrightarrow> readable s N x" for x
    using r [of "x - a"] by auto
  then show ?thesis unfolding rlen_def upt_split by (subst takeWhile_append2) auto
qed

lemma rlen_full: "rlen s N a n = n \<longleftrightarrow> (\<forall>i<n. readable s N (a + i))"
proof (induction n arbitrary: a)
  case (Suc n)
  show ?case
  proof (cases "readable s N a")
    case True
    then show ?thesis
      using rlen_append [of 1 s N a n] Suc [of "Suc a"] by (auto simp: less_Suc_eq_0_disj)
  qed (auto simp: rlen_unreadable intro!: exI [of _ 0])
qed simp

lemma page_readable:
  assumes "upage s N (vpn va) \<noteq> 0" "va < MAXVA" "i < page_rest va"
  shows "readable s N (unat va + i)"
proof -
  have "vpn va < 0x4000000" by (rule vpn_bound [OF assms(2)])
  then show ?thesis
    using same_page [OF assms(3)] assms(1) by (auto simp: readable_def div_less_iff_less_mult [symmetric, of 4096, simplified])
qed

lemma next_page_va:
  assumes "va < MAXVA"
  shows "unat (PGROUNDDOWN va + PGSIZE) = unat va + page_rest va"
proof -
  have "PGROUNDDOWN va < MAXVA"
    using assms le_less_trans [OF div_times_less_eq_dividend [of "unat va" 4096]]
    by (simp add: word_less_nat_alt unat_PGROUNDDOWN)
  then have "unat (PGROUNDDOWN va + PGSIZE) = vpn va * 4096 + 4096"
    using unat_next_va by (simp add: unat_PGROUNDDOWN vpn_def)
  then show ?thesis
    using div_mult_mod_eq [of "unat va" 4096] mod_less_divisor [of 4096 "unat va"]
    unfolding page_rest_eq vpn_def by linarith
qed

lemma PGROUNDDOWN_less_MAXVA: "PGROUNDDOWN va < MAXVA \<longleftrightarrow> va < MAXVA"
proof -
  have "unat va div 4096 * 4096 < 0x4000000000 \<longleftrightarrow> unat va div 4096 < 0x4000000" by linarith
  then show ?thesis
    by (simp add: word_less_nat_alt unat_PGROUNDDOWN div_less_iff_less_mult)
qed

lemma rlen_page:
  fixes len :: nat
  assumes "upage s N (vpn va) \<noteq> 0" "va < MAXVA"
  defines "n \<equiv> min (page_rest va) len"
  shows "rlen s N (unat va) len = n + rlen s N (unat (PGROUNDDOWN va + PGSIZE)) (len - n)"
    "ubytes s N (unat va) (rlen s N (unat va) len) =
       ubytes s N (unat va) n @ ubytes s N (unat (PGROUNDDOWN va + PGSIZE)) (rlen s N (unat (PGROUNDDOWN va + PGSIZE)) (len - n))"
proof -
  note nx = next_page_va [OF assms(2)]
  show "rlen s N (unat va) len = n + rlen s N (unat (PGROUNDDOWN va + PGSIZE)) (len - n)"
  proof (cases "len \<le> page_rest va")
    case True
    then have "rlen s N (unat va) len = len"
      using page_readable [OF assms(1,2)] by (simp add: rlen_full)
    with True show ?thesis by (simp add: n_def min_def)
  next
    case False
    then show ?thesis
      using rlen_append [of "page_rest va" s N "unat va" "len - page_rest va"] page_readable [OF assms(1,2)] nx
      by (simp add: n_def)
  qed
  then show "ubytes s N (unat va) (rlen s N (unat va) len) =
       ubytes s N (unat va) n @ ubytes s N (unat (PGROUNDDOWN va + PGSIZE)) (rlen s N (unat (PGROUNDDOWN va + PGSIZE)) (len - n))"
    using nx by (cases "len \<le> page_rest va") (auto simp: ubytes_append n_def min_def)
qed

lemma not_readable: "\<not> va < MAXVA \<or> upage s N (vpn va) = 0 \<Longrightarrow> \<not> readable s N (unat va)"
  by (auto simp: readable_def vpn_def word_less_nat_alt)

lemma copyin_eq:
  assumes "pt_inv s root N" "KERNBASE \<le> kend s"
  shows "copyin root va len s =
    Inr (if rlen s N (unat va) len = len then 0 else - 1, ubytes s N (unat va) (rlen s N (unat va) len))"
proof (induction len arbitrary: va rule: less_induct)
  case (less len)
  let ?va0 = "PGROUNDDOWN va" and ?n = "min (page_rest va) len"
  have w: "walkaddr root ?va0 s = Inr (if va < MAXVA then upage s N (vpn va) else 0)"
    using walkaddr_eq [OF assms, of ?va0] by (simp add: PGROUNDDOWN_less_MAXVA)
  show ?case
  proof (cases "len = 0 \<or> \<not> va < MAXVA \<or> upage s N (vpn va) = 0")
    case True
    then show ?thesis
      using w rlen_unreadable [OF not_readable, of va s N len] by (subst copyin.simps) auto
  next
    case False
    then have f: "0 < len" "va < MAXVA" "upage s N (vpn va) \<noteq> 0" by auto
    then have "0 < ?n" by simp
    with f(1) have "len - ?n < len" by linarith
    note IH = less.IH [OF this, of "?va0 + PGSIZE"]
    have "copyin root va len s =
        bindR (copyin root (?va0 + PGSIZE) (len - ?n) s) (\<lambda>(r, rest). Inr (r, ubytes s N (unat va) ?n @ rest))"
      using f w load_page [of ?n va s N] by (subst copyin.simps) (simp add: Let_def)
    then show ?thesis
      unfolding IH rlen_page(2) [OF f(3,2)] using rlen_page(1) [OF f(3,2), of len] by auto
  qed
qed

lemma load_bytes_Suc: "load_bytes m p (Suc n) = m p # load_bytes m (p + 1) n"
  by (simp add: load_bytes_def upt_conv_Cons map_Suc_upt [symmetric] del: upt_Suc)

lemma scan_str_eq:
  "scan_str m p n =
     (if 0 \<in> set (load_bytes m p n) then (takeWhile (\<lambda>b. b \<noteq> 0) (load_bytes m p n) @ [0], True)
      else (load_bytes m p n, False))"
proof (induction n arbitrary: p)
  case 0
  then show ?case by (simp add: load_bytes_def)
next
  case (Suc n)
  then show ?case by (auto simp: load_bytes_Suc Suc)
qed

lemma copyinstr_eq:
  assumes "pt_inv s root N" "KERNBASE \<le> kend s"
  shows "copyinstr root va mx s =
    (let bs = ubytes s N (unat va) (rlen s N (unat va) mx) in
     if 0 \<in> set bs then Inr (0, takeWhile (\<lambda>b. b \<noteq> 0) bs @ [0]) else Inr (- 1, bs))"
proof (induction mx arbitrary: va rule: less_induct)
  case (less mx)
  let ?va0 = "PGROUNDDOWN va" and ?n = "min (page_rest va) mx"
  have w: "walkaddr root ?va0 s = Inr (if va < MAXVA then upage s N (vpn va) else 0)"
    using walkaddr_eq [OF assms, of ?va0] by (simp add: PGROUNDDOWN_less_MAXVA)
  show ?case
  proof (cases "mx = 0 \<or> \<not> va < MAXVA \<or> upage s N (vpn va) = 0")
    case True
    then show ?thesis
      using w rlen_unreadable [OF not_readable, of va s N mx] by (subst copyinstr.simps) auto
  next
    case False
    then have f: "0 < mx" "va < MAXVA" "upage s N (vpn va) \<noteq> 0" by auto
    then have "0 < ?n" by simp
    with f(1) have "mx - ?n < mx" by linarith
    note IH = less.IH [OF this, of "?va0 + PGSIZE"]
    let ?bs = "ubytes s N (unat va) ?n"
    have "copyinstr root va mx s =
        (if 0 \<in> set ?bs then Inr (0, takeWhile (\<lambda>b. b \<noteq> 0) ?bs @ [0])
         else bindR (copyinstr root (?va0 + PGSIZE) (mx - ?n) s) (\<lambda>(r, rest). Inr (r, ?bs @ rest)))"
      using f w load_page [of ?n va s N] by (subst copyinstr.simps) (simp add: scan_str_eq Let_def)
    then show ?thesis
      unfolding IH rlen_page(2) [OF f(3,2)] by (auto simp: Let_def takeWhile_append)
  qed
qed

section \<open>Copy-on-write\<close>

lemma pte_flag:
  assumes "k AND NOT 0x3FF = 0"
  shows "(PA2PTE pa OR f) AND k = f AND k"
proof (rule bit_word_eqI)
  fix n assume "n < LENGTH(64)"
  have "bit k n \<Longrightarrow> n < 10" using bit_flags [OF assms, of n] by (cases "n < 10") auto
  then show "bit ((PA2PTE pa OR f) AND k) n = bit (f AND k) n"
    by (auto simp: PA2PTE_def bit_simps)
qed

lemma cow_entry: "(PA2PTE ka OR 31) AND NOT 256 = PA2PTE ka OR 31"
proof (rule bit_word_eqI)
  fix n assume "n < LENGTH(64)"
  have "bit (256 :: u64) n \<longleftrightarrow> n = 8" if "n < 64"
    using that bit_exp_iff [of 8 n, where 'a = u64] by simp
  moreover have "\<not> bit (31 :: u64) 8" by simp
  ultimately show "bit ((PA2PTE ka OR 31) AND NOT 256) n = bit (PA2PTE ka OR 31) n"
    using \<open>n < LENGTH(64)\<close> by (auto simp: PA2PTE_def bit_simps)
qed

lemma storew_twice [simp]: "storew n (storew n m a w) a v = storew n m a v"
  by (auto simp: storew_def fun_eq_iff)

lemma stpte_twice [simp]: "stpte a v (stpte a w s) = stpte a v s"
  by (simp add: stpte_def)

lemma ldpte_stpte [simp]: "ldpte (stpte a v s) a = v"
  by (simp add: stpte_def ldpte_def)

text \<open>
  The user pages of a process: RAM that no page table uses, counted at least as often as it is
  mapped, and a page without the copy-on-write bit is mapped once.
\<close>

definition user_inv :: "'z kmem_scheme \<Rightarrow> nodes \<Rightarrow> bool" where
  "user_inv s N \<longleftrightarrow>
     (\<forall>v. upage s N v \<noteq> 0 \<longrightarrow> ram_page s (upage s N v) \<and> upage s N v \<notin> ran N) \<and>
     (\<forall>v w. v \<noteq> w \<longrightarrow> upage s N v \<noteq> 0 \<longrightarrow> leaf s N v AND PTE_C = 0 \<longrightarrow> upage s N w \<noteq> upage s N v) \<and>
     (\<forall>p. p \<noteq> 0 \<longrightarrow> int (card {v. upage s N v = p}) \<le> refcnt s (pno p))"

lemma user_invD:
  assumes "user_inv s N"
  shows "\<And>v. upage s N v \<noteq> 0 \<Longrightarrow> ram_page s (upage s N v)"
    "\<And>v. upage s N v \<noteq> 0 \<Longrightarrow> upage s N v \<notin> ran N"
    "\<And>v w. v \<noteq> w \<Longrightarrow> upage s N v \<noteq> 0 \<Longrightarrow> leaf s N v AND PTE_C = 0 \<Longrightarrow> upage s N w \<noteq> upage s N v"
    "\<And>p. p \<noteq> 0 \<Longrightarrow> int (card {v. upage s N v = p}) \<le> refcnt s (pno p)"
  using assms by (auto simp: user_inv_def)

lemma finite_upages: "p \<noteq> 0 \<Longrightarrow> finite {v. upage s N v = p}"
  by (rule finite_subset [of _ "{..<0x8000000}"])
    (auto simp: upage_def leaf_def leaf_addr_def split: if_splits)

lemma user_page_counted:
  assumes "user_inv s N" "upage s N v \<noteq> 0"
  shows "1 \<le> refcnt s (pno (upage s N v))"
proof -
  have "v \<in> {w. upage s N w = upage s N v}" by simp
  then have "0 < card {w. upage s N w = upage s N v}"
    using finite_upages [OF assms(2)] by (auto simp: card_gt_0_iff)
  with user_invD(4) [OF assms(1,2)] show ?thesis by linarith
qed

lemma user_page_not_free:
  "user_inv s N \<Longrightarrow> kmem_inv s fl \<Longrightarrow> upage s N v \<noteq> 0 \<Longrightarrow> upage s N v \<notin> set fl"
  using user_page_counted [of s N v] kmem_invD(6) [of s fl "upage s N v"] by force

text \<open>The state after \<open>cowalloc\<close> has copied the page.\<close>

definition cow_post :: "nodes \<Rightarrow> u64 \<Rightarrow> u64 \<Rightarrow> 'z kmem_scheme \<Rightarrow> 'z kmem_scheme" where
  "cow_post N va ka s =
     (let pa = upage s N (vpn va);
          s1 = kalloc_post ka s;
          s2 = s1\<lparr>mem := memmove (mem s1) (unat ka) (unat pa) 4096\<rparr>;
          s3 = stpte (slot N va) (PA2PTE ka OR 31) s2
      in s3\<lparr>refcnt := (refcnt s3)(pno pa := refcnt s3 (pno pa) - 1)\<rparr>)"

lemma cowalloc_eq:
  assumes "pt_inv s root N" "kmem_inv s fl" "user_inv s N"
  shows "cowalloc root va s =
    (if va = 0 \<or> va \<ge> MAXVA \<or> upage s N (vpn va) = 0 then Inr (- 1, s)
     else if leaf s N (vpn va) AND PTE_C = 0 then Inr (0, s)
     else case fl of [] \<Rightarrow> Inr (- 1, s) | ka # fl' \<Rightarrow> Inr (0, cow_post N va ka s))"
proof (cases "va = 0 \<or> va \<ge> MAXVA \<or> N (vpath (vpn va)) = None")
  case True
  then show ?thesis
    using walk_lookup [OF assms(1), of va]
    by (auto simp: cowalloc_def slot_def upage_def leaf_def leaf_addr_def not_le)
next
  case False
  then obtain p where p: "va \<noteq> 0" "va < MAXVA" "N (vpath (vpn va)) = Some p" by auto
  have nz: "slot N va \<noteq> 0" by (rule slot_nonzero [OF assms(1) kmem_invD(2) [OF assms(2)] p(3)])
  note w = walk_lookup [OF assms(1) p(2)] and ls = leaf_slot [OF assms(1) nz p(2)]
  show ?thesis
  proof (cases "upage s N (vpn va) = 0 \<or> leaf s N (vpn va) AND PTE_C = 0")
    case True
    then show ?thesis using p nz w ls by (auto simp: cowalloc_def upage_def Let_def)
  next
    case False
    let ?pa = "upage s N (vpn va)"
    have pa: "?pa = PTE2PA (leaf s N (vpn va))" "leaf s N (vpn va) AND PTE_U \<noteq> 0"
      "leaf s N (vpn va) AND PTE_V \<noteq> 0" "PTE2PA (leaf s N (vpn va)) \<noteq> 0"
      using False by (auto simp: upage_def split: if_splits)
    have b: "?pa < PHYSTOP" using user_invD(1) [OF assms(3)] False by (simp add: ram_page_def)
    show ?thesis
    proof (cases fl)
      case Nil
      then show ?thesis using p nz w ls pa False assms(2) kalloc_empty [of s] by (simp add: cowalloc_def Let_def)
    next
      case (Cons ka fl')
      have "ka \<noteq> 0" "kalloc s = Inr (ka, kalloc_post ka s)"
        using Cons assms(2) kalloc_cons [of s ka fl'] ram_page_nonzero [OF kmem_invD(2,5) [OF assms(2)]] by auto
      moreover have "Lkmem \<notin> held s" by (rule kmem_invD(1) [OF assms(2)])
      ultimately show ?thesis
        using p nz w ls pa False b Cons
        by (simp add: cowalloc_def Let_def cow_entry [simplified] krefdecr_ok cow_post_def)
    qed
  qed
qed

lemma page_bytes_offset: "i < 4096 \<Longrightarrow> unat p + i \<in> page_bytes p"
  by (simp add: page_bytes_def)

definition cow_copy :: "u64 \<Rightarrow> u64 \<Rightarrow> 'z kmem_scheme \<Rightarrow> 'z kmem_scheme" where
  "cow_copy ka pa s = (kalloc_post ka s)\<lparr>mem := memmove (mem (kalloc_post ka s)) (unat ka) (unat pa) 4096\<rparr>"

lemma cow_copy_mem:
  assumes "kmem_inv s (ka # fl)" "ram_page s pa" "pa \<noteq> ka"
  shows "x \<notin> page_bytes ka \<Longrightarrow> mem (cow_copy ka pa s) x = mem s x"
    "i < 4096 \<Longrightarrow> mem (cow_copy ka pa s) (unat ka + i) = mem s (unat pa + i)"
proof -
  show "mem (cow_copy ka pa s) x = mem s x" if "x \<notin> page_bytes ka"
    using that by (auto simp: cow_copy_def memmove_eq page_bytes_def kalloc_post_def memset_eq)
  assume i: "i < 4096"
  have "ram_page s ka" using kmem_invD(5) [OF assms(1)] by simp
  then have "unat pa + i \<notin> page_bytes ka"
    by (rule page_out [OF page_bytes_offset [OF i] assms(2) _ assms(3)])
  then show "mem (cow_copy ka pa s) (unat ka + i) = mem s (unat pa + i)"
    using i by (auto simp: cow_copy_def memmove_eq kalloc_post_def memset_page_other)
qed

lemma cow_copy_inv:
  assumes "pt_inv s root N" "kmem_inv s (ka # fl)" "ram_page s pa" "pa \<noteq> ka"
  shows "pt_inv (cow_copy ka pa s) root N" "kmem_inv (cow_copy ka pa s) fl"
    "leaf (cow_copy ka pa s) N = leaf s N" "konly s (cow_copy ka pa s)"
    "refcnt (cow_copy ka pa s) = (refcnt s)(pno ka := 1)"
proof -
  show rc: "refcnt (cow_copy ka pa s) = (refcnt s)(pno ka := 1)" by (simp add: cow_copy_def)
  show k: "konly s (cow_copy ka pa s)"
    unfolding cow_copy_def by (rule konly_trans [OF konly_intros(5) konly_intros(1)])
  have rka: "ram_page s ka" using kmem_invD(5) [OF assms(2)] by simp
  have out: "pno p \<noteq> pno ka" "x \<in> page_bytes p \<Longrightarrow> mem (cow_copy ka pa s) x = mem s x" if "p \<in> ran N" for p x
  proof -
    have p: "ram_page s p" "p \<noteq> ka"
      using node_ram [OF assms(1) that] node_not_free [OF assms(1,2) that] by auto
    then show "pno p \<noteq> pno ka" using rka pno_inj [of p ka] by (auto simp: ram_page_def)
    show "mem (cow_copy ka pa s) x = mem s x" if "x \<in> page_bytes p"
      using cow_copy_mem(1) [OF assms(2-4)] page_out [OF that p(1) rka p(2)] by simp
  qed
  show "pt_inv (cow_copy ka pa s) root N" "leaf (cow_copy ka pa s) N = leaf s N"
    using out rc konlyD(2) [OF k] by (intro pt_inv_frame [OF assms(1)]; simp)+
  show "kmem_inv (cow_copy ka pa s) fl"
  proof (rule kmem_inv_frame [OF kalloc_post_inv [OF assms(2)]])
    fix p x assume p: "p \<in> set fl" "x \<in> page_bytes p"
    then have "ram_page s p" "p \<noteq> ka" using kmem_invD(4,5) [OF assms(2)] by auto
    then have "x \<notin> page_bytes ka" using page_out [OF p(2) _ rka] by simp
    then show "mem (cow_copy ka pa s) x = mem (kalloc_post ka s) x"
      by (auto simp: cow_copy_def memmove_eq page_bytes_def)
  qed (use kmem_invD [OF kalloc_post_inv [OF assms(2)]] in \<open>simp_all add: cow_copy_def\<close>)
qed

lemma cow_post_eq:
  "cow_post N va ka s =
    (let s3 = stpte (slot N va) (PA2PTE ka OR 31) (cow_copy ka (upage s N (vpn va)) s);
         k = pno (upage s N (vpn va))
     in s3\<lparr>refcnt := (refcnt s3)(k := refcnt s3 k - 1)\<rparr>)"
  by (simp add: cow_post_def cow_copy_def Let_def)

lemma upage_cong: "leaf s' N = leaf s N \<Longrightarrow> upage s' N = upage s N"
  by (simp add: upage_def fun_eq_iff)

lemma upage_node: "upage s N v \<noteq> 0 \<Longrightarrow> v < 0x8000000 \<and> N (vpath v) \<noteq> None"
  by (cases "N (vpath v)") (auto simp: upage_def leaf_def leaf_addr_def split: if_splits)

definition cow_page :: "'z kmem_scheme \<Rightarrow> u64 \<Rightarrow> nodes \<Rightarrow> u64 \<Rightarrow> u64 list \<Rightarrow> u64 \<Rightarrow> bool" where
  "cow_page s root N ka fl va \<longleftrightarrow>
     pt_inv s root N \<and> kmem_inv s (ka # fl) \<and> user_inv s N \<and> va < MAXVA \<and> upage s N (vpn va) \<noteq> 0"

lemma cow_pageD:
  assumes "cow_page s root N ka fl va"
  shows "pt_inv s root N" "kmem_inv s (ka # fl)" "user_inv s N" "va < MAXVA" "upage s N (vpn va) \<noteq> 0"
    "ram_page s (upage s N (vpn va))" "ram_page s ka" "upage s N (vpn va) \<noteq> ka" "upage s N (vpn va) \<notin> ran N"
    "pno (upage s N (vpn va)) \<noteq> pno ka" "upage s N v \<noteq> ka"
proof -
  show 1: "pt_inv s root N" "kmem_inv s (ka # fl)" "user_inv s N" "va < MAXVA" "upage s N (vpn va) \<noteq> 0"
    using assms by (auto simp: cow_page_def)
  show 2: "ram_page s (upage s N (vpn va))" "upage s N (vpn va) \<notin> ran N"
    by (rule user_invD(1,2) [OF 1(3,5)])+
  show 3: "ram_page s ka" using kmem_invD(5) [OF 1(2)] by simp
  have 4: "upage s N v \<noteq> ka" for v
    using user_page_not_free [OF 1(3,2), of v] ram_page_nonzero [OF kmem_invD(2) [OF 1(2)] 3] by auto
  then show "upage s N v \<noteq> ka" "upage s N (vpn va) \<noteq> ka" by blast+
  with 4 pno_inj [of "upage s N (vpn va)" ka] 2(1) 3 show "pno (upage s N (vpn va)) \<noteq> pno ka"
    by (auto simp: ram_page_def)
qed

lemma cow_post_inv:
  assumes "cow_page s root N ka fl va"
  shows "pt_inv (cow_post N va ka s) root N" "kmem_inv (cow_post N va ka s) fl" "konly s (cow_post N va ka s)"
    "leaf (cow_post N va ka s) N = (leaf s N)(vpn va := PA2PTE ka OR 31)"
    "refcnt (cow_post N va ka s) = (refcnt s)(pno ka := 1,
        pno (upage s N (vpn va)) := refcnt s (pno (upage s N (vpn va))) - 1)"
    "(\<And>p. p \<in> ran N \<Longrightarrow> x \<notin> page_bytes p) \<Longrightarrow> mem (cow_post N va ka s) x = mem (cow_copy ka (upage s N (vpn va)) s) x"
proof -
  note c = cow_pageD [OF assms]
  let ?pa = "upage s N (vpn va)" and ?s = "cow_post N va ka s"
  let ?s3 = "stpte (slot N va) (PA2PTE ka OR 31) (cow_copy ka ?pa s)"
  note cc = cow_copy_inv [OF c(1,2,6,8)]
  obtain p where p: "N (vpath (vpn va)) = Some p" using upage_node [OF c(5)] by auto
  note st = leaf_store [OF cc(1,2) p c(4), where e = "PA2PTE ka OR 31"]
  have eq: "?s = ?s3\<lparr>refcnt := (refcnt ?s3)(pno ?pa := refcnt ?s3 (pno ?pa) - 1)\<rparr>"
    by (simp add: cow_post_eq Let_def)
  show rc: "refcnt ?s = (refcnt s)(pno ka := 1, pno ?pa := refcnt s (pno ?pa) - 1)"
    using c(10) by (simp add: eq cc(5))
  show "konly s ?s" unfolding eq by (rule konly_trans [OF konly_trans [OF cc(4) konly_intros(3)] konly_intros(2)])
  have nd: "pno q \<noteq> pno ?pa" if "q \<in> ran N" for q
    using pno_inj [of q ?pa] node_ram [OF c(1) that] c(6,9) that by (auto simp: ram_page_def)
  have "pt_inv ?s root N \<and> leaf ?s N = leaf ?s3 N"
    using nd by (intro conjI pt_inv_frame [OF st(1)]) (auto simp: eq)
  then show "pt_inv ?s root N" "leaf ?s N = (leaf s N)(vpn va := PA2PTE ka OR 31)"
    using st(3) cc(3) by auto
  show "mem ?s x = mem (cow_copy ka ?pa s) x" if "\<And>p. p \<in> ran N \<Longrightarrow> x \<notin> page_bytes p"
    using st(4) [of x] that p by (auto simp: eq ran_def)
  have one: "1 \<le> refcnt s (pno ?pa)" by (rule user_page_counted [OF c(3,5)])
  show "kmem_inv ?s fl"
  proof (rule kmem_inv_frame [OF st(2)])
    fix q assume q: "q \<in> set fl"
    then have "refcnt s (pno q) = 0" using kmem_invD(6) [OF c(2)] by simp
    then have "pno q \<noteq> pno ?pa" using one by auto
    moreover have "pno q \<noteq> pno ka"
      using q kmem_invD(4,5) [OF c(2)] pno_inj [of q ka] by (auto simp: ram_page_def)
    ultimately show "refcnt ?s (pno q) = 0" using \<open>refcnt s (pno q) = 0\<close> by (simp add: rc)
  qed (use one kmem_invD(7) [OF c(2)] in \<open>auto simp: rc, auto simp: eq\<close>)
qed

lemma upage_update:
  assumes "leaf s' N' = (leaf s N)(v := PA2PTE p OR f)" "ram_page s p" "f AND NOT 0x3FF = 0"
    "f AND PTE_V \<noteq> 0" "f AND PTE_U \<noteq> 0"
  shows "upage s' N' = (upage s N)(v := p)"
  using PTE2PA_ram [OF assms(2,3)] assms(4,5)
  by (auto simp: fun_eq_iff upage_def assms(1) pte_flag)

lemma cow_post_user:
  assumes "cow_page s root N ka fl va"
  shows "upage (cow_post N va ka s) N = (upage s N)(vpn va := ka)" "user_inv (cow_post N va ka s) N"
proof -
  note c = cow_pageD [OF assms] and i = cow_post_inv [OF assms]
  let ?s = "cow_post N va ka s" and ?v = "vpn va"
  show up: "upage ?s N = (upage s N)(?v := ka)" by (rule upage_update [OF i(4) c(7)]) simp_all
  have kaN: "ka \<notin> ran N" using node_not_free [OF c(1,2), of ka] by auto
  have C: "leaf ?s N w AND PTE_C = (if w = ?v then 0 else leaf s N w AND PTE_C)" for w
    by (simp add: i(4) pte_flag)
  have "int (card {w. upage ?s N w = p}) \<le> refcnt ?s (pno p)" if "p \<noteq> 0" for p
  proof -
    have old: "int (card {w. upage s N w = p}) \<le> refcnt s (pno p)" by (rule user_invD(4) [OF c(3) that])
    consider "p = ka" | "p = upage s N ?v" "p \<noteq> ka" | "p \<noteq> ka" "p \<noteq> upage s N ?v" by auto
    then show ?thesis
    proof cases
      case 1
      then have "{w. upage ?s N w = p} = {?v}" using c(11) by (auto simp: up)
      with 1 c(10) show ?thesis by (simp add: i(5))
    next
      case 2
      then have "{w. upage ?s N w = p} = {w. upage s N w = p} - {?v}" by (auto simp: up)
      moreover have "0 < card {w. upage s N w = p}"
        using 2 finite_upages [OF that, of s N] by (auto simp: card_gt_0_iff)
      ultimately have "int (card {w. upage ?s N w = p}) = int (card {w. upage s N w = p}) - 1"
        using 2 by (simp add: card_Diff_singleton_if of_nat_diff)
      with old 2 show ?thesis by (simp add: i(5))
    next
      case 3
      then have "{w. upage ?s N w = p} = {w. upage s N w = p}" by (auto simp: up)
      moreover have "pno p \<noteq> pno ka \<and> pno p \<noteq> pno (upage s N ?v)" if "upage s N w = p" for w
        using 3 c(6,7) user_invD(1) [OF c(3), of w] \<open>p \<noteq> 0\<close> that pno_inj [of p] by (auto simp: ram_page_def)
      moreover have "0 \<le> refcnt ?s (pno p)" by (rule kmem_invD(7) [OF i(2)])
      ultimately show ?thesis using old by (cases "{w. upage s N w = p} = {}") (auto simp: i(5))
    qed
  qed
  moreover have "upage ?s N w \<noteq> upage ?s N u"
    if "u \<noteq> w" "upage ?s N u \<noteq> 0" "leaf ?s N u AND PTE_C = 0" for u w
    using that c(11) user_invD(3) [OF c(3), of u w] by (auto simp: up C split: if_splits)
  ultimately show "user_inv ?s N"
    using user_invD(1,2) [OF c(3)] c(7) kaN konlyD(6) [OF i(3)] by (auto simp: user_inv_def up)
qed

lemma cow_post_mem:
  assumes "cow_page s root N ka fl va"
  shows "x \<notin> page_bytes ka \<Longrightarrow> (\<And>p. p \<in> ran N \<Longrightarrow> x \<notin> page_bytes p) \<Longrightarrow> mem (cow_post N va ka s) x = mem s x"
    "upage s N (a div 4096) \<noteq> 0 \<Longrightarrow> ubyte (cow_post N va ka s) N a = ubyte s N a"
proof -
  note c = cow_pageD [OF assms] and i = cow_post_inv [OF assms]
  show fr: "mem (cow_post N va ka s) x = mem s x" if "x \<notin> page_bytes ka" "\<And>p. p \<in> ran N \<Longrightarrow> x \<notin> page_bytes p" for x
    using i(6) [of x] cow_copy_mem(1) [OF c(2,6,8) that(1)] that(2) by simp
  assume u: "upage s N (a div 4096) \<noteq> 0"
  let ?o = "a mod 4096"
  have nout: "unat p + ?o \<notin> page_bytes q" if "ram_page s p" "p \<notin> ran N" "q \<in> ran N" for p q
    using node_ram [OF c(1) that(3)] that
    by (intro page_out [OF page_bytes_offset [of ?o p] that(1)]) auto
  show "ubyte (cow_post N va ka s) N a = ubyte s N a"
  proof (cases "a div 4096 = vpn va")
    case True
    have "ka \<notin> ran N" using node_not_free [OF c(1,2), of ka] by auto
    then have "mem (cow_post N va ka s) (unat ka + ?o) = mem s (unat (upage s N (vpn va)) + ?o)"
      using i(6) [of "unat ka + ?o"] nout [OF c(7)] cow_copy_mem(2) [OF c(2,6,8), of ?o] by simp
    with True show ?thesis by (simp add: ubyte_def cow_post_user(1) [OF assms])
  next
    case False
    let ?p = "upage s N (a div 4096)"
    have "unat ?p + ?o \<notin> page_bytes ka"
      by (rule page_out [OF page_bytes_offset user_invD(1) [OF c(3) u] c(7) c(11)]) simp
    then have "mem (cow_post N va ka s) (unat ?p + ?o) = mem s (unat ?p + ?o)"
      using nout [OF user_invD(1,2) [OF c(3) u]] by (intro fr) auto
    with False show ?thesis by (simp add: ubyte_def cow_post_user(1) [OF assms])
  qed
qed

section \<open>Writing\<close>

text \<open>The pages of a process that it does not share copy-on-write.\<close>

definition wpages :: "'z kmem_scheme \<Rightarrow> nodes \<Rightarrow> u64 set" where
  "wpages s N = {upage s N v |v. upage s N v \<noteq> 0 \<and> leaf s N v AND PTE_C = 0}"

text \<open>
  What writing to user memory may do: only the table's own pages, free pages and unshared pages
  change; the same virtual pages stay mapped.
\<close>

definition wrote ::
  "'z kmem_scheme \<Rightarrow> u64 \<Rightarrow> nodes \<Rightarrow> u64 list \<Rightarrow> 'z kmem_scheme \<Rightarrow> u64 list \<Rightarrow> bool" where
  "wrote s root N fl s' fl' \<longleftrightarrow>
     pt_inv s' root N \<and> kmem_inv s' fl' \<and> user_inv s' N \<and> konly s s' \<and> set fl' \<subseteq> set fl \<and>
     (\<forall>v. upage s' N v = 0 \<longleftrightarrow> upage s N v = 0) \<and> wpages s' N \<subseteq> wpages s N \<union> set fl \<and>
     range (upage s' N) \<subseteq> range (upage s N) \<union> set fl \<and>
     (\<forall>n. n \<notin> pno ` (range (upage s N) \<union> set fl) \<longrightarrow> refcnt s' n = refcnt s n) \<and>
     (\<forall>x. (\<forall>p\<in>ran N \<union> set fl \<union> wpages s N. x \<notin> page_bytes p) \<longrightarrow> mem s' x = mem s x)"

lemma wrote_refl: "pt_inv s root N \<Longrightarrow> kmem_inv s fl \<Longrightarrow> user_inv s N \<Longrightarrow> wrote s root N fl s fl"
  by (auto simp: wrote_def)

lemma wroteD:
  assumes "wrote s root N fl s' fl'"
  shows "pt_inv s' root N" "kmem_inv s' fl'" "user_inv s' N" "konly s s'" "set fl' \<subseteq> set fl"
    "\<And>v. upage s' N v = 0 \<longleftrightarrow> upage s N v = 0" "wpages s' N \<subseteq> wpages s N \<union> set fl"
    "range (upage s' N) \<subseteq> range (upage s N) \<union> set fl"
    "\<And>n. n \<notin> pno ` (range (upage s N) \<union> set fl) \<Longrightarrow> refcnt s' n = refcnt s n"
    "\<And>x. (\<And>p. p \<in> ran N \<union> set fl \<union> wpages s N \<Longrightarrow> x \<notin> page_bytes p) \<Longrightarrow> mem s' x = mem s x"
  using assms by (auto simp: wrote_def)

lemma wrote_trans:
  assumes "wrote s root N fl s' fl'" "wrote s' root N fl' s'' fl''"
  shows "wrote s root N fl s'' fl''"
proof -
  note a = wroteD [OF assms(1)] and b = wroteD [OF assms(2)]
  have sub: "range (upage s' N) \<union> set fl' \<subseteq> range (upage s N) \<union> set fl" using a(5,8) by auto
  have "refcnt s'' n = refcnt s n" if "n \<notin> pno ` (range (upage s N) \<union> set fl)" for n
  proof -
    have "n \<notin> pno ` (range (upage s' N) \<union> set fl')" using that image_mono [OF sub, of pno] by auto
    with a(9) [OF that] b(9) show ?thesis by simp
  qed
  moreover have "mem s'' x = mem s x" if x: "\<forall>p\<in>ran N \<union> set fl \<union> wpages s N. x \<notin> page_bytes p" for x
  proof -
    have "x \<notin> page_bytes p" if "p \<in> ran N \<union> set fl' \<union> wpages s' N" for p
      using x that a(5,7) by auto
    with a(10) [of x] b(10) [of x] x show ?thesis by simp
  qed
  moreover have "range (upage s'' N) \<subseteq> range (upage s N) \<union> set fl"
    by (rule order_trans [OF b(8) sub])
  moreover have "wpages s'' N \<subseteq> wpages s N \<union> set fl"
    by (rule order_trans [OF b(7) Un_least [OF a(7) le_supI2 [OF a(5)]]])
  ultimately show ?thesis
    using b(1-3) a(5,6) b(5,6) konly_trans [OF a(4) b(4)] unfolding wrote_def by (intro conjI) auto
qed

lemma wrote_cow:
  assumes "cow_page s root N ka fl va"
  shows "wrote s root N (ka # fl) (cow_post N va ka s) fl"
proof -
  note c = cow_pageD [OF assms] and i = cow_post_inv [OF assms] and u = cow_post_user [OF assms]
  let ?s = "cow_post N va ka s"
  have "ka \<noteq> 0" using ram_page_nonzero [OF kmem_invD(2) [OF c(2)] c(7)] .
  then have "\<forall>v. upage ?s N v = 0 \<longleftrightarrow> upage s N v = 0" using c(5) by (auto simp: u(1))
  moreover have "wpages ?s N \<subseteq> wpages s N \<union> set (ka # fl)"
    by (auto simp: wpages_def u(1) i(4))
  moreover have "refcnt ?s n = refcnt s n" if "n \<notin> pno ` (range (upage s N) \<union> set (ka # fl))" for n
    using that by (auto simp: i(5))
  moreover have "mem ?s x = mem s x" if "\<forall>p\<in>ran N \<union> set (ka # fl) \<union> wpages s N. x \<notin> page_bytes p" for x
    using that by (intro cow_post_mem(1) [OF assms]) auto
  ultimately show ?thesis
    using i(1-3) u(2) by (auto simp: wrote_def u(1))
qed

lemma store_bytes_other: "x < a \<or> a + length bs \<le> x \<Longrightarrow> store_bytes m a bs x = m x"
  by (auto simp: store_bytes_def)

lemma store_page:
  assumes "pt_inv s root N" "kmem_inv s fl" "user_inv s N" "upage s N (vpn va) \<noteq> 0"
    and "leaf s N (vpn va) AND PTE_C = 0" "length bs \<le> page_rest va"
  defines "s' \<equiv> s\<lparr>mem := store_bytes (mem s) (unat (upage s N (vpn va) + (va - PGROUNDDOWN va))) bs\<rparr>"
  shows "wrote s root N fl s' fl" "leaf s' N = leaf s N"
    "upage s N (a div 4096) \<noteq> 0 \<Longrightarrow>
       ubyte s' N a = (if unat va \<le> a \<and> a < unat va + length bs then bs ! (a - unat va) else ubyte s N a)"
proof -
  let ?pa = "upage s N (vpn va)"
  have pa: "unat (?pa + (va - PGROUNDDOWN va)) = unat ?pa + unat va mod 4096"
    by (rule page_addr [OF upage_aligned])
  have fit: "unat va mod 4096 + length bs \<le> 4096" using assms(6) by (simp add: page_rest_eq)
  have rp: "ram_page s ?pa" "?pa \<notin> ran N" by (rule user_invD(1,2) [OF assms(3,4)])+
  have nf: "?pa \<notin> set fl" by (rule user_page_not_free [OF assms(3,2,4)])
  have fr: "mem s' x = mem s x" if "x \<notin> page_bytes ?pa" for x
    using that fit unfolding s'_def pa by (auto simp: store_bytes_def page_bytes_def)
  have out: "mem s' x = mem s x" if "x \<in> page_bytes p" "ram_page s p" "p \<noteq> ?pa" for x p
    using page_out [OF that(1,2) rp(1) that(3)] by (rule fr)
  have "pt_inv s' root N \<and> leaf s' N = leaf s N"
    using out node_ram [OF assms(1)] rp(2)
    by (intro conjI pt_inv_frame [OF assms(1)]) (auto simp: s'_def)
  then have 1: "pt_inv s' root N" and 2: "leaf s' N = leaf s N" by auto
  have up: "upage s' N = upage s N" by (rule upage_cong [OF 2])
  have "kmem_inv s' fl"
    using out kmem_invD [OF assms(2)] nf by (intro kmem_inv_frame [OF assms(2)]) (auto simp: s'_def)
  moreover have "user_inv s' N"
    using assms(3) unfolding user_inv_def up 2 by (simp add: s'_def ram_page_def)
  moreover have "?pa \<in> wpages s N" using assms(4,5) by (auto simp: wpages_def)
  ultimately show "wrote s root N fl s' fl"
    using 1 fr unfolding wrote_def wpages_def up 2 by (auto simp: s'_def)
  show "leaf s' N = leaf s N" by (rule 2)
  show "ubyte s' N a = (if unat va \<le> a \<and> a < unat va + length bs then bs ! (a - unat va) else ubyte s N a)"
    if u: "upage s N (a div 4096) \<noteq> 0"
  proof (cases "a div 4096 = vpn va")
    case True
    define r where "r = a mod 4096"
    define q where "q = unat va mod 4096"
    have "a = 4096 * vpn va + r" "unat va = 4096 * vpn va + q"
      using mult_div_mod_eq [of 4096 a] mult_div_mod_eq [of 4096 "unat va"]
      unfolding True r_def [symmetric] q_def [symmetric] vpn_def [symmetric] by simp_all
    then have "unat va \<le> a \<longleftrightarrow> q \<le> r" "a < unat va + length bs \<longleftrightarrow> r < q + length bs" "a - unat va = r - q"
      by auto
    moreover have "mem s' = store_bytes (mem s) (unat ?pa + q) bs" by (simp add: s'_def pa q_def)
    ultimately show ?thesis
      unfolding ubyte_def up True r_def [symmetric] by (auto simp: store_bytes_def)
  next
    case False
    have "upage s N (a div 4096) \<noteq> ?pa" by (rule user_invD(3) [OF assms(3) _ assms(4,5)]) (use False in simp)
    then have "ubyte s' N a = ubyte s N a"
      unfolding ubyte_def up by (intro out [OF page_bytes_offset user_invD(1) [OF assms(3) u]]) auto
    moreover have "\<not> (unat va \<le> a \<and> a < unat va + length bs)"
    proof
      assume h: "unat va \<le> a \<and> a < unat va + length bs"
      then have "a - unat va < page_rest va" using assms(6) by linarith
      from same_page(1) [OF this] h False show False by simp
    qed
    ultimately show ?thesis by auto
  qed
qed

text \<open>One iteration of \<open>copyout\<close>, up to the store.\<close>

lemma copyout_page:
  fixes va :: u64
  assumes "pt_inv s root N" "kmem_inv s fl" "user_inv s N"
  defines "va0 \<equiv> PGROUNDDOWN va"
  obtains (fail) "cowalloc root va0 s = Inr (- 1, s)"
      "\<not> readable s N (unat va) \<or> unat va < 4096 \<or> fl = []"
    | (ok) s1 fl1 where "cowalloc root va0 s = Inr (0, s1)" "walkaddr root va0 s1 = Inr (upage s1 N (vpn va))"
      "wrote s root N fl s1 fl1" "upage s1 N (vpn va) \<noteq> 0" "leaf s1 N (vpn va) AND PTE_C = 0"
      "\<And>a. upage s N (a div 4096) \<noteq> 0 \<Longrightarrow> ubyte s1 N a = ubyte s N a" "va < MAXVA"
      "length fl \<le> Suc (length fl1)"
proof -
  note kb = kmem_invD(2) [OF assms(2)]
  have v0: "vpn va0 = vpn va" "va0 \<ge> MAXVA \<longleftrightarrow> \<not> va < MAXVA"
    by (simp_all add: va0_def PGROUNDDOWN_less_MAXVA not_less flip: not_less)
  have z: "va0 = 0 \<longleftrightarrow> unat va < 4096"
    by (simp add: va0_def unat_eq_0 [symmetric] unat_PGROUNDDOWN div_eq_0_iff)
  note ce = cowalloc_eq [OF assms(1-3), of va0, unfolded v0]
  show ?thesis
  proof (cases "va0 = 0 \<or> \<not> va < MAXVA \<or> upage s N (vpn va) = 0")
    case True
    then have "\<not> readable s N (unat va) \<or> unat va < 4096" using not_readable z by blast
    with True show ?thesis by (intro fail) (auto simp: ce)
  next
    case False
    note wa = walkaddr_eq [of _ root N va0, unfolded v0(1)]
    have lt: "va0 < MAXVA" using False v0(2) by (simp add: not_le [symmetric])
    show ?thesis
    proof (cases "leaf s N (vpn va) AND PTE_C = 0")
      case True
      with False show ?thesis
        using wa [OF assms(1) kb] lt wrote_refl [OF assms(1-3)] by (intro ok [of s fl]) (auto simp: ce)
    next
      case cow: False
      show ?thesis
      proof (cases fl)
        case Nil
        with False cow show ?thesis by (intro fail) (auto simp: ce)
      next
        case (Cons ka fl1)
        have cp: "cow_page s root N ka fl1 va0"
          using assms(1-3) Cons lt False by (simp add: cow_page_def v0)
        let ?s = "cow_post N va0 ka s"
        have u: "upage ?s N (vpn va) = ka" "leaf ?s N (vpn va) = PA2PTE ka OR 31"
          using cow_post_user(1) [OF cp] cow_post_inv(4) [OF cp] by (simp_all add: v0)
        moreover have "ka \<noteq> 0" using ram_page_nonzero [OF kmem_invD(2) [OF cow_pageD(2) [OF cp]] cow_pageD(7) [OF cp]] .
        moreover have "walkaddr root va0 ?s = Inr (upage ?s N (vpn va))"
          using wa [OF cow_post_inv(1) [OF cp]] lt kb konlyD(2) [OF cow_post_inv(3) [OF cp]] by simp
        ultimately show ?thesis
          using False cow Cons cow_post_mem(2) [OF cp] wrote_cow [OF cp]
          by (intro ok [of ?s fl1]) (auto simp: ce pte_flag)
      qed
    qed
  qed
qed

lemma wrote_rlen: "wrote s root N fl s' fl' \<Longrightarrow> rlen s' N = rlen s N"
proof -
  assume "wrote s root N fl s' fl'"
  then have "readable s' N = readable s N" by (auto simp: fun_eq_iff readable_def wroteD(6))
  then show ?thesis by (intro ext) (simp add: rlen_def)
qed

definition written :: "nat \<Rightarrow> nat \<Rightarrow> byte list \<Rightarrow> (nat \<Rightarrow> byte) \<Rightarrow> nat \<Rightarrow> byte" where
  "written a k src u = (\<lambda>x. if a \<le> x \<and> x < a + k then src ! (x - a) else u x)"

lemma written_page:
  assumes "k = 0 \<or> n = m" "n \<le> length src" "k \<le> length src - n"
  shows "written (a + m) k (drop n src) (written a n (take n src) u) = written a (n + k) src u"
  using assms by (auto simp: written_def fun_eq_iff nth_drop)

text \<open>
  The result of \<open>copyout\<close>: how many bytes it wrote, and, where it failed, one of the reasons
  for which it can fail.
\<close>

definition copyout_result ::
  "'z kmem_scheme \<Rightarrow> u64 \<Rightarrow> nodes \<Rightarrow> u64 list \<Rightarrow> u64 \<Rightarrow> byte list \<Rightarrow> int \<Rightarrow> nat \<Rightarrow> 'z kmem_scheme \<Rightarrow> u64 list \<Rightarrow> bool" where
  "copyout_result s root N fl va src r k s' fl' \<longleftrightarrow>
     wrote s root N fl s' fl' \<and>
     (\<forall>a. upage s N (a div 4096) \<noteq> 0 \<longrightarrow> ubyte s' N a = written (unat va) k src (ubyte s N) a) \<and>
     (r = 0 \<and> k = length src \<and> rlen s N (unat va) (length src) = length src \<or>
      r = - 1 \<and> k < length src \<and>
        (rlen s N (unat va) (length src) \<noteq> length src \<or> unat va < 4096 \<or>
         4096 * length fl < length src + unat va mod 4096))"

lemma copyout_result_step:
  fixes src :: "byte list" and va :: u64
  defines "n \<equiv> min (page_rest va) (length src)"
  assumes "wrote s root N fl s2 fl1"
    and ub: "\<And>a. upage s N (a div 4096) \<noteq> 0 \<Longrightarrow> ubyte s2 N a = written (unat va) n (take n src) (ubyte s N) a"
    and "upage s N (vpn va) \<noteq> 0" "va < MAXVA" "src \<noteq> []" "length fl \<le> Suc (length fl1)"
    and res: "copyout_result s2 root N fl1 (PGROUNDDOWN va + PGSIZE) (drop n src) r k s' fl'"
  shows "copyout_result s root N fl va src r (n + k) s' fl'"
proof -
  note nx = next_page_va [OF \<open>va < MAXVA\<close>]
  have w: "wrote s root N fl s' fl'"
    using wrote_trans [OF assms(2)] res by (auto simp: copyout_result_def)
  have k: "k = 0 \<or> n = page_rest va" "k \<le> length src - n"
    using res by (auto simp: copyout_result_def n_def min_def)
  have "n \<le> length src" by (simp add: n_def)
  from written_page [OF k(1) this k(2), of "unat va" "ubyte s N"]
  have wr: "written (unat (PGROUNDDOWN va + PGSIZE)) k (drop n src) (written (unat va) n (take n src) (ubyte s N)) =
      written (unat va) (n + k) src (ubyte s N)" by (simp only: nx)
  have "ubyte s' N a = written (unat va) (n + k) src (ubyte s N) a" if u: "upage s N (a div 4096) \<noteq> 0" for a
  proof -
    have "ubyte s' N a = written (unat (PGROUNDDOWN va + PGSIZE)) k (drop n src) (ubyte s2 N) a"
      using res u wroteD(6) [OF assms(2)] by (simp add: copyout_result_def)
    also have "\<dots> = written (unat (PGROUNDDOWN va + PGSIZE)) k (drop n src) (written (unat va) n (take n src) (ubyte s N)) a"
      using ub [OF u] by (simp add: written_def)
    finally show ?thesis by (simp only: wr)
  qed
  moreover have "rlen s N (unat va) (length src) = n + rlen s2 N (unat (PGROUNDDOWN va + PGSIZE)) (length src - n)"
    using rlen_page(1) [OF assms(4,5), of "length src"] wrote_rlen [OF assms(2)] by (simp add: n_def)
  moreover have "unat (PGROUNDDOWN va + PGSIZE) = 4096 * Suc (vpn va)"
    using unat_next_va [of "PGROUNDDOWN va"] PGROUNDDOWN_less_MAXVA [of va] assms(5)
    by (simp add: unat_PGROUNDDOWN vpn_def)
  moreover have "4096 * length fl < length src + unat va mod 4096" if "4096 * length fl1 < length src - n"
  proof -
    have "n = page_rest va" using that by (auto simp: n_def min_def split: if_splits)
    then show ?thesis
      using that assms(7) mod_less_divisor [of 4096 "unat va"] unfolding page_rest_eq by linarith
  qed
  ultimately show ?thesis
    using w res \<open>n \<le> length src\<close> unfolding copyout_result_def by auto
qed

lemma copyout_eq:
  assumes "pt_inv s root N" "kmem_inv s fl" "user_inv s N"
  shows "\<exists>r s' fl' k. copyout root va src s = Inr (r, s') \<and> copyout_result s root N fl va src r k s' fl'"
  using assms
proof (induction src arbitrary: s fl va rule: length_induct)
  case (1 src)
  show ?case
  proof (cases "src = []")
    case True
    then show ?thesis
      using wrote_refl [OF 1(2-4)]
      by (subst copyout.simps) (auto simp: copyout_result_def written_def intro!: exI [of _ fl])
  next
    case False
    let ?n = "min (page_rest va) (length src)"
    from 1(2-4) show ?thesis
    proof (cases rule: copyout_page [where va = va])
      case fail
      then have "copyout root va src s = Inr (- 1, s)" using False by (subst copyout.simps) (simp add: Let_def)
      moreover have "copyout_result s root N fl va src (- 1) 0 s fl"
        using fail(2) wrote_refl [OF 1(2-4)] False rlen_unreadable [of s N "unat va" "length src"]
        by (auto simp: copyout_result_def written_def)
      ultimately show ?thesis by blast
    next
      case (ok s1 fl1)
      define s2 where "s2 = s1\<lparr>mem := store_bytes (mem s1) (unat (upage s1 N (vpn va) + (va - PGROUNDDOWN va))) (take ?n src)\<rparr>"
      have le: "length (take ?n src) \<le> page_rest va" by simp
      note st = store_page [OF wroteD(1-3) [OF ok(3)] ok(4,5) le, folded s2_def]
      have w2: "wrote s root N fl s2 fl1" by (rule wrote_trans [OF ok(3) st(1)])
      have "\<not> MAXVA < PGROUNDDOWN va" using ok(7) PGROUNDDOWN_less_MAXVA [of va] by (simp add: less_asym)
      then have run: "copyout root va src s = copyout root (PGROUNDDOWN va + PGSIZE) (drop ?n src) s2"
        using False ok(1,2,4) by (subst copyout.simps) (simp add: Let_def s2_def)
      have "length (drop ?n src) < length src" using False by (simp add: min_def)
      then obtain r s' fl' k where r:
        "copyout root (PGROUNDDOWN va + PGSIZE) (drop ?n src) s2 = Inr (r, s')"
        "copyout_result s2 root N fl1 (PGROUNDDOWN va + PGSIZE) (drop ?n src) r k s' fl'"
        using 1(1) wroteD(1-3) [OF w2] by metis
      have "copyout_result s root N fl va src r (?n + k) s' fl'"
      proof (rule copyout_result_step [OF w2 _ _ ok(7) False ok(8) r(2)])
        show "upage s N (vpn va) \<noteq> 0" using ok(4) wroteD(6) [OF ok(3)] by simp
        show "ubyte s2 N a = written (unat va) ?n (take ?n src) (ubyte s N) a" if "upage s N (a div 4096) \<noteq> 0" for a
          using st(3) [of a] ok(6) [OF that] wroteD(6) [OF ok(3)] that by (simp add: written_def)
      qed
      with run r(1) show ?thesis by auto
    qed
  qed
qed

end
