(* ===== verification/CowFork.thy ===== *)
theory CowFork
  imports UserMem
begin

text \<open>
  \<open>uvmcopy\<close> (\<^verbatim>\<open>kernel/vm.c\<close>): what fork gives the child, what it does to the parent, what a
  failure leaves behind, and which writes the two processes can see of each other.
\<close>

section \<open>The child's entries\<close>

definition cow_flags :: "u64 \<Rightarrow> u64" where
  "cow_flags e = (PTE_FLAGS e OR PTE_C) AND NOT PTE_W"

definition child_entry :: "u64 \<Rightarrow> u64" where
  "child_entry e = PA2PTE (PTE2PA e) OR cow_flags e OR PTE_V"

lemma bit_consts:
  "bit (4 :: int) n \<longleftrightarrow> n = 2" "bit (16 :: int) n \<longleftrightarrow> n = 4" "bit (256 :: int) n \<longleftrightarrow> n = 8"
  "bit (0x3FF :: int) n \<longleftrightarrow> n < 10"
  using bit_exp_iff [of 2 n, where 'a = int] bit_exp_iff [of 4 n, where 'a = int]
    bit_exp_iff [of 8 n, where 'a = int] bit_mask_iff [of 10 n, where 'a = int]
  by (simp_all add: mask_eq_exp_minus_1)

lemmas bit_ops = bit_and_iff bit_or_iff bit_not_iff possible_bit_word

lemma cow_flags_code:
  "(if PTE_FLAGS e AND PTE_W \<noteq> 0 then (PTE_FLAGS e OR PTE_C) AND NOT PTE_W else PTE_FLAGS e) OR PTE_C = cow_flags e"
proof (cases "PTE_FLAGS e AND PTE_W = 0")
  case True
  then have "\<not> bit (PTE_FLAGS e AND PTE_W) 2" by simp
  then have "\<not> bit (PTE_FLAGS e) 2" by (simp only: bit_ops, simp add: bit_consts)
  then have "PTE_FLAGS e OR PTE_C = cow_flags e"
    unfolding cow_flags_def by (intro bit_word_eqI) (simp only: bit_ops, auto simp: bit_consts)
  with True show ?thesis by simp
next
  case False
  have "(PTE_FLAGS e OR PTE_C) AND NOT PTE_W OR PTE_C = (PTE_FLAGS e OR PTE_C) AND NOT PTE_W"
    by (intro bit_word_eqI) (simp only: bit_ops, auto simp: bit_consts bit_1_iff)
  with False show ?thesis by (simp add: cow_flags_def)
qed

lemma and_bit_zero: "k < 64 \<Longrightarrow> (e :: u64) AND 2 ^ k = 0 \<longleftrightarrow> \<not> bit e k"
  by (metis and_exp_eq_0_iff_not_bit)

lemma child_entry_flags:
  "child_entry e AND PTE_V \<noteq> 0" "child_entry e AND PTE_C \<noteq> 0" "child_entry e AND PTE_W = 0"
  "child_entry e AND PTE_U = 0 \<longleftrightarrow> e AND PTE_U = 0" "PTE_FLAGS (child_entry e) \<noteq> PTE_V"
  "(cow_flags e OR PTE_V) AND NOT 0x3FF = 0"
proof -
  have b: "bit (child_entry e) n \<longleftrightarrow> n = 0 \<or> n = 8 \<or> (bit e n \<and> n \<noteq> 2)" if "n < 10" for n
  proof -
    have "\<not> bit (PA2PTE (PTE2PA e)) n" using that by (simp add: PA2PTE_def bit_simps)
    then show ?thesis
      using that unfolding child_entry_def cow_flags_def PTE_FLAGS_def
      by (simp only: bit_ops, auto simp: bit_consts bit_1_iff)
  qed
  note ab = and_bit_zero [of 0, simplified] and_bit_zero [of 8, simplified] and_bit_zero [of 2, simplified]
    and_bit_zero [of 4, simplified]
  show "child_entry e AND PTE_V \<noteq> 0" "child_entry e AND PTE_C \<noteq> 0" "child_entry e AND PTE_W = 0"
    "child_entry e AND PTE_U = 0 \<longleftrightarrow> e AND PTE_U = 0"
    using b [of 0] b [of 8] b [of 2] b [of 4] by (simp_all add: ab)
  show "PTE_FLAGS (child_entry e) \<noteq> PTE_V"
  proof
    assume "PTE_FLAGS (child_entry e) = PTE_V"
    then have "bit (PTE_FLAGS (child_entry e)) 8 \<longleftrightarrow> bit (1 :: u64) 8" by simp
    then show False using b [of 8] by (simp add: PTE_FLAGS_def bit_simps bit_consts)
  qed
  show "(cow_flags e OR PTE_V) AND NOT 0x3FF = 0"
    unfolding cow_flags_def PTE_FLAGS_def
    by (intro bit_word_eqI) (simp only: bit_ops, auto simp: bit_consts bit_1_iff)
qed

section \<open>The loop\<close>

text \<open>
  A parent table \<open>No\<close> whose first \<open>n\<close> pages are mapped to counted RAM, and a child table \<open>Nn\<close>
  with nothing there.
\<close>

definition forkable ::
  "'z kmem_scheme \<Rightarrow> u64 \<Rightarrow> nodes \<Rightarrow> u64 \<Rightarrow> nodes \<Rightarrow> u64 list \<Rightarrow> nat \<Rightarrow> bool" where
  "forkable s ro No rn Nn fl n \<longleftrightarrow>
     pt_inv s ro No \<and> pt_inv s rn Nn \<and> kmem_inv s fl \<and> ran No \<inter> ran Nn = {} \<and> n \<le> 0x4000000 \<and>
     (\<forall>v<n. leaf s No v AND PTE_V \<noteq> 0 \<and> ram_page s (PTE2PA (leaf s No v)) \<and>
        PTE2PA (leaf s No v) \<notin> ran No \<union> ran Nn \<and> 1 \<le> refcnt s (pno (PTE2PA (leaf s No v))) \<and>
        leaf s Nn v = 0)"

lemma forkableD:
  assumes "forkable s ro No rn Nn fl n"
  shows "pt_inv s ro No" "pt_inv s rn Nn" "kmem_inv s fl" "ran No \<inter> ran Nn = {}" "n \<le> 0x4000000"
    "\<And>v. v < n \<Longrightarrow> leaf s No v AND PTE_V \<noteq> 0" "\<And>v. v < n \<Longrightarrow> ram_page s (PTE2PA (leaf s No v))"
    "\<And>v. v < n \<Longrightarrow> PTE2PA (leaf s No v) \<notin> ran No" "\<And>v. v < n \<Longrightarrow> PTE2PA (leaf s No v) \<notin> ran Nn"
    "\<And>v. v < n \<Longrightarrow> 1 \<le> refcnt s (pno (PTE2PA (leaf s No v)))" "\<And>v. v < n \<Longrightarrow> leaf s Nn v = 0"
  using assms by (auto simp: forkable_def)

definition copy_range :: "nat \<Rightarrow> (nat \<Rightarrow> u64) \<Rightarrow> (nat \<Rightarrow> u64) \<Rightarrow> nat \<Rightarrow> u64" where
  "copy_range i L L' = (\<lambda>v. if v < i then child_entry (L v) else L' v)"

text \<open>The state after \<open>i\<close> pages, with \<open>j\<close> of them counted.\<close>

definition fork_at ::
  "'z kmem_scheme \<Rightarrow> u64 \<Rightarrow> nodes \<Rightarrow> u64 \<Rightarrow> nodes \<Rightarrow> u64 list \<Rightarrow> nat \<Rightarrow> nat \<Rightarrow>
     'z kmem_scheme \<Rightarrow> nodes \<Rightarrow> u64 list \<Rightarrow> bool" where
  "fork_at s ro No rn Nn fl i j s' N' fl' \<longleftrightarrow>
     pt_inv s' ro No \<and> pt_inv s' rn N' \<and> kmem_inv s' fl' \<and> konly s s' \<and> leaf s' No = leaf s No \<and>
     leaf s' N' = copy_range i (leaf s No) (leaf s Nn) \<and>
     (\<exists>t. fl = t @ fl' \<and> ran N' = ran Nn \<union> set t \<and>
        refcnt s' = (\<lambda>k. if k \<in> pno ` set t then 1 else refcnt s k + refs (leaf s No) 0 j k)) \<and>
     (\<forall>x. (\<forall>p\<in>ran Nn \<union> set fl. x \<notin> page_bytes p) \<longrightarrow> mem s' x = mem s x)"

lemma fork_at_0: "forkable s ro No rn Nn fl n \<Longrightarrow> fork_at s ro No rn Nn fl 0 0 s Nn fl"
  by (auto simp: fork_at_def forkable_def copy_range_def)

lemma refs_snoc: "refs L v0 (Suc n) k = refs L v0 n k + (if pno (PTE2PA (L (v0 + n))) = k then 1 else 0)"
  by (simp add: refs_def)

lemma page_not_taken:
  assumes "forkable s ro No rn Nn fl n" "v < n" "fl = t @ fl'"
  shows "pno (PTE2PA (leaf s No v)) \<notin> pno ` set t" "PTE2PA (leaf s No v) \<notin> set fl"
proof -
  have "refcnt s (pno p) = 0" if "p \<in> set fl" for p using kmem_invD(6) [OF forkableD(3) [OF assms(1)] that] .
  then show "pno (PTE2PA (leaf s No v)) \<notin> pno ` set t" "PTE2PA (leaf s No v) \<notin> set fl"
    using forkableD(10) [OF assms(1,2)] assms(3) by force+
qed

text \<open>Counting a page.\<close>

lemma fork_count:
  assumes "forkable s ro No rn Nn fl n" "fork_at s ro No rn Nn fl i i s' N' fl'" "i < n"
  defines "pa \<equiv> PTE2PA (leaf s No i)"
  obtains s1 where "krefincr pa s' = Inr s1" "fork_at s ro No rn Nn fl i (Suc i) s1 N' fl'"
proof -
  note f = forkableD [OF assms(1)]
  let ?s = "s'\<lparr>refcnt := (refcnt s')(pno pa := refcnt s' (pno pa) + 1)\<rparr>"
  have a: "pt_inv s' ro No" "pt_inv s' rn N'" "kmem_inv s' fl'" "konly s s'" "leaf s' No = leaf s No"
    "leaf s' N' = copy_range i (leaf s No) (leaf s Nn)"
    "\<forall>x. (\<forall>p\<in>ran Nn \<union> set fl. x \<notin> page_bytes p) \<longrightarrow> mem s' x = mem s x"
    using assms(2) by (auto simp: fork_at_def)
  obtain t where t: "fl = t @ fl'" "ran N' = ran Nn \<union> set t"
    "refcnt s' = (\<lambda>k. if k \<in> pno ` set t then 1 else refcnt s k + refs (leaf s No) 0 i k)"
    using assms(2) by (auto simp: fork_at_def)
  have rp: "ram_page s' pa" using f(7) [OF assms(3)] konlyD(6) [OF a(4)] by (simp add: pa_def)
  have nt: "pno pa \<notin> pno ` set t" "pa \<notin> set fl"
    using page_not_taken [OF assms(1,3) t(1)] by (simp_all add: pa_def)
  have cnt: "pno p \<noteq> pno pa" if "ram_page s' p" "p \<noteq> pa" for p
    using pno_inj [of p pa] that rp by (auto simp: ram_page_def)
  have nd: "pa \<notin> ran No" "pa \<notin> ran N'" using f(8,9) [OF assms(3)] t(1,2) nt(2) by (auto simp: pa_def)
  have run: "krefincr pa s' = Inr ?s"
    using kmem_invD(1) [OF a(3)] rp by (intro krefincr_ok) (auto simp: ram_page_def)
  have "pt_inv ?s ro No \<and> leaf ?s No = leaf s' No" "pt_inv ?s rn N' \<and> leaf ?s N' = leaf s' N'"
    using nd cnt node_ram [OF a(1)] node_ram [OF a(2)]
    by (intro conjI pt_inv_frame [OF a(1)] pt_inv_frame [OF a(2)]; force)+
  moreover have "kmem_inv ?s fl'"
    using kmem_invD [OF a(3)] nt(2) t(1) cnt
    by (intro kmem_inv_frame [OF a(3)]) (auto intro!: add_nonneg_nonneg)
  moreover have "refcnt ?s = (\<lambda>k. if k \<in> pno ` set t then 1 else refcnt s k + refs (leaf s No) 0 (Suc i) k)"
    using nt(1) by (auto simp: t(3) refs_snoc pa_def fun_eq_iff)
  moreover have "konly s ?s" by (rule konly_trans [OF a(4)]) simp
  ultimately have "fork_at s ro No rn Nn fl i (Suc i) ?s N' fl'"
    using a(5,6,7) t(1,2) unfolding fork_at_def by auto
  with run that show thesis by blast
qed

lemma fork_at_grows:
  assumes "forkable s ro No rn Nn fl n" "fork_at s ro No rn Nn fl i j s1 N1 fl1"
    and "grows s1 rn N1 fl1 s2 N2 fl2" "leaf s2 N2 = copy_range i' (leaf s No) (leaf s Nn)"
  shows "fork_at s ro No rn Nn fl i' j s2 N2 fl2"
proof -
  note f = forkableD [OF assms(1)] and g = growsD [OF assms(3)]
  have a: "pt_inv s1 ro No" "konly s s1" "leaf s1 No = leaf s No"
    "\<forall>x. (\<forall>p\<in>ran Nn \<union> set fl. x \<notin> page_bytes p) \<longrightarrow> mem s1 x = mem s x"
    using assms(2) by (auto simp: fork_at_def)
  obtain t where t: "fl = t @ fl1" "ran N1 = ran Nn \<union> set t"
    "refcnt s1 = (\<lambda>k. if k \<in> pno ` set t then 1 else refcnt s k + refs (leaf s No) 0 j k)"
    using assms(2) by (auto simp: fork_at_def)
  obtain t' where t': "fl1 = t' @ fl2" "ran N2 = ran N1 \<union> set t'"
    "refcnt s2 = (\<lambda>k. if k \<in> pno ` set t' then 1 else refcnt s1 k)"
    using assms(3) by (auto simp: grows_def)
  have nf: "p \<notin> ran N1 \<union> set fl1" "p \<notin> set fl" if "p \<in> ran No" for p
    using node_not_free [OF f(1,3) that] f(4) that t(1,2) by auto
  have ramN: "ram_page s1 p" if "p \<in> ran N1 \<union> set fl1" for p
    using that node_ram [of s1 rn N1] kmem_invD(5) [of s1 fl1] assms(2) by (auto simp: fork_at_def)
  have "mem s2 x = mem s1 x" if "p \<in> ran No" "x \<in> page_bytes p" for p x
    using page_out [OF that(2) node_ram [OF a(1) that(1)] ramN] nf(1) [OF that(1)] by (intro g(8)) metis
  moreover have "pno p \<notin> pno ` set fl1" if p: "p \<in> ran No" for p
  proof
    assume "pno p \<in> pno ` set fl1"
    then obtain q where q: "q \<in> set fl1" "pno p = pno q" by auto
    then have "p = q"
      using node_ram [OF a(1) p] ramN [of q] by (intro pno_inj) (auto simp: ram_page_def)
    with q(1) nf(1) [OF p] show False by simp
  qed
  ultimately have "pt_inv s2 ro No \<and> leaf s2 No = leaf s1 No"
    using g(9) konlyD(2) [OF g(3)] by (intro conjI pt_inv_frame [OF a(1)]) auto
  moreover have "refcnt s2 = (\<lambda>k. if k \<in> pno ` set (t @ t') then 1 else refcnt s k + refs (leaf s No) 0 j k)"
    by (auto simp: t'(3) t(3) fun_eq_iff)
  moreover have "mem s2 x = mem s x" if x: "\<forall>p\<in>ran Nn \<union> set fl. x \<notin> page_bytes p" for x
    using a(4) x t(1,2) by (subst g(8)) auto
  ultimately show ?thesis
    using g(1,2) a(3) konly_trans [OF a(2) g(3)] assms(4) t(1,2) t'(1,2)
    unfolding fork_at_def by (intro conjI exI [of _ "t @ t'"]) auto
qed

lemma fork_map:
  assumes "forkable s ro No rn Nn fl n" "fork_at s ro No rn Nn fl i (Suc i) s1 N1 fl1" "i < n"
    and "vpn a = i" "4096 dvd unat a" "a < MAXVA"
  obtains r s2 N2 fl2 where
    "mappages rn a PGSIZE (PTE2PA (leaf s No i)) (cow_flags (leaf s No i)) s1 = Inr (r, s2)"
    "r = 0 \<and> fork_at s ro No rn Nn fl (Suc i) (Suc i) s2 N2 fl2 \<and> length fl1 \<le> length fl2 + 2 \<or>
     r = - 1 \<and> fl2 = [] \<and> length fl1 < 2 \<and> fork_at s ro No rn Nn fl i (Suc i) s2 N2 fl2"
proof -
  have f: "pt_inv s1 rn N1" "kmem_inv s1 fl1" "leaf s1 N1 = copy_range i (leaf s No) (leaf s Nn)"
    using assms(2) by (auto simp: fork_at_def)
  have "leaf s1 N1 (vpn a) AND PTE_V = 0"
    using forkableD(11) [OF assms(1,3)] by (simp add: f(3) copy_range_def assms(4))
  from mappages_page [OF f(1,2) assms(6,5) this, of "PTE2PA (leaf s No i)" "cow_flags (leaf s No i)"]
  obtain r s2 N2 fl2 where r:
    "mappages rn a PGSIZE (PTE2PA (leaf s No i)) (cow_flags (leaf s No i)) s1 = Inr (r, s2)"
    "grows s1 rn N1 fl1 s2 N2 fl2"
    "r = 0 \<and> leaf s2 N2 = (leaf s1 N1)(i := child_entry (leaf s No i)) \<and> length fl1 \<le> length fl2 + 2 \<or>
     r = - 1 \<and> fl2 = [] \<and> length fl1 < 2 \<and> leaf s2 N2 = leaf s1 N1"
    by (auto simp: child_entry_def assms(4))
  have "(leaf s1 N1)(i := child_entry (leaf s No i)) = copy_range (Suc i) (leaf s No) (leaf s Nn)"
    by (auto simp: f(3) copy_range_def fun_eq_iff)
  with r(3) f(3) fork_at_grows [OF assms(1,2) r(2)] that [OF r(1)] show thesis by metis
qed

text \<open>
  A failed copy: the child has no mapping left, and the page whose mapping failed stays counted
  once too often.
\<close>

definition fork_failed ::
  "'z kmem_scheme \<Rightarrow> u64 \<Rightarrow> nodes \<Rightarrow> u64 \<Rightarrow> nodes \<Rightarrow> u64 list \<Rightarrow> nat \<Rightarrow>
     'z kmem_scheme \<Rightarrow> nodes \<Rightarrow> u64 list \<Rightarrow> bool" where
  "fork_failed s ro No rn Nn fl i s' N' fl' \<longleftrightarrow>
     pt_inv s' ro No \<and> pt_inv s' rn N' \<and> kmem_inv s' fl' \<and> konly s s' \<and> leaf s' No = leaf s No \<and>
     leaf s' N' = leaf s Nn \<and> ran N' = ran Nn \<union> set fl \<and>
     refcnt s' = (\<lambda>k. if k \<in> pno ` set fl then 1
                      else refcnt s k + (if k = pno (PTE2PA (leaf s No i)) then 1 else 0)) \<and>
     (\<forall>x. (\<forall>p\<in>ran Nn \<union> set fl \<union> set fl'. x \<notin> page_bytes p) \<longrightarrow> mem s' x = mem s x)"

lemma child_page: "ram_page s (PTE2PA e) \<Longrightarrow> PTE2PA (child_entry e) = PTE2PA e"
  using PTE2PA_ram [OF _ child_entry_flags(6), of s "PTE2PA e" e] by (simp add: child_entry_def)

lemma fork_undo:
  assumes "forkable s ro No rn Nn fl n" "fork_at s ro No rn Nn fl i (Suc i) s2 N2 []" "i < n"
  obtains s3 fl3 where "uvmunmap rn 0 (of_nat i) True s2 = Inr s3" "fork_failed s ro No rn Nn fl i s3 N2 fl3"
proof -
  note f = forkableD [OF assms(1)]
  have a: "pt_inv s2 ro No" "pt_inv s2 rn N2" "kmem_inv s2 []" "konly s s2" "leaf s2 No = leaf s No"
    "leaf s2 N2 = copy_range i (leaf s No) (leaf s Nn)" "ran N2 = ran Nn \<union> set fl"
    "refcnt s2 = (\<lambda>k. if k \<in> pno ` set fl then 1 else refcnt s k + refs (leaf s No) 0 (Suc i) k)"
    "\<forall>x. (\<forall>p\<in>ran Nn \<union> set fl. x \<notin> page_bytes p) \<longrightarrow> mem s2 x = mem s x"
    using assms(2) by (auto simp: fork_at_def)
  have i: "i \<le> 0x4000000" using assms(3) f(5) by simp
  have pg: "PTE2PA (leaf s2 N2 v) = PTE2PA (leaf s No v)" if "v < i" for v
    using child_page [OF f(7), of v] that assms(3) by (simp add: a(6) copy_range_def)
  have rs: "refs (leaf s2 N2) 0 i = refs (leaf s No) 0 i" by (rule refs_cong) (simp add: pg)
  have nt: "pno (PTE2PA (leaf s No v)) \<notin> pno ` set fl" "PTE2PA (leaf s No v) \<notin> set fl" if "v < n" for v
    using page_not_taken [OF assms(1) that, of fl "[]"] by auto
  have rz: "refs (leaf s No) 0 j k = 0" if "k \<in> pno ` set fl" "j \<le> n" for j k
  proof (rule refs_zero)
    fix v assume "v < 0 + j"
    with nt(1) [of v] that show "pno (PTE2PA (leaf s No v)) \<noteq> k" by auto
  qed
  have "unmappable s2 N2 True (vpn 0) i"
  proof -
    have "refs (leaf s2 N2) 0 i k \<le> refcnt s2 k" for k
      using rz [of k i] assms(3) kmem_invD(7) [OF f(3), of k] by (auto simp: rs a(8) refs_snoc)
    moreover have "leaf s2 N2 v = child_entry (leaf s No v)" if "v < i" for v
      using that by (simp add: a(6) copy_range_def)
    ultimately show ?thesis
      using pg f(7,9) nt(2) assms(3) child_entry_flags(1,5) konlyD(6) [OF a(4)]
      by (auto simp: unmappable_def vpn_def a(7))
  qed
  from uvmunmap_loop_spec [OF a(2,3) _ this] i obtain s3 fl3 where u:
    "uvmunmap_loop rn 0 (0 + PGSIZE * of_nat i) True s2 = Inr s3" "pt_inv s3 rn N2" "kmem_inv s3 fl3" "konly s2 s3"
    "leaf s3 N2 = unmap_range 0 i (leaf s2 N2)" "refcnt s3 = (\<lambda>k. refcnt s2 k - refs (leaf s2 N2) 0 i k)"
    "\<forall>x. (\<forall>p\<in>ran N2 \<union> set fl3. x \<notin> page_bytes p) \<longrightarrow> mem s3 x = mem s2 x"
    by (auto simp: vpn_def)
  have rc: "refcnt s3 = (\<lambda>k. if k \<in> pno ` set fl then 1
      else refcnt s k + (if k = pno (PTE2PA (leaf s No i)) then 1 else 0))"
    using rz [of _ i] assms(3) by (auto simp: fun_eq_iff u(6) rs a(8) refs_snoc)
  have old: "refcnt s3 (pno p) = refcnt s2 (pno p)" "p \<notin> ran N2 \<union> set fl3" if p: "p \<in> ran No" for p
  proof -
    have "pno (PTE2PA (leaf s No v)) \<noteq> pno p" if "v < n" for v
      using pno_inj [of "PTE2PA (leaf s No v)" p] f(7,8) [OF that] node_ram [OF f(1) p] p by (auto simp: ram_page_def)
    then have "refs (leaf s No) 0 i (pno p) = 0" using assms(3) by (intro refs_zero) auto
    then show 1: "refcnt s3 (pno p) = refcnt s2 (pno p)" by (simp add: u(6) rs)
    have "refcnt s2 (pno p) = 1" using pt_invD(6) [OF a(1)] p by (auto simp: ran_def)
    then have "p \<notin> set fl3" using kmem_invD(6) [OF u(3), of p] 1 by auto
    then show "p \<notin> ran N2 \<union> set fl3" using f(4) node_not_free [OF f(1,3) p] p a(7) by auto
  qed
  have "mem s3 x = mem s2 x" if p: "p \<in> ran No" "x \<in> page_bytes p" for p x
  proof -
    have "x \<notin> page_bytes q" if "q \<in> ran N2 \<union> set fl3" for q
    proof (rule page_out [OF p(2)])
      show "ram_page s3 p" using node_ram [OF a(1) p(1)] konlyD(6) [OF u(4)] by simp
      show "ram_page s3 q" using that node_ram [OF u(2), of q] kmem_invD(5) [OF u(3), of q] by auto
    qed (use old(2) [OF p(1)] that in auto)
    with u(7) show ?thesis by blast
  qed
  then have "pt_inv s3 ro No \<and> leaf s3 No = leaf s2 No"
    using old(1) konlyD(2) [OF u(4)] by (intro conjI pt_inv_frame [OF a(1)]) auto
  moreover have "leaf s3 N2 = leaf s Nn"
    using f(11) assms(3) by (auto simp: u(5) a(6) unmap_range_def copy_range_def fun_eq_iff)
  moreover have "mem s3 x = mem s x" if "\<forall>p\<in>ran Nn \<union> set fl \<union> set fl3. x \<notin> page_bytes p" for x
    using a(7,9) u(7) that by auto
  ultimately have "fork_failed s ro No rn Nn fl i s3 N2 fl3"
    using u(2,3) a(5,7) konly_trans [OF a(4) u(4)] rc by (simp add: fork_failed_def)
  moreover have "uvmunmap rn 0 (of_nat i) True s2 = Inr s3" using u(1) by (simp add: uvmunmap_def mult.commute)
  ultimately show thesis by (rule that [rotated])
qed

lemma uvmcopy_loop_spec:
  assumes "forkable s ro No rn Nn fl (pages_of sz)" "fork_at s ro No rn Nn fl i i s1 N1 fl1" "i \<le> pages_of sz"
  shows "\<exists>r s' N' fl' j. uvmcopy_loop ro rn sz (PGSIZE * of_nat i) s1 = Inr (r, s') \<and>
    (r = 0 \<and> fork_at s ro No rn Nn fl (pages_of sz) (pages_of sz) s' N' fl' \<or>
     r = - 1 \<and> j < pages_of sz \<and> fork_failed s ro No rn Nn fl j s' N' fl' \<and> length fl1 < 2 * (pages_of sz - i))"
  using assms(2,3)
proof (induction "pages_of sz - i" arbitrary: i s1 N1 fl1)
  case 0
  then have "i = pages_of sz" by simp
  moreover from this have "\<not> PGSIZE * of_nat i < sz"
    using pages_of_less [of i sz] unat_va [of i] forkableD(5) [OF assms(1)] by (simp add: word_less_nat_alt)
  ultimately show ?case using 0(2) by (subst uvmcopy_loop.simps) auto
next
  case (Suc m)
  note f = forkableD [OF assms(1)]
  have i: "i < pages_of sz" "i \<le> 0x4000000" "Suc i \<le> 0x4000000" using Suc(2) f(5) by auto
  let ?a = "PGSIZE * of_nat i" and ?e = "leaf s No i"
  have nx: "?a + PGSIZE = PGSIZE * of_nat (Suc i)" by (simp add: algebra_simps)
  have a: "?a < sz" "?a < MAXVA" "vpn ?a = i" "4096 dvd unat ?a" "?a div PGSIZE = of_nat i"
    using pages_of_less [of i sz] unat_va [OF i(2)] vpn_va [OF i(2)] va_div [OF i(2)] i
    by (simp_all add: word_less_nat_alt)
  have s1: "pt_inv s1 ro No" "leaf s1 No = leaf s No" using Suc(3) by (auto simp: fork_at_def)
  have V: "?e AND PTE_V \<noteq> 0" by (rule f(6) [OF i(1)])
  then obtain p where p: "No (vpath i) = Some p"
    by (cases "No (vpath i)") (auto simp: leaf_def leaf_addr_def split: if_splits)
  have nz: "slot No ?a \<noteq> 0"
    using Suc(3) p by (intro slot_nonzero [OF s1(1) kmem_invD(2)]) (auto simp: fork_at_def a(3))
  have ld: "ldpte s1 (slot No ?a) = ?e" using leaf_slot [OF s1(1) nz a(2)] by (simp add: s1(2) a(3))
  obtain s2 where s2: "krefincr (PTE2PA ?e) s1 = Inr s2" "fork_at s ro No rn Nn fl i (Suc i) s2 N1 fl1"
    using fork_count [OF assms(1) Suc(3) i(1)] by blast
  obtain r s3 N3 fl3 where r: "mappages rn ?a PGSIZE (PTE2PA ?e) (cow_flags ?e) s2 = Inr (r, s3)"
    "r = 0 \<and> fork_at s ro No rn Nn fl (Suc i) (Suc i) s3 N3 fl3 \<and> length fl1 \<le> length fl3 + 2 \<or>
     r = - 1 \<and> fl3 = [] \<and> length fl1 < 2 \<and> fork_at s ro No rn Nn fl i (Suc i) s3 N3 fl3"
    using fork_map [OF assms(1) s2(2) i(1) a(3,4,2)] by blast
  have run: "uvmcopy_loop ro rn sz ?a s1 =
      (if r \<noteq> 0 then bindR (uvmunmap rn 0 (of_nat i) True s3) (\<lambda>s. Inr (- 1, s))
       else uvmcopy_loop ro rn sz (PGSIZE * of_nat (Suc i)) s3)"
    unfolding uvmcopy_loop.simps [of ro rn sz ?a s1] Let_def cow_flags_code
    using a(1,5) nx walk_lookup [OF s1(1) a(2)] nz ld V s2(1) r(1) by (simp del: of_nat_Suc)
  show ?case
  proof (cases "r = 0")
    case True
    have m: "m = pages_of sz - Suc i" "Suc i \<le> pages_of sz" using Suc(2) by auto
    with Suc(1) [of "Suc i" s3 N3 fl3] r(2) True run obtain r' s' N' fl' j where IH:
      "uvmcopy_loop ro rn sz ?a s1 = Inr (r', s')"
      "r' = 0 \<and> fork_at s ro No rn Nn fl (pages_of sz) (pages_of sz) s' N' fl' \<or>
       r' = - 1 \<and> j < pages_of sz \<and> fork_failed s ro No rn Nn fl j s' N' fl' \<and> length fl3 < 2 * (pages_of sz - Suc i)"
      by auto
    have "length fl1 < 2 * (pages_of sz - i)" if "length fl3 < 2 * (pages_of sz - Suc i)"
      using that r(2) True m(2) by auto
    with IH show ?thesis by blast
  next
    case False
    with r(2) fork_undo [OF assms(1) _ i(1)] obtain s4 fl4 where
      "uvmunmap rn 0 (of_nat i) True s3 = Inr s4" "fork_failed s ro No rn Nn fl i s4 N3 fl4" by metis
    moreover have "length fl1 < 2 * (pages_of sz - i)" using r(2) False i(1) by auto
    ultimately show ?thesis using False run i(1) by auto
  qed
qed

lemma uvmcopy_eq:
  assumes "forkable s ro No rn Nn fl (pages_of sz)"
  shows "\<exists>r s' N' fl' j. uvmcopy ro rn sz s = Inr (r, s') \<and>
    (r = 0 \<and> fork_at s ro No rn Nn fl (pages_of sz) (pages_of sz) s' N' fl' \<or>
     r = - 1 \<and> j < pages_of sz \<and> fork_failed s ro No rn Nn fl j s' N' fl' \<and> length fl < 2 * pages_of sz)"
  using uvmcopy_loop_spec [OF assms fork_at_0 [OF assms]] by (simp add: uvmcopy_def)

section \<open>Who sees what\<close>

text \<open>The situation of \<open>fork\<close>: all user pages of the parent are copied, the child has none yet.\<close>

definition fork_user ::
  "'z kmem_scheme \<Rightarrow> u64 \<Rightarrow> nodes \<Rightarrow> u64 \<Rightarrow> nodes \<Rightarrow> u64 list \<Rightarrow> nat \<Rightarrow> bool" where
  "fork_user s ro No rn Nn fl n \<longleftrightarrow>
     forkable s ro No rn Nn fl n \<and> user_inv s No \<and> (\<forall>v. upage s Nn v = 0) \<and> (\<forall>v\<ge>n. upage s No v = 0)"

lemma fork_userD:
  assumes "fork_user s ro No rn Nn fl n"
  shows "forkable s ro No rn Nn fl n" "user_inv s No" "\<And>v. upage s Nn v = 0" "\<And>v. n \<le> v \<Longrightarrow> upage s No v = 0"
  using assms by (auto simp: fork_user_def)

lemma fork_upage:
  assumes "fork_user s ro No rn Nn fl n" "fork_at s ro No rn Nn fl n j s' N' fl'"
  shows "upage s' N' = upage s No" "upage s' No = upage s No"
proof -
  note u = fork_userD [OF assms(1)]
  have l: "leaf s' No = leaf s No" "leaf s' N' = copy_range n (leaf s No) (leaf s Nn)"
    using assms(2) by (auto simp: fork_at_def)
  show "upage s' No = upage s No" by (rule upage_cong [OF l(1)])
  show "upage s' N' = upage s No"
  proof
    fix v
    show "upage s' N' v = upage s No v"
    proof (cases "v < n")
      case True
      then have "leaf s' N' v = child_entry (leaf s No v)" by (simp add: l(2) copy_range_def)
      then show ?thesis
        using forkableD(6) [OF u(1) True] child_page [OF forkableD(7) [OF u(1) True]]
          child_entry_flags(1,4) [of "leaf s No v"] by (simp add: upage_def)
    next
      case False
      then have "leaf s' N' v = leaf s Nn v" by (simp add: l(2) copy_range_def)
      then have "upage s' N' v = upage s Nn v" by (simp add: upage_def)
      with u(3) [of v] u(4) [of v] False show ?thesis by simp
    qed
  qed
qed

lemma upage_in_range: "fork_user s ro No rn Nn fl n \<Longrightarrow> upage s No v \<noteq> 0 \<Longrightarrow> v < n \<and> upage s No v = PTE2PA (leaf s No v)"
  using fork_userD(4) [of s ro No rn Nn fl n v] by (auto simp: upage_def not_less [symmetric] split: if_splits)

lemma card_le_refs:
  assumes "\<And>v. upage s No v \<noteq> 0 \<Longrightarrow> v < n \<and> upage s No v = PTE2PA (leaf s No v)" "p \<noteq> 0"
  shows "int (card {v. upage s No v = p}) \<le> refs (leaf s No) 0 n (pno p)"
proof -
  let ?P = "\<lambda>v. pno (PTE2PA (leaf s No v)) = pno p"
  have "{v. upage s No v = p} \<subseteq> set (filter ?P [0..<n])" using assms by force
  then have "card {v. upage s No v = p} \<le> card (set (filter ?P [0..<n]))" by (rule card_mono [rotated]) simp
  also have "\<dots> = length (filter ?P [0..<n])" by (rule distinct_card) simp
  finally show ?thesis by (simp add: refs_def)
qed

lemma fork_refcnt:
  assumes "forkable s ro No rn Nn fl n" "fork_at s ro No rn Nn fl i j s' N' fl'" "v < n"
  shows "refcnt s' (pno (PTE2PA (leaf s No v))) =
    refcnt s (pno (PTE2PA (leaf s No v))) + refs (leaf s No) 0 j (pno (PTE2PA (leaf s No v)))"
proof -
  obtain t where t: "fl = t @ fl'"
    "refcnt s' = (\<lambda>k. if k \<in> pno ` set t then 1 else refcnt s k + refs (leaf s No) 0 j k)"
    using assms(2) by (auto simp: fork_at_def)
  then show ?thesis using page_not_taken(1) [OF assms(1,3) t(1)] by simp
qed

lemma fork_child_inv:
  assumes "fork_user s ro No rn Nn fl n" "fork_at s ro No rn Nn fl n n s' N' fl'"
  shows "user_inv s' N'" "wpages s' N' = {}" "user_inv s' No"
proof -
  note u = fork_userD [OF assms(1)] and up = fork_upage [OF assms]
  note r = upage_in_range [OF assms(1)]
  have a: "konly s s'" "leaf s' No = leaf s No" "leaf s' N' = copy_range n (leaf s No) (leaf s Nn)"
    "ran N' \<subseteq> ran Nn \<union> set fl" "kmem_inv s' fl'"
    using assms(2) by (auto simp: fork_at_def)
  have C: "leaf s' N' v AND PTE_C \<noteq> 0" if "upage s' N' v \<noteq> 0" for v
    using that r [of v] up(1) child_entry_flags(2) by (simp add: a(3) copy_range_def)
  then show "wpages s' N' = {}" by (auto simp: wpages_def)
  have nN: "upage s No v \<notin> ran N'" if "upage s No v \<noteq> 0" for v
    using r [OF that] forkableD(9) [OF u(1)] page_not_taken(2) [OF u(1), of v fl "[]"] a(4) by auto
  have cnt: "int (card {v. upage s No v = p}) \<le> refcnt s' (pno p)" if "p \<noteq> 0" for p
  proof (cases "{v. upage s No v = p} = {}")
    case True
    have "0 \<le> refcnt s' (pno p)" by (rule kmem_invD(7) [OF a(5)])
    then show ?thesis unfolding True by simp
  next
    case False
    then obtain v where v: "upage s No v = p" by auto
    with r [of v] that have "v < n" "p = PTE2PA (leaf s No v)" by auto
    with fork_refcnt [OF u(1) assms(2), of v] card_le_refs [OF r that] forkableD(10) [OF u(1), of v]
    show ?thesis by simp
  qed
  show "user_inv s' N'"
    using user_invD(1) [OF u(2)] nN cnt C unfolding user_inv_def up konlyD(6) [OF a(1)] by auto
  show "user_inv s' No"
    using user_invD(1,2,3) [OF u(2)] cnt unfolding user_inv_def up konlyD(6) [OF a(1)] a(2) by auto
qed

lemma fork_page_mem:
  assumes "fork_user s ro No rn Nn fl n" "fork_at s ro No rn Nn fl n j s' N' fl'" "upage s No v \<noteq> 0" "i < 4096"
  shows "q \<in> ran Nn \<union> set fl \<union> ran No \<Longrightarrow> unat (upage s No v) + i \<notin> page_bytes q"
    and "mem s' (unat (upage s No v) + i) = mem s (unat (upage s No v) + i)"
proof -
  note u = fork_userD [OF assms(1)] and r = upage_in_range [OF assms(1,3)]
  have p: "ram_page s (upage s No v)" "upage s No v \<notin> ran Nn \<union> set fl \<union> ran No"
    using r forkableD(7-9) [OF u(1)] page_not_taken(2) [OF u(1), of v fl "[]"] by auto
  have out: "unat (upage s No v) + i \<notin> page_bytes q" if q: "q \<in> ran Nn \<union> set fl \<union> ran No" for q
    by (rule page_out [OF page_bytes_offset [OF assms(4)] p(1)])
      (use q p(2) node_ram [OF forkableD(1) [OF u(1)]] node_ram [OF forkableD(2) [OF u(1)]]
        kmem_invD(5) [OF forkableD(3) [OF u(1)]] in auto)
  then show "q \<in> ran Nn \<union> set fl \<union> ran No \<Longrightarrow> unat (upage s No v) + i \<notin> page_bytes q" .
  show "mem s' (unat (upage s No v) + i) = mem s (unat (upage s No v) + i)"
    using assms(2) out by (auto simp: fork_at_def)
qed

lemma copyin_cong:
  assumes "pt_inv s root N" "pt_inv s' root' N'" "KERNBASE \<le> kend s" "KERNBASE \<le> kend s'"
    and "\<And>v. upage s' N' v = 0 \<longleftrightarrow> upage s N v = 0"
    and "\<And>a. upage s N (a div 4096) \<noteq> 0 \<Longrightarrow> ubyte s' N' a = ubyte s N a"
  shows "copyin root' va len s' = copyin root va len s"
proof -
  have "readable s' N' = readable s N" using assms(5) by (auto simp: fun_eq_iff readable_def)
  then have rl: "rlen s' N' = rlen s N" by (intro ext) (simp add: rlen_def)
  have "ubytes s' N' (unat va) (rlen s N (unat va) len) = ubytes s N (unat va) (rlen s N (unat va) len)"
  proof (rule nth_equalityI)
    fix i assume "i < length (ubytes s' N' (unat va) (rlen s N (unat va) len))"
    then have i: "i < rlen s N (unat va) len" by simp
    then have "readable s N (unat va + i)"
      unfolding rlen_def by (metis add_less_cancel_left length_takeWhile_le length_upt less_le_trans
          nth_mem nth_upt set_takeWhileD takeWhile_nth diff_add_inverse)
    then have "ubyte s' N' (unat va + i) = ubyte s N (unat va + i)" using assms(6) by (simp add: readable_def)
    then show "ubytes s' N' (unat va) (rlen s N (unat va) len) ! i = ubytes s N (unat va) (rlen s N (unat va) len) ! i"
      using i by (simp add: ubytes_def)
  qed simp
  then show ?thesis by (simp add: copyin_eq [OF assms(1,3)] copyin_eq [OF assms(2,4)] rl)
qed

lemma fork_at_kend:
  assumes "fork_at s ro No rn Nn fl i j s' N' fl'"
  shows "kend s' = kend s \<and> KERNBASE \<le> kend s'"
proof -
  have "konly s s'" "kmem_inv s' fl'" using assms by (auto simp: fork_at_def)
  then show ?thesis using konlyD(2) [of s s'] kmem_invD(2) [of s' fl'] by auto
qed

text \<open>The copy is exact, for the child and for the parent.\<close>

lemma fork_copyin:
  assumes "fork_user s ro No rn Nn fl n" "fork_at s ro No rn Nn fl n n s' N' fl'"
  shows "copyin rn va len s' = copyin ro va len s" "copyin ro va len s' = copyin ro va len s"
proof -
  note u = fork_userD [OF assms(1)] and up = fork_upage [OF assms] and ke = fork_at_kend [OF assms(2)]
  have kb: "KERNBASE \<le> kend s" using ke by auto
  have pt: "pt_inv s' rn N'" "pt_inv s' ro No" using assms(2) by (auto simp: fork_at_def)
  have "ubyte s' N' a = ubyte s No a \<and> ubyte s' No a = ubyte s No a" if "upage s No (a div 4096) \<noteq> 0" for a
    using fork_page_mem(2) [OF assms that, of "a mod 4096"] by (simp add: ubyte_def up)
  then show "copyin rn va len s' = copyin ro va len s" "copyin ro va len s' = copyin ro va len s"
    using up ke kb copyin_cong [OF forkableD(1) [OF u(1)] pt(1)] copyin_cong [OF forkableD(1) [OF u(1)] pt(2)]
    by simp_all
qed

lemma child_write_isolated:
  assumes "fork_user s ro No rn Nn fl n" "fork_at s ro No rn Nn fl n n s1 N1 fl1"
    and "wrote s1 rn N1 fl1 s2 fl2"
  shows "copyin ro va len s2 = copyin ro va len s"
proof -
  note u = fork_userD [OF assms(1)] and up = fork_upage [OF assms(1,2)] and w = wroteD [OF assms(3)]
  have a: "pt_inv s1 ro No" "pt_inv s1 rn N1" "kmem_inv s1 fl1" "ran N1 \<union> set fl1 \<subseteq> ran Nn \<union> set fl"
    using assms(2) by (auto simp: fork_at_def)
  have fr: "mem s2 x = mem s1 x" if "\<And>p. p \<in> ran N1 \<union> set fl1 \<Longrightarrow> x \<notin> page_bytes p" for x
    using w(10) [of x] that fork_child_inv(2) [OF assms(1,2)] by auto
  have nd: "p \<notin> ran Nn \<union> set fl" if "p \<in> ran No" for p
    using forkableD(4) [OF u(1)] node_not_free [OF forkableD(1,3) [OF u(1)] that] that by auto
  have ram: "ram_page s1 p" if "p \<in> ran N1 \<union> set fl1" for p
    using that node_ram [OF a(2)] kmem_invD(5) [OF a(3)] by auto
  have "mem s2 x = mem s1 x" if "p \<in> ran No" "x \<in> page_bytes p" for p x
    using page_out [OF that(2) node_ram [OF a(1) that(1)] ram] nd [OF that(1)] a(4) by (intro fr) blast
  moreover have "refcnt s2 (pno p) = refcnt s1 (pno p)" if p: "p \<in> ran No" for p
  proof (rule w(9), rule notI)
    assume "pno p \<in> pno ` (range (upage s1 N1) \<union> set fl1)"
    then obtain q where q: "q \<in> range (upage s1 N1) \<union> set fl1" "pno p = pno q" by auto
    have "4096 dvd unat q" using q(1) upage_aligned ram by (auto simp: ram_page_def)
    then have "p = q" using node_ram [OF a(1) p] q(2) by (intro pno_inj) (auto simp: ram_page_def)
    moreover have "p \<notin> set fl1" using nd [OF p] a(4) by auto
    ultimately obtain v where v: "upage s No v = p" using q(1) up by auto
    moreover have "p \<noteq> 0" using ram_page_nonzero [OF _ node_ram [OF a(1) p]] fork_at_kend [OF assms(2)] by auto
    ultimately show False using user_invD(2) [OF u(2), of v] p by auto
  qed
  ultimately have pt2: "pt_inv s2 ro No \<and> leaf s2 No = leaf s1 No"
    using konlyD(2) [OF w(4)] by (intro conjI pt_inv_frame [OF a(1)]) auto
  then have up2: "upage s2 No = upage s1 No" using upage_cong by blast
  have "ubyte s2 No x = ubyte s1 No x" if "upage s1 No (x div 4096) \<noteq> 0" for x
    unfolding ubyte_def up2 up(2)
    using fork_page_mem(1) [OF assms(1,2), of "x div 4096" "x mod 4096"] that a(4) up(2) by (intro fr) auto
  then have "copyin ro va len s2 = copyin ro va len s1"
    using pt2 up2 fork_at_kend [OF assms(2)] konlyD(2) [OF w(4)] by (intro copyin_cong [OF a(1)]) auto
  with fork_copyin(2) [OF assms(1,2)] show ?thesis by simp
qed

lemma copyout_private:
  assumes "pt_inv s root N" "kmem_inv s fl" "user_inv s N" "va < MAXVA" "4096 \<le> unat va"
    and "upage s N (vpn va) \<noteq> 0" "leaf s N (vpn va) AND PTE_C = 0" "src \<noteq> []" "length src \<le> page_rest va"
  shows "copyout root va src s =
    Inr (0, s\<lparr>mem := store_bytes (mem s) (unat (upage s N (vpn va) + (va - PGROUNDDOWN va))) src\<rparr>)"
proof -
  let ?va0 = "PGROUNDDOWN va"
  have lt: "?va0 < MAXVA" using assms(4) PGROUNDDOWN_less_MAXVA by simp
  have "?va0 \<noteq> 0" using assms(5) by (simp add: unat_eq_0 [symmetric] unat_PGROUNDDOWN div_eq_0_iff)
  then have c: "cowalloc root ?va0 s = Inr (0, s)"
    using cowalloc_eq [OF assms(1-3), of ?va0] lt assms(6,7) by simp
  have w: "walkaddr root ?va0 s = Inr (upage s N (vpn va))"
    using walkaddr_eq [OF assms(1) kmem_invD(2) [OF assms(2)], of ?va0] lt by simp
  have "\<not> MAXVA < ?va0" using lt by simp
  moreover have "min (page_rest va) (length src) = length src" using assms(9) by simp
  ultimately show ?thesis
    using c w assms(6,8) by (subst copyout.simps) (simp add: Let_def copyout.simps [of _ _ "[]"])
qed

lemma parent_write_shared:
  assumes "fork_user s ro No rn Nn fl n" "fork_at s ro No rn Nn fl n n s1 N1 fl1"
    and "va < MAXVA" "4096 \<le> unat va" "upage s No (vpn va) \<noteq> 0" "leaf s No (vpn va) AND PTE_C = 0"
    and "src \<noteq> []" "length src \<le> page_rest va"
  shows "\<exists>s2. copyout ro va src s1 = Inr (0, s2) \<and> copyin rn va (length src) s2 = Inr (0, src)"
proof -
  note u = fork_userD [OF assms(1)] and up = fork_upage [OF assms(1,2)] and ke = fork_at_kend [OF assms(2)]
  have a: "pt_inv s1 ro No" "pt_inv s1 rn N1" "kmem_inv s1 fl1" "leaf s1 No = leaf s No"
    "ran N1 \<union> set fl1 \<subseteq> ran Nn \<union> set fl"
    using assms(2) by (auto simp: fork_at_def)
  let ?p = "upage s No (vpn va)" and ?o = "unat va mod 4096"
  let ?s = "s1\<lparr>mem := store_bytes (mem s1) (unat (?p + (va - PGROUNDDOWN va))) src\<rparr>"
  have run: "copyout ro va src s1 = Inr (0, ?s)"
    using copyout_private [OF a(1,3) fork_child_inv(3) [OF assms(1,2)] assms(3,4) _ _ assms(7,8)]
      up(2) a(4) assms(5,6) by simp
  have pa: "unat (?p + (va - PGROUNDDOWN va)) = unat ?p + ?o" by (rule page_addr [OF upage_aligned])
  have fit: "?o + length src \<le> 4096" using assms(8) by (simp add: page_rest_eq)
  have "mem ?s x = mem s1 x" if "q \<in> ran N1" "x \<in> page_bytes q" for q x
  proof -
    have ne: "x \<noteq> unat ?p + i" if "i < 4096" for i
      using fork_page_mem(1) [OF assms(1,2,5) that, of q] a(5) \<open>q \<in> ran N1\<close> \<open>x \<in> page_bytes q\<close> by auto
    have "x < unat ?p + ?o \<or> unat ?p + ?o + length src \<le> x"
    proof (rule ccontr)
      assume "\<not> ?thesis"
      then have "x - unat ?p < 4096" "x = unat ?p + (x - unat ?p)" using fit by linarith+
      with ne show False by blast
    qed
    then show ?thesis unfolding pa by (simp add: store_bytes_other)
  qed
  then have pt: "pt_inv ?s rn N1 \<and> leaf ?s N1 = leaf s1 N1"
    by (intro conjI pt_inv_frame [OF a(2)]) auto
  then have upc: "upage ?s N1 = upage s No" using upage_cong up(1) by metis
  have full: "rlen ?s N1 (unat va) (length src) = length src"
    using page_readable [of ?s N1 va] assms(3,5,8) by (simp add: rlen_full upc)
  have "ubytes ?s N1 (unat va) (length src) = src"
  proof (rule nth_equalityI)
    fix i assume "i < length (ubytes ?s N1 (unat va) (length src))"
    then have i: "i < length src" by simp
    then have "ubyte ?s N1 (unat va + i) = mem ?s (unat ?p + (?o + i))"
      using same_page [of i va] assms(8) by (simp add: ubyte_def upc)
    also have "\<dots> = src ! i" using i unfolding pa by (simp add: store_bytes_def)
    finally show "ubytes ?s N1 (unat va) (length src) ! i = src ! i" using i by (simp add: ubytes_def)
  qed simp
  then have "copyin rn va (length src) ?s = Inr (0, src)"
    using copyin_eq [of ?s rn N1 va "length src"] pt conjunct2 [OF ke] full by simp
  with run show ?thesis by blast
qed

end
