(* ===== verification/UserSpace.thy ===== *)
theory UserSpace
  imports UserMem
begin

text \<open>
  Creating, growing, shrinking and freeing a user address space: \<open>uvmcreate\<close>, \<open>uvmalloc\<close>,
  \<open>uvmdealloc\<close>, \<open>freewalk\<close> and \<open>uvmfree\<close> of \<^verbatim>\<open>kernel/vm.c\<close>.
\<close>

section \<open>An empty address space\<close>

lemma uvmcreate_eq:
  assumes "kmem_inv s (p # fl)"
  defines "s' \<equiv> zero_page p (kalloc_post p s)"
  shows "uvmcreate s = Inr (p, s')" "pt_inv s' p [[] \<mapsto> p]" "kmem_inv s' fl" "leaf s' [[] \<mapsto> p] = (\<lambda>_. 0)" "konly s s'"
    "refcnt s' = (refcnt s)(pno p := 1)" "x \<notin> page_bytes p \<Longrightarrow> mem s' x = mem s x"
proof -
  have rp: "ram_page s p" "p \<notin> set fl" using kmem_invD(4,5) [OF assms(1)] by auto
  have "p \<noteq> 0" by (rule ram_page_nonzero [OF kmem_invD(2) [OF assms(1)] rp(1)])
  then show "uvmcreate s = Inr (p, s')" using kalloc_cons [OF assms(1)] by (simp add: uvmcreate_def s'_def)
  show "kmem_inv s' fl" unfolding s'_def
    using kalloc_post_inv [OF assms(1)] rp by (intro kmem_inv_zero_page) (auto simp: ram_page_def)
  show "konly s s'" unfolding s'_def by (rule konly_trans [OF konly_intros(5,4)])
  show "refcnt s' = (refcnt s)(pno p := 1)" by (simp add: s'_def)
  show "x \<notin> page_bytes p \<Longrightarrow> mem s' x = mem s x" unfolding s'_def by (rule zero_fresh_mem)
  have "ld64 (mem s') (unat p + 8 * i) = 0" if "i < 512" for i
    unfolding s'_def by (rule loadw_zeroI, rule zero_fresh_mem(2)) (use that in \<open>auto simp: page_bytes_def\<close>)
  then show "pt_inv s' p [[] \<mapsto> p]"
    using rp(1) by (auto simp: pt_inv_def node_entry_def s'_def ram_page_def split: if_splits)
  show "leaf s' [[] \<mapsto> p] = (\<lambda>_. 0)" by (auto simp: leaf_def leaf_addr_def vpath_def fun_eq_iff)
qed

section \<open>Shrinking\<close>

lemma npages_cast:
  assumes "n \<le> 0x4000000"
  shows "scast (ucast (of_nat n :: u64) :: u32) = (of_nat n :: u64)"
proof -
  have "uint (of_nat n :: u64) = int n" using assms by (simp add: unsigned_of_nat take_bit_nat_eq_self)
  then have "uint (ucast (of_nat n :: u64) :: u32) = int n"
    using assms by (simp add: unsigned_ucast_eq take_bit_int_eq_self)
  then have "sint (ucast (of_nat n :: u64) :: u32) = int n"
    using assms by (simp add: sint_uint signed_take_bit_int_eq_self)
  then show ?thesis by (simp add: scast_eq)
qed

lemma uvmdealloc_eq:
  assumes "unat oldsz \<le> 0x4000000000"
  shows "uvmdealloc root oldsz newsz s =
    (if oldsz \<le> newsz then Inr (oldsz, s)
     else bindR (uvmunmap_loop root (PGSIZE * of_nat (pages_of newsz)) (PGSIZE * of_nat (pages_of oldsz)) True s)
            (\<lambda>s. Inr (newsz, s)))"
proof (cases "oldsz \<le> newsz")
  case False
  then have lt: "unat newsz < unat oldsz" by (simp add: word_le_nat_alt)
  note o = PGROUNDUP_va [OF assms] and n = PGROUNDUP_va [of newsz]
  have nn: "PGROUNDUP newsz = PGSIZE * of_nat (pages_of newsz)" "pages_of newsz \<le> 0x4000000" using n assms lt by auto
  have le: "pages_of newsz \<le> pages_of oldsz" using lt by (simp add: pages_of_def div_le_mono)
  have cmp: "PGROUNDUP newsz < PGROUNDUP oldsz \<longleftrightarrow> pages_of newsz < pages_of oldsz"
    using unat_va [OF o(2)] unat_va [OF nn(2)] by (simp add: o(1) nn(1) word_less_nat_alt)
  let ?d = "pages_of oldsz - pages_of newsz"
  have d: "PGSIZE * of_nat (pages_of oldsz) - PGSIZE * of_nat (pages_of newsz) = PGSIZE * of_nat ?d"
    using le by (simp add: of_nat_diff right_diff_distrib)
  have "PGSIZE * of_nat ?d div PGSIZE = (of_nat ?d :: u64)" using o(2) by (intro va_div) simp
  then have np: "scast (ucast ((PGROUNDUP oldsz - PGROUNDUP newsz) div PGSIZE) :: u32) = (of_nat ?d :: u64)"
    using npages_cast [of ?d] o(2) d by (simp add: o(1) nn(1))
  have al: "PGROUNDUP newsz mod PGSIZE = 0" using unat_va [OF nn(2)] by (simp add: nn(1) page_aligned_iff)
  have stop: "PGROUNDUP newsz + of_nat ?d * PGSIZE = PGSIZE * of_nat (pages_of oldsz)"
    using le by (simp add: nn(1) of_nat_diff algebra_simps)
  show ?thesis
  proof (cases "pages_of newsz < pages_of oldsz")
    case True
    have "uvmunmap root (PGROUNDUP newsz) (of_nat ?d) True s =
        uvmunmap_loop root (PGSIZE * of_nat (pages_of newsz)) (PGSIZE * of_nat (pages_of oldsz)) True s"
      unfolding uvmunmap_def stop using al by (simp add: nn(1))
    then show ?thesis
      using False True cmp unfolding uvmdealloc_def Let_def np by simp
  next
    case f: False
    then show ?thesis
      using False cmp le by (simp add: uvmdealloc_def uvmunmap_loop.simps)
  qed
qed (simp add: uvmdealloc_def)

section \<open>Growing\<close>

text \<open>A fresh zeroed page \<open>p\<close>, before it is mapped.\<close>

lemma fresh_page:
  assumes "pt_inv s root N" "kmem_inv s (p # fl)"
  defines "s' \<equiv> zero_page p (kalloc_post p s)"
  shows "pt_inv s' root N" "kmem_inv s' fl" "leaf s' N = leaf s N" "konly s s'" "ram_page s p" "p \<notin> ran N" "p \<noteq> 0"
    "p \<notin> set fl" "refcnt s' = (refcnt s)(pno p := 1)"
proof -
  show rp: "ram_page s p" "p \<notin> set fl" using kmem_invD(4,5) [OF assms(2)] by auto
  show nN: "p \<notin> ran N" using node_not_free [OF assms(1,2), of p] by auto
  show "p \<noteq> 0" by (rule ram_page_nonzero [OF kmem_invD(2) [OF assms(2)] rp(1)])
  note u = uvmcreate_eq [OF assms(2), folded s'_def]
  show "kmem_inv s' fl" "konly s s'" "refcnt s' = (refcnt s)(pno p := 1)" by (rule u)+
  have "pno q \<noteq> pno p" "x \<in> page_bytes q \<Longrightarrow> x \<notin> page_bytes p" if "q \<in> ran N" for q x
    using node_ram [OF assms(1) that] rp(1) nN that pno_inj [of q p] page_out [of x q s p]
    by (auto simp: ram_page_def)
  then have "pt_inv s' root N \<and> leaf s' N = leaf s N"
    using u(6,7) konlyD(2) [OF u(5)] by (intro conjI pt_inv_frame [OF assms(1)]) auto
  then show "pt_inv s' root N" "leaf s' N = leaf s N" by auto
qed

lemma user_inv_map:
  assumes "pt_inv s root N" "kmem_inv s (p # fl)" "user_inv s N" "upage s N v = 0"
    and "grows (zero_page p (kalloc_post p s)) root N fl s' N' fl'"
    and "leaf s' N' = (leaf s N)(v := PA2PTE p OR f)"
    and "f AND NOT 0x3FF = 0" "f AND PTE_V \<noteq> 0" "f AND PTE_U \<noteq> 0" "f AND PTE_C = 0"
  shows "upage s' N' = (upage s N)(v := p)" "user_inv s' N'" "p \<notin> ran N'" "refcnt s' (pno p) = 1"
    "x \<in> page_bytes p \<Longrightarrow> mem s' x = 0"
proof -
  note fp = fresh_page [OF assms(1,2)] and g = growsD [OF assms(5)]
  show up: "upage s' N' = (upage s N)(v := p)"
    by (rule upage_update [OF assms(6) fp(5) assms(7-9)])
  show pN: "p \<notin> ran N'" using g(7) fp(6,8) by auto
  have nfp: "upage s N w \<noteq> p" for w
    using user_page_not_free [OF assms(3,2), of w] fp(7) by auto
  have nf: "upage s N w \<notin> set fl" if "upage s N w \<noteq> 0" for w
    using user_page_not_free [OF assms(3,2) that] by auto
  have ramfl: "ram_page s q" if "q \<in> set fl" for q using kmem_invD(5) [OF assms(2)] that by simp
  have pnf: "pno q \<notin> pno ` set fl" if "ram_page s q" "q \<notin> set fl" for q
  proof
    assume "pno q \<in> pno ` set fl"
    then obtain r where "r \<in> set fl" "pno q = pno r" by auto
    with pno_inj [of q r] that ramfl [of r] show False by (auto simp: ram_page_def)
  qed
  show rp: "refcnt s' (pno p) = 1" using g(9) [OF pnf [OF fp(5,8)]] by (simp add: fp(9))
  have rq: "refcnt s' (pno q) = refcnt s (pno q)" if "ram_page s q" "q \<notin> set fl" "q \<noteq> p" for q
    using g(9) [OF pnf [OF that(1,2)]] pno_inj [of q p] that fp(5) by (auto simp: fp(9) ram_page_def)
  have C: "leaf s' N' w AND PTE_C = (if w = v then 0 else leaf s N w AND PTE_C)" for w
    using pte_flag [of PTE_C p f] assms(10) by (simp add: assms(6))
  have "int (card {w. upage s' N' w = q}) \<le> refcnt s' (pno q)" if "q \<noteq> 0" for q
  proof (cases "q = p \<or> {w. upage s N w = q} = {}")
    case True
    then have "{w. upage s' N' w = q} = (if q = p then {v} else {})" using nfp that by (auto simp: up)
    then show ?thesis using rp kmem_invD(7) [OF g(1), of "pno q"] by auto
  next
    case False
    then obtain w where w: "upage s N w = q" by auto
    have "{w. upage s' N' w = q} = {w. upage s N w = q}"
      using False assms(4) that by (auto simp: up split: if_splits)
    moreover have "refcnt s' (pno q) = refcnt s (pno q)"
      using user_invD(1) [OF assms(3), of w] nf [of w] w that False by (intro rq) auto
    ultimately show ?thesis using user_invD(4) [OF assms(3) that] by simp
  qed
  moreover have "upage s' N' u \<noteq> upage s' N' w"
    if "w \<noteq> u" "upage s' N' w \<noteq> 0" "leaf s' N' w AND PTE_C = 0" for w u
    using user_invD(3) [OF assms(3) that(1)] that nfp by (auto simp: up C split: if_splits)
  moreover have "upage s N w \<notin> ran N'" if "upage s N w \<noteq> 0" for w
    using user_invD(2) [OF assms(3) that] nf [OF that] g(7) by auto
  moreover have "ram_page s' = ram_page s" using konlyD(6) [OF konly_trans [OF fp(4) g(3)]] .
  ultimately show "user_inv s' N'"
    using user_invD(1) [OF assms(3)] fp(5) pN by (auto simp: user_inv_def up)
  show "mem s' x = 0" if x: "x \<in> page_bytes p"
  proof -
    have "x \<notin> page_bytes q" if "q \<in> ran N \<union> set fl" for q
      using that ramfl node_ram [OF assms(1)] fp(6,8) by (intro page_out [OF x fp(5)]) auto
    then have "mem s' x = mem (zero_page p (kalloc_post p s)) x" by (rule g(8))
    with zero_fresh_mem(2) [OF x] show ?thesis by simp
  qed
qed

text \<open>The state of the loop of \<open>uvmalloc\<close> when it has mapped the virtual pages from \<open>v0\<close> to \<open>i\<close>.\<close>

definition alloc_at ::
  "'z kmem_scheme \<Rightarrow> u64 \<Rightarrow> nodes \<Rightarrow> u64 list \<Rightarrow> nat \<Rightarrow> nat \<Rightarrow> 'z kmem_scheme \<Rightarrow> nodes \<Rightarrow> u64 list \<Rightarrow> bool" where
  "alloc_at s root N fl v0 i s' N' fl' \<longleftrightarrow>
     pt_inv s' root N' \<and> kmem_inv s' fl' \<and> user_inv s' N' \<and> konly s s' \<and>
     set fl' \<subseteq> set fl \<and> ran N' \<subseteq> ran N \<union> set fl \<and>
     (\<forall>v. \<not> (v0 \<le> v \<and> v < i) \<longrightarrow> leaf s' N' v = leaf s N v) \<and>
     (\<forall>v. v0 \<le> v \<and> v < i \<longrightarrow> upage s' N' v \<noteq> 0 \<and> upage s' N' v \<in> set fl \<and>
        leaf s' N' v AND PTE_R \<noteq> 0 \<and> (\<forall>x\<in>page_bytes (upage s' N' v). mem s' x = 0)) \<and>
     (\<forall>n. n \<notin> pno ` set fl \<longrightarrow> refcnt s' n = refcnt s n) \<and>
     (\<forall>x. (\<forall>p\<in>ran N \<union> set fl. x \<notin> page_bytes p) \<longrightarrow> mem s' x = mem s x) \<and>
     (\<forall>v. v0 \<le> v \<and> v < i \<longrightarrow> leaf s' N' v AND PTE_C = 0)"

lemma alloc_at_0:
  "pt_inv s root N \<Longrightarrow> kmem_inv s fl \<Longrightarrow> user_inv s N \<Longrightarrow> alloc_at s root N fl v0 v0 s N fl"
  by (auto simp: alloc_at_def)

lemma alloc_atD:
  assumes "alloc_at s root N fl v0 i s' N' fl'"
  shows "pt_inv s' root N'" "kmem_inv s' fl'" "user_inv s' N'" "konly s s'" "set fl' \<subseteq> set fl"
    "ran N' \<subseteq> ran N \<union> set fl" "\<And>v. \<not> (v0 \<le> v \<and> v < i) \<Longrightarrow> leaf s' N' v = leaf s N v"
    "\<And>v. v0 \<le> v \<Longrightarrow> v < i \<Longrightarrow> upage s' N' v \<noteq> 0" "\<And>v. v0 \<le> v \<Longrightarrow> v < i \<Longrightarrow> upage s' N' v \<in> set fl"
    "\<And>v. v0 \<le> v \<Longrightarrow> v < i \<Longrightarrow> leaf s' N' v AND PTE_R \<noteq> 0"
    "\<And>v x. v0 \<le> v \<Longrightarrow> v < i \<Longrightarrow> x \<in> page_bytes (upage s' N' v) \<Longrightarrow> mem s' x = 0"
    "\<And>n. n \<notin> pno ` set fl \<Longrightarrow> refcnt s' n = refcnt s n"
    "\<And>x. (\<And>p. p \<in> ran N \<union> set fl \<Longrightarrow> x \<notin> page_bytes p) \<Longrightarrow> mem s' x = mem s x"
    "\<And>v. v0 \<le> v \<Longrightarrow> v < i \<Longrightarrow> leaf s' N' v AND PTE_C = 0"
  using assms by (auto simp: alloc_at_def)

lemma alloc_at_map:
  assumes "alloc_at s root N fl v0 i s1 N1 (p # fl1)" "v0 \<le> i" "upage s1 N1 i = 0"
    and "grows (zero_page p (kalloc_post p s1)) root N1 fl1 s2 N2 fl2"
    and "leaf s2 N2 = (leaf s1 N1)(i := PA2PTE p OR f)"
    and "f AND NOT 0x3FF = 0" "f AND PTE_V \<noteq> 0" "f AND PTE_U \<noteq> 0" "f AND PTE_C = 0" "f AND PTE_R \<noteq> 0"
  shows "alloc_at s root N fl v0 (Suc i) s2 N2 fl2"
proof -
  note a = alloc_atD [OF assms(1)] and g = growsD [OF assms(4)]
  note fp = fresh_page [OF a(1,2)] and m = user_inv_map [OF a(1-3) assms(3-9)]
  have fr: "mem s2 x = mem s1 x" if "\<And>q. q \<in> insert p (ran N1 \<union> set fl1) \<Longrightarrow> x \<notin> page_bytes q" for x
    using g(8) [of x] zero_fresh_mem(1) [of x p s1] that by auto
  have "mem s2 x = 0" if "v0 \<le> v" "v < i" "x \<in> page_bytes (upage s1 N1 v)" for v x
  proof -
    have q: "ram_page s1 (upage s1 N1 v)" "upage s1 N1 v \<notin> ran N1" "upage s1 N1 v \<notin> set (p # fl1)"
      using user_invD(1,2) [OF a(3) a(8) [OF that(1,2)]] user_page_not_free [OF a(3,2) a(8) [OF that(1,2)]] by auto
    have "mem s2 x = mem s1 x"
      using q node_ram [OF a(1)] kmem_invD(5) [OF a(2)] by (intro fr page_out [OF that(3) q(1)]) auto
    with a(11) [OF that] show ?thesis by simp
  qed
  moreover have "refcnt s2 n = refcnt s n" if "n \<notin> pno ` set fl" for n
  proof -
    have "n \<notin> pno ` set fl1" "n \<noteq> pno p" using that a(5) by auto
    then show ?thesis using g(9) [of n] a(12) [OF that] by (simp add: fp(9))
  qed
  moreover have "mem s2 x = mem s x" if "\<forall>q\<in>ran N \<union> set fl. x \<notin> page_bytes q" for x
    using fr [of x] a(13) [of x] that a(5,6) by fastforce
  moreover have "konly s s2" by (rule konly_trans [OF a(4) konly_trans [OF fp(4) g(3)]])
  moreover have "set fl2 \<subseteq> set fl" "ran N2 \<subseteq> ran N \<union> set fl" using g(4,7) a(5,6) by auto
  moreover have "leaf s2 N2 v AND PTE_R \<noteq> 0" if "v0 \<le> v" "v < Suc i" for v
    using a(10) [of v] that pte_flag [of PTE_R p f] assms(10) by (cases "v = i") (auto simp: assms(5))
  moreover have "leaf s2 N2 v AND PTE_C = 0" if "v0 \<le> v" "v < Suc i" for v
    using a(14) [of v] that pte_flag [of PTE_C p f] assms(9) by (cases "v = i") (auto simp: assms(5))
  ultimately show ?thesis
    using g(1,2) m a(5,7-9,11) assms(2) fp(7) unfolding alloc_at_def by (auto simp: m(1) assms(5) less_Suc_eq)
qed

text \<open>The pages of a range, counted by \<open>refs\<close>, where the range is mapped for the user.\<close>

lemma refs_card:
  assumes "user_inv s N" "\<And>v. v0 \<le> v \<Longrightarrow> v < v0 + n \<Longrightarrow> upage s N v \<noteq> 0" "ram_page s p"
  shows "refs (leaf s N) v0 n (pno p) = int (card {v. v0 \<le> v \<and> v < v0 + n \<and> upage s N v = p})"
proof -
  let ?P = "\<lambda>v. pno (PTE2PA (leaf s N v)) = pno p"
  have P: "?P v \<longleftrightarrow> upage s N v = p" if "v0 \<le> v" "v < v0 + n" for v
  proof -
    have "upage s N v = PTE2PA (leaf s N v)" using upage_leaf [OF assms(2) [OF that]] by simp
    then show ?thesis
      using pno_inj [of "upage s N v" p] user_invD(1) [OF assms(1) assms(2) [OF that]] assms(3)
      by (auto simp: ram_page_def)
  qed
  have "length (filter ?P [v0..<v0 + n]) = card (set (filter ?P [v0..<v0 + n]))"
    by (rule distinct_card [symmetric]) simp
  also have "set (filter ?P [v0..<v0 + n]) = {v. v0 \<le> v \<and> v < v0 + n \<and> upage s N v = p}" using P by auto
  finally show ?thesis by (simp add: refs_def)
qed

lemma user_unmappable:
  assumes "pt_inv s root N" "user_inv s N" "kmem_inv s fl"
    and "\<And>v. v0 \<le> v \<Longrightarrow> v < v0 + n \<Longrightarrow> upage s N v \<noteq> 0 \<and> leaf s N v AND PTE_R \<noteq> 0"
  shows "unmappable s N True v0 n"
proof -
  have r: "refs (leaf s N) v0 n k \<le> refcnt s k" for k
  proof (cases "\<exists>v. v0 \<le> v \<and> v < v0 + n \<and> pno (PTE2PA (leaf s N v)) = k")
    case True
    then obtain v where v: "v0 \<le> v" "v < v0 + n" "pno (PTE2PA (leaf s N v)) = k" by auto
    let ?p = "upage s N v"
    have p: "?p \<noteq> 0" "?p = PTE2PA (leaf s N v)" using assms(4) [OF v(1,2)] upage_leaf [of s N v] by auto
    have "refs (leaf s N) v0 n (pno ?p) = int (card {w. v0 \<le> w \<and> w < v0 + n \<and> upage s N w = ?p})"
      using assms(4) by (intro refs_card [OF assms(2)] user_invD(1) [OF assms(2) p(1)]) auto
    also have "\<dots> \<le> int (card {w. upage s N w = ?p})"
      using finite_upages [OF p(1)] by (auto intro!: card_mono)
    also have "\<dots> \<le> refcnt s (pno ?p)" by (rule user_invD(4) [OF assms(2) p(1)])
    finally show ?thesis using v(3) p(2) by simp
  next
    case False
    then show ?thesis using kmem_invD(7) [OF assms(3), of k] by (subst refs_zero) auto
  qed
  have "leaf s N v AND PTE_V \<noteq> 0 \<and> PTE_FLAGS (leaf s N v) \<noteq> PTE_V \<and>
      ram_page s (PTE2PA (leaf s N v)) \<and> PTE2PA (leaf s N v) \<notin> ran N"
    if v: "v0 \<le> v" "v < v0 + n" for v
  proof -
    have u: "upage s N v \<noteq> 0" "leaf s N v AND PTE_R \<noteq> 0" using assms(4) [OF v] by auto
    then have "upage s N v = PTE2PA (leaf s N v)" "leaf s N v AND PTE_V \<noteq> 0"
      using upage_leaf [of s N v] by auto
    moreover have "PTE_FLAGS (leaf s N v) \<noteq> PTE_V"
    proof
      assume "PTE_FLAGS (leaf s N v) = PTE_V"
      then have "(leaf s N v AND 0x3FF) AND PTE_R = 1 AND PTE_R" by (simp add: PTE_FLAGS_def)
      then have "leaf s N v AND PTE_R = 0" by (simp add: and.assoc)
      with u(2) show False by simp
    qed
    ultimately show ?thesis using user_invD(1,2) [OF assms(2) u(1)] by simp
  qed
  with r show ?thesis by (simp add: unmappable_def)
qed

lemma unmap_user:
  assumes "pt_inv s root N" "kmem_inv s fl" "user_inv s N" "v0 + n \<le> 0x4000000"
    and "\<And>v. v0 \<le> v \<Longrightarrow> v < v0 + n \<Longrightarrow> upage s N v \<noteq> 0 \<and> leaf s N v AND PTE_R \<noteq> 0"
  obtains s' fl' where
    "uvmunmap_loop root (PGSIZE * of_nat v0) (PGSIZE * of_nat (v0 + n)) True s = Inr s'"
    "pt_inv s' root N" "kmem_inv s' fl'" "konly s s'" "user_inv s' N" "leaf s' N = unmap_range v0 n (leaf s N)"
    "set fl' \<subseteq> set fl \<union> upage s N ` {v0..<v0 + n}" "set fl \<subseteq> set fl'"
    "refcnt s' = (\<lambda>k. refcnt s k - refs (leaf s N) v0 n k)"
    "\<And>x. (\<And>p. p \<in> ran N \<union> set fl' \<Longrightarrow> x \<notin> page_bytes p) \<Longrightarrow> mem s' x = mem s x"
proof -
  let ?a = "PGSIZE * of_nat v0"
  have a: "unat ?a = 4096 * v0" "vpn ?a = v0" using unat_va [of v0] vpn_va [of v0] assms(4) by auto
  have b: "unat ?a + 4096 * n \<le> 0x4000000000" using assms(4) by (simp add: a)
  have stop: "?a + PGSIZE * of_nat n = PGSIZE * of_nat (v0 + n)" by (simp add: algebra_simps)
  have "unmappable s N True (vpn ?a) n" unfolding a(2) by (rule user_unmappable [OF assms(1,3,2,5)])
  from uvmunmap_loop_spec [OF assms(1,2) b this, unfolded stop a(2) if_True] obtain s' fl' where u:
    "uvmunmap_loop root ?a (PGSIZE * of_nat (v0 + n)) True s = Inr s'"
    "pt_inv s' root N" "kmem_inv s' fl'" "konly s s'" "leaf s' N = unmap_range v0 n (leaf s N)"
    "refcnt s' = (\<lambda>k. refcnt s k - refs (leaf s N) v0 n k)" "set fl \<subseteq> set fl'"
    "\<forall>x. (\<forall>p\<in>ran N \<union> set fl'. x \<notin> page_bytes p) \<longrightarrow> mem s' x = mem s x"
    "set fl' \<subseteq> set fl \<union> (\<lambda>v. PTE2PA (leaf s N v)) ` {v0..<v0 + n}" by blast
  have up: "upage s' N v = (if v0 \<le> v \<and> v < v0 + n then 0 else upage s N v)" for v
    by (simp add: upage_def u(5) unmap_range_def)
  have "(\<lambda>v. PTE2PA (leaf s N v)) ` {v0..<v0 + n} = upage s N ` {v0..<v0 + n}"
  proof (rule image_cong [OF refl])
    fix v assume "v \<in> {v0..<v0 + n}"
    then show "PTE2PA (leaf s N v) = upage s N v" using assms(5) [of v] upage_leaf [of s N v] by simp
  qed
  then have sub: "set fl' \<subseteq> set fl \<union> upage s N ` {v0..<v0 + n}" using u(9) by simp
  have "int (card {v. upage s' N v = p}) \<le> refcnt s' (pno p)" if pz: "p \<noteq> 0" for p
  proof (cases "{v. upage s' N v = p} = {}")
    case True
    then show ?thesis using kmem_invD(7) [OF u(3), of "pno p"] by simp
  next
    case False
    then obtain w where w: "upage s N w = p" using pz by (auto simp: up split: if_splits)
    let ?A = "{v. upage s N v = p}" and ?B = "{v. v0 \<le> v \<and> v < v0 + n \<and> upage s N v = p}"
    have "{v. upage s' N v = p} = ?A - ?B" using that by (auto simp: up)
    moreover have "card (?A - ?B) = card ?A - card ?B"
      by (rule card_Diff_subset) (auto intro: finite_subset [OF _ finite_upages [OF that, of s N]])
    moreover have "card ?B \<le> card ?A" using finite_upages [OF that] by (auto intro!: card_mono)
    moreover have "refs (leaf s N) v0 n (pno p) = int (card ?B)"
      using user_invD(1) [OF assms(3), of w] w that assms(5) by (intro refs_card [OF assms(3)]) auto
    ultimately show ?thesis using user_invD(4) [OF assms(3) that] by (simp add: u(6) of_nat_diff)
  qed
  then have "user_inv s' N"
    using user_invD(1-3) [OF assms(3)] konlyD(6) [OF u(4)]
    unfolding user_inv_def by (auto simp: up u(5) unmap_range_def split: if_splits)
  with u sub that show thesis by auto
qed

lemma alloc_undo:
  assumes "alloc_at s root N fl v0 i s1 N1 fl1" "v0 \<le> i" "i \<le> 0x4000000"
    and "\<And>v. v0 \<le> v \<Longrightarrow> v < i \<Longrightarrow> leaf s N v = 0"
  obtains s' fl' where
    "uvmunmap_loop root (PGSIZE * of_nat v0) (PGSIZE * of_nat i) True s1 = Inr s'"
    "alloc_at s root N fl v0 v0 s' N1 fl'"
proof -
  note a = alloc_atD [OF assms(1)]
  have i: "i = v0 + (i - v0)" using assms(2) by simp
  obtain s' fl' where u:
    "uvmunmap_loop root (PGSIZE * of_nat v0) (PGSIZE * of_nat (v0 + (i - v0))) True s1 = Inr s'"
    "pt_inv s' root N1" "kmem_inv s' fl'" "konly s1 s'" "user_inv s' N1" "leaf s' N1 = unmap_range v0 (i - v0) (leaf s1 N1)"
    "set fl' \<subseteq> set fl1 \<union> upage s1 N1 ` {v0..<v0 + (i - v0)}" "set fl1 \<subseteq> set fl'"
    "refcnt s' = (\<lambda>k. refcnt s1 k - refs (leaf s1 N1) v0 (i - v0) k)"
    "\<And>x. (\<And>p. p \<in> ran N1 \<union> set fl' \<Longrightarrow> x \<notin> page_bytes p) \<Longrightarrow> mem s' x = mem s1 x"
    by (rule unmap_user [OF a(1-3), of v0 "i - v0"]) (use assms(2,3) a(8,10) in auto)
  have sub: "set fl' \<subseteq> set fl" using u(7) a(5,9) by fastforce
  have "leaf s' N1 v = leaf s N v" for v
    using a(7) [of v] assms(4) [of v] by (auto simp: u(6) unmap_range_def)
  moreover have "refcnt s' n = refcnt s n" if "n \<notin> pno ` set fl" for n
  proof -
    have "refs (leaf s1 N1) v0 (i - v0) n = 0"
    proof (rule refs_zero)
      fix v assume v: "v0 \<le> v" "v < v0 + (i - v0)"
      then have "upage s1 N1 v = PTE2PA (leaf s1 N1 v)" "upage s1 N1 v \<in> set fl"
        using a(8,9) [of v] upage_leaf [of s1 N1 v] by auto
      with that show "pno (PTE2PA (leaf s1 N1 v)) \<noteq> n" by auto
    qed
    with a(12) [OF that] show ?thesis by (simp add: u(9))
  qed
  moreover have "mem s' x = mem s x" if "\<forall>p\<in>ran N \<union> set fl. x \<notin> page_bytes p" for x
    using u(10) [of x] a(13) [of x] that a(6) sub by fastforce
  ultimately have "alloc_at s root N fl v0 v0 s' N1 fl'"
    using u(2,3,5) a(6) sub konly_trans [OF a(4) u(4)] unfolding alloc_at_def by auto
  with that u(1) i show thesis by metis
qed

lemma user_inv_frame:
  assumes "user_inv s N" "leaf s' N' = leaf s N" "ram_page s' = ram_page s" "\<And>n. 0 \<le> refcnt s' n"
    and "\<And>v. upage s N v \<noteq> 0 \<Longrightarrow> upage s N v \<notin> ran N' \<and> refcnt s' (pno (upage s N v)) = refcnt s (pno (upage s N v))"
  shows "user_inv s' N'"
proof -
  have up: "upage s' N' = upage s N" using assms(2) by (simp add: upage_def fun_eq_iff)
  have "int (card {v. upage s N v = p}) \<le> refcnt s' (pno p)" if pz: "p \<noteq> 0" for p
  proof (cases "{v. upage s N v = p} = {}")
    case False
    then obtain v where "upage s N v = p" by auto
    then show ?thesis using assms(5) [of v] user_invD(4) [OF assms(1) pz] pz by simp
  qed (use assms(4) in simp)
  then show ?thesis
    using user_invD(1,3) [OF assms(1)] assms(5) unfolding user_inv_def up assms(2,3) by blast
qed

text \<open>A page that could not be mapped goes back to the allocator.\<close>

lemma alloc_at_giveback:
  assumes "alloc_at s root N fl v0 i s1 N1 (p # fl1)"
    and "grows (zero_page p (kalloc_post p s1)) root N1 fl1 s2 N2 fl2" "leaf s2 N2 = leaf s1 N1"
  obtains s3 where "kfree p s2 = Inr s3" "alloc_at s root N fl v0 i s3 N2 (p # fl2)"
proof -
  note a = alloc_atD [OF assms(1)] and g = growsD [OF assms(2)]
  note fp = fresh_page [OF a(1,2)]
  have ram: "ram_page s1 q" if "q \<in> insert p (ran N1 \<union> set fl1)" for q
    using that node_ram [OF a(1)] kmem_invD(5) [OF a(2)] by auto
  have nfl: "pno p \<notin> pno ` set fl1"
  proof
    assume "pno p \<in> pno ` set fl1"
    then obtain q where "q \<in> set fl1" "pno p = pno q" by auto
    with pno_inj [of p q] fp(5,8) ram [of q] show False by (auto simp: ram_page_def)
  qed
  have one: "refcnt s2 (pno p) = 1" using g(9) [OF nfl] by (simp add: fp(9))
  have k2: "konly s1 s2" by (rule konly_trans [OF fp(4) g(3)])
  have "ram_page s2 p" using fp(5) konlyD(6) [OF k2] by simp
  from kfree_step [OF g(1) this] one obtain s3 where s3: "kfree p s2 = Inr s3" "kmem_inv s3 (p # fl2)" "konly s2 s3"
    "refcnt s3 = (refcnt s2)(pno p := 0)" "\<And>x. x \<notin> page_bytes p \<Longrightarrow> mem s3 x = mem s2 x"
    by (metis (no_types, lifting) order_refl diff_self)
  have pN: "p \<notin> ran N2" using g(7) fp(6,8) by auto
  have "pno q \<noteq> pno p" "x \<in> page_bytes q \<Longrightarrow> x \<notin> page_bytes p" if "q \<in> ran N2" for q x
    using node_ram [OF g(2) that] \<open>ram_page s2 p\<close> pN that pno_inj [of q p] page_out [of x q s2 p]
    by (auto simp: ram_page_def)
  then have pt: "pt_inv s3 root N2 \<and> leaf s3 N2 = leaf s2 N2"
    using s3(4,5) konlyD(2) [OF s3(3)] by (intro conjI pt_inv_frame [OF g(2)]) auto
  have k: "konly s1 s3" by (rule konly_trans [OF k2 s3(3)])
  have fr: "mem s3 x = mem s1 x" if "\<And>q. q \<in> insert p (ran N1 \<union> set fl1) \<Longrightarrow> x \<notin> page_bytes q" for x
    using s3(5) [of x] g(8) [of x] zero_fresh_mem(1) [of x p s1] that by auto
  have up: "upage s1 N1 v \<notin> ran N2" "upage s1 N1 v \<notin> insert p (ran N1 \<union> set fl1)"
    "refcnt s3 (pno (upage s1 N1 v)) = refcnt s1 (pno (upage s1 N1 v))" if u: "upage s1 N1 v \<noteq> 0" for v
  proof -
    let ?q = "upage s1 N1 v"
    show q: "?q \<notin> insert p (ran N1 \<union> set fl1)"
      using user_invD(2) [OF a(3) u] user_page_not_free [OF a(3,2) u] by auto
    then show "?q \<notin> ran N2" using g(7) by auto
    have rq: "ram_page s1 ?q" by (rule user_invD(1) [OF a(3) u])
    have "pno ?q \<notin> pno ` set (p # fl1)"
    proof
      assume "pno ?q \<in> pno ` set (p # fl1)"
      then obtain r where "r \<in> set (p # fl1)" "pno ?q = pno r" by auto
      with pno_inj [of ?q r] rq ram [of r] q show False by (auto simp: ram_page_def)
    qed
    then show "refcnt s3 (pno ?q) = refcnt s1 (pno ?q)" using g(9) [of "pno ?q"] by (simp add: s3(4) fp(9))
  qed
  have "user_inv s3 N2"
    using pt assms(3) konlyD(6) [OF k] kmem_invD(7) [OF s3(2)] up by (intro user_inv_frame [OF a(3)]) auto
  moreover have upe: "upage s3 N2 = upage s1 N1" using pt assms(3) by (simp add: upage_def fun_eq_iff)
  moreover have "mem s3 x = 0" if "v0 \<le> v" "v < i" "x \<in> page_bytes (upage s1 N1 v)" for v x
  proof -
    have "mem s3 x = mem s1 x"
      using up(2) [OF a(8) [OF that(1,2)]] ram
      by (intro fr page_out [OF that(3) user_invD(1) [OF a(3) a(8) [OF that(1,2)]]]) auto
    with a(11) [OF that] show ?thesis by simp
  qed
  moreover have "refcnt s3 n = refcnt s n" if "n \<notin> pno ` set fl" for n
  proof -
    have "n \<notin> pno ` set fl1" "n \<noteq> pno p" using that a(5) by auto
    then show ?thesis using g(9) [of n] a(12) [OF that] by (simp add: fp(9) s3(4))
  qed
  moreover have "mem s3 x = mem s x" if "\<forall>q\<in>ran N \<union> set fl. x \<notin> page_bytes q" for x
    using fr [of x] a(13) [of x] that a(5,6) by fastforce
  moreover have "set (p # fl2) \<subseteq> set fl" "ran N2 \<subseteq> ran N \<union> set fl" using g(4,7) a(5,6) by auto
  ultimately have "alloc_at s root N fl v0 i s3 N2 (p # fl2)"
    using s3(2) pt assms(3) a(7-10,14) konly_trans [OF a(4) k] unfolding alloc_at_def by auto
  with s3(1) that show thesis by blast
qed

lemma pages_of_va: "i \<le> 0x4000000 \<Longrightarrow> pages_of (PGSIZE * of_nat i) = i"
  by (simp only: pages_of_def unat_va)

lemma dealloc_run:
  assumes "v0 \<le> i" "i \<le> 0x4000000"
  shows "uvmdealloc root (PGSIZE * of_nat i) (PGSIZE * of_nat v0) s =
    bindR (uvmunmap_loop root (PGSIZE * of_nat v0) (PGSIZE * of_nat i) True s) (\<lambda>s. Inr (PGSIZE * of_nat v0, s))"
proof (cases "i = v0")
  case True
  then show ?thesis using assms by (subst uvmdealloc_eq) (auto simp: unat_va uvmunmap_loop.simps)
next
  case False
  then have "\<not> PGSIZE * of_nat i \<le> PGSIZE * of_nat v0"
    using assms unat_va [of i] unat_va [of v0] by (simp add: word_le_nat_alt)
  then show ?thesis using assms by (subst uvmdealloc_eq) (auto simp: unat_va pages_of_va)
qed

lemma uvmalloc_loop_spec:
  assumes "alloc_at s root N fl v0 i s1 N1 fl1" "v0 \<le> i" "i \<le> max v0 (pages_of newsz)" "pages_of newsz \<le> 0x4000000" "v0 \<le> 0x4000000"
    and "\<And>v. v0 \<le> v \<Longrightarrow> v < pages_of newsz \<Longrightarrow> leaf s N v = 0"
    and "xperm AND NOT 0x3FF = 0" "xperm AND PTE_C = 0"
  shows "\<exists>r s' N' fl'. uvmalloc_loop root (PGSIZE * of_nat i) (PGSIZE * of_nat v0) newsz xperm s1 = Inr (r, s') \<and>
    (r = newsz \<and> alloc_at s root N fl v0 (max v0 (pages_of newsz)) s' N' fl' \<and> length fl1 \<le> length fl' + 3 * (pages_of newsz - i) \<or>
     r = 0 \<and> alloc_at s root N fl v0 v0 s' N' fl' \<and> length fl1 < 3 * (pages_of newsz - i))"
  using assms(1-3)
proof (induction "max v0 (pages_of newsz) - i" arbitrary: i s1 N1 fl1)
  case 0
  then have "i = max v0 (pages_of newsz)" by simp
  moreover from this have "\<not> PGSIZE * of_nat i < newsz"
    using pages_of_less [of i newsz] unat_va [of i] assms(4,5) by (auto simp: word_less_nat_alt)
  ultimately show ?case using 0(2) by (subst uvmalloc_loop.simps) auto
next
  case (Suc m)
  then have i: "i < pages_of newsz" "i \<le> 0x4000000" using assms(4) by auto
  let ?a = "PGSIZE * of_nat i" and ?f = "PTE_R OR PTE_U OR xperm OR PTE_V"
  have a: "?a < newsz" "?a < MAXVA" "vpn ?a = i" "4096 dvd unat ?a"
    using pages_of_less [of i newsz] unat_va [OF i(2)] vpn_va [OF i(2)] i assms(4) by (simp_all add: word_less_nat_alt)
  note A = alloc_atD [OF Suc(3)]
  have li: "leaf s1 N1 i = 0" using A(7) [of i] assms(6) [OF Suc(4) i(1)] by simp
  have undo: "\<exists>s' fl'. uvmdealloc root ?a (PGSIZE * of_nat v0) s2 = Inr (PGSIZE * of_nat v0, s') \<and>
      alloc_at s root N fl v0 v0 s' N2 fl'" if A2: "alloc_at s root N fl v0 i s2 N2 fl2" for s2 N2 fl2
  proof -
    obtain s' fl' where "uvmunmap_loop root (PGSIZE * of_nat v0) ?a True s2 = Inr s'"
      "alloc_at s root N fl v0 v0 s' N2 fl'"
      by (rule alloc_undo [OF A2 Suc(4) i(2)]) (use assms(6) i in auto)
    then show ?thesis using dealloc_run [OF Suc(4) i(2), of root s2] by auto
  qed
  show ?case
  proof (cases fl1)
    case Nil
    then have "kalloc s1 = Inr (0, s1)" using kalloc_empty A(2) by blast
    with undo [OF Suc(3)] a(1) obtain s' fl' where
      "uvmalloc_loop root ?a (PGSIZE * of_nat v0) newsz xperm s1 = Inr (0, s')" "alloc_at s root N fl v0 v0 s' N1 fl'"
      by (auto simp: uvmalloc_loop.simps [of root ?a])
    moreover have "length fl1 < 3 * (pages_of newsz - i)" using Nil i(1) by simp
    ultimately show ?thesis by blast
  next
    case (Cons p fl2)
    note fp = fresh_page [OF A(1) A(2) [unfolded Cons]]
    have k: "kalloc s1 = Inr (p, kalloc_post p s1)" "p \<noteq> 0" using kalloc_cons A(2) Cons fp(7) by auto
    let ?z = "zero_page p (kalloc_post p s1)"
    have "leaf ?z N1 (vpn ?a) AND PTE_V = 0" using li fp(3) a(3) by simp
    from mappages_page [OF fp(1,2) a(2,4) this, of p "PTE_R OR PTE_U OR xperm"] obtain r s3 N3 fl3 where r:
      "mappages root ?a PGSIZE p (PTE_R OR PTE_U OR xperm) ?z = Inr (r, s3)" "grows ?z root N1 fl2 s3 N3 fl3"
      "length fl2 \<le> length fl3 + 2" "r \<noteq> 0 \<Longrightarrow> length fl2 < 2"
      "r = 0 \<and> leaf s3 N3 = (leaf s1 N1)(i := PA2PTE p OR ?f) \<or> r = - 1 \<and> leaf s3 N3 = leaf s1 N1"
      by (auto simp: fp(3) a(3) or.assoc)
    show ?thesis
    proof (cases "r = 0")
      case True
      have f: "?f AND NOT 0x3FF = 0" "?f AND PTE_V \<noteq> 0" "?f AND PTE_U \<noteq> 0" "?f AND PTE_C = 0" "?f AND PTE_R \<noteq> 0"
        using assms(7,8) by (simp_all add: bit.conj_disj_distrib2)
      have "alloc_at s root N fl v0 (Suc i) s3 N3 fl3"
        using alloc_at_map [OF Suc(3) [unfolded Cons] Suc(4) _ r(2) _ f] li r(5) True by (simp add: upage_def)
      moreover have "uvmalloc_loop root ?a (PGSIZE * of_nat v0) newsz xperm s1 =
          uvmalloc_loop root (PGSIZE * of_nat (Suc i)) (PGSIZE * of_nat v0) newsz xperm s3"
        using a(1) k r(1) True by (subst uvmalloc_loop.simps) (simp add: add.commute)
      moreover have m: "m = max v0 (pages_of newsz) - Suc i" using Suc(2) by simp
      ultimately obtain r' s' N' fl' where IH:
        "uvmalloc_loop root ?a (PGSIZE * of_nat v0) newsz xperm s1 = Inr (r', s')"
        "r' = newsz \<and> alloc_at s root N fl v0 (max v0 (pages_of newsz)) s' N' fl' \<and> length fl3 \<le> length fl' + 3 * (pages_of newsz - Suc i) \<or>
         r' = 0 \<and> alloc_at s root N fl v0 v0 s' N' fl' \<and> length fl3 < 3 * (pages_of newsz - Suc i)"
        using Suc(1) [OF m, of s3 N3 fl3] Suc(4) i(1) by auto
      have "length fl1 < 3 * (pages_of newsz - i)" if "length fl3 < 3 * (pages_of newsz - Suc i)"
        using that r(3) Cons by simp
      moreover have "length fl1 \<le> length fl' + 3 * (pages_of newsz - i)"
        if "length fl3 \<le> length fl' + 3 * (pages_of newsz - Suc i)"
        using that r(3) Cons i(1) by simp
      ultimately show ?thesis using IH by blast
    next
      case False
      then have lf: "leaf s3 N3 = leaf s1 N1" using r(5) by auto
      obtain s4 where s4: "kfree p s3 = Inr s4" "alloc_at s root N fl v0 i s4 N3 (p # fl3)"
        using alloc_at_giveback [OF Suc(3) [unfolded Cons] r(2) lf] by blast
      with undo [OF s4(2)] a(1) k r(1) False obtain s' fl' where
        "uvmalloc_loop root ?a (PGSIZE * of_nat v0) newsz xperm s1 = Inr (0, s')" "alloc_at s root N fl v0 v0 s' N3 fl'"
        by (auto simp: uvmalloc_loop.simps [of root ?a])
      moreover have "length fl1 < 3 * (pages_of newsz - i)" using r(4) [OF False] Cons i(1) by simp
      ultimately show ?thesis by blast
    qed
  qed
qed

end
