(* ===== verification/FreeSpace.thy ===== *)
theory FreeSpace
  imports UserSpace
begin

text \<open>
  \<open>freewalk\<close> and \<open>uvmfree\<close> of \<^verbatim>\<open>kernel/vm.c\<close>: every page-table page goes back to the
  allocator. \<open>tree_inv s h M\<close> describes a table of height \<open>h\<close> without leaf mappings, so that
  the recursion of \<open>freewalk\<close> is an induction over \<open>h\<close>; the fuel it needs is the height.
\<close>

definition tree_inv :: "'z kmem_scheme \<Rightarrow> nat \<Rightarrow> u64 \<Rightarrow> nodes \<Rightarrow> bool" where
  "tree_inv s h p M \<longleftrightarrow>
     M [] = Some p \<and> inj_on M (dom M) \<and>
     (\<forall>\<pi> q. M \<pi> = Some q \<longrightarrow>
        length \<pi> \<le> h \<and> (\<forall>i\<in>set \<pi>. i < 512) \<and> ram_page s q \<and> refcnt s (pno q) = 1) \<and>
     (\<forall>\<pi> i. M \<pi> = None \<longrightarrow> M (\<pi> @ [i]) = None) \<and>
     (\<forall>\<pi> q i. M \<pi> = Some q \<longrightarrow> i < 512 \<longrightarrow> node_entry (ld64 (mem s) (unat q + 8 * i)) (M (\<pi> @ [i])))"

lemma tree_invD:
  assumes "tree_inv s h p M"
  shows "M [] = Some p" "inj_on M (dom M)" "\<And>\<pi> q. M \<pi> = Some q \<Longrightarrow> length \<pi> \<le> h"
    "\<And>\<pi> q i. M \<pi> = Some q \<Longrightarrow> i \<in> set \<pi> \<Longrightarrow> i < 512" "\<And>\<pi> q. M \<pi> = Some q \<Longrightarrow> ram_page s q"
    "\<And>\<pi> q. M \<pi> = Some q \<Longrightarrow> refcnt s (pno q) = 1" "\<And>\<pi> i. M \<pi> = None \<Longrightarrow> M (\<pi> @ [i]) = None"
    "\<And>\<pi> q i. M \<pi> = Some q \<Longrightarrow> i < 512 \<Longrightarrow> node_entry (ld64 (mem s) (unat q + 8 * i)) (M (\<pi> @ [i]))"
  using assms by (auto simp: tree_inv_def)

lemma vpath_build:
  fixes a b k :: nat
  assumes "a < 512" "b < 512" "k < 512"
  defines "v \<equiv> (a * 512 + b) * 512 + k"
  shows "vpath v = [a, b]" "v mod 512 = k" "v < 0x8000000"
proof -
  have "v mod 512 = k mod 512" unfolding v_def by (rule mod_mult_self3)
  moreover have "v div 512 = a * 512 + b + k div 512" unfolding v_def by (subst div_mult_self3) auto
  ultimately have d: "v div 512 = a * 512 + b" "v mod 512 = k" using assms(3) by simp_all
  then have "v div 0x40000 = (a * 512 + b) div 512" using div_mult2_eq [of v 512 512] by simp
  also have "\<dots> = a" using assms(2) by simp
  finally show "vpath v = [a, b]" "v mod 512 = k" using d assms(1,2) by (simp_all add: vpath_def)
  have "a \<le> 511" "b \<le> 511" "k \<le> 511" using assms(1-3) by simp_all
  then show "v < 0x8000000" unfolding v_def distrib_right mult.assoc by simp
qed

lemma pt_inv_tree:
  assumes "pt_inv s root N" "\<And>v. leaf s N v AND PTE_V = 0"
  shows "tree_inv s 2 root N"
proof -
  note i = pt_invD [OF assms(1)]
  have none: "N (\<pi> @ [k]) = None" if "N \<pi> = None" for \<pi> k
  proof (cases "length \<pi> < 2 \<and> k < 512")
    case False
    then show ?thesis using i(3,4) [of "\<pi> @ [k]"] by (cases "N (\<pi> @ [k])") auto
  qed (use i(8) that in blast)
  have bottom: "node_entry (ld64 (mem s) (unat q + 8 * k)) (N (\<pi> @ [k]))" if q: "N \<pi> = Some q" "k < 512" for \<pi> q k
  proof (cases "length \<pi> < 2")
    case False
    then have "length \<pi> = 2" using i(3) [OF q(1)] by simp
    then obtain a b where ab: "\<pi> = [a, b]" by (auto simp: length_Suc_conv numeral_2_eq_2)
    with i(4) [OF q(1)] have lt: "a < 512" "b < 512" by auto
    let ?v = "(a * 512 + b) * 512 + k"
    have "leaf s N ?v = ld64 (mem s) (unat q + 8 * k)"
      using q(1) ab by (simp only: leaf_def leaf_addr_def vpath_build [OF lt q(2)]) simp
    moreover have "N (\<pi> @ [k]) = None" using i(3) [of "\<pi> @ [k]"] \<open>length \<pi> = 2\<close> by (cases "N (\<pi> @ [k])") auto
    ultimately show ?thesis using assms(2) [of ?v] by (simp add: node_entry_def)
  qed (use i(7) q in blast)
  show ?thesis using i(1-6) none bottom by (auto simp: tree_inv_def)
qed

text \<open>The table below entry \<open>j\<close>.\<close>

definition below :: "nodes \<Rightarrow> nat \<Rightarrow> nodes" where
  "below M j = (\<lambda>\<pi>. M (j # \<pi>))"

lemma tree_below:
  assumes "tree_inv s (Suc h) p M" "M [j] = Some q"
  shows "tree_inv s h q (below M j)"
proof -
  note t = tree_invD [OF assms(1)]
  have "inj_on (below M j) (dom (below M j))"
    using inj_onD [OF t(2)] by (auto simp: inj_on_def below_def dom_def)
  moreover have "length \<pi> \<le> h" "\<forall>i\<in>set \<pi>. i < 512" "ram_page s r" "refcnt s (pno r) = 1"
    if "M (j # \<pi>) = Some r" for \<pi> r
    using t(3-6) [OF that] by auto
  moreover have "M (j # \<pi> @ [i]) = None" if "M (j # \<pi>) = None" for \<pi> i
    using t(7) [OF that] by simp
  moreover have "node_entry (ld64 (mem s) (unat r + 8 * i)) (M (j # \<pi> @ [i]))"
    if "M (j # \<pi>) = Some r" "i < 512" for \<pi> r i
    using t(8) [OF that] by simp
  ultimately show ?thesis using assms(2) by (simp add: tree_inv_def below_def)
qed

lemma tree_inv_frame:
  assumes "tree_inv s h p M" "konly s s'"
    and "\<And>q x. q \<in> ran M \<Longrightarrow> x \<in> page_bytes q \<Longrightarrow> mem s' x = mem s x"
    and "\<And>q. q \<in> ran M \<Longrightarrow> refcnt s' (pno q) = refcnt s (pno q)"
  shows "tree_inv s' h p M"
proof -
  have ld: "ld64 (mem s') (unat q + 8 * i) = ld64 (mem s) (unat q + 8 * i)" if "q \<in> ran M" "i < 512" for q i
    by (rule ld64_page) (use assms(3) that in auto)
  note t = tree_invD [OF assms(1)]
  show ?thesis
    unfolding tree_inv_def konlyD(6) [OF assms(2)]
    using t assms(4) ranI [of M] ld by (intro conjI allI impI) auto
qed

lemma ran_tree:
  assumes "tree_inv s h p M"
  shows "ran M = insert p (\<Union>j<512. ran (below M j))"
proof
  note t = tree_invD [OF assms]
  show "ran M \<subseteq> insert p (\<Union>j<512. ran (below M j))"
  proof
    fix q assume "q \<in> ran M"
    then obtain \<pi> where \<pi>: "M \<pi> = Some q" by (auto simp: ran_def)
    show "q \<in> insert p (\<Union>j<512. ran (below M j))"
    proof (cases \<pi>)
      case Nil
      with \<pi> t(1) show ?thesis by simp
    next
      case (Cons j \<rho>)
      with t(4) [OF \<pi>, of j] \<pi> show ?thesis by (auto simp: below_def ran_def)
    qed
  qed
  show "insert p (\<Union>j<512. ran (below M j)) \<subseteq> ran M" using t(1) by (auto simp: below_def ran_def)
qed

lemma below_disjoint:
  assumes "tree_inv s h p M" "q \<in> ran (below M j)"
  shows "q \<noteq> p" "j \<noteq> k \<Longrightarrow> q \<notin> ran (below M k)" "ram_page s q" "M [j] \<noteq> None"
proof -
  note t = tree_invD [OF assms(1)]
  obtain \<pi> where \<pi>: "M (j # \<pi>) = Some q" using assms(2) by (auto simp: below_def ran_def)
  have inj: "\<rho> = j # \<pi>" if "M \<rho> = Some q" for \<rho> using inj_onD [OF t(2), of \<rho> "j # \<pi>"] that \<pi> by auto
  show "q \<noteq> p" using inj [of "[]"] t(1) by auto
  show "j \<noteq> k \<Longrightarrow> q \<notin> ran (below M k)" using inj by (auto simp: below_def ran_def)
  show "ram_page s q" by (rule t(5) [OF \<pi>])
  show "M [j] \<noteq> None"
  proof
    assume n: "M [j] = None"
    have "M (j # \<rho>) = None" for \<rho>
    proof (induction \<rho> rule: rev_induct)
      case (snoc i \<rho>)
      then show ?case using t(7) [of "j # \<rho>" i] by simp
    qed (rule n)
    with \<pi> show False by simp
  qed
qed

section \<open>Freeing\<close>

text \<open>The pages \<open>A\<close> went back to the allocator; memory outside \<open>A\<close> and \<open>B\<close> is as before.\<close>

definition freed :: "'z kmem_scheme \<Rightarrow> u64 list \<Rightarrow> u64 set \<Rightarrow> u64 set \<Rightarrow> 'z kmem_scheme \<Rightarrow> u64 list \<Rightarrow> bool" where
  "freed s fl A B s' fl' \<longleftrightarrow>
     kmem_inv s' fl' \<and> konly s s' \<and> set fl' = set fl \<union> A \<and>
     refcnt s' = (\<lambda>n. if n \<in> pno ` A then 0 else refcnt s n) \<and>
     (\<forall>x. (\<forall>q\<in>A \<union> B. x \<notin> page_bytes q) \<longrightarrow> mem s' x = mem s x)"

lemma freedD:
  assumes "freed s fl A B s' fl'"
  shows "kmem_inv s' fl'" "konly s s'" "set fl' = set fl \<union> A"
    "refcnt s' = (\<lambda>n. if n \<in> pno ` A then 0 else refcnt s n)"
    "\<And>x. (\<And>q. q \<in> A \<union> B \<Longrightarrow> x \<notin> page_bytes q) \<Longrightarrow> mem s' x = mem s x"
  using assms by (auto simp: freed_def)

lemma freed_trans:
  assumes "freed s fl A B s' fl'" "freed s' fl' A' B' s'' fl''" "B' \<subseteq> B"
  shows "freed s fl (A \<union> A') B s'' fl''"
proof -
  note a = freedD [OF assms(1)] and b = freedD [OF assms(2)]
  have "mem s'' x = mem s x" if x: "\<forall>q\<in>(A \<union> A') \<union> B. x \<notin> page_bytes q" for x
  proof -
    have "mem s'' x = mem s' x" by (rule b(5)) (use x assms(3) in blast)
    also have "\<dots> = mem s x" by (rule a(5)) (use x in blast)
    finally show ?thesis .
  qed
  then show ?thesis
    using a(3,4) b(1,3,4) konly_trans [OF a(2) b(2)] by (auto simp: freed_def fun_eq_iff)
qed

lemma pno_notin:
  assumes "ram_page s q" "\<And>r. r \<in> A \<Longrightarrow> ram_page s r" "q \<notin> A"
  shows "pno q \<notin> pno ` A"
proof
  assume "pno q \<in> pno ` A"
  then obtain r where "r \<in> A" "pno q = pno r" by auto
  with pno_inj [of q r] assms show False by (auto simp: ram_page_def)
qed

text \<open>The loop has reached entry \<open>i\<close>; the part of the table from there on is untouched.\<close>

definition untouched :: "'z kmem_scheme \<Rightarrow> u64 \<Rightarrow> nodes \<Rightarrow> nat \<Rightarrow> 'z kmem_scheme \<Rightarrow> bool" where
  "untouched s p M i s' \<longleftrightarrow>
     konly s s' \<and> refcnt s' (pno p) = 1 \<and>
     (\<forall>j. i \<le> j \<longrightarrow> j < 512 \<longrightarrow> ld64 (mem s') (unat p + 8 * j) = ld64 (mem s) (unat p + 8 * j) \<and>
        (\<forall>q\<in>ran (below M j). refcnt s' (pno q) = refcnt s (pno q) \<and>
           (\<forall>x\<in>page_bytes q. mem s' x = mem s x)))"

lemma untouchedD:
  assumes "untouched s p M i s'"
  shows "konly s s'" "refcnt s' (pno p) = 1"
    "\<And>j. i \<le> j \<Longrightarrow> j < 512 \<Longrightarrow> ld64 (mem s') (unat p + 8 * j) = ld64 (mem s) (unat p + 8 * j)"
    "\<And>j q. i \<le> j \<Longrightarrow> j < 512 \<Longrightarrow> q \<in> ran (below M j) \<Longrightarrow> refcnt s' (pno q) = refcnt s (pno q)"
    "\<And>j q x. i \<le> j \<Longrightarrow> j < 512 \<Longrightarrow> q \<in> ran (below M j) \<Longrightarrow> x \<in> page_bytes q \<Longrightarrow> mem s' x = mem s x"
  using assms by (auto simp: untouched_def)

lemma untouched_step:
  assumes "tree_inv s h p M" "untouched s p M i s1" "i < 512"
    and "freed s1 fl1 (ran (below M i)) {} s2 fl2"
  shows "untouched s p M (Suc i) (stpte (p + 8 * of_nat i) 0 s2)"
    "freed s1 fl1 (ran (below M i)) {p} (stpte (p + 8 * of_nat i) 0 s2) fl2"
proof -
  note f = freedD [OF assms(4)] and d = below_disjoint [OF assms(1)] and t = tree_invD [OF assms(1)]
    and u = untouchedD [OF assms(2)]
  let ?s = "stpte (p + 8 * of_nat i) 0 s2"
  have rp: "ram_page s p" by (rule t(5) [OF t(1)])
  have k: "konly s s2" using assms(2) konly_trans f(2) by (auto simp: untouched_def)
  have rp2: "ram_page s2 p" using rp konlyD(6) [OF k] by simp
  have i: "unat (of_nat i :: u64) = i" "(of_nat i :: u64) < 512"
    using assms(3) by (simp_all add: word_less_nat_alt)
  have ua: "unat (p + 8 * of_nat i) = unat p + 8 * i" using unat_pte_addr [OF rp, of "of_nat i"] assms(3) i by simp
  have ram: "ram_page s q" if "q \<in> ran (below M j)" for q j using d(3) that by blast
  have out: "mem ?s x = mem s2 x" if "x \<notin> page_bytes p" for x by (rule stpte_mem_other [OF rp2 i(2) that])
  have m2: "mem s2 x = mem s1 x" if "x \<in> page_bytes q" "ram_page s q" "q \<notin> ran (below M i)" for x q
    using page_out [OF that(1,2) ram] that(3) by (intro f(5)) auto
  have pi: "p \<notin> ran (below M i)" using d(1) by auto
  have pb: "unat p + x \<in> page_bytes p" if "x < 4096" for x using page_bytes_offset [OF that] .
  have ldp: "ld64 (mem ?s) (unat p + 8 * j) = ld64 (mem s1) (unat p + 8 * j)" if "Suc i \<le> j" "j < 512" for j
  proof -
    have "ld64 (mem ?s) (unat p + 8 * j) = ld64 (mem s2) (unat p + 8 * j)"
      unfolding stpte_def using that by (simp add: ua loadw_storew_other)
    also have "\<dots> = ld64 (mem s1) (unat p + 8 * j)" using m2 [OF _ rp pi] that(2) by (intro ld64_page) auto
    finally show ?thesis .
  qed
  have rest: "refcnt ?s (pno q) = refcnt s1 (pno q) \<and> (\<forall>x\<in>page_bytes q. mem ?s x = mem s1 x)"
    if j: "Suc i \<le> j" and q: "q \<in> ran (below M j)" for j q
  proof -
    have n: "q \<notin> ran (below M i)" "q \<noteq> p" using d(2) [OF q, of i] d(1) [OF q] j by auto
    have "pno q \<notin> pno ` ran (below M i)" by (rule pno_notin [of s]) (use ram q n in auto)
    moreover have "mem ?s x = mem s1 x" if "x \<in> page_bytes q" for x
      using out m2 [OF that ram [OF q] n(1)] page_out [OF that ram [OF q] rp n(2)] by simp
    ultimately show ?thesis by (simp add: f(4))
  qed
  have "pno p \<notin> pno ` ran (below M i)" by (rule pno_notin [of s]) (use ram rp pi in auto)
  then have "refcnt ?s (pno p) = 1" using u(2) by (simp add: f(4))
  then show "untouched s p M (Suc i) ?s"
    using konly_trans [OF k konly_intros(3)] ldp rest u(3-5) [OF Suc_leD]
    unfolding untouched_def by (intro conjI allI impI ballI) fastforce+
  have "kmem_inv ?s fl2"
  proof (rule kmem_inv_frame [OF f(1)])
    fix q x assume q: "q \<in> set fl2" "x \<in> page_bytes q"
    have "refcnt s2 (pno p) = 1" using assms(2) \<open>pno p \<notin> pno ` ran (below M i)\<close> by (simp add: f(4) untouched_def)
    then have "q \<noteq> p" using kmem_invD(6) [OF f(1) q(1)] by auto
    then show "mem ?s x = mem s2 x" using out page_out [OF q(2) kmem_invD(5) [OF f(1) q(1)] rp2] by simp
  qed (use kmem_invD [OF f(1)] in auto)
  then show "freed s1 fl1 (ran (below M i)) {p} ?s fl2"
    using f konly_trans [OF f(2) konly_intros(3)] out by (auto simp: freed_def)
qed

lemma node_entry_no_leaf: "(PA2PTE q OR 1) AND (PTE_R OR PTE_W OR PTE_X) = 0"
proof (rule bit_word_eqI)
  fix n
  have "\<not> bit (PA2PTE q) n" if "n < 10" using that by (simp add: PA2PTE_def bit_simps)
  moreover have "PTE_R OR PTE_W OR PTE_X = (14 :: u64)" by simp
  moreover have "n < 10 \<and> n \<noteq> 0" if "bit (14 :: u64) n"
  proof -
    have "(14 :: u64) = mask 4 AND NOT 1" by (simp add: mask_eq_exp_minus_1)
    with that show ?thesis by (auto simp: bit_simps)
  qed
  ultimately show "bit ((PA2PTE q OR 1) AND (PTE_R OR PTE_W OR PTE_X)) n = bit (0 :: u64) n"
    by (auto simp: bit_simps)
qed

lemma freewalk_loop_spec:
  fixes s :: "'z kmem_scheme"
  assumes "tree_inv s h p M" "untouched s p M i s1" "kmem_inv s1 fl1" "i \<le> 512"
    and IH: "\<And>h' q M' (s :: 'z kmem_scheme) fl. h = Suc h' \<Longrightarrow> tree_inv s h' q M' \<Longrightarrow> kmem_inv s fl \<Longrightarrow>
      \<exists>s' fl'. freewalk h' q s = Inr s' \<and> freed s fl (ran M') {} s' fl'"
  shows "\<exists>s' fl'. freewalk_loop h p i s1 = Inr s' \<and> untouched s p M 512 s' \<and>
    freed s1 fl1 (\<Union>j\<in>{i..<512}. ran (below M j)) {p} s' fl'"
  using assms(2-4)
proof (induction "512 - i" arbitrary: i s1 fl1)
  case 0
  then show ?case
    by (subst freewalk_loop.simps) (auto simp: freed_def intro!: exI [of _ fl1])
next
  case (Suc n)
  note t = tree_invD [OF assms(1)] and u = untouchedD [OF Suc.prems(1)]
  have i: "i < 512" "unat (of_nat i :: u64) = i" using Suc.hyps(2) by simp_all
  have e: "ldpte s1 (p + 8 * of_nat i) = ld64 (mem s) (unat p + 8 * i)"
    using unat_pte_addr [OF t(5) [OF t(1)], of "of_nat i"] i u(3) [of i] by (simp add: ldpte_def)
  have ent: "node_entry (ld64 (mem s) (unat p + 8 * i)) (M [i])" using t(8) [OF t(1) i(1)] by simp
  have split: "{i..<512} = insert i {Suc i..<512}" using i by auto
  show ?case
  proof (cases "M [i]")
    case None
    then have r: "ran (below M i) = {}" using below_disjoint(4) [OF assms(1), of _ i] by auto
    have "untouched s p M (Suc i) s1"
      using u(1,2) u(3-5) [OF Suc_leD] unfolding untouched_def by (intro conjI allI impI ballI) blast+
    from Suc.hyps(1) [OF _ this Suc.prems(2)] Suc.hyps(2) i(1) None ent r show ?thesis
      by (subst freewalk_loop.simps) (auto simp: e node_entry_def split)
  next
    case (Some q)
    obtain h' where h: "h = Suc h'" using t(3) [OF Some] by (cases h) auto
    have q: "ram_page s q" by (rule t(5) [OF Some])
    have eq: "ld64 (mem s) (unat p + 8 * i) = PA2PTE q OR PTE_V" using ent Some by (simp add: node_entry_def)
    have nz: "(PA2PTE q OR 1) AND PTE_V \<noteq> 0" "PTE2PA (PA2PTE q OR 1) = q"
      using node_entry_Some [OF _ q, of "PA2PTE q OR 1"] by (simp_all add: node_entry_def)
    have "tree_inv s1 h' q (below M i)"
      using u(4,5) [OF _ i(1)] by (intro tree_inv_frame [OF tree_below u(1)]) (use assms(1) h Some in auto)
    from IH [OF h this Suc.prems(2)] obtain s2 fl2 where
      s2: "freewalk h' q s1 = Inr s2" and f2: "freed s1 fl1 (ran (below M i)) {} s2 fl2" by blast
    note st = untouched_step [OF assms(1) Suc.prems(1) i(1) f2]
    let ?s = "stpte (p + 8 * of_nat i) 0 s2"
    have n: "n = 512 - Suc i" "Suc i \<le> 512" using Suc.hyps(2) i(1) by simp_all
    obtain s' fl' where r: "freewalk_loop h p (Suc i) ?s = Inr s'" "untouched s p M 512 s'"
      "freed ?s fl2 (\<Union>j\<in>{Suc i..<512}. ran (below M j)) {p} s' fl'"
      using Suc.hyps(1) [OF n(1) st(1) freedD(1) [OF st(2)] n(2)] by blast
    have "freewalk_loop h p i s1 = Inr s'"
      using r(1) s2 h i(1) nz node_entry_no_leaf by (subst freewalk_loop.simps) (simp add: e eq)
    with r(2) freed_trans [OF st(2) r(3)] show ?thesis by (auto simp: split)
  qed
qed

lemma freewalk_spec:
  assumes "tree_inv s h p M" "kmem_inv s fl"
  shows "\<exists>s' fl'. freewalk h p s = Inr s' \<and> freed s fl (ran M) {} s' fl'"
  using assms
proof (induction h arbitrary: s p M fl rule: less_induct)
  case (less h)
  note t = tree_invD [OF less.prems(1)]
  have "untouched s p M 0 s" using t(1,6) by (auto simp: untouched_def)
  then obtain s1 fl1 where l: "freewalk_loop h p 0 s = Inr s1" "untouched s p M 512 s1"
    "freed s fl (\<Union>j\<in>{0..<512}. ran (below M j)) {p} s1 fl1"
    using freewalk_loop_spec [OF less.prems(1) _ less.prems(2), of 0] less.IH by blast
  note f = freedD [OF l(3)] and u = untouchedD [OF l(2)]
  have rp: "ram_page s1 p" using t(5) [OF t(1)] konlyD(6) [OF f(2)] by simp
  obtain s2 fl2 where k: "kfree p s1 = Inr s2" "kmem_inv s2 fl2" "konly s1 s2"
    "refcnt s2 = (refcnt s1)(pno p := refcnt s1 (pno p) - 1)"
    "fl2 = (if refcnt s1 (pno p) = 1 then p # fl1 else fl1)"
    "\<And>x. x \<notin> page_bytes p \<or> p \<notin> set fl2 \<Longrightarrow> mem s2 x = mem s1 x"
    using kfree_step [OF f(1) rp] u(2) by (metis order_refl)
  have "freed s1 fl1 {p} {} s2 fl2" using k u(2) by (auto simp: freed_def fun_eq_iff)
  from freed_trans [OF l(3) this] have "freed s fl ((\<Union>j\<in>{0..<512}. ran (below M j)) \<union> {p}) {p} s2 fl2" by simp
  then have "freed s fl (ran M) {} s2 fl2"
    unfolding ran_tree [OF less.prems(1)] by (simp add: freed_def lessThan_atLeast0)
  with l(1) k(1) show ?case by (subst freewalk.simps) auto
qed

text \<open>
  Everything below \<open>sz\<close> is mapped to a page of the process and nothing else is: \<open>uvmfree\<close> frees
  the pages (a shared one loses one reference) and then the table.
\<close>

lemma uvmfree_eq:
  assumes "pt_inv s root N" "kmem_inv s fl" "user_inv s N" "unat sz \<le> 0x4000000000"
    and "\<And>v. v < pages_of sz \<Longrightarrow> upage s N v \<noteq> 0 \<and> leaf s N v AND PTE_R \<noteq> 0"
    and "\<And>v. pages_of sz \<le> v \<Longrightarrow> leaf s N v AND PTE_V = 0"
  obtains s' fl' where "uvmfree root sz s = Inr s'" "kmem_inv s' fl'" "konly s s'"
    "refcnt s' = (\<lambda>k. if k \<in> pno ` ran N then 0 else refcnt s k - refs (leaf s N) 0 (pages_of sz) k)"
    "set fl \<union> ran N \<subseteq> set fl'" "set fl' \<subseteq> set fl \<union> ran N \<union> upage s N ` {0..<pages_of sz}"
    "\<And>x. (\<And>p. p \<in> set fl' \<Longrightarrow> x \<notin> page_bytes p) \<Longrightarrow> mem s' x = mem s x"
proof -
  let ?n = "pages_of sz"
  note pg = PGROUNDUP_va [OF assms(4)]
  obtain s1 fl1 where u: "uvmunmap_loop root (PGSIZE * of_nat 0) (PGSIZE * of_nat (0 + ?n)) True s = Inr s1"
    "pt_inv s1 root N" "kmem_inv s1 fl1" "konly s s1" "user_inv s1 N" "leaf s1 N = unmap_range 0 ?n (leaf s N)"
    "set fl1 \<subseteq> set fl \<union> upage s N ` {0..<0 + ?n}" "set fl \<subseteq> set fl1"
    "refcnt s1 = (\<lambda>k. refcnt s k - refs (leaf s N) 0 ?n k)"
    "\<And>x. (\<And>p. p \<in> ran N \<union> set fl1 \<Longrightarrow> x \<notin> page_bytes p) \<Longrightarrow> mem s1 x = mem s x"
    by (rule unmap_user [OF assms(1-3), of 0 ?n]) (use pg(2) assms(5) in auto)
  have "tree_inv s1 2 root N" by (rule pt_inv_tree [OF u(2)]) (use assms(6) in \<open>simp add: u(6) unmap_range_def\<close>)
  from freewalk_spec [OF this u(3)] obtain s' fl' where
    w: "freewalk 2 root s1 = Inr s'" "freed s1 fl1 (ran N) {} s' fl'" by blast
  note f = freedD [OF w(2)]
  have un: "uvmunmap root 0 (PGROUNDUP sz div PGSIZE) True s = Inr s1" if "sz > 0"
    using u(1) pg va_div [of ?n] by (simp add: uvmunmap_def mult.commute)
  have "?n = 0" if "\<not> sz > 0" using that by (simp add: pages_of_def word_gt_0)
  then have un0: "s1 = s" if "\<not> sz > 0" using u(1) that by (simp add: uvmunmap_loop.simps)
  have "uvmfree root sz s = Inr s'" using un un0 w(1) by (cases "sz > 0") (simp_all add: uvmfree_def del: freewalk.simps)
  moreover have "mem s' x = mem s x" if x: "\<And>p. p \<in> set fl' \<Longrightarrow> x \<notin> page_bytes p" for x
  proof -
    have "mem s' x = mem s1 x" by (rule f(5)) (use x f(3) in auto)
    also have "\<dots> = mem s x" by (rule u(10)) (use x f(3) in auto)
    finally show ?thesis .
  qed
  ultimately show ?thesis
    using f u(7,8) konly_trans [OF u(4) f(2)] by (intro that [of s' fl']) (auto simp: u(9) fun_eq_iff)
qed

end
