(* ===== verification/VmFrame.thy ===== *)
theory VmFrame
  imports CowFork FreeSpace
begin

text \<open>
  What the memory code leaves alone, from any state: whenever an operation of
  \<^verbatim>\<open>kernel/kalloc.c\<close> or \<^verbatim>\<open>kernel/vm.c\<close> returns, only memory, the free list and the reference
  counts have changed (\<open>konly\<close>). The components above (processes, files, the file system) use this
  to carry their own state across calls into the memory code, without its invariants.
\<close>

named_theorems konly_rules

lemma konly_section:
  assumes "acq l s = Inr s1" "konly s1 s2" "rel l s2 = Inr s3"
  shows "konly s s3"
proof -
  from assms(1) have s1: "l \<notin> held s" "s1 = s\<lparr>held := insert l (held s)\<rparr>"
    by (auto simp: acq_def split: if_splits)
  from assms(2) obtain m f r where "s2 = s1\<lparr>mem := m, freelist := f, refcnt := r\<rparr>" by (auto simp: konly_def)
  with s1 assms(3) have "s3 = s\<lparr>mem := m, freelist := f, refcnt := r\<rparr>" by (auto simp: rel_def split: if_splits)
  then show ?thesis by (auto simp: konly_def)
qed

lemma krefincr_konly [konly_rules]: "krefincr p s = Inr s' \<Longrightarrow> konly s s'"
  by (auto simp: krefincr_def Let_def res_simps split: if_splits elim!: konly_section)

lemma krefdecr_konly [konly_rules]: "krefdecr p s = Inr s' \<Longrightarrow> konly s s'"
  by (auto simp: krefdecr_def Let_def res_simps split: if_splits elim!: konly_section)

lemma konly_freelist [simp]: "konly s (s\<lparr>freelist := f\<rparr>)"
  unfolding konly_def by (intro exI [of _ "mem s"] exI [of _ f] exI [of _ "refcnt s"]) simp

lemma konly_upd:
  "konly s (s\<lparr>refcnt := r, freelist := f\<rparr>)" "konly s (s\<lparr>mem := m, freelist := f\<rparr>)"
  using konly_trans [OF konly_intros(2) [of s r] konly_freelist] konly_trans [OF konly_intros(1) [of s m] konly_freelist]
  by simp_all

lemma kalloc_konly [konly_rules]:
  assumes "kalloc s = Inr (p, s')" shows "konly s s'"
proof -
  from assms obtain s1 where s1: "acq Lkmem s = Inr s1" by (auto simp: kalloc_def res_simps)
  with assms consider "rel Lkmem s1 = Inr s'"
    | r f s3 m where "rel Lkmem (s1\<lparr>refcnt := r, freelist := f\<rparr>) = Inr s3" "s' = s3\<lparr>mem := m\<rparr>"
    by (auto simp: kalloc_def Let_def res_simps split: if_splits)
  then show ?thesis
  proof cases
    case 1
    with s1 konly_refl show ?thesis by (rule konly_section)
  next
    case 2
    from konly_section [OF s1 konly_upd(1) 2(1)] konly_intros(1) show ?thesis by (auto simp: 2(2) intro: konly_trans)
  qed
qed

lemma kfree_konly [konly_rules]:
  assumes "kfree p s = Inr s'" shows "konly s s'"
proof -
  from assms obtain s1 where s1: "acq Lkmem s = Inr s1" by (auto simp: kfree_def res_simps split: if_splits)
  let ?s1 = "s1\<lparr>refcnt := (refcnt s1)(pno p := refcnt s1 (pno p) - 1)\<rparr>"
  from assms s1 consider "rel Lkmem ?s1 = Inr s'"
    | s2 s3 where "rel Lkmem ?s1 = Inr s2" "acq Lkmem (s2\<lparr>mem := memset (mem s2) (unat p) 1 4096\<rparr>) = Inr s3"
        "rel Lkmem (s3\<lparr>mem := st64 (mem s3) (unat p) (freelist s3), freelist := p\<rparr>) = Inr s'"
    by (auto simp: kfree_def Let_def res_simps split: if_splits)
  then show ?thesis
  proof cases
    case 1
    with konly_section [OF s1 konly_intros(2)] show ?thesis by blast
  next
    case 2
    note konly_section [OF s1 konly_intros(2) 2(1)]
    also have "konly s2 (s2\<lparr>mem := memset (mem s2) (unat p) 1 4096\<rparr>)" by simp
    also note konly_section [OF 2(2) konly_upd(2) 2(3)]
    finally show ?thesis .
  qed
qed

lemma walk_loop_konly: "walk_loop l pt va al s = Inr (r, s') \<Longrightarrow> konly s s'"
proof (induction l arbitrary: pt s)
  case (Suc l)
  show ?case
  proof (cases "ldpte s (pt + 8 * PX (Suc l) va) AND PTE_V \<noteq> 0 \<or> \<not> al")
    case True
    with Suc show ?thesis by (auto simp: Let_def split: if_splits)
  next
    case False
    with Suc.prems obtain p s1 where k: "kalloc s = Inr (p, s1)" by (auto simp: Let_def res_simps)
    let ?s2 = "stpte (pt + 8 * PX (Suc l) va) (PA2PTE p OR PTE_V) (zero_page p s1)"
    note kalloc_konly [OF k]
    also have "konly s1 ?s2" by (rule konly_trans [OF konly_intros(4) konly_intros(3)])
    finally have "konly s ?s2" .
    with Suc.prems False k Suc.IH [of p ?s2] kalloc_konly [OF k] show ?thesis
      by (auto simp: Let_def split: if_splits dest: konly_trans)
  qed
qed simp

lemma walk_konly [konly_rules]: "walk pt va al s = Inr (r, s') \<Longrightarrow> konly s s'"
  by (auto simp: walk_def dest: walk_loop_konly split: if_splits)

lemma mappages_loop_konly: "mappages_loop pt a b pa perm s = Inr (r, s') \<Longrightarrow> konly s s'"
proof (induction pt a b pa perm s rule: mappages_loop.induct)
  case (1 pt a b pa perm s)
  from "1.prems" obtain pte s1 where w: "walk pt a True s = Inr (pte, s1)"
    by (subst (asm) mappages_loop.simps) (auto simp: res_simps)
  let ?s2 = "stpte pte (PA2PTE pa OR perm OR PTE_V) s1"
  have k: "konly s s1" "konly s ?s2" using walk_konly [OF w] konly_trans konly_intros(3) by blast+
  from "1.prems" w consider "s' = s1" | "s' = ?s2"
    | "mappages_loop pt (a + PGSIZE) b (pa + PGSIZE) perm ?s2 = Inr (r, s')"
      "pte \<noteq> 0" "\<not> ldpte s1 pte AND PTE_V \<noteq> 0" "a \<noteq> b"
    by (subst (asm) mappages_loop.simps) (auto simp: Let_def split: if_splits)
  then show ?case
  proof cases
    case 3
    from "1.IH" [OF w refl 3(2,3) refl 3(4,1)] k(2) show ?thesis by (rule konly_trans [rotated])
  qed (use k in auto)
qed

lemma mappages_konly [konly_rules]: "mappages pt a sz pa perm s = Inr (r, s') \<Longrightarrow> konly s s'"
  by (auto simp: mappages_def dest: mappages_loop_konly split: if_splits)

lemma uvmunmap_loop_konly: "uvmunmap_loop pt a b f s = Inr s' \<Longrightarrow> konly s s'"
proof (induction pt a b f s rule: uvmunmap_loop.induct)
  case (1 pt a b f s)
  show ?case
  proof (cases "a < b")
    case True
    with "1.prems" obtain pte s1 where w: "walk pt a False s = Inr (pte, s1)"
      by (subst (asm) uvmunmap_loop.simps) (auto simp: res_simps)
    with "1.prems" True have ok: "pte \<noteq> 0" "ldpte s1 pte AND PTE_V \<noteq> 0" "PTE_FLAGS (ldpte s1 pte) \<noteq> PTE_V"
      by (subst (asm) uvmunmap_loop.simps, auto split: if_splits)+
    with "1.prems" True w obtain s2 where s2: "(if f then kfree (PTE2PA (ldpte s1 pte)) s1 else Inr s1) = Inr s2"
      and rest: "uvmunmap_loop pt (a + PGSIZE) b f (stpte pte 0 s2) = Inr s'"
      by (subst (asm) uvmunmap_loop.simps) (auto simp: res_simps)
    note walk_konly [OF w]
    also have "konly s1 s2" using s2 kfree_konly by (auto split: if_splits)
    also have "konly s2 (stpte pte 0 s2)" by simp
    also have "konly (stpte pte 0 s2) s'" using "1.IH" [OF True w refl ok s2 rest] .
    finally show ?thesis .
  qed (use "1.prems" in \<open>simp add: uvmunmap_loop.simps\<close>)
qed

lemma uvmunmap_konly [konly_rules]: "uvmunmap pt a n f s = Inr s' \<Longrightarrow> konly s s'"
  by (auto simp: uvmunmap_def dest: uvmunmap_loop_konly split: if_splits)

lemma uvmcreate_konly [konly_rules]: "uvmcreate s = Inr (p, s') \<Longrightarrow> konly s s'"
  using konly_intros(4) by (auto simp: uvmcreate_def res_simps split: if_splits dest!: kalloc_konly intro: konly_trans)

lemma freewalk_konly:
  "freewalk_loop h p i s = Inr s' \<Longrightarrow> konly s s'"
  "freewalk h p s = Inr s' \<Longrightarrow> konly s s'"
proof (induction h p i s and h p s arbitrary: s' and s' rule: freewalk_loop_freewalk.induct)
  case (1 h p i s)
  let ?e = "ldpte s (p + 8 * of_nat i)"
  show ?case
  proof (cases "i < 512 \<and> ?e AND PTE_V \<noteq> 0 \<and> ?e AND (PTE_R OR PTE_W OR PTE_X) = 0")
    case True
    with "1.prems" obtain h' s1 where h: "h = Suc h'" "freewalk h' (PTE2PA ?e) s = Inr s1"
      and rest: "freewalk_loop h p (i + 1) (stpte (p + 8 * of_nat i) 0 s1) = Inr s'"
      by (subst (asm) freewalk_loop.simps) (auto simp: res_simps Let_def split: nat.splits)
    have "konly s s1" using "1.IH"(1) [OF _ refl _ h(1)] True h(2) by blast
    also have "konly s1 (stpte (p + 8 * of_nat i) 0 s1)" by simp
    also have "konly (stpte (p + 8 * of_nat i) 0 s1) s'"
      using "1.IH"(2) [OF _ refl _ _ rest] True h by auto
    finally show ?thesis .
  next
    case False
    with "1.prems" "1.IH"(3) show ?thesis
      by (subst (asm) freewalk_loop.simps) (auto simp: Let_def split: if_splits)
  qed
next
  case (2 h p s)
  from "2.prems" obtain s1 where "freewalk_loop h p 0 s = Inr s1" "kfree p s1 = Inr s'"
    by (auto simp: freewalk.simps res_simps)
  with "2.IH" kfree_konly show ?case by (blast intro: konly_trans)
qed

lemma uvmfree_konly [konly_rules]: "uvmfree pt sz s = Inr s' \<Longrightarrow> konly s s'"
  by (auto simp: uvmfree_def res_simps split: if_splits dest!: freewalk_konly(2) uvmunmap_konly intro: konly_trans)

lemma uvmdealloc_konly [konly_rules]: "uvmdealloc pt a b s = Inr (r, s') \<Longrightarrow> konly s s'"
  by (auto simp: uvmdealloc_def Let_def res_simps split: if_splits dest!: uvmunmap_konly)

lemma uvmalloc_loop_konly: "uvmalloc_loop pt a old new xp s = Inr (r, s') \<Longrightarrow> konly s s'"
proof (induction pt a old new xp s rule: uvmalloc_loop.induct)
  case (1 pt a old new xp s)
  show ?case
  proof (cases "a < new")
    case True
    with "1.prems" obtain p s1 where k: "kalloc s = Inr (p, s1)"
      by (subst (asm) uvmalloc_loop.simps) (auto simp: res_simps)
    note k1 = kalloc_konly [OF k]
    show ?thesis
    proof (cases "p = 0")
      case True
      with "1.prems" \<open>a < new\<close> k obtain x where "uvmdealloc pt a old s1 = Inr (x, s')"
        by (subst (asm) uvmalloc_loop.simps) (auto simp: res_simps)
      with k1 show ?thesis by (blast intro: konly_trans uvmdealloc_konly)
    next
      case False
      with "1.prems" True k obtain e s2 where m: "mappages pt a PGSIZE p (PTE_R OR PTE_U OR xp) (zero_page p s1) = Inr (e, s2)"
        by (subst (asm) uvmalloc_loop.simps) (auto simp: res_simps)
      note k1
      also have "konly s1 (zero_page p s1)" by simp
      also note mappages_konly [OF m]
      also have "konly s2 s'"
      proof (cases "e = 0")
        case True
        with "1.prems" \<open>a < new\<close> k m False have "uvmalloc_loop pt (a + PGSIZE) old new xp s2 = Inr (r, s')"
          by (subst (asm) uvmalloc_loop.simps) simp
        with "1.IH" [OF \<open>a < new\<close> k refl False m refl] True show ?thesis by simp
      next
        case ne: False
        with "1.prems" True k m False obtain s3 x where "kfree p s2 = Inr s3" "uvmdealloc pt a old s3 = Inr (x, s')"
          by (subst (asm) uvmalloc_loop.simps) (auto simp: res_simps)
        then show ?thesis by (blast intro: konly_trans kfree_konly uvmdealloc_konly)
      qed
      finally show ?thesis .
    qed
  qed (use "1.prems" in \<open>simp add: uvmalloc_loop.simps\<close>)
qed

lemma uvmalloc_konly [konly_rules]: "uvmalloc pt a b xp s = Inr (r, s') \<Longrightarrow> konly s s'"
  by (auto simp: uvmalloc_def dest: uvmalloc_loop_konly split: if_splits)

lemma uvmcopy_loop_konly: "uvmcopy_loop old new sz i s = Inr (r, s') \<Longrightarrow> konly s s'"
proof (induction old new sz i s rule: uvmcopy_loop.induct)
  case (1 old new sz i s)
  show ?case
  proof (cases "i < sz")
    case True
    with "1.prems" obtain pte s1 where w: "walk old i False s = Inr (pte, s1)"
      by (subst (asm) uvmcopy_loop.simps) (auto simp: res_simps)
    with "1.prems" True have ok: "pte \<noteq> 0" "ldpte s1 pte AND PTE_V \<noteq> 0"
      by (subst (asm) uvmcopy_loop.simps, auto split: if_splits)+
    let ?pa = "PTE2PA (ldpte s1 pte)" and ?f = "PTE_FLAGS (ldpte s1 pte)"
    let ?g = "(if ?f AND PTE_W \<noteq> 0 then (?f OR PTE_C) AND NOT PTE_W else ?f) OR PTE_C"
    from "1.prems" True w ok obtain s2 e s3 where k: "krefincr ?pa s1 = Inr s2"
      and m: "mappages new i PGSIZE ?pa ?g s2 = Inr (e, s3)"
      and r: "(if e \<noteq> 0 then bindR (uvmunmap new 0 (i div PGSIZE) True s3) (\<lambda>s. Inr (-1, s))
               else uvmcopy_loop old new sz (i + PGSIZE) s3) = Inr (r, s')"
      by (subst (asm) uvmcopy_loop.simps) (auto simp: res_simps Let_def)
    note walk_konly [OF w]
    also note krefincr_konly [OF k]
    also note mappages_konly [OF m]
    also have "konly s3 s'"
      using r "1.IH" [OF True w refl ok(1) _ refl refl refl refl k m refl] ok(2) uvmunmap_konly
      by (auto simp: res_simps split: if_splits)
    finally show ?thesis .
  qed (use "1.prems" in \<open>simp add: uvmcopy_loop.simps\<close>)
qed

lemma uvmcopy_konly [konly_rules]: "uvmcopy old new sz s = Inr (r, s') \<Longrightarrow> konly s s'"
  by (simp add: uvmcopy_def uvmcopy_loop_konly)

lemma uvmclear_konly [konly_rules]: "uvmclear pt a s = Inr s' \<Longrightarrow> konly s s'"
  by (auto simp: uvmclear_def res_simps split: if_splits dest!: walk_konly intro: konly_trans)

lemma uvmfirst_konly [konly_rules]: "uvmfirst pt src s = Inr s' \<Longrightarrow> konly s s'"
  by (auto simp: uvmfirst_def res_simps split: if_splits dest!: kalloc_konly mappages_konly
      intro: konly_trans [OF konly_trans [OF konly_trans] konly_intros(1)] konly_intros(4))

lemma cowalloc_konly [konly_rules]:
  assumes "cowalloc pt va s = Inr (r, s')" shows "konly s s'"
proof -
  consider "s' = s" | pte s1 where "walk pt va False s = Inr (pte, s1)" "s' = s1"
    | pte s1 ka s2 where "walk pt va False s = Inr (pte, s1)" "kalloc s1 = Inr (ka, s2)" "s' = s2"
    | pte s1 ka s2 m c d pa where "walk pt va False s = Inr (pte, s1)" "kalloc s1 = Inr (ka, s2)"
        "krefdecr pa (stpte c d (s2\<lparr>mem := m\<rparr>)) = Inr s'"
    using assms by (auto simp: cowalloc_def Let_def res_simps split: if_splits)
  then show ?thesis
  proof cases
    case (4 pte s1 ka s2 m c d pa)
    note walk_konly [OF 4(1)]
    also note kalloc_konly [OF 4(2)]
    also have "konly s2 (s2\<lparr>mem := m\<rparr>)" by simp
    also have "konly (s2\<lparr>mem := m\<rparr>) (stpte c d (s2\<lparr>mem := m\<rparr>))" by simp
    also note krefdecr_konly [OF 4(3)]
    finally show ?thesis .
  qed (auto dest: walk_konly kalloc_konly intro: konly_trans)
qed

lemma copyout_konly [konly_rules]: "copyout pt va src s = Inr (r, s') \<Longrightarrow> konly s s'"
proof (induction pt va src s rule: copyout.induct)
  case (1 pt va src s)
  show ?case
  proof (cases "src = []")
    case False
    let ?va = "PGROUNDDOWN va" and ?n = "min (page_rest va) (length src)"
    from "1.prems" False consider "s' = s" "\<not> \<not> ?va > MAXVA"
      | e s1 where "\<not> ?va > MAXVA" "cowalloc pt ?va s = Inr (e, s1)" "s' = s1"
      | e s1 pa where "\<not> ?va > MAXVA" "cowalloc pt ?va s = Inr (e, s1)" "\<not> e < 0" "walkaddr pt ?va s1 = Inr pa" "pa \<noteq> 0"
          "copyout pt (?va + PGSIZE) (drop ?n src)
             (s1\<lparr>mem := store_bytes (mem s1) (unat (pa + (va - ?va))) (take ?n src)\<rparr>) = Inr (r, s')"
      by (subst (asm) copyout.simps) (auto simp: Let_def res_simps split: if_splits)
    then show ?thesis
    proof cases
      case (3 e s1 pa)
      note cowalloc_konly [OF 3(2)]
      also have "konly s1 (s1\<lparr>mem := store_bytes (mem s1) (unat (pa + (va - ?va))) (take ?n src)\<rparr>)" by simp
      also note "1.IH" [OF False refl 3(1,2) refl 3(3-5) refl refl 3(6)]
      finally show ?thesis .
    qed (auto dest: cowalloc_konly)
  qed (use "1.prems" in \<open>simp add: copyout.simps\<close>)
qed

end
