(* ===== verification/Device.thy ===== *)
theory Device
  imports Prelude
begin

text \<open>
  The 16550 UART of \<^verbatim>\<open>kernel/uart.c\<close> as the kernel sees it through its registers, and the state
  of the console driver on top of it (\<^verbatim>\<open>uart.c\<close>, \<^verbatim>\<open>console.c\<close>, \<^verbatim>\<open>printf.c\<close>).

  \<open>u_out\<close> is what has been written to the transmit holding register, \<open>u_in\<close> what has been received
  and not yet read, and \<open>u_room\<close> how many more bytes the transmitter takes before \<open>LSR_TX_IDLE\<close> reads
  0. Bytes leave the transmitter, and arrive, on their own: that is not part of the kernel's steps.
\<close>

section \<open>The UART registers\<close>

record uart =
  u_ier :: byte
  u_lcr :: byte
  u_fcr :: byte
  u_dll :: byte
  u_dlm :: byte
  u_room :: nat
  u_out :: "byte list"
  u_in :: "byte list"

abbreviation (input) "RHR \<equiv> 0 :: nat"
abbreviation (input) "THR \<equiv> 0 :: nat"
abbreviation (input) "IER \<equiv> 1 :: nat"
abbreviation (input) "FCR \<equiv> 2 :: nat"
abbreviation (input) "LCR \<equiv> 3 :: nat"
abbreviation (input) "LSR \<equiv> 5 :: nat"
abbreviation (input) "IER_RX_ENABLE \<equiv> 1 :: byte"
abbreviation (input) "IER_TX_ENABLE \<equiv> 2 :: byte"
abbreviation (input) "FCR_FIFO_ENABLE \<equiv> 1 :: byte"
abbreviation (input) "FCR_FIFO_CLEAR \<equiv> 6 :: byte"
abbreviation (input) "LCR_EIGHT_BITS \<equiv> 3 :: byte"
abbreviation (input) "LCR_BAUD_LATCH \<equiv> 128 :: byte"
abbreviation (input) "LSR_RX_READY \<equiv> 1 :: byte"
abbreviation (input) "LSR_TX_IDLE \<equiv> 32 :: byte"

text \<open>With the baud latch set in \<open>LCR\<close>, registers 0 and 1 are the two halves of the divisor.\<close>

definition WriteReg :: "nat \<Rightarrow> byte \<Rightarrow> uart \<Rightarrow> uart" where
  "WriteReg reg v u =
     (if reg = 0 then
        if u_lcr u AND LCR_BAUD_LATCH \<noteq> 0 then u\<lparr>u_dll := v\<rparr>
        else u\<lparr>u_out := u_out u @ [v], u_room := u_room u - 1\<rparr>
      else if reg = 1 then
        if u_lcr u AND LCR_BAUD_LATCH \<noteq> 0 then u\<lparr>u_dlm := v\<rparr> else u\<lparr>u_ier := v\<rparr>
      else if reg = 2 then u\<lparr>u_fcr := v\<rparr>
      else if reg = 3 then u\<lparr>u_lcr := v\<rparr>
      else u)"

definition ReadLSR :: "uart \<Rightarrow> byte" where
  "ReadLSR u = (if u_in u = [] then 0 else LSR_RX_READY) OR (if u_room u = 0 then 0 else LSR_TX_IDLE)"

definition ReadRHR :: "uart \<Rightarrow> byte \<times> uart" where
  "ReadRHR u = (hd (u_in u), u\<lparr>u_in := tl (u_in u)\<rparr>)"

section \<open>The state of the driver\<close>

text \<open>
  The rings of \<^verbatim>\<open>uart.c\<close> and \<^verbatim>\<open>console.c\<close>. \<open>devsw major\<close> says whether the entry of the device table of
  \<^verbatim>\<open>file.c\<close> is connected to \<open>consoleread\<close> and \<open>consolewrite\<close>, the only pair of functions that is ever
  put there.
\<close>

record console =
  con_uart :: uart
  uart_tx_buf :: "byte list"
  uart_tx_w :: u64
  uart_tx_r :: u64
  cons_buf :: "byte list"
  cons_r :: u32
  cons_w :: u32
  cons_e :: u32
  pr_locking :: bool
  panicked :: bool
  devsw :: "nat \<Rightarrow> bool"

definition console_zero :: console where
  "console_zero =
     \<lparr>con_uart = \<lparr>u_ier = 0, u_lcr = 0, u_fcr = 0, u_dll = 0, u_dlm = 0, u_room = 16, u_out = [], u_in = []\<rparr>,
      uart_tx_buf = replicate 32 0, uart_tx_w = 0, uart_tx_r = 0, cons_buf = replicate 128 0,
      cons_r = 0, cons_w = 0, cons_e = 0, pr_locking = False, panicked = False, devsw = (\<lambda>_. False)\<rparr>"

end
