(* ===== verification/Proc.thy ===== *)
theory Proc
  imports VmFrame Device
begin

text \<open>
  The process table of \<^verbatim>\<open>kernel/proc.c\<close> and \<^verbatim>\<open>kernel/proc.h\<close>: \<open>struct proc\<close> with the fields the
  schedulers added, allocation and release of a slot, its page table, and growing its memory.

  A pointer to a process is its index in \<open>proc[]\<close>. A trapframe is a page of memory, reached
  through its address and the offsets of \<open>struct trapframe\<close>. Open files and the current directory
  are indices into the file table and the inode table. Link-time addresses of functions
  (\<open>forkret\<close>, \<open>usertrap\<close>, the two entry points of the trampoline) are fields of the state.

  The \<open>uint\<close> fields are 32-bit words. The \<open>int\<close> fields are integers: the pid counter and the tick
  counters go up by one and do not reach \<open>2 ^ 31\<close>, a time slice doubles at most four times, and where
  the kernel computes with a number that a user chose (the tickets, in \<open>scheduler_LBS\<close>) the
  result is checked for overflow.
\<close>

section \<open>State\<close>

record ctx =
  cx_ra :: u64
  cx_sp :: u64
  cx_s0 :: u64
  cx_s1 :: u64
  cx_s2 :: u64
  cx_s3 :: u64
  cx_s4 :: u64
  cx_s5 :: u64
  cx_s6 :: u64
  cx_s7 :: u64
  cx_s8 :: u64
  cx_s9 :: u64
  cx_s10 :: u64
  cx_s11 :: u64

definition zero_context :: ctx where
  "zero_context = \<lparr>cx_ra = 0, cx_sp = 0, cx_s0 = 0, cx_s1 = 0, cx_s2 = 0, cx_s3 = 0, cx_s4 = 0,
     cx_s5 = 0, cx_s6 = 0, cx_s7 = 0, cx_s8 = 0, cx_s9 = 0, cx_s10 = 0, cx_s11 = 0\<rparr>"

datatype procstate = UNUSED | USED | SLEEPING | RUNNABLE | RUNNING | ZOMBIE

datatype trapframe =
    kernel_satp | kernel_sp | kernel_trap | TF_epc | kernel_hartid
  | TF_ra | TF_sp | TF_gp | TF_tp | TF_t0 | TF_t1 | TF_t2 | TF_s0 | TF_s1
  | TF_a0 | TF_a1 | TF_a2 | TF_a3 | TF_a4 | TF_a5 | TF_a6 | TF_a7
  | TF_s2 | TF_s3 | TF_s4 | TF_s5 | TF_s6 | TF_s7 | TF_s8 | TF_s9 | TF_s10 | TF_s11
  | TF_t3 | TF_t4 | TF_t5 | TF_t6

text \<open>The offset of a field in the page.\<close>

fun tf_off :: "trapframe \<Rightarrow> nat" where
  "tf_off kernel_satp = 0" | "tf_off kernel_sp = 8" | "tf_off kernel_trap = 16" | "tf_off TF_epc = 24"
| "tf_off kernel_hartid = 32" | "tf_off TF_ra = 40" | "tf_off TF_sp = 48" | "tf_off TF_gp = 56"
| "tf_off TF_tp = 64" | "tf_off TF_t0 = 72" | "tf_off TF_t1 = 80" | "tf_off TF_t2 = 88"
| "tf_off TF_s0 = 96" | "tf_off TF_s1 = 104" | "tf_off TF_a0 = 112" | "tf_off TF_a1 = 120"
| "tf_off TF_a2 = 128" | "tf_off TF_a3 = 136" | "tf_off TF_a4 = 144" | "tf_off TF_a5 = 152"
| "tf_off TF_a6 = 160" | "tf_off TF_a7 = 168" | "tf_off TF_s2 = 176" | "tf_off TF_s3 = 184"
| "tf_off TF_s4 = 192" | "tf_off TF_s5 = 200" | "tf_off TF_s6 = 208" | "tf_off TF_s7 = 216"
| "tf_off TF_s8 = 224" | "tf_off TF_s9 = 232" | "tf_off TF_s10 = 240" | "tf_off TF_s11 = 248"
| "tf_off TF_t3 = 256" | "tf_off TF_t4 = 264" | "tf_off TF_t5 = 272" | "tf_off TF_t6 = 280"

record proc =
  p_mask :: int
  p_ticks0 :: int
  p_state :: procstate
  p_chan :: "chan option"
  p_killed :: int
  p_xstate :: int
  p_pid :: int
  p_parent :: "nat option"
  p_kstack :: u64
  p_sz :: u64
  p_pagetable :: u64
  p_trapframe :: u64
  p_context :: ctx
  p_ofile :: "nat option list"
  p_cwd :: "nat option"
  p_name :: "byte list"
  p_alarm_handler :: u64
  p_handler :: u64
  p_checkifAlarmOn :: int
  p_sigticks :: int
  p_maxticks :: int
  p_tickets :: int
  p_time_spent :: int
  p_time_avail :: int
  p_ctime :: u32
  p_creationTime :: u32
  p_runTime :: u32
  p_endTime :: u32
  p_totalSleep :: u32
  p_sleepTimePrev :: u32
  p_sleepStartTime :: u32
  p_runTimePrev :: u32
  p_countTimeCalled :: u32
  p_sprior :: u32
  p_dprior :: u32
  p_niceness :: u32
  p_priority_level :: int
  p_ass_ticks :: int
  p_wait_time :: int
  p_ticks_elapsed :: int
  p_queue_ticks :: "int list"

text \<open>
  \<open>cur\<close> and \<open>schedctx\<close> are the \<open>proc\<close> and \<open>context\<close> fields of this hart's \<open>struct cpu\<close>. Its \<open>noff\<close> is
  the number of locks it holds (\<open>spin_inv\<close>), and \<open>sie\<close> is \<open>intena\<close>: whether interrupts are on when
  it holds none. \<open>regs\<close> are the callee-saved registers that \<open>swtch\<close> saves and loads. \<open>rand_z\<close> and
  \<open>forkret_first\<close> are the static variables of \<open>random_lbs\<close> and of \<open>forkret\<close>; \<open>con\<close> is the console.
\<close>

record kproc = kmem +
  procs :: "nat \<Rightarrow> proc"
  nextpid :: int
  initproc :: "nat option"
  ticks :: u32
  cur :: "nat option"
  schedctx :: ctx
  regs :: ctx
  sie :: bool
  a_forkret :: u64
  a_usertrap :: u64
  a_uservec :: u64
  a_userret :: u64
  kernel_pagetable :: u64
  rand_z :: "u32 \<times> u32 \<times> u32 \<times> u32"
  forkret_first :: bool
  con :: console

definition updp :: "nat \<Rightarrow> (proc \<Rightarrow> proc) \<Rightarrow> 'z kproc_scheme \<Rightarrow> 'z kproc_scheme" where
  "updp i f s = s\<lparr>procs := (procs s)(i := f (procs s i))\<rparr>"

text \<open>\<open>intr_get()\<close>: interrupts are on exactly when no lock is held and \<open>sie\<close> is set.\<close>

definition intr_get1 :: "'z kproc_scheme \<Rightarrow> bool" where
  "intr_get1 s \<longleftrightarrow> held s = {} \<and> sie s"

definition ldtf :: "u64 \<Rightarrow> trapframe \<Rightarrow> 'z machine_scheme \<Rightarrow> u64" where
  "ldtf tf r s = ld64 (mem s) (unat tf + tf_off r)"

definition sttf :: "u64 \<Rightarrow> trapframe \<Rightarrow> u64 \<Rightarrow> 'z machine_scheme \<Rightarrow> 'z machine_scheme" where
  "sttf tf r v s = s\<lparr>mem := st64 (mem s) (unat tf + tf_off r) v\<rparr>"

text \<open>\<open>myproc()\<close>, in a function that goes on to dereference the pointer.\<close>

definition myproc :: "'z kproc_scheme \<Rightarrow> nat res" where
  "myproc s = (case cur s of None \<Rightarrow> Inl (UB ''myproc: no process'') | Some p \<Rightarrow> Inr p)"

section \<open>Operations\<close>

definition procinit :: "'z kproc_scheme \<Rightarrow> 'z kproc_scheme" where
  "procinit s =
     fold (\<lambda>p s. updp p (\<lambda>q. q\<lparr>p_state := UNUSED, p_kstack := KSTACK p\<rparr>) (s\<lparr>held := held s - {Lproc p}\<rparr>))
       [0..<NPROC] (s\<lparr>held := held s - {Lpid, Lwait}\<rparr>)"

definition allocpid :: "'z kproc_scheme \<Rightarrow> (int \<times> 'z kproc_scheme) res" where
  "allocpid s =
     bindR (acq Lpid s) (\<lambda>s.
       let pid = nextpid s;
           s = s\<lparr>nextpid := nextpid s + 1\<rparr>
       in bindR (rel Lpid s) (\<lambda>s. Inr (pid, s)))"

definition proc_pagetable :: "nat \<Rightarrow> 'z kproc_scheme \<Rightarrow> (u64 \<times> 'z kproc_scheme) res" where
  "proc_pagetable p s =
     bindR (uvmcreate s) (\<lambda>(pagetable, s).
       if pagetable = 0 then Inr (0, s) else
       bindR (mappages pagetable TRAMPOLINE PGSIZE (trampoline s) (PTE_R OR PTE_X) s) (\<lambda>(r, s).
         if r < 0 then bindR (uvmfree pagetable 0 s) (\<lambda>s. Inr (0, s)) else
         bindR (mappages pagetable TRAPFRAME PGSIZE (p_trapframe (procs s p)) (PTE_R OR PTE_W) s) (\<lambda>(r, s).
           if r < 0 then
             bindR (uvmunmap pagetable TRAMPOLINE 1 False s) (\<lambda>s.
               bindR (uvmfree pagetable 0 s) (\<lambda>s. Inr (0, s)))
           else Inr (pagetable, s))))"

definition proc_freepagetable :: "u64 \<Rightarrow> u64 \<Rightarrow> 'z kproc_scheme \<Rightarrow> 'z kproc_scheme res" where
  "proc_freepagetable pagetable sz s =
     bindR (uvmunmap pagetable TRAMPOLINE 1 False s) (\<lambda>s.
       bindR (uvmunmap pagetable TRAPFRAME 1 False s) (\<lambda>s.
         uvmfree pagetable sz s))"

definition freeproc :: "nat \<Rightarrow> 'z kproc_scheme \<Rightarrow> 'z kproc_scheme res" where
  "freeproc p s =
     bindR (if p_trapframe (procs s p) \<noteq> 0 then kfree (p_trapframe (procs s p)) s else Inr s) (\<lambda>s.
       let s = updp p (\<lambda>q. q\<lparr>p_trapframe := 0\<rparr>) s in
       bindR (if p_pagetable (procs s p) \<noteq> 0
              then proc_freepagetable (p_pagetable (procs s p)) (p_sz (procs s p)) s else Inr s) (\<lambda>s.
         Inr (updp p (\<lambda>q. q\<lparr>p_pagetable := 0, p_sz := 0, p_pid := 0, p_parent := None,
                            p_name := (p_name q)[0 := 0], p_chan := None, p_killed := 0,
                            p_xstate := 0, p_state := UNUSED\<rparr>) s)))"

text \<open>
  \<open>allocproc\<close>: the search for a free slot, the initialisation of its fields at \<open>found\<close>, and the
  trapframe, page table and context.
\<close>

fun allocproc_scan :: "nat list \<Rightarrow> 'z kproc_scheme \<Rightarrow> (nat option \<times> 'z kproc_scheme) res" where
  "allocproc_scan [] s = Inr (None, s)"
| "allocproc_scan (p # ps) s =
     bindR (acq (Lproc p) s) (\<lambda>s.
       if p_state (procs s p) = UNUSED then Inr (Some p, s)
       else bindR (rel (Lproc p) s) (allocproc_scan ps))"

definition allocproc_found :: "nat \<Rightarrow> int \<Rightarrow> 'z kproc_scheme \<Rightarrow> 'z kproc_scheme" where
  "allocproc_found p pid s =
     (let s = updp p (\<lambda>q. q\<lparr>p_pid := pid, p_state := USED, p_tickets := 1, p_time_spent := 0,
                            p_time_avail := 1\<rparr>) s;
          s = (if SCHEDULER s = MLFQ
               then updp p (\<lambda>q. q\<lparr>p_priority_level := 0, p_ass_ticks := 1, p_ticks_elapsed := 0,
                                  p_queue_ticks := replicate 5 0\<rparr>) s
               else s)
      in updp p (\<lambda>q. q\<lparr>p_creationTime := ticks s, p_sprior := 60, p_niceness := 5, p_runTime := 0,
                       p_endTime := 0, p_runTimePrev := 0, p_sleepTimePrev := 0,
                       p_sleepStartTime := 0\<rparr>) s)"

definition allocproc_mem :: "nat \<Rightarrow> 'z kproc_scheme \<Rightarrow> (nat option \<times> 'z kproc_scheme) res" where
  "allocproc_mem p s =
     bindR (kalloc s) (\<lambda>(tf, s).
       let s = updp p (\<lambda>q. q\<lparr>p_trapframe := tf\<rparr>) s in
       if tf = 0 then
         bindR (freeproc p s) (\<lambda>s. bindR (rel (Lproc p) s) (\<lambda>s. Inr (None, s)))
       else
         bindR (proc_pagetable p s) (\<lambda>(pt, s).
           let s = updp p (\<lambda>q. q\<lparr>p_pagetable := pt\<rparr>) s in
           if pt = 0 then
             bindR (freeproc p s) (\<lambda>s. bindR (rel (Lproc p) s) (\<lambda>s. Inr (None, s)))
           else
             Inr (Some p, updp p (\<lambda>q. q\<lparr>p_context := zero_context
                    \<lparr>cx_ra := a_forkret s, cx_sp := p_kstack q + PGSIZE\<rparr>\<rparr>) s)))"

definition allocproc :: "'z kproc_scheme \<Rightarrow> (nat option \<times> 'z kproc_scheme) res" where
  "allocproc s =
     bindR (allocproc_scan [0..<NPROC] s) (\<lambda>(r, s).
       case r of None \<Rightarrow> Inr (None, s)
       | Some p \<Rightarrow>
         bindR (allocpid s) (\<lambda>(pid, s). allocproc_mem p (allocproc_found p pid s)))"

definition growproc :: "int \<Rightarrow> 'z kproc_scheme \<Rightarrow> (int \<times> 'z kproc_scheme) res" where
  "growproc n s =
     bindR (myproc s) (\<lambda>p.
       let sz = p_sz (procs s p); pt = p_pagetable (procs s p) in
       if n > 0 then
         bindR (uvmalloc pt sz (sz + of_int n) PTE_W s) (\<lambda>(sz, s).
           if sz = 0 then Inr (-1, s) else Inr (0, updp p (\<lambda>q. q\<lparr>p_sz := sz\<rparr>) s))
       else if n < 0 then
         bindR (uvmdealloc pt sz (sz + of_int n) s) (\<lambda>(sz, s). Inr (0, updp p (\<lambda>q. q\<lparr>p_sz := sz\<rparr>) s))
       else Inr (0, updp p (\<lambda>q. q\<lparr>p_sz := sz\<rparr>) s))"

text \<open>
  The two copy helpers. The destination of the first is a user address, a kernel address, or a
  variable of the caller, which gets the bytes back as a result; the source of the second is a
  user address or the bytes of a kernel buffer.
\<close>

datatype dest = ToUser u64 | ToPhys u64 | ToLocal
datatype source = FromUser u64 | FromKernel "byte list"

definition either_copyout :: "dest \<Rightarrow> byte list \<Rightarrow> 'z kproc_scheme \<Rightarrow> (int \<times> 'z kproc_scheme) res" where
  "either_copyout dst src s =
     (case dst of
        ToUser a \<Rightarrow> bindR (myproc s) (\<lambda>p. copyout (p_pagetable (procs s p)) a src s)
      | ToPhys a \<Rightarrow> Inr (0, s\<lparr>mem := store_bytes (mem s) (unat a) src\<rparr>)
      | ToLocal \<Rightarrow> Inr (0, s))"

definition either_copyin :: "source \<Rightarrow> nat \<Rightarrow> 'z kproc_scheme \<Rightarrow> (int \<times> byte list) res" where
  "either_copyin src len s =
     (case src of
        FromUser a \<Rightarrow> bindR (myproc s) (\<lambda>p. copyin (p_pagetable (procs s p)) a len s)
      | FromKernel bs \<Rightarrow> if len \<le> length bs then Inr (0, take len bs)
                         else Inl (UB ''memmove: past the end''))"

fun dest_add :: "dest \<Rightarrow> nat \<Rightarrow> dest" where
  "dest_add (ToUser a) n = ToUser (a + of_nat n)"
| "dest_add (ToPhys a) n = ToPhys (a + of_nat n)"
| "dest_add ToLocal n = ToLocal"

fun source_add :: "source \<Rightarrow> nat \<Rightarrow> source" where
  "source_add (FromUser a) n = FromUser (a + of_nat n)"
| "source_add (FromKernel bs) n = FromKernel (drop n bs)"

definition setkilled :: "nat \<Rightarrow> 'z kproc_scheme \<Rightarrow> 'z kproc_scheme res" where
  "setkilled p s =
     bindR (acq (Lproc p) s) (\<lambda>s. rel (Lproc p) (updp p (\<lambda>q. q\<lparr>p_killed := 1\<rparr>) s))"

definition killed :: "nat \<Rightarrow> 'z kproc_scheme \<Rightarrow> (int \<times> 'z kproc_scheme) res" where
  "killed p s =
     bindR (acq (Lproc p) s) (\<lambda>s.
       let k = p_killed (procs s p) in bindR (rel (Lproc p) s) (\<lambda>s. Inr (k, s)))"

definition set_tickets :: "int \<Rightarrow> 'z kproc_scheme \<Rightarrow> (int \<times> 'z kproc_scheme) res" where
  "set_tickets n s =
     (if SCHEDULER s = LBS then
        bindR (myproc s) (\<lambda>p. Inr (1, updp p (\<lambda>q. q\<lparr>p_tickets := n\<rparr>) s))
      else Inr (1, s))"

end
