(* ===== verification/ProcMem.thy ===== *)
theory ProcMem
  imports Proc
begin

text \<open>
  The memory of a process: \<open>proc_pagetable\<close>, \<open>allocproc\<close> and \<open>freeproc\<close> against the allocator. A
  failure on any path gives back every page that was taken; a success leaves a table with
  exactly the trampoline and the trapframe mapped; and \<open>freeproc\<close> returns the trapframe, the
  table and the pages of the process.
\<close>

section \<open>Frames for the process table\<close>

lemma konly_kproc:
  fixes s :: "'z kproc_scheme"
  assumes "konly s s'"
  shows "procs s' = procs s" "nextpid s' = nextpid s" "initproc s' = initproc s" "ticks s' = ticks s" "cur s' = cur s"
    "schedctx s' = schedctx s" "regs s' = regs s" "sie s' = sie s" "a_forkret s' = a_forkret s"
    "kproc.more s' = kproc.more s"
  using assms by (auto simp: konly_def)

lemma updp_fields [simp]:
  "procs (updp i f s) j = (if j = i then f (procs s i) else procs s j)"
  "held (updp i f s) = held s" "mem (updp i f s) = mem s" "SCHEDULER (updp i f s) = SCHEDULER s"
  "kend (updp i f s) = kend s" "freelist (updp i f s) = freelist s" "refcnt (updp i f s) = refcnt s"
  "nextpid (updp i f s) = nextpid s" "ticks (updp i f s) = ticks s" "cur (updp i f s) = cur s"
  "initproc (updp i f s) = initproc s" "a_forkret (updp i f s) = a_forkret s" "sie (updp i f s) = sie s"
  "trampoline (updp i f s) = trampoline s" "regs (updp i f s) = regs s" "schedctx (updp i f s) = schedctx s"
  "kernel_pagetable (updp i f s) = kernel_pagetable s" "kproc.more (updp i f s) = kproc.more s"
  by (simp_all add: updp_def)

lemma memory_view:
  assumes "mem s' = mem s" "refcnt s' = refcnt s" "kend s' = kend s"
  shows "ram_page s' = ram_page s" "pt_inv s' root N = pt_inv s root N" "leaf s' N = leaf s N"
    "upage s' N = upage s N" "user_inv s' N = user_inv s N"
proof -
  show r: "ram_page s' = ram_page s" using assms by (simp add: ram_page_def fun_eq_iff)
  show "pt_inv s' root N = pt_inv s root N" using assms r by (simp add: pt_inv_def cong: option.case_cong)
  show l: "leaf s' N = leaf s N" unfolding leaf_def assms ..
  show u: "upage s' N = upage s N" by (simp add: upage_def fun_eq_iff l)
  show "user_inv s' N = user_inv s N" using assms by (simp add: user_inv_def r l u)
qed

lemma updp_inv [simp]:
  "ram_page (updp i f s) = ram_page s" "pt_inv (updp i f s) root N = pt_inv s root N"
  "leaf (updp i f s) N = leaf s N" "upage (updp i f s) N = upage s N" "user_inv (updp i f s) N = user_inv s N"
  "kmem_inv (updp i f s) fl = kmem_inv s fl"
  using memory_view [of "updp i f s" s] by (simp_all add: kmem_inv_def)

lemma held_inv [simp]:
  fixes s :: "'z kmem_scheme"
  shows "ram_page (s\<lparr>held := H\<rparr>) = ram_page s" "pt_inv (s\<lparr>held := H\<rparr>) root N = pt_inv s root N"
  "leaf (s\<lparr>held := H\<rparr>) N = leaf s N" "upage (s\<lparr>held := H\<rparr>) N = upage s N" "user_inv (s\<lparr>held := H\<rparr>) N = user_inv s N"
  "kmem_inv s fl \<Longrightarrow> Lkmem \<notin> H \<Longrightarrow> kmem_inv (s\<lparr>held := H\<rparr>) fl"
  using memory_view [of "s\<lparr>held := H\<rparr>" s] by (simp_all add: kmem_inv_def)

section \<open>An empty page table\<close>

lemma uvmfree_empty:
  assumes "pt_inv s root N" "kmem_inv s fl" "\<And>v. leaf s N v AND PTE_V = 0"
  obtains s' fl' where "uvmfree root 0 s = Inr s'" "kmem_inv s' fl'" "konly s s'" "set fl' = set fl \<union> ran N"
    "refcnt s' = (\<lambda>k. if k \<in> pno ` ran N then 0 else refcnt s k)"
    "\<And>x. (\<And>p. p \<in> set fl' \<Longrightarrow> x \<notin> page_bytes p) \<Longrightarrow> mem s' x = mem s x"
proof -
  have u: "upage s N v = 0" for v using assms(3) by (simp add: upage_def)
  then have ui: "user_inv s N" by (auto simp: user_inv_def kmem_invD(7) [OF assms(2)])
  have p0: "pages_of 0 = 0" by (simp add: pages_of_def)
  obtain s' fl' where r: "uvmfree root 0 s = Inr s'" "kmem_inv s' fl'" "konly s s'"
    "refcnt s' = (\<lambda>k. if k \<in> pno ` ran N then 0 else refcnt s k - refs (leaf s N) 0 (pages_of 0) k)"
    "set fl \<union> ran N \<subseteq> set fl'" "set fl' \<subseteq> set fl \<union> ran N \<union> upage s N ` {0..<pages_of 0}"
    "\<And>x. (\<And>p. p \<in> set fl' \<Longrightarrow> x \<notin> page_bytes p) \<Longrightarrow> mem s' x = mem s x"
    by (rule uvmfree_eq [OF assms(1,2) ui, of 0]) (simp_all add: p0 assms(3))
  show ?thesis by (rule that [OF r(1-3)]) (use r(4-7) in \<open>auto simp: p0\<close>)
qed

text \<open>A table built from pages of the free list \<open>fl\<close> of \<open>s\<close>, and nothing else changed.\<close>

definition fresh_table ::
  "'z kmem_scheme \<Rightarrow> u64 list \<Rightarrow> 'z kmem_scheme \<Rightarrow> u64 \<Rightarrow> nodes \<Rightarrow> u64 list \<Rightarrow> bool" where
  "fresh_table s fl s' root N fl' \<longleftrightarrow>
     pt_inv s' root N \<and> kmem_inv s' fl' \<and> konly s s' \<and> ran N \<union> set fl' = set fl \<and>
     refcnt s' = (\<lambda>k. if k \<in> pno ` ran N then 1 else refcnt s k) \<and>
     (\<forall>x. (\<forall>q\<in>set fl. x \<notin> page_bytes q) \<longrightarrow> mem s' x = mem s x)"

lemma fresh_tableD:
  assumes "fresh_table s fl s' root N fl'"
  shows "pt_inv s' root N" "kmem_inv s' fl'" "konly s s'" "ran N \<union> set fl' = set fl"
    "refcnt s' = (\<lambda>k. if k \<in> pno ` ran N then 1 else refcnt s k)"
    "\<And>x. (\<And>q. q \<in> set fl \<Longrightarrow> x \<notin> page_bytes q) \<Longrightarrow> mem s' x = mem s x"
  using assms by (auto simp: fresh_table_def)

lemma fresh_table_create:
  assumes "kmem_inv s (p # fl)"
  obtains s' where "uvmcreate s = Inr (p, s')" "fresh_table s (p # fl) s' p [[] \<mapsto> p] fl"
    "leaf s' [[] \<mapsto> p] = (\<lambda>_. 0)" "p \<noteq> 0"
proof -
  note u = uvmcreate_eq [OF assms]
  have "fresh_table s (p # fl) (zero_page p (kalloc_post p s)) p [[] \<mapsto> p] fl"
    using u(2,3,5-7) by (auto simp: fresh_table_def fun_eq_iff)
  moreover have "p \<noteq> 0" using kmem_invD(3) [OF assms] by simp
  ultimately show ?thesis using u(1,4) that by blast
qed

lemma fresh_table_grows:
  assumes "fresh_table s fl s1 root N fl1" "grows s1 root N fl1 s2 N2 fl2"
  shows "fresh_table s fl s2 root N2 fl2"
proof -
  note f = fresh_tableD [OF assms(1)] and g = growsD [OF assms(2)]
  from assms(2) obtain tk where tk: "fl1 = tk @ fl2" "ran N2 = ran N \<union> set tk"
    "refcnt s2 = (\<lambda>n. if n \<in> pno ` set tk then 1 else refcnt s1 n)" by (auto simp: grows_def)
  have "mem s2 x = mem s x" if x: "\<forall>q\<in>set fl. x \<notin> page_bytes q" for x
  proof -
    have "mem s2 x = mem s1 x" by (rule g(8)) (use x f(4) in auto)
    also have "\<dots> = mem s x" by (rule f(6)) (use x in auto)
    finally show ?thesis .
  qed
  moreover have "ran N2 \<union> set fl2 = set fl" using tk f(4) by auto
  ultimately show ?thesis
    using g(1,2) konly_trans [OF f(3) g(3)] tk f(5) by (auto simp: fresh_table_def fun_eq_iff)
qed

lemma fresh_table_undo:
  assumes "fresh_table s fl s1 root N fl1" "kmem_inv s fl" "\<And>v. leaf s1 N v AND PTE_V = 0"
  obtains s' fl' where "uvmfree root 0 s1 = Inr s'" "kmem_inv s' fl'" "konly s s'" "set fl' = set fl"
    "refcnt s' = refcnt s" "\<And>x. (\<And>q. q \<in> set fl \<Longrightarrow> x \<notin> page_bytes q) \<Longrightarrow> mem s' x = mem s x"
proof -
  note f = fresh_tableD [OF assms(1)]
  obtain s' fl' where u: "uvmfree root 0 s1 = Inr s'" "kmem_inv s' fl'" "konly s1 s'" "set fl' = set fl1 \<union> ran N"
    "refcnt s' = (\<lambda>k. if k \<in> pno ` ran N then 0 else refcnt s1 k)"
    "\<And>x. (\<And>p. p \<in> set fl' \<Longrightarrow> x \<notin> page_bytes p) \<Longrightarrow> mem s' x = mem s1 x"
    by (rule uvmfree_empty [OF f(1,2) assms(3)]) blast
  have "refcnt s k = 0" if "k \<in> pno ` ran N" for k using that f(4) kmem_invD(6) [OF assms(2)] by auto
  then have rc: "refcnt s' = refcnt s" using u(5) f(5) by (auto simp: fun_eq_iff)
  have fl': "set fl' = set fl" using u(4) f(4) by auto
  have m: "mem s' x = mem s x" if x: "\<And>q. q \<in> set fl \<Longrightarrow> x \<notin> page_bytes q" for x
  proof -
    have "mem s' x = mem s1 x" by (rule u(6)) (use x fl' in auto)
    also have "\<dots> = mem s x" by (rule f(6) [OF x])
    finally show ?thesis .
  qed
  show ?thesis by (rule that [OF u(1,2) konly_trans [OF f(3) u(3)] fl' rc m])
qed

lemma top_vpn: "vpn TRAMPOLINE = 0x3ffffff" "vpn TRAPFRAME = 0x3fffffe"
  by (simp_all add: vpn_def)

lemma unmap_keep:
  assumes "pt_inv s root N" "kmem_inv s fl" "va < MAXVA" "4096 dvd unat va"
    "leaf s N (vpn va) AND PTE_V \<noteq> 0" "PTE_FLAGS (leaf s N (vpn va)) \<noteq> PTE_V"
  obtains s' fl' where "uvmunmap root va 1 False s = Inr s'" "pt_inv s' root N" "kmem_inv s' fl'" "konly s s'"
    "set fl' = set fl" "leaf s' N = (leaf s N)(vpn va := 0)" "refcnt s' = refcnt s"
    "\<And>x. (\<And>p. p \<in> ran N \<union> set fl \<Longrightarrow> x \<notin> page_bytes p) \<Longrightarrow> mem s' x = mem s x"
proof -
  have b: "unat va + 4096 * 1 \<le> 0x4000000000"
    using mult_gap [of 4096 "unat va" "0x4000000000"] assms(3,4) by (auto simp: word_less_nat_alt dvd_def)
  have "unmappable s N False (vpn va) 1" using assms(5,6) by (auto simp: unmappable_def less_Suc_eq_le dest: le_antisym)
  from uvmunmap_loop_spec [OF assms(1,2) b this] obtain s' fl' where
    u: "uvmunmap_loop root va (va + PGSIZE) False s = Inr s'" "pt_inv s' root N" "kmem_inv s' fl'" "konly s s'"
      "leaf s' N = unmap_range (vpn va) 1 (leaf s N)" "refcnt s' = refcnt s" "set fl \<subseteq> set fl'" "set fl' \<subseteq> set fl"
      "\<And>x. (\<And>p. p \<in> ran N \<union> set fl' \<Longrightarrow> x \<notin> page_bytes p) \<Longrightarrow> mem s' x = mem s x"
    by auto
  have "va mod PGSIZE = 0" using assms(4) by (simp add: page_aligned_iff)
  then have r: "uvmunmap root va 1 False s = Inr s'" using u(1) by (simp add: uvmunmap_def)
  have l: "leaf s' N = (leaf s N)(vpn va := 0)" using u(5) by (auto simp: unmap_range_def fun_eq_iff)
  have fl': "set fl' = set fl" using u(7,8) by blast
  show ?thesis by (rule that [OF r u(2-4) fl' l u(6,9) [unfolded fl']])
qed

section \<open>\<open>proc_pagetable\<close>\<close>

definition proc_leaf :: "u64 \<Rightarrow> u64 \<Rightarrow> nat \<Rightarrow> u64" where
  "proc_leaf tramp tf = (\<lambda>_. 0)(vpn TRAMPOLINE := PA2PTE tramp OR (PTE_R OR PTE_X) OR PTE_V,
                                vpn TRAPFRAME := PA2PTE tf OR (PTE_R OR PTE_W) OR PTE_V)"

lemma kernel_entry:
  "(PA2PTE p OR f OR PTE_V) AND PTE_V \<noteq> 0"
  "bit f 1 \<Longrightarrow> PTE_FLAGS (PA2PTE p OR f OR PTE_V) \<noteq> PTE_V"
  "bit f 4 = False \<Longrightarrow> (PA2PTE p OR f OR PTE_V) AND PTE_U = 0"
proof -
  have "bit ((PA2PTE p OR f OR PTE_V) AND PTE_V) 0" by (simp add: bit_simps)
  then show "(PA2PTE p OR f OR PTE_V) AND PTE_V \<noteq> 0" by force
  assume "bit f 1"
  then have "bit (PTE_FLAGS (PA2PTE p OR f OR PTE_V)) 1" unfolding PTE_FLAGS_def mask_consts by (simp add: bit_simps)
  then show "PTE_FLAGS (PA2PTE p OR f OR PTE_V) \<noteq> PTE_V" by (force simp: bit_1_iff)
next
  assume "bit f 4 = False"
  then have "\<not> bit (PA2PTE p OR f OR PTE_V) 4" by (simp add: bit_simps PA2PTE_def)
  then show "(PA2PTE p OR f OR PTE_V) AND PTE_U = 0"
    using and_exp_eq_0_iff_not_bit [of "PA2PTE p OR f OR PTE_V" 4] by simp
qed

lemma fresh_table_undo_tramp:
  assumes "fresh_table s fl s3 root N fl3" "kmem_inv s fl"
    and "leaf s3 N = (\<lambda>_. 0)(vpn TRAMPOLINE := PA2PTE (trampoline s) OR (PTE_R OR PTE_X) OR PTE_V)"
  obtains s4 s' fl' where "uvmunmap root TRAMPOLINE 1 False s3 = Inr s4" "uvmfree root 0 s4 = Inr s'"
    "kmem_inv s' fl'" "konly s s'" "set fl' = set fl" "refcnt s' = refcnt s"
    "\<And>x. (\<And>q. q \<in> set fl \<Longrightarrow> x \<notin> page_bytes q) \<Longrightarrow> mem s' x = mem s x"
proof -
  note f = fresh_tableD [OF assms(1)]
  obtain s4 fl4 where u: "uvmunmap root TRAMPOLINE 1 False s3 = Inr s4" "pt_inv s4 root N" "kmem_inv s4 fl4"
    "konly s3 s4" "set fl4 = set fl3" "leaf s4 N = (leaf s3 N)(vpn TRAMPOLINE := 0)" "refcnt s4 = refcnt s3"
    "\<And>x. (\<And>p. p \<in> ran N \<union> set fl3 \<Longrightarrow> x \<notin> page_bytes p) \<Longrightarrow> mem s4 x = mem s3 x"
    by (rule unmap_keep [OF f(1,2), of TRAMPOLINE])
      (use kernel_entry(1) [of "trampoline s" "PTE_R OR PTE_X"] kernel_entry(2) [of "PTE_R OR PTE_X" "trampoline s"]
       in \<open>auto simp: dvd_def assms(3) bit_simps\<close>)
  have "mem s4 x = mem s x" if "\<And>q. q \<in> set fl \<Longrightarrow> x \<notin> page_bytes q" for x
    using u(8) [of x] f(6) [of x] that f(4) by auto
  then have t4: "fresh_table s fl s4 root N fl4"
    using u(2,3,5,7) konly_trans [OF f(3) u(4)] f(4,5) by (simp add: fresh_table_def)
  obtain s' fl' where v: "uvmfree root 0 s4 = Inr s'" "kmem_inv s' fl'" "konly s s'" "set fl' = set fl"
    "refcnt s' = refcnt s" "\<And>x. (\<And>q. q \<in> set fl \<Longrightarrow> x \<notin> page_bytes q) \<Longrightarrow> mem s' x = mem s x"
    by (rule fresh_table_undo [OF t4 assms(2)]) (auto simp: u(6) assms(3))
  show ?thesis by (rule that [OF u(1) v])
qed

lemma proc_pagetable_eq:
  assumes "kmem_inv s fl"
  obtains (nomem) s' fl' where "proc_pagetable p s = Inr (0, s')" "kmem_inv s' fl'" "konly s s'" "set fl' = set fl"
      "refcnt s' = refcnt s" "\<And>x. (\<And>q. q \<in> set fl \<Longrightarrow> x \<notin> page_bytes q) \<Longrightarrow> mem s' x = mem s x"
      "length fl < 5"
  | (ok) root s' N fl' where "proc_pagetable p s = Inr (root, s')" "root \<noteq> 0"
      "fresh_table s fl s' root N fl'" "leaf s' N = proc_leaf (trampoline s) (p_trapframe (procs s p))"
proof (cases fl)
  case Nil
  with kalloc_empty [of s] assms have "proc_pagetable p s = Inr (0, s)" by (simp add: proc_pagetable_def uvmcreate_def)
  then show ?thesis by (rule nomem) (use assms Nil in auto)
next
  case (Cons root fl0)
  obtain s1 where c: "uvmcreate s = Inr (root, s1)" "fresh_table s fl s1 root [[] \<mapsto> root] fl0"
    "leaf s1 [[] \<mapsto> root] = (\<lambda>_. 0)" "root \<noteq> 0"
    using fresh_table_create [of s root fl0] assms Cons by auto
  note f1 = fresh_tableD [OF c(2)]
  have tr: "trampoline s1 = trampoline s" using konlyD(5) [OF f1(3)] .
  obtain r2 s2 N2 fl2 where m2: "mappages root TRAMPOLINE PGSIZE (trampoline s) (PTE_R OR PTE_X) s1 = Inr (r2, s2)"
    "grows s1 root [[] \<mapsto> root] fl0 s2 N2 fl2" "length fl0 \<le> length fl2 + 2"
    and r2: "r2 = 0 \<and> leaf s2 N2 = (\<lambda>_. 0)(vpn TRAMPOLINE := PA2PTE (trampoline s) OR (PTE_R OR PTE_X) OR PTE_V) \<or>
      r2 = - 1 \<and> leaf s2 N2 = (\<lambda>_. 0) \<and> length fl0 < 2"
    using mappages_page [OF f1(1,2), of TRAMPOLINE "trampoline s" "PTE_R OR PTE_X"] c(3) by (auto simp: dvd_def)
  note t2 = fresh_table_grows [OF c(2) m2(2)]
  note f2 = fresh_tableD [OF t2]
  show ?thesis
  proof (cases "r2 = 0")
    case False
    then have l2: "leaf s2 N2 = (\<lambda>_. 0)" and neg: "r2 < 0" using r2 by auto
    obtain s' fl' where u: "uvmfree root 0 s2 = Inr s'" "kmem_inv s' fl'" "konly s s'" "set fl' = set fl"
      "refcnt s' = refcnt s" "\<And>x. (\<And>q. q \<in> set fl \<Longrightarrow> x \<notin> page_bytes q) \<Longrightarrow> mem s' x = mem s x"
      by (rule fresh_table_undo [OF t2 assms]) (use l2 in auto)
    have "proc_pagetable p s = Inr (0, s')"
      unfolding proc_pagetable_def using c(1,4) m2(1) u(1) neg by (simp add: tr)
    then show ?thesis by (rule nomem [OF _ u(2-6)]) (use r2 False Cons in auto)
  next
    case True
    with r2 have l2: "leaf s2 N2 = (\<lambda>_. 0)(vpn TRAMPOLINE := PA2PTE (trampoline s) OR (PTE_R OR PTE_X) OR PTE_V)" by auto
    let ?tf = "p_trapframe (procs s p)"
    have ps2: "procs s2 = procs s" using konly_kproc(1) [OF f2(3)] .
    obtain r3 s3 N3 fl3 where m3: "mappages root TRAPFRAME PGSIZE ?tf (PTE_R OR PTE_W) s2 = Inr (r3, s3)"
      "grows s2 root N2 fl2 s3 N3 fl3"
      and r3: "r3 = 0 \<and> leaf s3 N3 = proc_leaf (trampoline s) ?tf \<or>
        r3 = - 1 \<and> leaf s3 N3 = leaf s2 N2 \<and> length fl2 < 2"
      using mappages_page [OF f2(1,2), of TRAPFRAME ?tf "PTE_R OR PTE_W"]
      by (auto simp: dvd_def l2 top_vpn proc_leaf_def)
    note t3 = fresh_table_grows [OF t2 m3(2)]
    note f3 = fresh_tableD [OF t3]
    show ?thesis
    proof (cases "r3 = 0")
      case r0: True
      have "proc_pagetable p s = Inr (root, s3)"
        unfolding proc_pagetable_def using c(1,4) m2(1) m3(1) True r0 by (simp add: tr ps2)
      then show ?thesis by (rule ok [OF _ c(4) t3]) (use r3 r0 in auto)
    next
      case False
      with r3 have l3: "leaf s3 N3 = leaf s2 N2" and neg: "r3 < 0" by auto
      obtain s4 s' fl' where u: "uvmunmap root TRAMPOLINE 1 False s3 = Inr s4" "uvmfree root 0 s4 = Inr s'"
        and v: "kmem_inv s' fl'" "konly s s'" "set fl' = set fl" "refcnt s' = refcnt s"
          "\<And>x. (\<And>q. q \<in> set fl \<Longrightarrow> x \<notin> page_bytes q) \<Longrightarrow> mem s' x = mem s x"
        by (rule fresh_table_undo_tramp [OF t3 assms]) (use l3 l2 in auto)
      have "proc_pagetable p s = Inr (0, s')"
        unfolding proc_pagetable_def using c(1,4) m2(1) m3(1) u True neg by (simp add: tr ps2)
      then show ?thesis by (rule nomem [OF _ v]) (use r3 False m2(3) Cons in auto)
    qed
  qed
qed

section \<open>\<open>allocproc\<close>\<close>

lemma allocproc_scan_eq:
  assumes "\<And>p. p \<in> set ps \<Longrightarrow> Lproc p \<notin> held s"
  shows "allocproc_scan ps s =
    Inr (case find (\<lambda>p. p_state (procs s p) = UNUSED) ps of None \<Rightarrow> (None, s)
         | Some p \<Rightarrow> (Some p, s\<lparr>held := insert (Lproc p) (held s)\<rparr>))"
  using assms by (induction ps) (auto simp: acq_def rel_def)

lemma allocpid_eq: "Lpid \<notin> held s \<Longrightarrow> allocpid s = Inr (nextpid s, s\<lparr>nextpid := nextpid s + 1\<rparr>)"
  by (simp add: allocpid_def acq_def rel_def)

text \<open>A free slot has no trapframe and no page table.\<close>

definition slots_ok :: "'z kproc_scheme \<Rightarrow> bool" where
  "slots_ok s \<longleftrightarrow> (\<forall>i<NPROC. p_state (procs s i) = UNUSED \<longrightarrow>
     p_trapframe (procs s i) = 0 \<and> p_pagetable (procs s i) = 0 \<and> p_sz (procs s i) = 0)"

definition cleared :: "proc \<Rightarrow> proc" where
  "cleared q = q\<lparr>p_trapframe := 0, p_pagetable := 0, p_sz := 0, p_pid := 0, p_parent := None,
     p_name := (p_name q)[0 := 0], p_chan := None, p_killed := 0, p_xstate := 0, p_state := UNUSED\<rparr>"

lemma freeproc_unmapped:
  assumes "p_pagetable (procs s p) = 0"
  shows "freeproc p s = bindR (if p_trapframe (procs s p) \<noteq> 0 then kfree (p_trapframe (procs s p)) s else Inr s)
    (\<lambda>s. Inr (updp p cleared s))"
proof -
  have "procs s1 p = procs s p" if "kfree t s = Inr s1" for t s1
    using konly_kproc(1) [OF kfree_konly [OF that]] by simp
  with assms show ?thesis
    by (auto simp: freeproc_def Let_def updp_def cleared_def bindR_def split: sum.splits)
qed

definition proc_started :: "'z kproc_scheme \<Rightarrow> nat \<Rightarrow> 'z kproc_scheme \<Rightarrow> bool" where
  "proc_started s p s' \<longleftrightarrow>
     p < NPROC \<and> p_state (procs s p) = UNUSED \<and> p_state (procs s' p) = USED \<and>
     p_pid (procs s' p) = nextpid s \<and> p_sz (procs s' p) = 0 \<and>
     cx_ra (p_context (procs s' p)) = a_forkret s \<and>
     cx_sp (p_context (procs s' p)) = p_kstack (procs s p) + PGSIZE \<and>
     nextpid s' = nextpid s + 1 \<and> held s' = insert (Lproc p) (held s) \<and>
     (\<forall>i. i \<noteq> p \<longrightarrow> procs s' i = procs s i)"

lemma allocproc_found_fields:
  "i \<noteq> p \<Longrightarrow> procs (allocproc_found p pid s) i = procs s i"
  "p_state (procs (allocproc_found p pid s) p) = USED" "p_pid (procs (allocproc_found p pid s) p) = pid"
  "p_sz (procs (allocproc_found p pid s) p) = p_sz (procs s p)"
  "p_pagetable (procs (allocproc_found p pid s) p) = p_pagetable (procs s p)"
  "p_kstack (procs (allocproc_found p pid s) p) = p_kstack (procs s p)"
  "held (allocproc_found p pid s) = held s" "nextpid (allocproc_found p pid s) = nextpid s"
  "a_forkret (allocproc_found p pid s) = a_forkret s" "trampoline (allocproc_found p pid s) = trampoline s"
  "kmem_inv (allocproc_found p pid s) fl = kmem_inv s fl" "refcnt (allocproc_found p pid s) = refcnt s"
  "mem (allocproc_found p pid s) = mem s" "ram_page (allocproc_found p pid s) = ram_page s"
  by (auto simp: allocproc_found_def Let_def)

lemma nextpid_inv [simp]:
  fixes s :: "'z kproc_scheme"
  shows "kmem_inv (s\<lparr>nextpid := n\<rparr>) fl = kmem_inv s fl" "ram_page (s\<lparr>nextpid := n\<rparr>) = ram_page s"
  using memory_view [of "s\<lparr>nextpid := n\<rparr>" s] by (simp_all add: kmem_inv_def)

text \<open>\<open>allocproc_mem\<close> has failed: the slot is free and unlocked again and no page is lost.\<close>

definition alloc_undone :: "nat \<Rightarrow> 'z kproc_scheme \<Rightarrow> u64 list \<Rightarrow> 'z kproc_scheme \<Rightarrow> u64 list \<Rightarrow> bool" where
  "alloc_undone p s fl s' fl' \<longleftrightarrow>
     kmem_inv s' fl' \<and> set fl' = set fl \<and> refcnt s' = refcnt s \<and> held s' = held s - {Lproc p} \<and>
     nextpid s' = nextpid s \<and> (\<exists>q. procs s' = (procs s)(p := cleared q)) \<and> length fl < 6"

lemma slot_undo:
  fixes s :: "'z kproc_scheme"
  assumes "kmem_inv s3 fl3" "set fl3 = set fl" "refcnt s3 = refcnt s" "held s3 = held s" "nextpid s3 = nextpid s"
    "Lproc p \<in> held s" "\<exists>q. procs s3 = (procs s)(p := q)" "length fl < 6"
  shows "\<exists>s'. rel (Lproc p) (updp p cleared s3) = Inr s' \<and> alloc_undone p s fl s' fl3"
proof -
  let ?s = "(updp p cleared s3)\<lparr>held := held s - {Lproc p}\<rparr>"
  have "rel (Lproc p) (updp p cleared s3) = Inr ?s" using assms(4,6) by (simp add: rel_def)
  moreover have "Lkmem \<notin> held s" using kmem_invD(1) [OF assms(1)] assms(4) by simp
  then have "kmem_inv ?s fl3" using assms(1) by simp
  then have "alloc_undone p s fl ?s fl3"
    using assms(2-5,7,8) by (auto simp: alloc_undone_def fun_eq_iff intro!: exI [of _ "procs s3 p"])
  ultimately show ?thesis by blast
qed

text \<open>It has succeeded: a trapframe and a table with the two kernel pages of a process.\<close>

definition alloc_done :: "nat \<Rightarrow> 'z kproc_scheme \<Rightarrow> u64 list \<Rightarrow> 'z kproc_scheme \<Rightarrow> nodes \<Rightarrow> u64 list \<Rightarrow> bool" where
  "alloc_done p s fl s' N fl' \<longleftrightarrow>
     (\<exists>tf fl0 root. fl = tf # fl0 \<and> ran N \<union> set fl' = set fl0 \<and> leaf s' N = proc_leaf (trampoline s) tf \<and>
        refcnt s' = (\<lambda>k. if k \<in> pno ` ran N then 1 else if k = pno tf then 1 else refcnt s k) \<and>
        root \<noteq> 0 \<and> pt_inv s' root N \<and>
        procs s' = (procs s)(p := (procs s p)\<lparr>p_trapframe := tf, p_pagetable := root, p_context := zero_context
          \<lparr>cx_ra := a_forkret s, cx_sp := p_kstack (procs s p) + PGSIZE\<rparr>\<rparr>)) \<and>
     kmem_inv s' fl' \<and> (\<forall>x. (\<forall>q\<in>set fl. x \<notin> page_bytes q) \<longrightarrow> mem s' x = mem s x) \<and>
     held s' = held s \<and> nextpid s' = nextpid s \<and> kend s' = kend s \<and> trampoline s' = trampoline s"

lemma alloc_doneE:
  assumes "alloc_done p s fl s' N fl'"
  obtains tf fl0 root where "fl = tf # fl0" "ran N \<union> set fl' = set fl0" "leaf s' N = proc_leaf (trampoline s) tf"
    "refcnt s' = (\<lambda>k. if k \<in> pno ` ran N then 1 else if k = pno tf then 1 else refcnt s k)"
    "root \<noteq> 0" "pt_inv s' root N"
    "procs s' = (procs s)(p := (procs s p)\<lparr>p_trapframe := tf, p_pagetable := root, p_context := zero_context
      \<lparr>cx_ra := a_forkret s, cx_sp := p_kstack (procs s p) + PGSIZE\<rparr>\<rparr>)"
    "kmem_inv s' fl'" "held s' = held s" "nextpid s' = nextpid s" "kend s' = kend s" "trampoline s' = trampoline s"
    "\<And>x. \<forall>q\<in>set fl. x \<notin> page_bytes q \<Longrightarrow> mem s' x = mem s x"
  using assms unfolding alloc_done_def by (elim exE conjE) (rule that; (erule allE, erule mp)?, assumption)

lemma allocproc_mem_nil:
  assumes "kmem_inv s []" "p_pagetable (procs s p) = 0" "Lproc p \<in> held s"
  shows "\<exists>s' fl'. allocproc_mem p s = Inr (None, s') \<and> alloc_undone p s [] s' fl'"
proof -
  let ?s = "updp p (\<lambda>q. q\<lparr>p_trapframe := 0\<rparr>) s"
  have "\<exists>q. procs ?s = (procs s)(p := q)" by (auto simp: updp_def)
  then obtain s' where r: "rel (Lproc p) (updp p cleared ?s) = Inr s'" "alloc_undone p s [] s' []"
    using slot_undo [of ?s "[]" "[]" s p] assms(1,3) by auto
  have "allocproc_mem p s = Inr (None, s')"
    unfolding allocproc_mem_def using kalloc_empty [OF assms(1)] freeproc_unmapped [of ?s p] assms(2) r(1)
    by (simp add: Let_def)
  with r(2) show ?thesis by blast
qed

lemma allocproc_mem_cons:
  assumes "kmem_inv s (tf # fl)" "p_pagetable (procs s p) = 0" "Lproc p \<in> held s"
  shows "(\<exists>s' fl'. allocproc_mem p s = Inr (None, s') \<and> alloc_undone p s (tf # fl) s' fl') \<or>
    (\<exists>s' N fl'. allocproc_mem p s = Inr (Some p, s') \<and> alloc_done p s (tf # fl) s' N fl')"
proof -
  note k = kalloc_cons [OF assms(1)] kalloc_post_inv [OF assms(1)]
  have tf: "tf \<noteq> 0" "ram_page s tf" "tf \<notin> set fl" "refcnt s (pno tf) = 0" using kmem_invD(3-6) [OF assms(1)] by auto
  let ?s1 = "kalloc_post tf s" let ?s2 = "updp p (\<lambda>q. q\<lparr>p_trapframe := tf\<rparr>) ?s1"
  note k1 = konly_intros(5) [of s tf]
  note kp1 = konly_kproc [OF k1]
  have start: "allocproc_mem p s = bindR (proc_pagetable p ?s2) (\<lambda>(pt, s).
      let s = updp p (\<lambda>q. q\<lparr>p_pagetable := pt\<rparr>) s in
      if pt = 0 then bindR (freeproc p s) (\<lambda>s. bindR (rel (Lproc p) s) (\<lambda>s. Inr (None, s)))
      else Inr (Some p, updp p (\<lambda>q. q\<lparr>p_context := zero_context
             \<lparr>cx_ra := a_forkret s, cx_sp := p_kstack q + PGSIZE\<rparr>\<rparr>) s))"
    unfolding allocproc_mem_def using k(1) tf(1) by (simp add: Let_def)
  have inv2: "kmem_inv ?s2 fl" using k(2) by simp
  then show ?thesis
  proof (rule proc_pagetable_eq [of ?s2 fl p])
    fix s3 fl3 assume a: "proc_pagetable p ?s2 = Inr (0, s3)" "kmem_inv s3 fl3" "konly ?s2 s3" "set fl3 = set fl"
      "refcnt s3 = refcnt ?s2" "length fl < 5"
    note kp = konly_kproc [OF a(3)]
    let ?s3 = "updp p (\<lambda>q. q\<lparr>p_pagetable := 0\<rparr>) s3"
    have rp: "ram_page ?s3 tf" using konlyD(6) [OF a(3)] konlyD(6) [OF k1] tf(2) by simp
    obtain s4 fl4 where f: "kfree tf ?s3 = Inr s4" "kmem_inv s4 fl4" "konly ?s3 s4"
      "refcnt s4 = (refcnt ?s3)(pno tf := refcnt ?s3 (pno tf) - 1)"
      "fl4 = (if refcnt ?s3 (pno tf) = 1 then tf # fl3 else fl3)"
      by (rule kfree_step [of ?s3 fl3, OF _ rp]) (use a(2,5) in auto)
    note kp4 = konly_kproc [OF f(3)]
    have "\<exists>s'. rel (Lproc p) (updp p cleared s4) = Inr s' \<and> alloc_undone p s (tf # fl) s' fl4"
    proof (rule slot_undo)
      show "held s4 = held s" using konlyD(1) [OF f(3)] konlyD(1) [OF a(3)] by simp
      show "nextpid s4 = nextpid s" using kp4(2) kp(2) kp1(2) by simp
      show "\<exists>q. procs s4 = (procs s)(p := q)"
        unfolding kp4(1) by (intro exI [of _ "procs s4 p"]) (auto simp: fun_eq_iff kp(1) kp1(1) kp4(1))
    qed (use f(2,4,5) a(4-6) tf(4) assms(3) in \<open>auto simp: fun_eq_iff\<close>)
    then obtain s' where s': "rel (Lproc p) (updp p cleared s4) = Inr s'" "alloc_undone p s (tf # fl) s' fl4" by blast
    have "freeproc p ?s3 = Inr (updp p cleared s4)"
      using freeproc_unmapped [of ?s3 p] f(1) tf(1) kp(1) by simp
    with s' show ?thesis unfolding start using a(1) by (auto simp: Let_def)
  next
    fix root s3 N fl3 assume a: "proc_pagetable p ?s2 = Inr (root, s3)" "root \<noteq> 0" "fresh_table ?s2 fl s3 root N fl3"
      "leaf s3 N = proc_leaf (trampoline ?s2) (p_trapframe (procs ?s2 p))"
    note t = fresh_tableD [OF a(3)]
    note kp = konly_kproc [OF t(3)]
    let ?s3 = "updp p (\<lambda>q. q\<lparr>p_context := zero_context\<lparr>cx_ra := a_forkret s3, cx_sp := p_kstack q + PGSIZE\<rparr>\<rparr>)
      (updp p (\<lambda>q. q\<lparr>p_pagetable := root\<rparr>) s3)"
    have m: "mem s3 x = mem s x" if "\<forall>q\<in>set (tf # fl). x \<notin> page_bytes q" for x
      using that t(6) [of x] by (auto simp: kalloc_post_def memset_eq page_bytes_def)
    have "procs ?s3 = (procs s)(p := (procs s p)\<lparr>p_trapframe := tf, p_pagetable := root, p_context := zero_context
        \<lparr>cx_ra := a_forkret s, cx_sp := p_kstack (procs s p) + PGSIZE\<rparr>\<rparr>)"
      using kp(1,9) kp1(1,9) by (simp add: fun_eq_iff)
    then have "alloc_done p s (tf # fl) ?s3 N fl3"
      unfolding alloc_done_def using a(2,4) t(1,2,4,5) m kp(2) kp1(2) konlyD(1,2,5) [OF t(3)] konlyD(5) [OF k1]
      by (intro conjI exI [of _ tf] exI [of _ fl] exI [of _ root]) (auto simp: fun_eq_iff)
    then show ?thesis unfolding start using a(1,2) by (auto simp: Let_def)
  qed
qed

lemma allocproc_mem_cases:
  assumes "kmem_inv s fl" "p_pagetable (procs s p) = 0" "Lproc p \<in> held s"
  obtains (none) s' fl' where "allocproc_mem p s = Inr (None, s')" "alloc_undone p s fl s' fl'"
  | (some) s' N fl' where "allocproc_mem p s = Inr (Some p, s')" "alloc_done p s fl s' N fl'"
  using assms allocproc_mem_nil [of s p] allocproc_mem_cons [of s "hd fl" "tl fl" p] by (cases fl) auto

text \<open>The state in which \<open>allocproc\<close> calls \<open>allocproc_mem\<close>.\<close>

lemma allocproc_start:
  fixes s :: "'z kproc_scheme"
  assumes "kmem_inv s fl" "slots_ok s" "\<And>i. i < NPROC \<Longrightarrow> Lproc i \<notin> held s" "Lpid \<notin> held s"
  obtains (none) "allocproc s = Inr (None, s)" "\<And>i. i < NPROC \<Longrightarrow> p_state (procs s i) \<noteq> UNUSED"
  | (some) p s2 where "allocproc s = allocproc_mem p s2" "p < NPROC" "p_state (procs s p) = UNUSED"
      "kmem_inv s2 fl" "p_state (procs s2 p) = USED" "p_pid (procs s2 p) = nextpid s" "p_sz (procs s2 p) = 0"
      "p_pagetable (procs s2 p) = 0" "p_kstack (procs s2 p) = p_kstack (procs s p)"
      "held s2 = insert (Lproc p) (held s)" "nextpid s2 = nextpid s + 1" "refcnt s2 = refcnt s"
      "a_forkret s2 = a_forkret s" "trampoline s2 = trampoline s" "mem s2 = mem s"
      "\<And>i. i \<noteq> p \<Longrightarrow> procs s2 i = procs s i"
proof (cases "find (\<lambda>p. p_state (procs s p) = UNUSED) [0..<NPROC]")
  case None
  then have "allocproc s = Inr (None, s)" using allocproc_scan_eq [of "[0..<NPROC]" s] assms(3) by (simp add: allocproc_def)
  then show ?thesis by (rule none) (use None in \<open>auto simp: find_None_iff\<close>)
next
  case (Some p)
  then have p: "p < NPROC" "p_state (procs s p) = UNUSED" by (auto simp: find_Some_iff nth_upt)
  have z: "p_pagetable (procs s p) = 0" "p_sz (procs s p) = 0" using assms(2) p by (auto simp: slots_ok_def)
  define s1 where "s1 = s\<lparr>held := insert (Lproc p) (held s), nextpid := nextpid s + 1\<rparr>"
  have "kmem_inv s1 fl" using assms(1) kmem_invD(1) [OF assms(1)] unfolding s1_def by simp
  moreover have "allocproc s = allocproc_mem p (allocproc_found p (nextpid s) s1)"
    using allocproc_scan_eq [of "[0..<NPROC]" s] assms(3,4) Some by (simp add: allocproc_def allocpid_eq s1_def)
  ultimately show ?thesis
    by (intro some [of p "allocproc_found p (nextpid s) s1"])
      (use p z in \<open>simp_all add: allocproc_found_fields s1_def\<close>)
qed

definition proc_zero :: proc where
  "proc_zero = \<lparr>p_mask = 0, p_ticks0 = 0, p_state = UNUSED, p_chan = None, p_killed = 0, p_xstate = 0,
     p_pid = 0, p_parent = None, p_kstack = 0, p_sz = 0, p_pagetable = 0, p_trapframe = 0,
     p_context = zero_context, p_ofile = replicate 16 None, p_cwd = None, p_name = replicate 16 0,
     p_alarm_handler = 0, p_handler = 0, p_checkifAlarmOn = 0, p_sigticks = 0, p_maxticks = 0,
     p_tickets = 0, p_time_spent = 0, p_time_avail = 0, p_ctime = 0, p_creationTime = 0, p_runTime = 0,
     p_endTime = 0, p_totalSleep = 0, p_sleepTimePrev = 0, p_sleepStartTime = 0, p_runTimePrev = 0,
     p_countTimeCalled = 0, p_sprior = 0, p_dprior = 0, p_niceness = 0, p_priority_level = 0,
     p_ass_ticks = 0, p_wait_time = 0, p_ticks_elapsed = 0, p_queue_ticks = replicate 5 0\<rparr>"

text \<open>A machine that has just booted, with sixteen free pages.\<close>

definition boot_demo :: kproc where
  "boot_demo = \<lparr>mem = chain_mem demo_pages, held = {}, SCHEDULER = DEFAULT, kend = 0x80024000, etext = 0x80008000,
     trampoline = 0x80007000, freelist = 0x87ff0000, refcnt = (\<lambda>_. 0), procs = (\<lambda>_. proc_zero),
     nextpid = 1, initproc = None, ticks = 0, cur = None, schedctx = zero_context, regs = zero_context,
     sie = False, a_forkret = 0x80001000, a_usertrap = 0x80002000, a_uservec = 0x80007000,
     a_userret = 0x8000709c, kernel_pagetable = 0, rand_z = (12345, 12345, 12345, 12345),
     forkret_first = True, con = console_zero\<rparr>"

lemma boot_demo_inv: "kmem_inv boot_demo demo_pages" "slots_ok boot_demo" "held boot_demo = {}"
proof -
  show "kmem_inv boot_demo demo_pages" by (rule demo_pages_inv) (simp_all add: boot_demo_def)
qed (simp_all add: boot_demo_def slots_ok_def proc_zero_def)

text \<open>
  C18: \<open>allocproc\<close> returns. If it returns a slot \<open>p\<close>, that slot was free and is now \<open>USED\<close>, locked,
  with the next pid, with a trapframe page and a page table that maps exactly the trampoline and
  the trapframe, and no other process has changed; the pages it took are exactly the trapframe
  and the pages of the table. If it returns 0, no lock is held that was not held, no process has
  changed its state, and the free list has the same pages as before: nothing leaks on any of the
  failure paths.
\<close>

theorem allocproc_spec:
  fixes s :: "'z kproc_scheme"
  assumes "kmem_inv s fl" "slots_ok s" "\<And>i. i < NPROC \<Longrightarrow> Lproc i \<notin> held s" "Lpid \<notin> held s"
  shows "\<exists>r s' fl'. allocproc s = Inr (r, s') \<and> kmem_inv s' fl' \<and>
    (case r of
       None \<Rightarrow> set fl' = set fl \<and> refcnt s' = refcnt s \<and> held s' = held s \<and>
         (\<forall>i. p_state (procs s' i) = p_state (procs s i))
     | Some p \<Rightarrow> proc_started s p s' \<and>
         (\<exists>N. pt_inv s' (p_pagetable (procs s' p)) N \<and>
              leaf s' N = proc_leaf (trampoline s) (p_trapframe (procs s' p)) \<and>
              set fl = insert (p_trapframe (procs s' p)) (ran N \<union> set fl')))"
proof -
  from assms show ?thesis
  proof (rule allocproc_start)
    assume "allocproc s = Inr (None, s)"
    with assms(1) show ?thesis by (auto intro!: exI [of _ None] exI [of _ s] exI [of _ fl])
  next
    fix p s2 assume a: "allocproc s = allocproc_mem p s2" "p < NPROC" "p_state (procs s p) = UNUSED"
      "kmem_inv s2 fl" "p_state (procs s2 p) = USED" "p_pid (procs s2 p) = nextpid s" "p_sz (procs s2 p) = 0"
      "p_pagetable (procs s2 p) = 0" "p_kstack (procs s2 p) = p_kstack (procs s p)"
      "held s2 = insert (Lproc p) (held s)" "nextpid s2 = nextpid s + 1" "refcnt s2 = refcnt s"
      "a_forkret s2 = a_forkret s" "trampoline s2 = trampoline s" "\<And>i. i \<noteq> p \<Longrightarrow> procs s2 i = procs s i"
    have "Lproc p \<in> held s2" by (simp add: a(10))
    with a(4,8) show ?thesis
    proof (cases rule: allocproc_mem_cases)
      case (none s' fl')
      then show ?thesis using a(1,3,10,12,15) assms(3) [OF a(2)]
        by (intro exI [of _ None] exI [of _ s'] exI [of _ fl']) (auto simp: alloc_undone_def cleared_def)
    next
      case (some s' N fl')
      then show ?thesis using a
        by (intro exI [of _ "Some p"] exI [of _ s'] exI [of _ fl'])
          (auto simp: alloc_done_def proc_started_def intro!: exI [of _ N])
    qed
  qed
qed

theorem allocproc_spec_witness:
  "\<exists>r s' fl'. allocproc boot_demo = Inr (r, s') \<and> kmem_inv s' fl'"
  using allocproc_spec [OF boot_demo_inv(1,2)] boot_demo_inv(3) by auto

section \<open>\<open>freeproc\<close>\<close>

text \<open>
  The memory of process \<open>p\<close> with the table \<open>N\<close>: every page below \<open>sz\<close> is mapped for the user, the
  rest of the table is as \<open>proc_pagetable\<close> left it, and the trapframe page is nobody else's.
\<close>

definition proc_mem :: "'z kproc_scheme \<Rightarrow> nat \<Rightarrow> nodes \<Rightarrow> bool" where
  "proc_mem s p N \<longleftrightarrow>
     (let q = procs s p; tf = p_trapframe q in
      p_pagetable q \<noteq> 0 \<and> pt_inv s (p_pagetable q) N \<and> user_inv s N \<and> unat (p_sz q) \<le> 0x3fffffe000 \<and>
      (\<forall>v < pages_of (p_sz q). upage s N v \<noteq> 0 \<and> leaf s N v AND PTE_R \<noteq> 0) \<and>
      (\<forall>v. pages_of (p_sz q) \<le> v \<longrightarrow> leaf s N v = proc_leaf (trampoline s) tf v) \<and>
      tf \<noteq> 0 \<and> ram_page s tf \<and> refcnt s (pno tf) = 1 \<and> tf \<notin> ran N \<and> (\<forall>v. upage s N v \<noteq> tf))"

lemma proc_memD:
  assumes "proc_mem s p N"
  defines "q \<equiv> procs s p"
  shows "p_pagetable q \<noteq> 0" "pt_inv s (p_pagetable q) N" "user_inv s N" "unat (p_sz q) \<le> 0x3fffffe000"
    "\<And>v. v < pages_of (p_sz q) \<Longrightarrow> upage s N v \<noteq> 0 \<and> leaf s N v AND PTE_R \<noteq> 0"
    "\<And>v. pages_of (p_sz q) \<le> v \<Longrightarrow> leaf s N v = proc_leaf (trampoline s) (p_trapframe q) v"
    "p_trapframe q \<noteq> 0" "ram_page s (p_trapframe q)" "refcnt s (pno (p_trapframe q)) = 1"
    "p_trapframe q \<notin> ran N" "\<And>v. upage s N v \<noteq> p_trapframe q"
  using assms(1) unfolding q_def by (auto simp: proc_mem_def Let_def)

lemma pages_top: "unat sz \<le> 0x3fffffe000 \<Longrightarrow> pages_of sz \<le> 0x3fffffe"
  using div_le_mono [of "unat sz + 4095" "0x3fffffe000 + 4095" 4096] by (simp add: pages_of_def)

lemma unmap_top:
  assumes "pt_inv s root N" "kmem_inv s fl" "leaf s N (vpn TRAMPOLINE) = PA2PTE tramp OR (PTE_R OR PTE_X) OR PTE_V"
    "leaf s N (vpn TRAPFRAME) = PA2PTE tf OR (PTE_R OR PTE_W) OR PTE_V"
  obtains s1 s2 fl2 where "uvmunmap root TRAMPOLINE 1 False s = Inr s1" "uvmunmap root TRAPFRAME 1 False s1 = Inr s2"
    "pt_inv s2 root N" "kmem_inv s2 fl2" "konly s s2" "set fl2 = set fl" "refcnt s2 = refcnt s"
    "leaf s2 N = (leaf s N)(vpn TRAMPOLINE := 0, vpn TRAPFRAME := 0)"
    "\<And>x. (\<And>p. p \<in> ran N \<union> set fl \<Longrightarrow> x \<notin> page_bytes p) \<Longrightarrow> mem s2 x = mem s x"
proof -
  obtain s1 fl1 where u: "uvmunmap root TRAMPOLINE 1 False s = Inr s1" "pt_inv s1 root N" "kmem_inv s1 fl1" "konly s s1"
    "set fl1 = set fl" "leaf s1 N = (leaf s N)(vpn TRAMPOLINE := 0)" "refcnt s1 = refcnt s"
    "\<And>x. (\<And>p. p \<in> ran N \<union> set fl \<Longrightarrow> x \<notin> page_bytes p) \<Longrightarrow> mem s1 x = mem s x"
    by (rule unmap_keep [OF assms(1,2), of TRAMPOLINE])
      (use kernel_entry(1) [of tramp "PTE_R OR PTE_X"] kernel_entry(2) [of "PTE_R OR PTE_X" tramp]
       in \<open>auto simp: dvd_def assms(3) bit_simps\<close>)
  obtain s2 fl2 where w: "uvmunmap root TRAPFRAME 1 False s1 = Inr s2" "pt_inv s2 root N" "kmem_inv s2 fl2" "konly s1 s2"
    "set fl2 = set fl1" "leaf s2 N = (leaf s1 N)(vpn TRAPFRAME := 0)" "refcnt s2 = refcnt s1"
    "\<And>x. (\<And>p. p \<in> ran N \<union> set fl1 \<Longrightarrow> x \<notin> page_bytes p) \<Longrightarrow> mem s2 x = mem s1 x"
    by (rule unmap_keep [OF u(2,3), of TRAPFRAME])
      (use kernel_entry(1) [of tf "PTE_R OR PTE_W"] kernel_entry(2) [of "PTE_R OR PTE_W" tf] assms(4)
       in \<open>auto simp: dvd_def u(6) top_vpn bit_simps\<close>)
  have m: "mem s2 x = mem s x" if "\<And>p. p \<in> ran N \<union> set fl \<Longrightarrow> x \<notin> page_bytes p" for x
    using u(8) [of x] w(8) [of x] that u(5) by auto
  show ?thesis
    by (rule that [OF u(1) w(1-3) konly_trans [OF u(4) w(4)] _ _ _ m]) (simp_all add: u(5-7) w(5-7))
qed

lemma user_inv_upage:
  assumes "user_inv s N" "upage s' N' = upage s N" "ram_page s' = ram_page s" "refcnt s' = refcnt s" "ran N' = ran N"
    and "\<And>v. upage s N v \<noteq> 0 \<Longrightarrow> leaf s' N' v = leaf s N v"
  shows "user_inv s' N'"
  using assms by (simp add: user_inv_def)

lemma freeproc_eq:
  fixes s :: "'z kproc_scheme"
  assumes "kmem_inv s fl" "proc_mem s p N"
  defines "q \<equiv> procs s p"
  obtains s' fl' where "freeproc p s = Inr s'" "kmem_inv s' fl'" "held s' = held s" "nextpid s' = nextpid s"
    "procs s' = (procs s)(p := cleared q)" "set fl \<union> ran N \<union> {p_trapframe q} \<subseteq> set fl'"
    "set fl' \<subseteq> set fl \<union> ran N \<union> {p_trapframe q} \<union> upage s N ` {0..<pages_of (p_sz q)}"
    "\<And>k. refcnt s' k = (if k \<in> pno ` ran N \<or> k = pno (p_trapframe q) then 0
       else refcnt s k - refs (leaf s N) 0 (pages_of (p_sz q)) k)"
    "\<And>x. (\<And>r. r \<in> set fl' \<Longrightarrow> x \<notin> page_bytes r) \<Longrightarrow> mem s' x = mem s x"
proof -
  note pm = proc_memD [OF assms(2), folded q_def]
  let ?tf = "p_trapframe q" and ?root = "p_pagetable q" and ?n = "pages_of (p_sz q)"
  obtain s1 fl1 where k: "kfree ?tf s = Inr s1" "kmem_inv s1 fl1" "konly s s1"
    "refcnt s1 = (refcnt s)(pno ?tf := refcnt s (pno ?tf) - 1)"
    "fl1 = (if refcnt s (pno ?tf) = 1 then ?tf # fl else fl)"
    "\<And>x. x \<notin> page_bytes ?tf \<or> ?tf \<notin> set fl1 \<Longrightarrow> mem s1 x = mem s x"
    by (rule kfree_step [OF assms(1) pm(8)]) (use pm(9) in auto)
  have other: "pno r \<noteq> pno ?tf" if "ram_page s r" "r \<noteq> ?tf" for r
    using pno_inj [of r ?tf] that pm(8) by (auto simp: ram_page_def)
  have m1: "mem s1 x = mem s x" if "r \<in> ran N" "x \<in> page_bytes r" for r x
    using k(6) page_out [OF that(2) node_ram [OF pm(2) that(1)] pm(8)] that(1) pm(10) by blast
  have r1: "refcnt s1 (pno r) = refcnt s (pno r)" if "ram_page s r" "r \<noteq> ?tf" for r
    using other [OF that] by (simp add: k(4))
  have rn: "refcnt s1 (pno r) = refcnt s (pno r)" if "r \<in> ran N" for r
    using r1 [OF node_ram [OF pm(2) that]] that pm(10) by blast
  have "pt_inv s1 ?root N" by (rule pt_inv_frame(1) [OF pm(2) konlyD(2) [OF k(3)]]) (use m1 rn in auto)
  moreover have "leaf s1 N = leaf s N" by (rule pt_inv_frame(2) [OF pm(2) konlyD(2) [OF k(3)]]) (use m1 rn in auto)
  ultimately have pt1: "pt_inv s1 ?root N" "leaf s1 N = leaf s N" "upage s1 N = upage s N"
    by (auto simp: upage_def fun_eq_iff)
  have ug: "upage s N v \<notin> ran N \<and> refcnt s1 (pno (upage s N v)) = refcnt s (pno (upage s N v))"
    if "upage s N v \<noteq> 0" for v
    using user_invD(1,2) [OF pm(3) that] r1 [of "upage s N v"] pm(11) [of v] by simp
  have ui1: "user_inv s1 N"
    by (rule user_inv_frame [OF pm(3) pt1(2) konlyD(6) [OF k(3)]]) (use kmem_invD(7) [OF k(2)] ug in auto)
  have top: "pages_of (p_sz q) \<le> 0x3fffffe" by (rule pages_top [OF pm(4)])
  let ?s1 = "updp p (\<lambda>q. q\<lparr>p_trapframe := 0\<rparr>) s1"
  have ps1: "procs s1 = procs s" using konly_kproc(1) [OF k(3)] .
  obtain s2 s3 fl3 where t: "uvmunmap ?root TRAMPOLINE 1 False ?s1 = Inr s2" "uvmunmap ?root TRAPFRAME 1 False s2 = Inr s3"
    "pt_inv s3 ?root N" "kmem_inv s3 fl3" "konly ?s1 s3" "set fl3 = set fl1" "refcnt s3 = refcnt ?s1"
    "leaf s3 N = (leaf ?s1 N)(vpn TRAMPOLINE := 0, vpn TRAPFRAME := 0)"
    "\<And>x. (\<And>p. p \<in> ran N \<union> set fl1 \<Longrightarrow> x \<notin> page_bytes p) \<Longrightarrow> mem s3 x = mem ?s1 x"
    by (rule unmap_top [of ?s1 ?root N fl1 "trampoline s" ?tf])
      (use pt1 k(2) pm(6) top in \<open>auto simp: top_vpn proc_leaf_def\<close>)
  have up: "upage s3 N = upage s N"
    using pm(6) [of "vpn TRAMPOLINE"] pm(6) [of "vpn TRAPFRAME"] top kernel_entry(3) [of "PTE_R OR PTE_X" "trampoline s"]
      kernel_entry(3) [of "PTE_R OR PTE_W" ?tf] pt1(2)
    by (auto simp: fun_eq_iff upage_def t(8) top_vpn proc_leaf_def bit_simps)
  have z: "upage s3 N (vpn TRAMPOLINE) = 0" "upage s3 N (vpn TRAPFRAME) = 0" by (simp_all add: upage_def t(8))
  have ui3: "user_inv s3 N"
    by (rule user_inv_upage [OF ui1]) (use up z t(7) konlyD(6) [OF t(5)] pt1(3) in \<open>auto simp: t(8)\<close>)
  have lf: "leaf s3 N v = leaf s N v" if "v < ?n" for v using that top by (simp add: t(8) pt1(2) top_vpn)
  obtain s4 fl4 where u: "uvmfree ?root (p_sz q) s3 = Inr s4" "kmem_inv s4 fl4" "konly s3 s4"
    "refcnt s4 = (\<lambda>k. if k \<in> pno ` ran N then 0 else refcnt s3 k - refs (leaf s3 N) 0 ?n k)"
    "set fl3 \<union> ran N \<subseteq> set fl4" "set fl4 \<subseteq> set fl3 \<union> ran N \<union> upage s3 N ` {0..<?n}"
    "\<And>x. (\<And>p. p \<in> set fl4 \<Longrightarrow> x \<notin> page_bytes p) \<Longrightarrow> mem s4 x = mem s3 x"
  proof (rule uvmfree_eq [OF t(3,4) ui3])
    show "unat (p_sz q) \<le> 0x4000000000" using pm(4) by simp
    show "leaf s3 N v AND PTE_V = 0" if "?n \<le> v" for v
      using pm(6) [OF that] by (simp add: t(8) pt1(2) proc_leaf_def)
  qed (use pm(5) up lf in auto)
  let ?s4 = "updp p (\<lambda>q. q\<lparr>p_pagetable := 0, p_sz := 0, p_pid := 0, p_parent := None, p_name := (p_name q)[0 := 0],
    p_chan := None, p_killed := 0, p_xstate := 0, p_state := UNUSED\<rparr>) s4"
  have kp4: "procs s4 = procs ?s1" "nextpid s4 = nextpid s" "held s4 = held s"
    using konly_kproc(1,2) [OF konly_trans [OF t(5) u(3)]] konly_kproc(2) [OF k(3)]
      konlyD(1) [OF konly_trans [OF t(5) u(3)]] konlyD(1) [OF k(3)] by simp_all
  have "proc_freepagetable ?root (p_sz q) ?s1 = Inr s4" using t(1,2) u(1) by (simp add: proc_freepagetable_def)
  then have run: "freeproc p s = Inr ?s4" using k(1) pm(1,7) ps1 by (simp add: freeproc_def Let_def q_def)
  have fl1: "set fl1 = insert ?tf (set fl)" using k(5) pm(9) by simp
  have mm: "mem ?s4 x = mem s x" if x: "\<And>r. r \<in> set fl4 \<Longrightarrow> x \<notin> page_bytes r" for x
  proof -
    have "mem ?s4 x = mem s3 x" using u(7) x by simp
    also have "\<dots> = mem s1 x" using t(9) [of x] x u(5) t(6) by auto
    also have "\<dots> = mem s x" using k(6) x u(5) t(6) fl1 by auto
    finally show ?thesis .
  qed
  have rf: "refs (leaf s3 N) 0 ?n = refs (leaf s N) 0 ?n" by (rule refs_cong) (simp add: lf)
  have tf0: "refs (leaf s N) 0 ?n (pno ?tf) = 0"
  proof (rule refs_zero)
    fix v assume "v < 0 + ?n"
    then have v: "upage s N v \<noteq> 0" using pm(5) by simp
    show "pno (PTE2PA (leaf s N v)) \<noteq> pno ?tf"
      using other [OF user_invD(1) [OF pm(3) v] pm(11)] upage_leaf [OF v] by simp
  qed
  show ?thesis
  proof (rule that [OF run _ _ _ _ _ _ _ mm])
    show "procs ?s4 = (procs s)(p := cleared q)" by (auto simp: fun_eq_iff kp4(1) ps1 q_def cleared_def)
    show "refcnt ?s4 k' = (if k' \<in> pno ` ran N \<or> k' = pno ?tf then 0
        else refcnt s k' - refs (leaf s N) 0 ?n k')" for k'
      using tf0 pm(9) by (simp add: u(4) rf t(7) k(4))
  qed (use u(2,5,6) kp4(2,3) t(6) fl1 up in auto)
qed

lemma alloc_done_mem:
  fixes s :: "'z kproc_scheme"
  assumes "alloc_done p s fl s' N fl'" "kmem_inv s fl" "p_sz (procs s p) = 0"
  shows "proc_mem s' p N"
proof -
  obtain tf fl0 root where a: "fl = tf # fl0" "ran N \<union> set fl' = set fl0" "leaf s' N = proc_leaf (trampoline s) tf"
    "refcnt s' = (\<lambda>k. if k \<in> pno ` ran N then 1 else if k = pno tf then 1 else refcnt s k)"
    "root \<noteq> 0" "pt_inv s' root N"
    "procs s' = (procs s)(p := (procs s p)\<lparr>p_trapframe := tf, p_pagetable := root, p_context := zero_context
      \<lparr>cx_ra := a_forkret s, cx_sp := p_kstack (procs s p) + PGSIZE\<rparr>\<rparr>)"
    "kmem_inv s' fl'" "held s' = held s" "nextpid s' = nextpid s" "kend s' = kend s" "trampoline s' = trampoline s"
    by (rule alloc_doneE [OF assms(1)]) (rule that; assumption)
  have q: "p_trapframe (procs s' p) = tf" "p_pagetable (procs s' p) = root" "p_sz (procs s' p) = 0"
    using assms(3) by (simp_all add: a(7))
  have tf: "tf \<noteq> 0" "ram_page s' tf" "tf \<notin> ran N"
    using kmem_invD(3-5) [OF assms(2)] a(1,2) ram_page_cong [OF a(11), of tf] by auto
  have up: "upage s' N v = 0" for v
    using kernel_entry(3) [of "PTE_R OR PTE_X" "trampoline s"] kernel_entry(3) [of "PTE_R OR PTE_W" tf]
    by (simp add: upage_def a(3) proc_leaf_def bit_simps)
  then have "user_inv s' N" using kmem_invD(7) [OF a(8)] by (simp add: user_inv_def)
  moreover have "pages_of 0 = 0" by (simp add: pages_of_def)
  ultimately show ?thesis
    using a(3-6,12) tf up by (auto simp: proc_mem_def q Let_def)
qed

text \<open>What \<open>allocproc\<close> does when it finds a slot and enough memory.\<close>

lemma allocproc_some:
  fixes s :: "'z kproc_scheme"
  assumes "kmem_inv s fl" "slots_ok s" "\<And>i. i < NPROC \<Longrightarrow> Lproc i \<notin> held s" "Lpid \<notin> held s"
    and "allocproc s = Inr (Some p, s')"
  obtains s2 N fl' where "alloc_done p s2 fl s' N fl'" "proc_mem s' p N" "kmem_inv s2 fl" "refcnt s2 = refcnt s"
    "p < NPROC" "p_state (procs s p) = UNUSED" "p_sz (procs s' p) = 0"
  using assms(1-4)
proof (rule allocproc_start)
  fix p' s2 assume a: "allocproc s = allocproc_mem p' s2" "p' < NPROC" "p_state (procs s p') = UNUSED"
    "kmem_inv s2 fl" "p_sz (procs s2 p') = 0" "p_pagetable (procs s2 p') = 0" "refcnt s2 = refcnt s"
    "held s2 = insert (Lproc p') (held s)"
  have "Lproc p' \<in> held s2" by (simp add: a(8))
  with a(4,6) show ?thesis
  proof (cases rule: allocproc_mem_cases)
    case (some s'' N fl')
    then have eq: "p' = p" "s'' = s'" using a(1) assms(5) by auto
    have "p_sz (procs s'' p') = 0" by (rule alloc_doneE [OF some(2)]) (simp add: a(5))
    with some(2) alloc_done_mem [OF some(2) a(4,5)] a eq show ?thesis by (intro that [of s2 N fl']) auto
  qed (use a(1) assms(5) in auto)
qed (use assms(5) in auto)

text \<open>
  C19: \<open>freeproc\<close> undoes \<open>allocproc\<close>: when \<open>allocproc\<close> has returned the slot \<open>p\<close>, \<open>freeproc\<close> of it
  returns, the slot is \<open>UNUSED\<close> again, and the allocator has exactly the pages and the reference
  counts it had before.
\<close>

theorem freeproc_allocproc:
  fixes s :: "'z kproc_scheme"
  assumes "kmem_inv s fl" "slots_ok s" "\<And>i. i < NPROC \<Longrightarrow> Lproc i \<notin> held s" "Lpid \<notin> held s"
    and "allocproc s = Inr (Some p, s')"
  shows "\<exists>s'' fl''. freeproc p s' = Inr s'' \<and> kmem_inv s'' fl'' \<and> set fl'' = set fl \<and> refcnt s'' = refcnt s \<and>
    p_state (procs s'' p) = UNUSED"
  using assms
proof (rule allocproc_some)
  fix s2 N fl' assume a: "alloc_done p s2 fl s' N fl'" and m: "proc_mem s' p N" and k: "kmem_inv s2 fl" "refcnt s2 = refcnt s"
    and z: "p_sz (procs s' p) = 0"
  obtain tf fl0 where d: "fl = tf # fl0" "ran N \<union> set fl' = set fl0" "p_trapframe (procs s' p) = tf" "kmem_inv s' fl'"
    "refcnt s' = (\<lambda>k. if k \<in> pno ` ran N then 1 else if k = pno tf then 1 else refcnt s2 k)"
    by (rule alloc_doneE [OF a]) (rule that; simp)
  have sz: "pages_of (p_sz (procs s' p)) = 0" by (simp add: z pages_of_def)
  obtain s'' fl'' where f: "freeproc p s' = Inr s''" "kmem_inv s'' fl''" "procs s'' = (procs s')(p := cleared (procs s' p))"
    "set fl' \<union> ran N \<union> {p_trapframe (procs s' p)} \<subseteq> set fl''"
    "set fl'' \<subseteq> set fl' \<union> ran N \<union> {p_trapframe (procs s' p)} \<union> upage s' N ` {0..<pages_of (p_sz (procs s' p))}"
    "\<And>k. refcnt s'' k = (if k \<in> pno ` ran N \<or> k = pno (p_trapframe (procs s' p)) then 0
       else refcnt s' k - refs (leaf s' N) 0 (pages_of (p_sz (procs s' p))) k)"
    by (rule freeproc_eq [OF d(4) m]) (rule that; blast)
  have "refcnt s k = 0" if "k \<in> pno ` ran N \<or> k = pno tf" for k
    using that kmem_invD(6) [OF assms(1)] d(1,2) by auto
  then have "refcnt s'' = refcnt s" using f(6) d(3,5) k(2) sz by (auto simp: fun_eq_iff)
  with f(1-5) d(1-3) sz show ?thesis by (intro exI [of _ s''] exI [of _ fl'']) (auto simp: cleared_def)
qed

lemma boot_demo_alloc: "\<exists>p s'. allocproc boot_demo = Inr (Some p, s')"
  using boot_demo_inv(1,2)
proof (rule allocproc_start)
  show "Lproc i \<notin> held boot_demo" "Lpid \<notin> held boot_demo" for i by (simp_all add: boot_demo_inv(3))
next
  assume "\<And>i. i < NPROC \<Longrightarrow> p_state (procs boot_demo i) \<noteq> UNUSED"
  from this [of 0] show ?thesis by (simp add: boot_demo_def proc_zero_def)
next
  fix p s2 assume a: "allocproc boot_demo = allocproc_mem p s2" "kmem_inv s2 demo_pages"
    "p_pagetable (procs s2 p) = 0" "held s2 = insert (Lproc p) (held boot_demo)"
  have "Lproc p \<in> held s2" by (simp add: a(4))
  with a(2,3) show ?thesis
    by (cases rule: allocproc_mem_cases) (simp_all add: a(1) alloc_undone_def demo_pages_def)
qed

theorem freeproc_allocproc_witness:
  "\<exists>p s' s'' fl''. allocproc boot_demo = Inr (Some p, s') \<and> freeproc p s' = Inr s'' \<and> kmem_inv s'' fl'' \<and>
     set fl'' = set demo_pages"
proof -
  obtain p s' where r: "allocproc boot_demo = Inr (Some p, s')" using boot_demo_alloc by blast
  from freeproc_allocproc [OF boot_demo_inv(1,2) _ _ r] show ?thesis using r by (auto simp: boot_demo_inv(3))
qed

end
