(* ===== verification/Printf.thy ===== *)
theory Printf
  imports Proc
begin

text \<open>
  \<^verbatim>\<open>kernel/printf.c\<close> and the output half of the console it uses (\<open>consputc\<close>, \<open>uartputc_sync\<close>).
  The arguments of \<open>printf\<close> are a list of tagged values; an argument of the wrong kind, or a missing
  one, is \<open>UB\<close>. A format is its characters up to the NUL.

  \<open>ConsoleProps\<close> shows that \<open>printint\<close> stays inside its buffer and that what it prints reads back as the
  number it was given.
\<close>

section \<open>Output of one character\<close>

definition set_uart :: "(uart \<Rightarrow> uart) \<Rightarrow> 'z kproc_scheme \<Rightarrow> 'z kproc_scheme" where
  "set_uart f s = s\<lparr>con := (con s)\<lparr>con_uart := f (con_uart (con s))\<rparr>\<rparr>"

text \<open>
  The wait for \<open>LSR_TX_IDLE\<close> ends when the transmitter has drained; \<open>push_off\<close> and \<open>pop_off\<close> around
  it cancel. After a panic, output freezes.
\<close>

definition uartputc_sync :: "int \<Rightarrow> 'z kproc_scheme \<Rightarrow> 'z kproc_scheme res" where
  "uartputc_sync c s =
     (if panicked (con s) then Inl Spin else Inr (set_uart (WriteReg THR (word_of_int c)) s))"

abbreviation (input) "BACKSPACE \<equiv> 256 :: int"

definition consputc :: "int \<Rightarrow> 'z kproc_scheme \<Rightarrow> 'z kproc_scheme res" where
  "consputc c s =
     (if c = BACKSPACE then
        bindR (uartputc_sync 8 s) (\<lambda>s. bindR (uartputc_sync 32 s) (uartputc_sync 8))
      else uartputc_sync c s)"

section \<open>Conversions\<close>

definition bytes_of :: "string \<Rightarrow> byte list" where
  "bytes_of cs = map of_char cs"

definition digits :: "byte list" where
  "digits = bytes_of ''0123456789abcdef''"

text \<open>The \<open>do\<close> loop, least significant digit first; it is only called with base 10 and 16.\<close>

function printint_digits :: "nat \<Rightarrow> nat \<Rightarrow> byte list" where
  "printint_digits base x =
     (if base < 2 \<or> x div base = 0 then [digits ! (x mod base)]
      else digits ! (x mod base) # printint_digits base (x div base))"
  by pat_completeness auto
termination
proof (relation "measure snd")
  fix base x :: nat
  assume "\<not> (base < 2 \<or> x div base = 0)"
  then show "((base, x div base), base, x) \<in> measure snd"
    by (cases "x = 0") auto
qed simp

text \<open>The negation is one of \<open>int\<close>, undefined for the most negative number.\<close>

definition printint :: "int \<Rightarrow> nat \<Rightarrow> bool \<Rightarrow> 'z kproc_scheme \<Rightarrow> 'z kproc_scheme res" where
  "printint xx base sign s =
     (let sign = (sign \<and> xx < 0) in
      bindR (if sign then cint (- xx) else Inr xx) (\<lambda>xx.
        let x = word_of_int xx :: u32;
            buf = printint_digits base (unat x);
            buf = (if sign then buf @ [45] else buf)
        in foldR (\<lambda>c. consputc (uint c)) (rev buf) s))"

definition printptr :: "u64 \<Rightarrow> 'z kproc_scheme \<Rightarrow> 'z kproc_scheme res" where
  "printptr x s =
     bindR (consputc 48 s) (\<lambda>s.
     bindR (consputc 120 s) (\<lambda>s.
       foldR (\<lambda>i. consputc (uint (digits ! unat (drop_bit 60 (push_bit (4 * i) x))))) [0..<16] s))"

datatype vararg = Aint int | Aptr u64 | Astr "byte list option"

text \<open>\<open>%s\<close>: the characters before the NUL.\<close>

fun print_str :: "byte list \<Rightarrow> 'z kproc_scheme \<Rightarrow> 'z kproc_scheme res" where
  "print_str [] s = Inl (UB ''printf: string past the end'')"
| "print_str (c # cs) s = (if c = 0 then Inr s else bindR (consputc (uint c) s) (print_str cs))"

fun printf_arg :: "byte \<Rightarrow> vararg list \<Rightarrow> 'z kproc_scheme \<Rightarrow> (vararg list \<times> 'z kproc_scheme) res" where
  "printf_arg c args s =
     (if c = 100 then
        (case args of Aint n # args \<Rightarrow> bindR (printint n 10 True s) (\<lambda>s. Inr (args, s)) | _ \<Rightarrow> Inl (UB ''va_arg''))
      else if c = 120 then
        (case args of Aint n # args \<Rightarrow> bindR (printint n 16 True s) (\<lambda>s. Inr (args, s)) | _ \<Rightarrow> Inl (UB ''va_arg''))
      else if c = 112 then
        (case args of Aptr x # args \<Rightarrow> bindR (printptr x s) (\<lambda>s. Inr (args, s)) | _ \<Rightarrow> Inl (UB ''va_arg''))
      else if c = 115 then
        (case args of
           Astr (Some t) # args \<Rightarrow> bindR (print_str t s) (\<lambda>s. Inr (args, s))
         | Astr None # args \<Rightarrow> bindR (print_str (bytes_of ''(null)'' @ [0]) s) (\<lambda>s. Inr (args, s))
         | _ \<Rightarrow> Inl (UB ''va_arg''))
      else if c = 37 then bindR (consputc 37 s) (\<lambda>s. Inr (args, s))
      else bindR (consputc 37 s) (\<lambda>s. bindR (consputc (uint c) s) (\<lambda>s. Inr (args, s))))"

fun printf_loop :: "byte list \<Rightarrow> vararg list \<Rightarrow> 'z kproc_scheme \<Rightarrow> 'z kproc_scheme res" where
  "printf_loop [] args s = Inr s"
| "printf_loop [c] args s = (if c \<noteq> 37 then consputc (uint c) s else Inr s)"
| "printf_loop (c # d # fmt) args s =
     (if c \<noteq> 37 then bindR (consputc (uint c) s) (printf_loop (d # fmt) args)
      else bindR (printf_arg d args s) (\<lambda>(args, s). printf_loop fmt args s))"

definition printf :: "string \<Rightarrow> vararg list \<Rightarrow> 'z kproc_scheme \<Rightarrow> 'z kproc_scheme res" where
  "printf fmt args s =
     (let locking = pr_locking (con s) in
      bindR (if locking then acq Lpr s else Inr s) (\<lambda>s.
      bindR (printf_loop (bytes_of fmt) args s) (\<lambda>s.
        if locking then rel Lpr s else Inr s)))"

definition printfinit :: "'z kproc_scheme \<Rightarrow> 'z kproc_scheme" where
  "printfinit s = s\<lparr>held := held s - {Lpr}, con := (con s)\<lparr>pr_locking := True\<rparr>\<rparr>"

declare printf_arg.simps [simp del] printint_digits.simps [simp del]

end
