(* ===== verification/Sched.thy ===== *)
theory Sched
  imports ProcMem Printf
begin

text \<open>
  The schedulers of \<^verbatim>\<open>kernel/proc.c\<close> and the operations that move a process between states:
  \<open>sched\<close>, \<open>yield\<close>, \<open>sleep\<close>, \<open>wakeup\<close>, \<open>kill\<close>, \<open>wait\<close>, \<open>waitx\<close>, the accounting at a timer tick, the
  pseudo-random numbers of the lottery scheduler and the priorities of the priority scheduler.

  \<open>swtch\<close> transfers control, so a function that calls it is split there: \<open>yield\<close>, \<open>sleep\<close> and the
  scheduler loop are each a part before the switch and a part after it. A loop that sleeps is one
  pass whose outcome is either a result or the channel and lock it goes to sleep with.
\<close>

section \<open>Pseudo-random numbers and priorities\<close>

text \<open>The C remainder, which takes the sign of the dividend.\<close>

definition crem :: "int \<Rightarrow> int \<Rightarrow> int" where
  "crem a b = sgn a * (\<bar>a\<bar> mod \<bar>b\<bar>)"

definition random_lbs :: "int \<Rightarrow> 'z kproc_scheme \<Rightarrow> int \<times> 'z kproc_scheme" where
  "random_lbs mx s =
     (if mx \<le> 0 then (1, s) else
      let (z1, z2, z3, z4) = rand_z s;
          b = signed_drop_bit 13 (push_bit 6 z1 XOR z1);
          z1 = push_bit 18 (z1 AND 4294967294) XOR b;
          b = signed_drop_bit 27 (push_bit 2 z2 XOR z2);
          z2 = push_bit 2 (z2 AND 4294967288) XOR b;
          b = signed_drop_bit 21 (push_bit 13 z3 XOR z3);
          z3 = push_bit 7 (z3 AND 4294967280) XOR b;
          b = signed_drop_bit 12 (push_bit 3 z4 XOR z4);
          z4 = push_bit 13 (z4 AND 4294967168) XOR b;
          rand = crem (sint (z1 XOR z2 XOR z3 XOR z4)) mx;
          rand = (if rand < 0 then rand * -1 else rand)
      in (rand, s\<lparr>rand_z := (z1, z2, z3, z4)\<rparr>))"

text \<open>
  The division is reached only when both terms of its divisor are 0; C leaves it undefined.
\<close>

definition calculateDynamicPriority :: "proc \<Rightarrow> (int \<times> proc) res" where
  "calculateDynamicPriority q =
     (let q = q\<lparr>p_niceness := 5\<rparr> in
      bindR (if p_runTimePrev q = 0 then
               if p_sleepTimePrev q = 0 then
                 let q = q\<lparr>p_niceness := p_sleepTimePrev q * 10\<rparr>; d = p_runTimePrev q + p_sleepTimePrev q
                 in if d = 0 then Inl (UB ''niceness: division by zero'') else Inr (q\<lparr>p_niceness := p_niceness q div d\<rparr>)
               else Inr q
             else Inr q) (\<lambda>q.
        let checker = sint (p_sprior q - p_niceness q + 5)
        in Inr (if checker > 100 then 100 else if checker < 0 then 0 else checker, q)))"

text \<open>\<open>p->dprior = calculateDynamicPriority(p)\<close>.\<close>

definition set_dprior :: "nat \<Rightarrow> 'z kproc_scheme \<Rightarrow> 'z kproc_scheme res" where
  "set_dprior p s =
     bindR (calculateDynamicPriority (procs s p)) (\<lambda>(r, q). Inr (updp p (\<lambda>_. q\<lparr>p_dprior := of_int r\<rparr>) s))"

text \<open>The search by pid in \<open>set_priority\<close>: each lock is taken and released again.\<close>

fun find_pid :: "int \<Rightarrow> nat list \<Rightarrow> 'z kproc_scheme \<Rightarrow> (nat option \<times> 'z kproc_scheme) res" where
  "find_pid pid [] s = Inr (None, s)"
| "find_pid pid (i # is) s =
     bindR (acq (Lproc i) s) (\<lambda>s.
       if p_pid (procs s i) = pid then bindR (rel (Lproc i) s) (\<lambda>s. Inr (Some i, s))
       else bindR (rel (Lproc i) s) (find_pid pid is))"

definition set_priority :: "int \<Rightarrow> int \<Rightarrow> 'z kproc_scheme \<Rightarrow> (int \<times> 'z kproc_scheme) res" where
  "set_priority static_prior pid s =
     (if static_prior < 0 \<or> static_prior > 100
      then bindR (printf ''Priority is not right\<newline>'' [] s) (\<lambda>s. Inr (-1, s))
      else bindR (find_pid pid [0..<NPROC] s) (\<lambda>(r, s).
        case r of
          Some i \<Rightarrow>
            bindR (acq (Lproc i) s) (\<lambda>s.
              let old_prior = sint (p_sprior (procs s i));
                  s = updp i (\<lambda>q. q\<lparr>p_sprior := of_int static_prior, p_niceness := 5\<rparr>) s
              in bindR (set_dprior i s) (\<lambda>s.
                 bindR (rel (Lproc i) s) (\<lambda>s. Inr (old_prior, s))))
        | None \<Rightarrow> Inr (-1, s)))"

section \<open>Accounting\<close>

definition upd_time_1 :: "nat \<Rightarrow> 'z kproc_scheme \<Rightarrow> 'z kproc_scheme res" where
  "upd_time_1 p s =
     bindR (acq (Lproc p) s) (\<lambda>s.
       bindR (if p_state (procs s p) = RUNNING then
                let s = updp p (\<lambda>q. q\<lparr>p_runTime := p_runTime q + 1, p_runTimePrev := p_runTimePrev q + 1\<rparr>) s;
                    s = (if SCHEDULER s = LBS then updp p (\<lambda>q. q\<lparr>p_time_spent := p_time_spent q + 1\<rparr>) s else s)
                in if SCHEDULER s = MLFQ then
                     let l = p_priority_level (procs s p); n = nat l in
                     if l < 0 \<or> 5 \<le> l then Inl (UB ''queue_ticks: index out of range'')
                     else Inr (updp p (\<lambda>q. q\<lparr>p_queue_ticks := (p_queue_ticks q)[n := p_queue_ticks q ! n + 1],
                                             p_wait_time := p_wait_time q + 1\<rparr>) s)
                   else Inr s
              else Inr s) (\<lambda>s.
         rel (Lproc p) s))"

definition upd_time :: "'z kproc_scheme \<Rightarrow> 'z kproc_scheme res" where
  "upd_time s = foldR upd_time_1 [0..<NPROC] s"

abbreviation (input) AGE :: int where "AGE \<equiv> 36"

definition aging_check :: "'z kproc_scheme \<Rightarrow> 'z kproc_scheme" where
  "aging_check s =
     fold (\<lambda>p s.
       let q = procs s p in
       if (p_state q = SLEEPING \<or> p_state q = RUNNABLE) \<and> p_wait_time q > AGE \<and> p_priority_level q \<noteq> 0
       then updp p (\<lambda>q. q\<lparr>p_wait_time := 0, p_priority_level := p_priority_level q - 1,
                          p_ass_ticks := (if p_ass_ticks q < 0 then - (- p_ass_ticks q div 2)
                                          else p_ass_ticks q div 2)\<rparr>) s
       else s) [0..<NPROC] s"

section \<open>Giving up the processor\<close>

text \<open>
  \<open>sched\<close> up to the switch to the scheduler; its result is the \<open>intena\<close> of this kernel thread,
  which \<open>sched_return\<close> puts back when the thread runs again. \<open>noff\<close> is the number of held locks.
\<close>

definition sched :: "'z kproc_scheme \<Rightarrow> (bool \<times> 'z kproc_scheme) res" where
  "sched s =
     bindR (myproc s) (\<lambda>p.
       if Lproc p \<notin> held s then panic ''sched p->lock''
       else if card (held s) \<noteq> 1 then panic ''sched locks''
       else if p_state (procs s p) = RUNNING then panic ''sched running''
       else if intr_get1 s then panic ''sched interruptible''
       else
         let ie = sie s;
             s = updp p (\<lambda>q. q\<lparr>p_context := regs s\<rparr>) s;
             s = s\<lparr>regs := schedctx s\<rparr>
         in Inr (ie, s))"

definition sched_return :: "bool \<Rightarrow> 'z kproc_scheme \<Rightarrow> 'z kproc_scheme" where
  "sched_return ie s = s\<lparr>sie := ie\<rparr>"

definition yield :: "'z kproc_scheme \<Rightarrow> (bool \<times> 'z kproc_scheme) res" where
  "yield s =
     bindR (myproc s) (\<lambda>p.
       bindR (acq (Lproc p) s) (\<lambda>s. sched (updp p (\<lambda>q. q\<lparr>p_state := RUNNABLE\<rparr>) s)))"

definition yield_return :: "nat \<Rightarrow> bool \<Rightarrow> 'z kproc_scheme \<Rightarrow> 'z kproc_scheme res" where
  "yield_return p ie s = rel (Lproc p) (sched_return ie s)"

definition sleep :: "chan \<Rightarrow> lock \<Rightarrow> 'z kproc_scheme \<Rightarrow> (bool \<times> 'z kproc_scheme) res" where
  "sleep chan lk s =
     bindR (myproc s) (\<lambda>p.
       bindR (acq (Lproc p) s) (\<lambda>s.
         bindR (rel lk s) (\<lambda>s.
           sched (updp p (\<lambda>q. q\<lparr>p_chan := Some chan, p_state := SLEEPING\<rparr>) s))))"

definition sleep_return :: "nat \<Rightarrow> lock \<Rightarrow> bool \<Rightarrow> 'z kproc_scheme \<Rightarrow> 'z kproc_scheme res" where
  "sleep_return p lk ie s =
     (let s = sched_return ie s;
          s = updp p (\<lambda>q. q\<lparr>p_chan := None\<rparr>) s
      in bindR (rel (Lproc p) s) (\<lambda>s. acq lk s))"

definition wakeup_1 :: "chan \<Rightarrow> nat \<Rightarrow> 'z kproc_scheme \<Rightarrow> 'z kproc_scheme res" where
  "wakeup_1 chan p s =
     (if Some p \<noteq> cur s then
        bindR (acq (Lproc p) s) (\<lambda>s.
          let s = (if p_state (procs s p) = SLEEPING \<and> p_chan (procs s p) = Some chan then
                     let s = updp p (\<lambda>q. q\<lparr>p_state := RUNNABLE\<rparr>) s;
                         s = (if SCHEDULER s = LBS then updp p (\<lambda>q. q\<lparr>p_time_spent := 0\<rparr>) s else s);
                         s = (if p_sleepStartTime (procs s p) \<noteq> 0 then
                                updp p (\<lambda>q. let q = q\<lparr>p_sleepTimePrev := ticks s - p_sleepStartTime q\<rparr>
                                            in q\<lparr>p_totalSleep := p_totalSleep q + p_sleepTimePrev q\<rparr>) s
                              else s)
                     in if SCHEDULER s = MLFQ then updp p (\<lambda>q. q\<lparr>p_ticks_elapsed := 0\<rparr>) s else s
                   else s)
          in rel (Lproc p) s)
      else Inr s)"

definition wakeup :: "chan \<Rightarrow> 'z kproc_scheme \<Rightarrow> 'z kproc_scheme res" where
  "wakeup chan s = foldR (wakeup_1 chan) [0..<NPROC] s"

fun kill_scan :: "int \<Rightarrow> nat list \<Rightarrow> 'z kproc_scheme \<Rightarrow> (int \<times> 'z kproc_scheme) res" where
  "kill_scan pid [] s = Inr (-1, s)"
| "kill_scan pid (p # ps) s =
     bindR (acq (Lproc p) s) (\<lambda>s.
       if p_pid (procs s p) = pid then
         let s = updp p (\<lambda>q. q\<lparr>p_killed := 1\<rparr>) s;
             s = (if p_state (procs s p) = SLEEPING then
                    let s = (if SCHEDULER s = LBS then updp p (\<lambda>q. q\<lparr>p_time_spent := 0\<rparr>) s else s);
                        s = updp p (\<lambda>q. q\<lparr>p_sleepTimePrev := ticks s - p_sleepStartTime q, p_state := RUNNABLE\<rparr>) s
                    in if SCHEDULER s = MLFQ then updp p (\<lambda>q. q\<lparr>p_ticks_elapsed := 0\<rparr>) s else s
                  else s)
         in bindR (rel (Lproc p) s) (\<lambda>s. Inr (0, s))
       else bindR (rel (Lproc p) s) (kill_scan pid ps))"

definition kill :: "int \<Rightarrow> 'z kproc_scheme \<Rightarrow> (int \<times> 'z kproc_scheme) res" where
  "kill pid s = kill_scan pid [0..<NPROC] s"

section \<open>The schedulers\<close>

text \<open>
  \<open>swtch(&c->context, &p->context)\<close> with \<open>c->proc = p\<close>, and what the loop does when it gets control
  back. A pass of a scheduler returns the process it switched to, with the locks this hart then
  holds in \<open>held\<close>; \<open>None\<close> means that it found nothing to run and starts over.
\<close>

definition switch_to :: "nat \<Rightarrow> 'z kproc_scheme \<Rightarrow> 'z kproc_scheme" where
  "switch_to p s =
     (let s = s\<lparr>cur := Some p\<rparr> in s\<lparr>schedctx := regs s, regs := p_context (procs s p)\<rparr>)"

definition scheduler_return :: "nat \<Rightarrow> 'z kproc_scheme \<Rightarrow> 'z kproc_scheme res" where
  "scheduler_return p s = rel (Lproc p) (s\<lparr>cur := None\<rparr>)"

fun scheduler_DEFAULT :: "nat list \<Rightarrow> 'z kproc_scheme \<Rightarrow> (nat option \<times> 'z kproc_scheme) res" where
  "scheduler_DEFAULT [] s = Inr (None, s)"
| "scheduler_DEFAULT (p # ps) s =
     bindR (acq (Lproc p) s) (\<lambda>s.
       if p_state (procs s p) = RUNNABLE then
         Inr (Some p, switch_to p (updp p (\<lambda>q. q\<lparr>p_state := RUNNING\<rparr>) s))
       else bindR (rel (Lproc p) s) (scheduler_DEFAULT ps))"

fun scheduler_LBS :: "nat list \<Rightarrow> 'z kproc_scheme \<Rightarrow> (nat option \<times> 'z kproc_scheme) res" where
  "scheduler_LBS [] s = Inr (None, s)"
| "scheduler_LBS (p # ps) s =
     bindR (acq (Lproc p) s) (\<lambda>s.
       if p_state (procs s p) = RUNNABLE then
         let (r, s) = random_lbs 100 s in
         bindR (cint (crem r 7 * p_tickets (procs s p))) (\<lambda>slice.
           let s = updp p (\<lambda>q. q\<lparr>p_time_avail := slice, p_state := RUNNING\<rparr>) s
           in Inr (Some p, switch_to p s))
       else bindR (rel (Lproc p) s) (scheduler_LBS ps))"

text \<open>First come, first served: the search with the current candidate \<open>check\<close>, then the switch.\<close>

fun fcfs_scan :: "nat list \<Rightarrow> nat option \<Rightarrow> 'z kproc_scheme \<Rightarrow> (nat option \<times> 'z kproc_scheme) res" where
  "fcfs_scan [] check s = Inr (check, s)"
| "fcfs_scan (p # ps) check s =
     bindR (acq (Lproc p) s) (\<lambda>s.
       if p_state (procs s p) = RUNNABLE then
         (case check of
            None \<Rightarrow> fcfs_scan ps (Some p) s
          | Some c \<Rightarrow>
              if p_creationTime (procs s p) < p_creationTime (procs s c)
              then bindR (rel (Lproc p) s) (fcfs_scan ps (Some p))
              else bindR (rel (Lproc p) s) (fcfs_scan ps check))
       else bindR (rel (Lproc p) s) (fcfs_scan ps check))"

definition scheduler_FCFS :: "'z kproc_scheme \<Rightarrow> (nat option \<times> 'z kproc_scheme) res" where
  "scheduler_FCFS s =
     bindR (fcfs_scan [0..<NPROC] None (s\<lparr>sie := True\<rparr>)) (\<lambda>(check, s).
       case check of
         None \<Rightarrow> Inr (None, s)
       | Some c \<Rightarrow> Inr (Some c, switch_to c (updp c (\<lambda>q. q\<lparr>p_state := RUNNING\<rparr>) s)))"

text \<open>Priorities, with ties broken by how often and then by when.\<close>

fun pbs_scan :: "nat list \<Rightarrow> nat option \<Rightarrow> 'z kproc_scheme \<Rightarrow> (nat option \<times> 'z kproc_scheme) res" where
  "pbs_scan [] check s = Inr (check, s)"
| "pbs_scan (p # ps) check s =
     bindR (acq (Lproc p) s) (\<lambda>s.
     bindR (set_dprior p s) (\<lambda>s.
       if p_state (procs s p) = RUNNABLE then
         (case check of
            None \<Rightarrow> pbs_scan ps (Some p) s
          | Some c \<Rightarrow>
              let a = procs s p; b = procs s c in
              if p_dprior a < p_dprior b then bindR (rel (Lproc c) s) (pbs_scan ps (Some p))
              else if p_dprior a = p_dprior b then
                if p_countTimeCalled a < p_countTimeCalled b then bindR (rel (Lproc c) s) (pbs_scan ps (Some p))
                else if p_countTimeCalled a = p_countTimeCalled b then
                  if p_creationTime a > p_creationTime b then bindR (rel (Lproc c) s) (pbs_scan ps (Some p))
                  else pbs_scan ps check s
                else pbs_scan ps check s
              else bindR (rel (Lproc p) s) (pbs_scan ps check))
       else bindR (rel (Lproc p) s) (pbs_scan ps check)))"

definition scheduler_PBS :: "'z kproc_scheme \<Rightarrow> (nat option \<times> 'z kproc_scheme) res" where
  "scheduler_PBS s =
     bindR (pbs_scan [0..<NPROC] None (s\<lparr>sie := True\<rparr>)) (\<lambda>(check, s).
       case check of
         None \<Rightarrow> Inr (None, s)
       | Some c \<Rightarrow>
           let s = updp c (\<lambda>q. q\<lparr>p_countTimeCalled := p_countTimeCalled q + 1, p_state := RUNNING,
                                 p_sleepTimePrev := 0, p_runTimePrev := 0\<rparr>) s
           in Inr (Some c, switch_to c s))"

text \<open>
  Multi-level feedback queue: at each of the first four levels the least \<open>ctime\<close>, at the last level
  round robin. \<open>mlfq_level\<close> carries \<open>min_time\<close> and \<open>check\<close>.
\<close>

fun mlfq_level ::
  "int \<Rightarrow> nat list \<Rightarrow> int \<Rightarrow> nat \<Rightarrow> 'z kproc_scheme \<Rightarrow> (int \<times> nat \<times> 'z kproc_scheme) res" where
  "mlfq_level i [] min_time check s = Inr (min_time, check, s)"
| "mlfq_level i (p # ps) min_time check s =
     bindR (acq (Lproc p) s) (\<lambda>s.
       if p_state (procs s p) = RUNNABLE \<and> p_priority_level (procs s p) = i then
         if min_time = -1 then mlfq_level i ps (sint (p_ctime (procs s p))) p s
         else if p_ctime (procs s p) < p_ctime (procs s check) then
           bindR (rel (Lproc check) s) (mlfq_level i ps (sint (p_ctime (procs s p))) p)
         else bindR (rel (Lproc p) s) (mlfq_level i ps min_time check)
       else bindR (rel (Lproc p) s) (mlfq_level i ps min_time check))"

fun mlfq_levels :: "int list \<Rightarrow> nat \<Rightarrow> 'z kproc_scheme \<Rightarrow> (nat option \<times> 'z kproc_scheme) res" where
  "mlfq_levels [] check s = Inr (None, s)"
| "mlfq_levels (i # is) check s =
     bindR (mlfq_level i [0..<NPROC] (-1) check s) (\<lambda>(min_time, check, s).
       if min_time = -1 then mlfq_levels is check s
       else Inr (Some check, switch_to check
              (updp check (\<lambda>q. q\<lparr>p_state := RUNNING, p_wait_time := 0\<rparr>) s)))"

fun mlfq_rr :: "nat list \<Rightarrow> 'z kproc_scheme \<Rightarrow> (nat option \<times> 'z kproc_scheme) res" where
  "mlfq_rr [] s = Inr (None, s)"
| "mlfq_rr (p # ps) s =
     bindR (acq (Lproc p) s) (\<lambda>s.
       if p_state (procs s p) = RUNNABLE \<and> p_priority_level (procs s p) = 4 then
         Inr (Some p, switch_to p (updp p (\<lambda>q. q\<lparr>p_state := RUNNING\<rparr>) s))
       else bindR (rel (Lproc p) s) (mlfq_rr ps))"

text \<open>
  The loop of \<open>scheduler()\<close> from the position \<open>i\<close> of its \<open>for\<close> over the table (0 at the start of a
  pass) to the next \<open>swtch\<close> or to the end of the pass. The result has the position from which the
  loop goes on: a switch inside the \<open>for\<close> over the table is followed by its \<open>p++\<close>, and a pass that has
  ended, or a policy that switches after its search, by the start of the next pass.
\<close>

definition resume_for :: "nat option \<times> 'z kproc_scheme \<Rightarrow> (nat option \<times> nat \<times> 'z kproc_scheme) res" where
  "resume_for = (\<lambda>(r, s). Inr (r, case r of Some p \<Rightarrow> p + 1 | None \<Rightarrow> 0, s))"

definition resume_pass :: "nat option \<times> 'z kproc_scheme \<Rightarrow> (nat option \<times> nat \<times> 'z kproc_scheme) res" where
  "resume_pass = (\<lambda>(r, s). Inr (r, 0, s))"

definition scheduler_MLFQ :: "'z kproc_scheme \<Rightarrow> (nat option \<times> nat \<times> 'z kproc_scheme) res" where
  "scheduler_MLFQ s =
     (let s = aging_check (s\<lparr>sie := True\<rparr>) in
      bindR (mlfq_levels [0, 1, 2, 3] 0 s) (\<lambda>(r, s).
        case r of Some p \<Rightarrow> resume_pass (Some p, s) | None \<Rightarrow> bindR (mlfq_rr [0..<NPROC] s) resume_for))"

definition scheduler :: "nat \<Rightarrow> 'z kproc_scheme \<Rightarrow> (nat option \<times> nat \<times> 'z kproc_scheme) res" where
  "scheduler i s =
     (case SCHEDULER s of
        DEFAULT \<Rightarrow> bindR (scheduler_DEFAULT [i..<NPROC] (if i = 0 then s\<lparr>sie := True\<rparr> else s)) resume_for
      | LBS \<Rightarrow> bindR (scheduler_LBS [i..<NPROC] (if i = 0 then s\<lparr>sie := True\<rparr> else s)) resume_for
      | FCFS \<Rightarrow> bindR (scheduler_FCFS s) resume_pass
      | PBS \<Rightarrow> bindR (scheduler_PBS s) resume_pass
      | MLFQ \<Rightarrow> if i = 0 then scheduler_MLFQ s else bindR (mlfq_rr [i..<NPROC] s) resume_for)"

section \<open>Waiting for a child\<close>

text \<open>
  How a call ends: it returns; it waits on a channel, giving up a lock, and tries again when
  woken; it has called \<open>yield\<close> (with the \<open>intena\<close> to put back) and returns when it runs again; or
  the process has exited.
\<close>

datatype 'a outcome = Ret 'a | Blocks chan lock | Yields 'a bool | Exits

definition int_bytes :: "int \<Rightarrow> byte list" where
  "int_bytes x = map (\<lambda>i. ucast (drop_bit (8 * i) (of_int x :: u32))) [0..<4]"

fun wait_scan :: "nat \<Rightarrow> u64 \<Rightarrow> nat list \<Rightarrow> bool \<Rightarrow> 'z kproc_scheme \<Rightarrow> (int option \<times> bool \<times> 'z kproc_scheme) res" where
  "wait_scan p addr [] havekids s = Inr (None, havekids, s)"
| "wait_scan p addr (pp # ps) havekids s =
     (if p_parent (procs s pp) = Some p then
        bindR (acq (Lproc pp) s) (\<lambda>s.
          if p_state (procs s pp) = ZOMBIE then
            let pid = p_pid (procs s pp) in
            bindR (if addr \<noteq> 0
                   then copyout (p_pagetable (procs s p)) addr (int_bytes (p_xstate (procs s pp))) s
                   else Inr (0, s)) (\<lambda>(r, s).
              if r < 0 then
                bindR (rel (Lproc pp) s) (\<lambda>s. bindR (rel Lwait s) (\<lambda>s. Inr (Some (-1), True, s)))
              else
                bindR (freeproc pp s) (\<lambda>s.
                  bindR (rel (Lproc pp) s) (\<lambda>s.
                    bindR (rel Lwait s) (\<lambda>s.
                      Inr (Some pid, True, updp pp (\<lambda>q. q\<lparr>p_endTime := ticks s\<rparr>) s)))))
          else bindR (rel (Lproc pp) s) (wait_scan p addr ps True))
      else wait_scan p addr ps havekids s)"

text \<open>One round of the \<open>for(;;)\<close> of \<open>wait\<close>, with \<open>wait_lock\<close> held; \<open>wait\<close> is its first round.\<close>

definition wait_round :: "nat \<Rightarrow> u64 \<Rightarrow> 'z kproc_scheme \<Rightarrow> (int outcome \<times> 'z kproc_scheme) res" where
  "wait_round p addr s =
     bindR (wait_scan p addr [0..<NPROC] False s) (\<lambda>(r, havekids, s).
       case r of Some x \<Rightarrow> Inr (Ret x, s)
       | None \<Rightarrow>
           if \<not> havekids \<or> p_killed (procs s p) \<noteq> 0
           then bindR (rel Lwait s) (\<lambda>s. Inr (Ret (-1), s))
           else Inr (Blocks (Cproc p) Lwait, s))"

definition wait :: "u64 \<Rightarrow> 'z kproc_scheme \<Rightarrow> (int outcome \<times> 'z kproc_scheme) res" where
  "wait addr s = bindR (myproc s) (\<lambda>p. bindR (acq Lwait s) (wait_round p addr))"

text \<open>\<open>waitx\<close> also returns the run time and the waiting time of the child.\<close>

fun waitx_scan ::
  "nat \<Rightarrow> u64 \<Rightarrow> nat list \<Rightarrow> bool \<Rightarrow> 'z kproc_scheme \<Rightarrow> ((int \<times> (u32 \<times> u32)) option \<times> bool \<times> 'z kproc_scheme) res" where
  "waitx_scan p addr [] havekids s = Inr (None, havekids, s)"
| "waitx_scan p addr (np # ps) havekids s =
     (if p_parent (procs s np) = Some p then
        bindR (acq (Lproc np) s) (\<lambda>s.
          if p_state (procs s np) = ZOMBIE then
            let q = procs s np; pid = p_pid q; rtime = p_runTime q;
                wtime = p_endTime q - p_creationTime q - p_runTime q in
            bindR (if addr \<noteq> 0 then copyout (p_pagetable (procs s p)) addr (int_bytes (p_xstate q)) s
                   else Inr (0, s)) (\<lambda>(r, s).
              if r < 0 then
                bindR (rel (Lproc np) s) (\<lambda>s. bindR (rel Lwait s) (\<lambda>s. Inr (Some (-1, wtime, rtime), True, s)))
              else
                bindR (freeproc np s) (\<lambda>s.
                  bindR (rel (Lproc np) s) (\<lambda>s.
                    bindR (rel Lwait s) (\<lambda>s. Inr (Some (pid, wtime, rtime), True, s)))))
          else bindR (rel (Lproc np) s) (waitx_scan p addr ps True))
      else waitx_scan p addr ps havekids s)"

definition waitx_round :: "nat \<Rightarrow> u64 \<Rightarrow> 'z kproc_scheme \<Rightarrow> ((int \<times> (u32 \<times> u32) option) outcome \<times> 'z kproc_scheme) res" where
  "waitx_round p addr s =
     bindR (waitx_scan p addr [0..<NPROC] False s) (\<lambda>(r, havekids, s).
       case r of Some (x, t) \<Rightarrow> Inr (Ret (x, Some t), s)
       | None \<Rightarrow>
           if \<not> havekids \<or> p_killed (procs s p) \<noteq> 0
           then bindR (rel Lwait s) (\<lambda>s. Inr (Ret (-1, None), s))
           else Inr (Blocks (Cproc p) Lwait, s))"

definition waitx :: "u64 \<Rightarrow> 'z kproc_scheme \<Rightarrow> ((int \<times> (u32 \<times> u32) option) outcome \<times> 'z kproc_scheme) res" where
  "waitx addr s = bindR (myproc s) (\<lambda>p. bindR (acq Lwait s) (waitx_round p addr))"

definition reparent :: "nat \<Rightarrow> 'z kproc_scheme \<Rightarrow> 'z kproc_scheme res" where
  "reparent p s =
     foldR (\<lambda>pp s.
       if p_parent (procs s pp) = Some p then
         (case initproc s of
            None \<Rightarrow> Inr (updp pp (\<lambda>q. q\<lparr>p_parent := None\<rparr>) s)
          | Some i \<Rightarrow> wakeup (Cproc i) (updp pp (\<lambda>q. q\<lparr>p_parent := Some i\<rparr>) s))
       else Inr s) [0..<NPROC] s"

end
