(* ===== verification/SchedProps.thy ===== *)
theory SchedProps
  imports Sched
begin

text \<open>
  Properties of the schedulers and of the operations that change the state of a process:
  which process each policy picks and with which locks, how long a runnable process can wait
  under round robin, what a wakeup and a kill do, and which locks are held at a switch.
\<close>

section \<open>Locks of the process table\<close>

text \<open>No process lock is held.\<close>

definition unlocked :: "'z kproc_scheme \<Rightarrow> bool" where
  "unlocked s \<longleftrightarrow> (\<forall>i. Lproc i \<notin> held s)"

lemma unlockedD [simp]: "unlocked s \<Longrightarrow> Lproc i \<notin> held s"
  by (simp add: unlocked_def)

lemma unlocked_updp [simp]: "unlocked (updp i f s) = unlocked s"
  by (simp add: unlocked_def)

lemma section_updp:
  assumes "Lproc p \<notin> held s"
  shows "bindR (acq (Lproc p) s) (\<lambda>s. rel (Lproc p) (updp i f s)) = Inr (updp i f s)"
  using assms by (simp add: acq_def rel_def updp_def)

lemma held_same [simp]: "s\<lparr>held := held s\<rparr> = (s :: 'z kproc_scheme)"
  by simp

section \<open>Random numbers and priorities\<close>

lemma crem_range: "0 < m \<Longrightarrow> \<bar>crem a m\<bar> < m"
  by (cases "a = 0") (auto simp: crem_def abs_mult)

lemma sint_small: "uint (w :: u32) < 2 ^ 31 \<Longrightarrow> sint w = uint w"
  using signed_take_bit_int_eq_self [of 31 "uint w"] uint_ge_0 [of w] by (simp add: sint_uint del: uint_ge_0)

lemma random_lbs_shape:
  assumes "0 < m"
  shows "\<exists>x s'. random_lbs m s = (if crem x m < 0 then crem x m * -1 else crem x m, s')"
proof -
  obtain z1 z2 z3 z4 where z: "rand_z s = (z1, z2, z3, z4)" by (cases "rand_z s")
  have nm: "(m \<le> 0) = False" using assms by simp
  show ?thesis unfolding random_lbs_def z Let_def prod.case nm if_False by blast
qed

lemma random_lbs_bounds: "0 < m \<Longrightarrow> 0 \<le> fst (random_lbs m s) \<and> fst (random_lbs m s) < m"
  using random_lbs_shape [of m s] crem_range [of m] by (auto simp: abs_less_iff)

lemma random_lbs_fields:
  "procs (snd (random_lbs m s)) = procs s" "held (snd (random_lbs m s)) = held s" "cur (snd (random_lbs m s)) = cur s"
  by (simp_all add: random_lbs_def Let_def split: prod.splits)

lemma random_lbs_held: "random_lbs m (s\<lparr>held := H\<rparr>) = (fst (random_lbs m s), (snd (random_lbs m s))\<lparr>held := H\<rparr>)"
  by (simp add: random_lbs_def Let_def split: prod.splits)

lemma scheduler_LBS_skip:
  assumes "\<And>p. p \<in> set ps \<Longrightarrow> Lproc p \<notin> held s" "\<And>p. p \<in> set ps \<Longrightarrow> p_state (procs s p) \<noteq> RUNNABLE"
  shows "scheduler_LBS (ps @ qs) s = scheduler_LBS qs s"
  using assms by (induction ps) (simp_all add: acq_def rel_def)

lemma find_split: "find P xs = Some x \<Longrightarrow> \<exists>us vs. xs = us @ x # vs \<and> P x \<and> (\<forall>u\<in>set us. \<not> P u)"
proof (induction xs)
  case (Cons y xs)
  show ?case
  proof (cases "P y")
    case True
    then show ?thesis using Cons.prems by (intro exI [of _ "[]"] exI [of _ xs]) simp
  next
    case False
    then obtain us vs where "xs = us @ x # vs" "P x" "\<forall>u\<in>set us. \<not> P u" using Cons by auto
    then show ?thesis using False by (intro exI [of _ "y # us"] exI [of _ vs]) simp
  qed
qed simp

text \<open>
  C26: what the lottery scheduler does with the rest \<open>i..<NPROC\<close> of the table when no process lock is
  held. It passes over the processes that are not runnable. It switches to the first runnable one,
  holding its lock, with a time slice of \<open>random_lbs(100) % 7\<close> times its tickets. The random number is
  from 0 to 99, so that the slice of a process with a non-negative number of tickets is from 0 to
  6 times that number. A product that does not fit in an \<open>int\<close> is undefined.
\<close>

theorem scheduler_LBS_spec:
  fixes s :: "'z kproc_scheme" and r :: int
  assumes "unlocked s"
  defines "r \<equiv> fst (random_lbs 100 s)"
  shows "0 \<le> r \<and> r < 100 \<and>
    (case find (\<lambda>p. p_state (procs s p) = RUNNABLE) [i..<NPROC] of
       None \<Rightarrow> scheduler_LBS [i..<NPROC] s = Inr (None, s)
     | Some p \<Rightarrow>
         let x = r mod 7 * p_tickets (procs s p) in
         (if - (2 ^ 31) \<le> x \<and> x < 2 ^ 31
          then \<exists>s'. scheduler_LBS [i..<NPROC] s = Inr (Some p, s') \<and> p_time_avail (procs s' p) = x \<and>
            p_state (procs s' p) = RUNNING \<and> cur s' = Some p \<and> held s' = insert (Lproc p) (held s) \<and>
            (\<forall>j. j \<noteq> p \<longrightarrow> procs s' j = procs s j)
          else scheduler_LBS [i..<NPROC] s = Inl (UB ''signed integer overflow'')) \<and>
         (0 \<le> p_tickets (procs s p) \<longrightarrow> 0 \<le> x \<and> x \<le> 6 * p_tickets (procs s p)))"
proof -
  have r: "0 \<le> r" "r < 100" using random_lbs_bounds [of 100 s] by (simp_all add: r_def)
  then have c: "crem r 7 = r mod 7" by (auto simp: crem_def sgn_if)
  have x: "0 \<le> r mod 7 * n \<and> r mod 7 * n \<le> 6 * n" if "0 \<le> n" for n :: int
    using mult_right_mono [of "r mod 7" 6 n] that by simp
  show ?thesis
  proof (cases "find (\<lambda>p. p_state (procs s p) = RUNNABLE) [i..<NPROC]")
    case None
    then have "scheduler_LBS ([i..<NPROC] @ []) s = scheduler_LBS [] s"
      by (intro scheduler_LBS_skip) (use assms(1) in \<open>auto simp: find_None_iff\<close>)
    then show ?thesis using r None by simp
  next
    case (Some p)
    then obtain us vs where f: "[i..<NPROC] = us @ p # vs" "p_state (procs s p) = RUNNABLE"
      "\<forall>u\<in>set us. p_state (procs s u) \<noteq> RUNNABLE" using find_split [OF Some] by blast
    have "scheduler_LBS [i..<NPROC] s = scheduler_LBS (p # vs) s"
      unfolding f(1) by (rule scheduler_LBS_skip) (use assms(1) f(3) in auto)
    also have "\<dots> = bindR (cint (r mod 7 * p_tickets (procs s p))) (\<lambda>x. Inr (Some p, switch_to p
        (updp p (\<lambda>q. q\<lparr>p_time_avail := x, p_state := RUNNING\<rparr>) ((snd (random_lbs 100 s))\<lparr>held := insert (Lproc p) (held s)\<rparr>))))"
      using assms(1) f(2) by (simp add: acq_def random_lbs_held random_lbs_fields r_def [symmetric] c Let_def)
    finally show ?thesis
      using r Some x [of "p_tickets (procs s p)"]
      by (auto simp: cint_def switch_to_def random_lbs_fields Let_def)
  qed
qed

definition lbs_demo :: kproc where
  "lbs_demo = boot_demo\<lparr>procs := (\<lambda>_. proc_zero)(2 := proc_zero\<lparr>p_state := RUNNABLE, p_pid := 1, p_tickets := 10\<rparr>)\<rparr>"

theorem scheduler_LBS_spec_witness:
  "\<exists>s'. scheduler_LBS [0..<NPROC] lbs_demo = Inr (Some 2, s') \<and> p_time_avail (procs s' 2) \<le> 60 \<and> held s' = {Lproc 2}"
proof -
  have f: "procs lbs_demo p = (if p = 2 then proc_zero\<lparr>p_state := RUNNABLE, p_pid := 1, p_tickets := 10\<rparr> else proc_zero)"
    "held lbs_demo = {}" for p by (simp_all add: lbs_demo_def boot_demo_def)
  have "[0..<NPROC] = 0 # 1 # 2 # [3..<NPROC]" by code_simp
  then have "find (\<lambda>p. p_state (procs lbs_demo p) = RUNNABLE) [0..<NPROC] = Some 2" by (simp add: f proc_zero_def)
  moreover have "unlocked lbs_demo" by (simp add: unlocked_def f)
  moreover have "p_tickets (procs lbs_demo 2) = 10" by (simp add: f)
  ultimately show ?thesis using scheduler_LBS_spec [of lbs_demo 0] by (auto simp: f(2) Let_def split: if_splits)
qed

text \<open>The dynamic priority: the static one, cut off at 0 and 100.\<close>

definition dynamic :: "proc \<Rightarrow> int" where
  "dynamic q = max 0 (min 100 (sint (p_sprior q)))"

definition fresh :: "proc \<Rightarrow> bool" where
  "fresh q \<longleftrightarrow> p_runTimePrev q = 0 \<and> p_sleepTimePrev q = 0"

lemma calculateDynamicPriority_eq:
  "calculateDynamicPriority q =
     (if fresh q then Inl (UB ''niceness: division by zero'') else Inr (dynamic q, q\<lparr>p_niceness := 5\<rparr>))"
  by (simp add: calculateDynamicPriority_def Let_def fresh_def dynamic_def)

definition with_dprior :: "proc \<Rightarrow> proc" where
  "with_dprior q = q\<lparr>p_niceness := 5, p_dprior := of_int (dynamic q)\<rparr>"

lemma set_dprior_eq:
  "set_dprior p s = (if fresh (procs s p) then Inl (UB ''niceness: division by zero'') else Inr (updp p with_dprior s))"
  by (simp add: set_dprior_def calculateDynamicPriority_eq with_dprior_def updp_def)

lemma find_pid_eq:
  assumes "unlocked s"
  shows "find_pid pid ps s = Inr (find (\<lambda>i. p_pid (procs s i) = pid) ps, s)"
  using unlockedD [OF assms] by (induction ps) (simp_all add: acq_def rel_def)

text \<open>
  C27: \<open>set_priority(prior, pid)\<close> with a priority from 0 to 100, on an unlocked table: it returns -1 and
  changes nothing when no slot has the pid. Otherwise the first such slot gets the static priority,
  its dynamic priority becomes the same number, and the result is the static priority it had. But
  for a process that has neither run nor slept since it was last chosen the dynamic priority
  divides 0 by 0. Other priorities are refused with -1 after the message.
\<close>

theorem set_priority_spec:
  fixes s :: "'z kproc_scheme"
  assumes "unlocked s"
  shows "if 0 \<le> prior \<and> prior \<le> 100 then
      (case find (\<lambda>i. p_pid (procs s i) = pid) [0..<NPROC] of
         None \<Rightarrow> set_priority prior pid s = Inr (-1, s)
       | Some p \<Rightarrow>
           if p_runTimePrev (procs s p) = 0 \<and> p_sleepTimePrev (procs s p) = 0
           then set_priority prior pid s = Inl (UB ''niceness: division by zero'')
           else set_priority prior pid s = Inr (sint (p_sprior (procs s p)),
             updp p (\<lambda>q. q\<lparr>p_sprior := of_int prior, p_niceness := 5, p_dprior := of_int prior\<rparr>) s))
    else set_priority prior pid s = bindR (printf ''Priority is not right\<newline>'' [] s) (\<lambda>s. Inr (-1, s))"
proof (cases "0 \<le> prior \<and> prior \<le> 100")
  case True
  then have "uint (word_of_int prior :: u32) = prior" by (simp add: uint_word_of_int)
  then have si: "sint (word_of_int prior :: u32) = prior" using sint_small [of "word_of_int prior"] True by simp
  show ?thesis
    using True si unlockedD [OF assms]
    by (auto simp: set_priority_def find_pid_eq [OF assms] acq_def rel_def set_dprior_eq fresh_def with_dprior_def dynamic_def
        updp_def Let_def split: option.splits)
next
  case False
  then show ?thesis by (auto simp: set_priority_def)
qed

definition prior_demo :: kproc where
  "prior_demo = boot_demo\<lparr>procs := (\<lambda>_. proc_zero)(0 := proc_zero\<lparr>p_pid := 7, p_sprior := 60, p_runTimePrev := 3\<rparr>,
     1 := proc_zero\<lparr>p_pid := 8\<rparr>)\<rparr>"

theorem set_priority_spec_witness:
  "(\<exists>s'. set_priority 20 7 prior_demo = Inr (60, s') \<and> p_dprior (procs s' 0) = 20) \<and>
   set_priority 20 9 prior_demo = Inr (-1, prior_demo) \<and>
   set_priority 20 8 prior_demo = Inl (UB ''niceness: division by zero'')"
proof -
  have u: "unlocked prior_demo" by (simp add: unlocked_def prior_demo_def boot_demo_def)
  have f: "p_pid (procs prior_demo i) = (if i = 0 then 7 else if i = 1 then 8 else 0)"
    "p_runTimePrev (procs prior_demo i) = (if i = 0 then 3 else 0)" "p_sleepTimePrev (procs prior_demo i) = 0"
    "p_sprior (procs prior_demo 0) = 60" for i by (simp_all add: prior_demo_def proc_zero_def)
  have "[0..<NPROC] = 0 # 1 # [2..<NPROC]" by code_simp
  then have "find (\<lambda>i. p_pid (procs prior_demo i) = 7) [0..<NPROC] = Some 0"
    "find (\<lambda>i. p_pid (procs prior_demo i) = 8) [0..<NPROC] = Some 1" by (simp_all add: f)
  moreover have "find (\<lambda>i. p_pid (procs prior_demo i) = 9) [0..<NPROC] = None" by (simp add: find_None_iff f)
  ultimately show ?thesis
    using set_priority_spec [OF u, of 20 7] set_priority_spec [OF u, of 20 8] set_priority_spec [OF u, of 20 9] by (simp add: f)
qed

section \<open>Round robin\<close>

lemma scheduler_DEFAULT_eq:
  assumes "\<And>p. p \<in> set ps \<Longrightarrow> Lproc p \<notin> held s"
  shows "scheduler_DEFAULT ps s =
    Inr (case find (\<lambda>p. p_state (procs s p) = RUNNABLE) ps of None \<Rightarrow> (None, s)
         | Some p \<Rightarrow> (Some p, switch_to p (updp p (\<lambda>q. q\<lparr>p_state := RUNNING\<rparr>)
                              (s\<lparr>held := insert (Lproc p) (held s)\<rparr>))))"
  using assms by (induction ps) (auto simp: acq_def rel_def)

lemma find_upt_le:
  assumes "i \<le> k" "k < n" "P k"
  obtains p where "find P [i..<n] = Some p" "i \<le> p" "p \<le> k" "P p"
proof (cases "find P [i..<n]")
  case None
  with assms show ?thesis by (auto simp: find_None_iff)
next
  case (Some p)
  then obtain m where m: "m < length [i..<n]" "P ([i..<n] ! m)" "p = [i..<n] ! m" "\<forall>j<m. \<not> P ([i..<n] ! j)"
    by (auto simp: find_Some_iff)
  then have "p = i + m" "i + m < n" by auto
  moreover have "m \<le> k - i"
  proof (rule ccontr)
    assume "\<not> m \<le> k - i"
    then have "\<not> P ([i..<n] ! (k - i))" using m(4) by auto
    with assms show False by simp
  qed
  ultimately show ?thesis using Some m(2,3) assms(1) by (intro that [of p]) auto
qed

text \<open>
  A run of the kernel built with the default scheduler, from position \<open>i\<close> of the table. Each step is
  one call of \<open>scheduler\<close>: it goes to the next switch or to the end of the pass, and says where the
  loop goes on. Between two steps the chosen process, interrupts and other harts may change the
  state in any way, as long as this hart has given back its locks. The list has the process chosen
  at each step, and \<open>k\<close> is a process that is runnable whenever the scheduler looks at the table.
\<close>

inductive rr_run :: "nat \<Rightarrow> nat \<Rightarrow> 'z kproc_scheme \<Rightarrow> nat option list \<Rightarrow> bool" for k where
  rr_stop: "rr_run k i s []"
| rr_step: "SCHEDULER s = DEFAULT \<Longrightarrow> held s = {} \<Longrightarrow> p_state (procs s k) = RUNNABLE \<Longrightarrow>
    scheduler i s = Inr (r, i', s') \<Longrightarrow> rr_run k i' s'' rs \<Longrightarrow> rr_run k i s (r # rs)"

lemma scheduler_rr:
  assumes "SCHEDULER s = DEFAULT" "held s = {}"
  shows "\<exists>s'. scheduler i s = Inr (let r = find (\<lambda>p. p_state (procs s p) = RUNNABLE) [i..<NPROC] in
    (r, case r of Some p \<Rightarrow> p + 1 | None \<Rightarrow> 0, s'))"
proof -
  let ?s = "if i = 0 then s\<lparr>sie := True\<rparr> else s"
  have "held ?s = {}" "procs ?s = procs s" using assms(2) by simp_all
  then show ?thesis
    unfolding scheduler_def assms(1)
    by (subst scheduler_DEFAULT_eq) (auto simp: resume_for_def Let_def split: option.splits)
qed

text \<open>How many steps it can take until \<open>k\<close> is chosen.\<close>

definition rr_delay :: "nat \<Rightarrow> nat \<Rightarrow> nat" where
  "rr_delay k i = (if i \<le> k then k - i + 1 else (NPROC - i) + k + 2)"

lemma set_take_Cons: "x \<in> set (take m xs) \<Longrightarrow> m < n \<Longrightarrow> x \<in> set (take n (y # xs))"
  using set_take_subset_set_take [of m "n - 1" xs] by (cases n) auto

lemma rr_step_delay:
  assumes "SCHEDULER s = DEFAULT" "held s = {}" "p_state (procs s k) = RUNNABLE" "k < NPROC"
    and "scheduler i s = Inr (r, i', s')"
  shows "r = Some k \<or> rr_delay k i' < rr_delay k i"
proof -
  let ?P = "\<lambda>p. p_state (procs s p) = RUNNABLE"
  have r: "r = find ?P [i..<NPROC]" "i' = (case r of Some p \<Rightarrow> p + 1 | None \<Rightarrow> 0)"
    using scheduler_rr [OF assms(1,2), of i] assms(5) by (auto simp: Let_def)
  show ?thesis
  proof (cases r)
    case None
    have "\<not> i \<le> k"
    proof
      assume "i \<le> k"
      then show False by (rule find_upt_le [OF _ assms(4), of _ ?P]) (use assms(3) r None in auto)
    qed
    then show ?thesis using r(2) None assms(4) by (simp add: rr_delay_def)
  next
    case (Some p)
    then have p: "i \<le> p" "p < NPROC" using r(1) by (auto simp: find_Some_iff)
    have "p \<le> k" if "i \<le> k"
      by (rule find_upt_le [OF that assms(4), of ?P, OF assms(3)]) (use r(1) Some in simp)
    then show ?thesis using r(2) Some p by (auto simp: rr_delay_def)
  qed
qed

lemma rr_run_picks:
  assumes "rr_run k i s rs" "k < NPROC" "rr_delay k i \<le> length rs"
  shows "Some k \<in> set (take (rr_delay k i) rs)"
  using assms
proof (induction rule: rr_run.induct)
  case (rr_stop i s)
  then show ?case by (simp add: rr_delay_def split: if_splits)
next
  case (rr_step s i r i' s' s'' rs)
  from rr_step_delay [OF rr_step.hyps(1-3) rr_step.prems(1) rr_step.hyps(4)] show ?case
  proof
    assume "r = Some k"
    moreover have "rr_delay k i \<noteq> 0" by (simp add: rr_delay_def)
    ultimately show ?thesis by (simp add: take_Cons')
  next
    assume less: "rr_delay k i' < rr_delay k i"
    then have "Some k \<in> set (take (rr_delay k i') rs)" using rr_step by simp
    with less show ?thesis by (blast intro: set_take_Cons)
  qed
qed

text \<open>A machine whose only runnable process is process 0, and a run that alternates between it and idling.\<close>

definition one_demo :: kproc where
  "one_demo = boot_demo\<lparr>procs := (\<lambda>_. proc_zero)(0 := proc_zero\<lparr>p_state := RUNNABLE, p_pid := 1\<rparr>)\<rparr>"

lemma one_demo_fields:
  "held one_demo = {}" "p_state (procs one_demo i) = (if i = 0 then RUNNABLE else UNUSED)" "SCHEDULER one_demo = DEFAULT"
  by (simp_all add: one_demo_def boot_demo_def proc_zero_def)

lemma one_demo_run: "rr_run 0 0 one_demo (concat (replicate n [Some 0, None]))"
proof (induction n)
  case (Suc n)
  have "find (\<lambda>p. p_state (procs one_demo p) = RUNNABLE) [1..<NPROC] = None"
    by (auto simp: find_None_iff one_demo_fields)
  moreover have "find (\<lambda>p. p_state (procs one_demo p) = RUNNABLE) [0..<NPROC] = Some 0"
    by (simp add: upt_rec [of 0] one_demo_fields)
  ultimately have "\<exists>s'. scheduler 0 one_demo = Inr (Some 0, 1, s')" "\<exists>s'. scheduler 1 one_demo = Inr (None, 0, s')"
    using scheduler_rr [OF one_demo_fields(3,1), of 0] scheduler_rr [OF one_demo_fields(3,1), of 1] by auto
  then obtain s1 s2 where "scheduler 0 one_demo = Inr (Some 0, 1, s1)" "scheduler 1 one_demo = Inr (None, 0, s2)" by blast
  then have "rr_run 0 0 one_demo (Some 0 # None # concat (replicate n [Some 0, None]))"
    using Suc by (intro rr_step [of one_demo 0 0 "Some 0" 1 s1 one_demo] rr_step [of one_demo 0 1 None 0 s2 one_demo])
      (simp_all add: one_demo_fields)
  then show ?case by simp
qed (simp add: rr_stop)

text \<open>
  C22: the default scheduler starves nobody. In any run in which process \<open>k\<close> is runnable whenever
  the scheduler looks at the table, \<open>k\<close> is chosen within the first 66 steps: the rest of the
  current pass, the end of the pass, and the next pass up to \<open>k\<close>.
\<close>

theorem rr_fair:
  assumes "rr_run k i s rs" "k < NPROC" "66 \<le> length rs"
  shows "Some k \<in> set (take 66 rs)"
proof -
  have "rr_delay k i \<le> 66" using assms(2) unfolding rr_delay_def by simp linarith
  with rr_run_picks [OF assms(1,2)] assms(3) set_take_subset_set_take [of "rr_delay k i" 66 rs]
  show ?thesis by auto
qed

theorem rr_fair_witness:
  "\<exists>rs. rr_run 0 0 one_demo rs \<and> 66 \<le> length rs \<and> Some 0 \<in> set (take 66 rs)"
proof (intro exI conjI)
  show run: "rr_run 0 0 one_demo (concat (replicate 40 [Some 0, None]))" by (rule one_demo_run)
  show len: "66 \<le> length (concat (replicate 40 [Some (0::nat), None]))" by (simp add: length_concat sum_list_replicate)
  show "Some 0 \<in> set (take 66 (concat (replicate 40 [Some (0::nat), None])))" by (rule rr_fair [OF run _ len]) simp
qed

section \<open>First come, first served\<close>

definition earlier :: "'z kproc_scheme \<Rightarrow> nat \<Rightarrow> nat \<Rightarrow> nat" where
  "earlier s p c = (if p_state (procs s p) = RUNNABLE \<and> p_creationTime (procs s p) < p_creationTime (procs s c)
                    then p else c)"

lemma fcfs_scan_some:
  assumes "\<And>p. p \<in> set ps \<Longrightarrow> Lproc p \<notin> held s"
  shows "fcfs_scan ps (Some c) s = Inr (Some (fold (earlier s) ps c), s)"
  using assms by (induction ps arbitrary: c) (auto simp: acq_def rel_def earlier_def)

lemma fcfs_scan_none:
  assumes "\<And>p. p \<in> set ps \<Longrightarrow> Lproc p \<notin> held s" "distinct ps"
  shows "fcfs_scan ps None s =
    Inr (case find (\<lambda>p. p_state (procs s p) = RUNNABLE) ps of None \<Rightarrow> (None, s)
         | Some f \<Rightarrow> (Some (fold (earlier s) ps f), s\<lparr>held := insert (Lproc f) (held s)\<rparr>))"
  using assms
proof (induction ps)
  case (Cons p ps)
  let ?s = "s\<lparr>held := insert (Lproc p) (held s)\<rparr>"
  have lk: "Lproc p \<notin> held s" using Cons.prems(1) by simp
  show ?case
  proof (cases "p_state (procs s p) = RUNNABLE")
    case True
    have "fcfs_scan ps (Some p) ?s = Inr (Some (fold (earlier ?s) ps p), ?s)"
      by (rule fcfs_scan_some) (use Cons.prems in auto)
    moreover have "earlier ?s = earlier s" by (simp add: earlier_def fun_eq_iff)
    moreover have "earlier s p p = p" by (simp add: earlier_def)
    ultimately show ?thesis using lk True by (simp add: acq_def)
  next
    case False
    then have "earlier s p f = f" for f by (simp add: earlier_def)
    with False lk Cons show ?thesis by (auto simp: acq_def rel_def split: option.splits)
  qed
qed simp

lemma earlier_least:
  assumes "p_state (procs s f) = RUNNABLE"
  shows "p_state (procs s (fold (earlier s) ps f)) = RUNNABLE \<and>
    (fold (earlier s) ps f = f \<or> fold (earlier s) ps f \<in> set ps) \<and>
    p_creationTime (procs s (fold (earlier s) ps f)) \<le> p_creationTime (procs s f) \<and>
    (\<forall>j\<in>set ps. p_state (procs s j) = RUNNABLE \<longrightarrow>
       p_creationTime (procs s (fold (earlier s) ps f)) \<le> p_creationTime (procs s j))"
  using assms
proof (induction ps arbitrary: f)
  case (Cons p ps)
  have e: "p_state (procs s (earlier s p f)) = RUNNABLE" "earlier s p f = f \<or> earlier s p f = p"
    "p_creationTime (procs s (earlier s p f)) \<le> p_creationTime (procs s f)"
    "p_state (procs s p) = RUNNABLE \<Longrightarrow> p_creationTime (procs s (earlier s p f)) \<le> p_creationTime (procs s p)"
    using Cons.prems by (auto simp: earlier_def)
  from Cons.IH [OF e(1)] e(2-4) show ?case by auto
qed simp

text \<open>
  C24: a pass of the FCFS scheduler over an unlocked table returns. It switches to a runnable
  process with the least creation time if there is one, and to nothing only if nothing is
  runnable. But the one lock it holds at the switch is the lock of the \<^emph>\<open>first\<close> runnable process of
  the table. When the chosen process is another one, that process does \<open>release(&p->lock)\<close> when it
  comes out of \<open>sched\<close>, on a lock this hart does not hold, and the kernel panics.
\<close>

theorem scheduler_FCFS_spec:
  fixes s :: "'z kproc_scheme"
  assumes "unlocked s"
  shows "\<exists>r s'. scheduler_FCFS s = Inr (r, s') \<and>
    (case r of
       None \<Rightarrow> held s' = held s \<and> (\<forall>j<NPROC. p_state (procs s j) \<noteq> RUNNABLE)
     | Some c \<Rightarrow> \<exists>f<NPROC. c < NPROC \<and> p_state (procs s c) = RUNNABLE \<and> p_state (procs s' c) = RUNNING \<and> cur s' = Some c \<and>
         (\<forall>j<NPROC. p_state (procs s j) = RUNNABLE \<longrightarrow> p_creationTime (procs s c) \<le> p_creationTime (procs s j)) \<and>
         p_state (procs s f) = RUNNABLE \<and> (\<forall>j<f. p_state (procs s j) \<noteq> RUNNABLE) \<and> held s' = insert (Lproc f) (held s) \<and>
         (f \<noteq> c \<longrightarrow> yield_return c ie s' = panic ''release''))"
proof -
  let ?s = "s\<lparr>sie := True\<rparr>" and ?P = "\<lambda>p. p_state (procs s p) = RUNNABLE"
  have e: "earlier ?s = earlier s" by (simp add: earlier_def fun_eq_iff)
  have scan: "fcfs_scan [0..<NPROC] None ?s = Inr (case find ?P [0..<NPROC] of None \<Rightarrow> (None, ?s)
      | Some f \<Rightarrow> (Some (fold (earlier s) [0..<NPROC] f), ?s\<lparr>held := insert (Lproc f) (held s)\<rparr>))"
    by (subst fcfs_scan_none) (use assms in \<open>simp_all add: e split: option.splits\<close>)
  show ?thesis
  proof (cases "find ?P [0..<NPROC]")
    case None
    then have "scheduler_FCFS s = Inr (None, ?s)" using scan by (simp add: scheduler_FCFS_def)
    with None show ?thesis by (auto simp: find_None_iff)
  next
    case (Some f)
    let ?c = "fold (earlier s) [0..<NPROC] f"
    let ?s' = "switch_to ?c (updp ?c (\<lambda>q. q\<lparr>p_state := RUNNING\<rparr>) (?s\<lparr>held := insert (Lproc f) (held s)\<rparr>))"
    have f: "f < NPROC" "?P f" "\<forall>j<f. \<not> ?P j" using Some by (auto simp: find_Some_iff)
    note l = earlier_least [OF f(2), of "[0..<NPROC]"]
    have run: "scheduler_FCFS s = Inr (Some ?c, ?s')" using scan Some by (simp add: scheduler_FCFS_def)
    have "?c < NPROC" using l f(1) by auto
    moreover have "yield_return ?c ie ?s' = panic ''release''" if "f \<noteq> ?c"
      using that unlockedD [OF assms] by (simp add: yield_return_def sched_return_def rel_def switch_to_def)
    ultimately show ?thesis
      unfolding run using l f
      by (intro exI [of _ "Some ?c"] exI [of _ ?s']) (auto simp: switch_to_def intro!: exI [of _ f])
  qed
qed

definition fcfs_demo :: kproc where
  "fcfs_demo = boot_demo\<lparr>procs := (\<lambda>_. proc_zero)
     (0 := proc_zero\<lparr>p_state := RUNNABLE, p_pid := 2, p_creationTime := 9\<rparr>,
      1 := proc_zero\<lparr>p_state := RUNNABLE, p_pid := 1, p_creationTime := 3\<rparr>)\<rparr>"

theorem scheduler_FCFS_spec_witness:
  "\<exists>s'. scheduler_FCFS fcfs_demo = Inr (Some 1, s') \<and> yield_return 1 True s' = panic ''release''"
proof -
  have st: "p_state (procs fcfs_demo j) = (if j < 2 then RUNNABLE else UNUSED)"
    "p_creationTime (procs fcfs_demo j) = (if j = 0 then 9 else if j = 1 then 3 else 0)" for j
    by (auto simp: fcfs_demo_def proc_zero_def less_2_cases_iff)
  have "unlocked fcfs_demo" by (simp add: unlocked_def fcfs_demo_def boot_demo_def)
  from scheduler_FCFS_spec [OF this, of True] obtain r s' where r: "scheduler_FCFS fcfs_demo = Inr (r, s')"
    and c: "case r of None \<Rightarrow> \<forall>j<NPROC. p_state (procs fcfs_demo j) \<noteq> RUNNABLE
      | Some c \<Rightarrow> \<exists>f. p_state (procs fcfs_demo c) = RUNNABLE \<and>
          (\<forall>j<NPROC. p_state (procs fcfs_demo j) = RUNNABLE \<longrightarrow> p_creationTime (procs fcfs_demo c) \<le> p_creationTime (procs fcfs_demo j)) \<and>
          (\<forall>j<f. p_state (procs fcfs_demo j) \<noteq> RUNNABLE) \<and> (f \<noteq> c \<longrightarrow> yield_return c True s' = panic ''release'')"
    by (elim exE conjE, simp split: option.splits) blast
  show ?thesis
  proof (cases r)
    case None
    with c st(1) [of 0] show ?thesis by (auto dest: spec [of _ 0])
  next
    case (Some y)
    with c obtain f where f: "p_state (procs fcfs_demo y) = RUNNABLE"
      "\<forall>j<NPROC. p_state (procs fcfs_demo j) = RUNNABLE \<longrightarrow> p_creationTime (procs fcfs_demo y) \<le> p_creationTime (procs fcfs_demo j)"
      "\<forall>j<f. p_state (procs fcfs_demo j) \<noteq> RUNNABLE" "f \<noteq> y \<longrightarrow> yield_return y True s' = panic ''release''" by auto
    from f(1) spec [OF f(2), of 1] have "y = 1" by (auto simp: st split: if_splits)
    moreover have "f = 0" using f(3) st(1) [of 0] by (cases f) auto
    ultimately show ?thesis using r Some f(4) by simp
  qed
qed

section \<open>Priorities\<close>

lemma pbs_scan_append: "pbs_scan (xs @ ys) check s = bindR (pbs_scan xs check s) (\<lambda>(check, s). pbs_scan ys check s)"
proof (induction xs arbitrary: check s)
  case (Cons p xs)
  then show ?case
    by (auto simp: bindR_assoc Let_def fun_eq_iff split: option.splits intro!: bindR_cong)
qed simp

lemma with_dprior_fields [simp]:
  "p_state (with_dprior q) = p_state q" "p_countTimeCalled (with_dprior q) = p_countTimeCalled q"
  "p_creationTime (with_dprior q) = p_creationTime q" "p_dprior (with_dprior q) = of_int (dynamic q)"
  by (simp_all add: with_dprior_def)

abbreviation (input) "dpriors ps s \<equiv> fold (\<lambda>p. updp p with_dprior) ps s"

lemma updp_held: "updp p f (s\<lparr>held := H\<rparr>) = (updp p f s)\<lparr>held := H\<rparr>"
  by (simp add: updp_def)

text \<open>The part of a scan that meets no runnable process.\<close>

lemma pbs_scan_skip:
  assumes "\<And>p. p \<in> set ps \<Longrightarrow> Lproc p \<notin> held s \<and> p_state (procs s p) \<noteq> RUNNABLE \<and> \<not> fresh (procs s p)" "distinct ps"
  shows "pbs_scan ps check s = Inr (check, dpriors ps s)"
  using assms
proof (induction ps arbitrary: s)
  case (Cons p ps)
  have "pbs_scan ps check (updp p with_dprior s) = Inr (check, dpriors ps (updp p with_dprior s))"
    by (rule Cons.IH) (use Cons.prems in auto)
  then have "pbs_scan ps check ((updp p with_dprior s)\<lparr>held := held s\<rparr>) = Inr (check, dpriors ps (updp p with_dprior s))"
    by (simp add: updp_def)
  then show ?case using Cons.prems by (simp add: set_dprior_eq acq_def rel_def updp_held)
qed simp

lemma dpriors_procs:
  "distinct ps \<Longrightarrow> procs (dpriors ps s) i = (if i \<in> set ps then with_dprior (procs s i) else procs s i)"
  by (induction ps arbitrary: s) auto

lemma dpriors_fields [simp]:
  "held (dpriors ps s) = held s" "cur (dpriors ps s) = cur s" "sie (dpriors ps s) = sie s"
  by (induction ps arbitrary: s) simp_all

lemma dpriors_held: "dpriors ps (s\<lparr>held := H\<rparr>) = (dpriors ps s)\<lparr>held := H\<rparr>"
  by (induction ps arbitrary: s) (simp_all add: updp_held)

lemma upt_two:
  assumes "a < b" "b < n"
  shows "[0..<n] = [0..<a] @ a # [Suc a..<b] @ b # [Suc b..<n]"
proof -
  have "[0..<n] = [0..<a] @ [a..<n]" using upt_add_eq_append [of 0 a "n - a"] assms by simp
  also have "[a..<n] = a # [Suc a..<n]" using assms by (simp add: upt_conv_Cons)
  also have "[Suc a..<n] = [Suc a..<b] @ [b..<n]" using upt_add_eq_append [of "Suc a" b "n - b"] assms by simp
  also have "[b..<n] = b # [Suc b..<n]" using assms by (simp add: upt_conv_Cons)
  finally show ?thesis .
qed

lemma pbs_scan_tie:
  fixes s :: "'z kproc_scheme"
  assumes "held s = {}" "a < b" "b < NPROC" "\<And>i. i < NPROC \<Longrightarrow> (p_state (procs s i) = RUNNABLE) = (i = a \<or> i = b)"
    and "\<And>i. i < NPROC \<Longrightarrow> \<not> fresh (procs s i)" "dynamic (procs s a) = dynamic (procs s b)"
    and "p_countTimeCalled (procs s a) = p_countTimeCalled (procs s b)"
    and "p_creationTime (procs s b) \<le> p_creationTime (procs s a)"
  shows "pbs_scan [0..<NPROC] None s = Inr (Some a, (dpriors [0..<NPROC] s)\<lparr>held := {Lproc b, Lproc a}\<rparr>)"
proof -
  let ?f = "\<lambda>n. dpriors [0..<n] s"
  have ps: "procs (?f n) i = (if i < n then with_dprior (procs s i) else procs s i)" for n i
    by (simp add: dpriors_procs)
  have f: "dpriors [m..<n] (?f m) = ?f n" "updp m with_dprior (?f m) = ?f (Suc m)" if "m \<le> n" for m n
    using upt_add_eq_append [of 0 m "n - m"] that by simp_all
  note upt_Suc [simp del]
  have 1: "pbs_scan [0..<a] None s = Inr (None, ?f a)"
    by (rule pbs_scan_skip) (use assms(1-5) in auto)
  have 2: "pbs_scan [Suc a..<b] (Some a) ((?f (Suc a))\<lparr>held := {Lproc a}\<rparr>) = Inr (Some a, (?f b)\<lparr>held := {Lproc a}\<rparr>)"
    using assms(2-5) f(1) [of "Suc a" b] by (subst pbs_scan_skip) (auto simp: ps dpriors_held)
  have 3: "pbs_scan [Suc b..<NPROC] (Some a) ((?f (Suc b))\<lparr>held := {Lproc b, Lproc a}\<rparr>) =
      Inr (Some a, (?f NPROC)\<lparr>held := {Lproc b, Lproc a}\<rparr>)"
    using assms(2-5) f(1) [of "Suc b" NPROC] by (subst pbs_scan_skip) (auto simp: ps dpriors_held)
  have ab: "\<not> p_creationTime (procs s a) < p_creationTime (procs s b)" using assms(8) by (simp add: not_less)
  have st: "p_state (procs s a) = RUNNABLE" "p_state (procs s b) = RUNNABLE" "\<not> fresh (procs s a)" "\<not> fresh (procs s b)"
    using assms(2-5) by auto
  have A: "pbs_scan (a # xs) None (?f a) = pbs_scan xs (Some a) ((?f (Suc a))\<lparr>held := {Lproc a}\<rparr>)" for xs
    using st(1,3) assms(1) f(2) [of a a] by (simp add: acq_def set_dprior_eq updp_held ps)
  have B: "pbs_scan (b # xs) (Some a) ((?f b)\<lparr>held := {Lproc a}\<rparr>) =
      pbs_scan xs (Some a) ((?f (Suc b))\<lparr>held := {Lproc b, Lproc a}\<rparr>)" for xs
    using st(2,4) assms(2,6,7) ab f(2) [of b b]
    by (simp add: acq_def set_dprior_eq updp_held ps Let_def)
  show ?thesis
    unfolding upt_two [OF assms(2,3)] pbs_scan_append 1 bindR_simps prod.case A
    unfolding pbs_scan_append 2 bindR_simps prod.case B 3
    unfolding upt_two [OF assms(2,3), symmetric] ..
qed

text \<open>A slot that has neither run nor slept ends the scan, in whatever way it got there.\<close>

lemma pbs_scan_fresh:
  assumes "\<And>p. p \<in> set ps \<Longrightarrow> Lproc p \<notin> held s" "distinct ps" "\<exists>p\<in>set ps. fresh (procs s p)"
    and "case check of None \<Rightarrow> True | Some c \<Rightarrow> Lproc c \<in> held s \<and> c \<notin> set ps"
  shows "pbs_scan ps check s = Inl (UB ''niceness: division by zero'')"
  using assms
proof (induction ps arbitrary: s check)
  case (Cons p ps)
  have lk: "Lproc p \<notin> held s" "p \<notin> set ps" "distinct ps" using Cons.prems by auto
  show ?case
  proof (cases "fresh (procs s p)")
    case True
    then show ?thesis using lk by (simp add: acq_def set_dprior_eq)
  next
    case False
    let ?s = "(updp p with_dprior s)\<lparr>held := insert (Lproc p) (held s)\<rparr>"
    have IH: "pbs_scan ps c (?s\<lparr>held := H\<rparr>) = Inl (UB ''niceness: division by zero'')"
      if "\<And>q. q \<in> set ps \<Longrightarrow> Lproc q \<notin> H" "case c of None \<Rightarrow> True | Some d \<Rightarrow> Lproc d \<in> H \<and> d \<notin> set ps" for c H
    proof (rule Cons.IH)
      show "\<exists>q\<in>set ps. fresh (procs (?s\<lparr>held := H\<rparr>) q)" using Cons.prems(3) False lk(2) by auto
    qed (use that lk(3) in \<open>auto split: option.splits\<close>)
    have h: "Lproc q \<notin> held s" if "q \<in> set ps" for q using Cons.prems(1) that by simp
    have keep: "pbs_scan ps c (?s\<lparr>held := insert (Lproc p) (held s)\<rparr>) = Inl (UB ''niceness: division by zero'')"
      if "c = Some p \<or> c = check" for c using that h lk(2) Cons.prems(4) by (intro IH) (auto split: option.splits)
    have drop_p: "pbs_scan ps check (?s\<lparr>held := insert (Lproc p) (held s) - {Lproc p}\<rparr>) = Inl (UB ''niceness: division by zero'')"
      using h lk(1,2) Cons.prems(4) by (intro IH) (auto split: option.splits)
    have move: "pbs_scan ps (Some p) (?s\<lparr>held := insert (Lproc p) (held s) - {Lproc c}\<rparr>) = Inl (UB ''niceness: division by zero'')"
      if "check = Some c" for c using that h lk Cons.prems(4) by (intro IH) auto
    show ?thesis
      using lk(1) False keep drop_p move Cons.prems(4)
      by (auto simp: acq_def rel_def set_dprior_eq updp_held Let_def split: option.splits)
  qed
qed simp

text \<open>
  C25: the priority scheduler on an unlocked table. A pass meets undefined behaviour if any of the 64
  slots, used or not, has neither run nor slept since it was last chosen, as every slot that was
  never used: the dynamic priority divides 0 by 0. And when all slots have run, two processes that
  tie make the kernel panic: if exactly the processes \<open>a < b\<close> are runnable, with the same
  dynamic priority and number of calls, and \<open>b\<close> was not created later, then the scheduler switches
  to \<open>a\<close> but still holds the lock of \<open>b\<close>, which the \<open>continue\<close> of the tie branch skipped releasing; \<open>a\<close>
  runs, and its next \<open>yield\<close> panics with \<open>sched locks\<close>.
\<close>

theorem scheduler_PBS_tie:
  fixes s :: "'z kproc_scheme"
  assumes "held s = {}"
  shows "((\<exists>i<NPROC. fresh (procs s i)) \<longrightarrow> scheduler_PBS s = Inl (UB ''niceness: division by zero'')) \<and>
    ((\<forall>i<NPROC. \<not> fresh (procs s i)) \<and> a < b \<and> b < NPROC \<and>
     (\<forall>i<NPROC. (p_state (procs s i) = RUNNABLE) = (i = a \<or> i = b)) \<and>
     dynamic (procs s a) = dynamic (procs s b) \<and> p_countTimeCalled (procs s a) = p_countTimeCalled (procs s b) \<and>
     p_creationTime (procs s b) \<le> p_creationTime (procs s a) \<longrightarrow>
     (\<exists>s' s''. scheduler_PBS s = Inr (Some a, s') \<and> held s' = {Lproc a, Lproc b} \<and>
        yield_return a ie s' = Inr s'' \<and> yield s'' = panic ''sched locks''))"
proof (rule conjI; rule impI)
  assume "\<exists>i<NPROC. fresh (procs s i)"
  then have "pbs_scan [0..<NPROC] None (s\<lparr>sie := True\<rparr>) = Inl (UB ''niceness: division by zero'')"
    by (intro pbs_scan_fresh) (use assms in auto)
  then show "scheduler_PBS s = Inl (UB ''niceness: division by zero'')" by (simp add: scheduler_PBS_def)
next
  assume tie: "(\<forall>i<NPROC. \<not> fresh (procs s i)) \<and> a < b \<and> b < NPROC \<and>
     (\<forall>i<NPROC. (p_state (procs s i) = RUNNABLE) = (i = a \<or> i = b)) \<and>
     dynamic (procs s a) = dynamic (procs s b) \<and> p_countTimeCalled (procs s a) = p_countTimeCalled (procs s b) \<and>
     p_creationTime (procs s b) \<le> p_creationTime (procs s a)"
  let ?s = "(dpriors [0..<NPROC] (s\<lparr>sie := True\<rparr>))\<lparr>held := {Lproc b, Lproc a}\<rparr>"
  let ?u = "updp a (\<lambda>q. q\<lparr>p_countTimeCalled := p_countTimeCalled q + 1, p_state := RUNNING, p_sleepTimePrev := 0,
    p_runTimePrev := 0\<rparr>) ?s"
  let ?s' = "switch_to a ?u" and ?s'' = "(switch_to a ?u)\<lparr>sie := ie, held := {Lproc b}\<rparr>"
  have "pbs_scan [0..<NPROC] None (s\<lparr>sie := True\<rparr>) = Inr (Some a, ?s)" by (rule pbs_scan_tie) (use assms tie in auto)
  then have run: "scheduler_PBS s = Inr (Some a, ?s')" by (simp add: scheduler_PBS_def Let_def)
  have h: "held ?s' = {Lproc a, Lproc b}" "cur ?s' = Some a" by (auto simp: switch_to_def)
  have "yield_return a ie ?s' = Inr ?s''" using tie by (auto simp: yield_return_def sched_return_def rel_def h)
  moreover have "yield ?s'' = panic ''sched locks''"
    using tie h(2) by (auto simp: yield_def sched_def myproc_def acq_def)
  ultimately show "\<exists>s' s''. scheduler_PBS s = Inr (Some a, s') \<and> held s' = {Lproc a, Lproc b} \<and>
        yield_return a ie s' = Inr s'' \<and> yield s'' = panic ''sched locks''" using run h(1) by blast
qed

definition pbs_demo :: kproc where
  "pbs_demo = boot_demo\<lparr>procs := (\<lambda>i. proc_zero\<lparr>p_runTimePrev := 1\<rparr>)
     (0 := proc_zero\<lparr>p_state := RUNNABLE, p_pid := 1, p_sprior := 60, p_runTimePrev := 1\<rparr>,
      1 := proc_zero\<lparr>p_state := RUNNABLE, p_pid := 2, p_sprior := 60, p_runTimePrev := 1\<rparr>)\<rparr>"

theorem scheduler_PBS_tie_witness:
  "scheduler_PBS one_demo = Inl (UB ''niceness: division by zero'') \<and>
   (\<exists>s' s''. scheduler_PBS pbs_demo = Inr (Some 0, s') \<and> yield_return 0 True s' = Inr s'' \<and> yield s'' = panic ''sched locks'')"
proof
  have "fresh (procs one_demo 0)" by (simp add: one_demo_def proc_zero_def fresh_def)
  then have "\<exists>i<NPROC. fresh (procs one_demo i)" by (intro exI [of _ 0]) simp
  then show "scheduler_PBS one_demo = Inl (UB ''niceness: division by zero'')"
    using scheduler_PBS_tie [OF one_demo_fields(1), of 0 1 True] by blast
  have h: "held pbs_demo = {}" by (simp add: pbs_demo_def boot_demo_def)
  have f: "p_state (procs pbs_demo i) = (if i = 0 \<or> i = 1 then RUNNABLE else UNUSED)" "\<not> fresh (procs pbs_demo i)"
    "p_countTimeCalled (procs pbs_demo i) = 0" "p_creationTime (procs pbs_demo i) = 0" for i
    by (simp_all add: pbs_demo_def proc_zero_def fresh_def)
  have "dynamic (procs pbs_demo 0) = dynamic (procs pbs_demo 1)" by (simp add: pbs_demo_def dynamic_def)
  then show "\<exists>s' s''. scheduler_PBS pbs_demo = Inr (Some 0, s') \<and> yield_return 0 True s' = Inr s'' \<and> yield s'' = panic ''sched locks''"
    using scheduler_PBS_tie [OF h, of 0 1 True] by (auto simp: f)
qed

section \<open>Sleeping and waking\<close>

text \<open>What a wakeup does to one sleeping process.\<close>

definition woken :: "'z kproc_scheme \<Rightarrow> proc \<Rightarrow> proc" where
  "woken s q =
     (let q = q\<lparr>p_state := RUNNABLE\<rparr>;
          q = (if SCHEDULER s = LBS then q\<lparr>p_time_spent := 0\<rparr> else q);
          q = (if p_sleepStartTime q \<noteq> 0
               then q\<lparr>p_sleepTimePrev := ticks s - p_sleepStartTime q,
                      p_totalSleep := p_totalSleep q + (ticks s - p_sleepStartTime q)\<rparr> else q)
      in if SCHEDULER s = MLFQ then q\<lparr>p_ticks_elapsed := 0\<rparr> else q)"

lemma updp_updp: "updp p g (updp p f s) = updp p (\<lambda>q. g (f q)) s"
  by (simp add: updp_def)

lemma wakeup_1_eq:
  assumes "Lproc p \<notin> held s"
  shows "wakeup_1 chan p s = Inr (if Some p \<noteq> cur s \<and> p_state (procs s p) = SLEEPING \<and> p_chan (procs s p) = Some chan
    then updp p (woken s) s else s)"
proof (cases "Some p \<noteq> cur s \<and> p_state (procs s p) = SLEEPING \<and> p_chan (procs s p) = Some chan")
  case True
  with assms show ?thesis
    by (simp add: wakeup_1_def acq_def rel_def Let_def woken_def updp_def)
next
  case False
  with assms show ?thesis by (auto simp: wakeup_1_def acq_def rel_def Let_def)
qed

lemma wakeup_list:
  assumes "unlocked s" "distinct ps"
  shows "foldR (wakeup_1 chan) ps s = Inr (s\<lparr>procs := (\<lambda>i.
    if i \<in> set ps \<and> Some i \<noteq> cur s \<and> p_state (procs s i) = SLEEPING \<and> p_chan (procs s i) = Some chan
    then woken s (procs s i) else procs s i)\<rparr>)"
  using assms
proof (induction ps arbitrary: s)
  case (Cons p ps)
  let ?s = "if Some p \<noteq> cur s \<and> p_state (procs s p) = SLEEPING \<and> p_chan (procs s p) = Some chan
    then updp p (woken s) s else s"
  have w: "wakeup_1 chan p s = Inr ?s" by (rule wakeup_1_eq) (use Cons.prems in simp)
  have "unlocked ?s" "distinct ps" using Cons.prems by simp_all
  note s' = Cons.IH [OF this]
  have wk: "woken ?s = woken s" by (simp add: woken_def Let_def fun_eq_iff)
  have "(\<lambda>i. if i \<in> set ps \<and> Some i \<noteq> cur ?s \<and> p_state (procs ?s i) = SLEEPING \<and> p_chan (procs ?s i) = Some chan
        then woken ?s (procs ?s i) else procs ?s i) =
      (\<lambda>i. if i \<in> set (p # ps) \<and> Some i \<noteq> cur s \<and> p_state (procs s i) = SLEEPING \<and> p_chan (procs s i) = Some chan
        then woken s (procs s i) else procs s i)" (is "?g = ?h")
    unfolding wk using Cons.prems(2) by (rule_tac ext) auto
  moreover have "?s\<lparr>procs := X\<rparr> = s\<lparr>procs := X\<rparr>" for X by (simp add: updp_def)
  ultimately show ?case using w s' by simp
qed simp

text \<open>The process table after \<open>wakeup(chan)\<close>.\<close>

definition wake_procs :: "chan \<Rightarrow> 'z kproc_scheme \<Rightarrow> nat \<Rightarrow> proc" where
  "wake_procs chan s = (\<lambda>i. if i < NPROC \<and> Some i \<noteq> cur s \<and> p_state (procs s i) = SLEEPING \<and>
     p_chan (procs s i) = Some chan then woken s (procs s i) else procs s i)"

lemma wakeup_eq: "unlocked s \<Longrightarrow> wakeup chan s = Inr (s\<lparr>procs := wake_procs chan s\<rparr>)"
  using wakeup_list [of s "[0..<NPROC]" chan] by (simp add: wakeup_def wake_procs_def)

lemma woken_cong: "SCHEDULER s = SCHEDULER t \<Longrightarrow> ticks s = ticks t \<Longrightarrow> woken s = woken t"
  by (simp add: woken_def Let_def fun_eq_iff)

lemma wake_procs_cong:
  assumes "procs s = procs t" "cur s = cur t" "SCHEDULER s = SCHEDULER t" "ticks s = ticks t"
  shows "wake_procs chan s = wake_procs chan t"
  unfolding wake_procs_def woken_cong [OF assms(3,4)] assms(1,2) ..

lemma woken_state [simp]: "p_state (woken s q) = RUNNABLE" "p_pid (woken s q) = p_pid q" "p_chan (woken s q) = p_chan q"
  by (simp_all add: woken_def Let_def)

lemma sleep_eq:
  assumes "cur s = Some p" "held s = {lk}" "lk \<noteq> Lproc p"
  shows "sleep chan lk s = Inr (sie s, (updp p (\<lambda>q. q\<lparr>p_chan := Some chan, p_state := SLEEPING, p_context := regs s\<rparr>) s)
    \<lparr>held := {Lproc p}, regs := schedctx s\<rparr>)"
proof -
  have 1: "acq (Lproc p) s = Inr (s\<lparr>held := {Lproc p, lk}\<rparr>)" using assms(2,3) by (simp add: acq_def)
  have "{Lproc p, lk} - {lk} = {Lproc p}" using assms(3) by auto
  then have 2: "rel lk (s\<lparr>held := {Lproc p, lk}\<rparr>) = Inr (s\<lparr>held := {Lproc p}\<rparr>)" by (simp add: rel_def)
  show ?thesis
    using assms(1) by (simp add: sleep_def myproc_def 1 2 sched_def intr_get1_def Let_def) (simp add: updp_def)
qed

lemma sleep_return_eq:
  assumes "held t = {Lproc p}" "lk \<noteq> Lproc p"
  shows "sleep_return p lk ie t = Inr ((updp p (\<lambda>q. q\<lparr>p_chan := None\<rparr>) (t\<lparr>sie := ie\<rparr>))\<lparr>held := {lk}\<rparr>)"
  using assms by (simp add: sleep_return_def sched_return_def rel_def acq_def Let_def)

text \<open>
  C21: sleeping and waking. A process that holds only the lock \<open>lk\<close> of its condition and sleeps on
  \<open>chan\<close> gets through \<open>sleep\<close> to the scheduler with \<open>lk\<close> released and only its own lock held, in
  state \<open>SLEEPING\<close>; the scheduler takes control back without a panic; a later \<open>wakeup(chan)\<close> from
  another process makes it runnable again; and when it is scheduled again it comes out of
  \<open>sleep\<close> holding exactly \<open>lk\<close>, with its registers as they were. If it holds any further lock,
  \<open>sleep\<close> panics.
\<close>

theorem sleep_wakeup:
  fixes s :: "'z kproc_scheme"
  assumes "cur s = Some p" "p < NPROC" "held s = {lk}" "\<forall>i. lk \<noteq> Lproc i" "p' \<noteq> p" "l' \<noteq> lk" "l' \<noteq> Lproc p"
  shows "\<exists>ie s1 s2 s3. sleep chan lk s = Inr (ie, s1) \<and> held s1 = {Lproc p} \<and> p_state (procs s1 p) = SLEEPING \<and>
    scheduler_return p s1 = Inr s2 \<and> held s2 = {} \<and> wakeup chan (s2\<lparr>cur := Some p'\<rparr>) = Inr s3 \<and> p_state (procs s3 p) = RUNNABLE \<and>
    (\<exists>s4. sleep_return p lk ie (switch_to p (s3\<lparr>held := {Lproc p}\<rparr>)) = Inr s4 \<and> held s4 = {lk} \<and> regs s4 = regs s \<and>
       sie s4 = sie s \<and> p_chan (procs s4 p) = None) \<and>
    sleep chan lk (s\<lparr>held := {lk, l'}\<rparr>) = panic ''sched locks''"
proof -
  let ?s1 = "(updp p (\<lambda>q. q\<lparr>p_chan := Some chan, p_state := SLEEPING, p_context := regs s\<rparr>) s)
    \<lparr>held := {Lproc p}, regs := schedctx s\<rparr>"
  let ?s2 = "?s1\<lparr>cur := None, held := {}\<rparr>"
  let ?t = "?s2\<lparr>cur := Some p'\<rparr>"
  let ?s3 = "?t\<lparr>procs := wake_procs chan ?t\<rparr>"
  have lk: "lk \<noteq> Lproc p" using assms(4) by blast
  have 1: "sleep chan lk s = Inr (sie s, ?s1)" by (rule sleep_eq [OF assms(1,3) lk])
  have 2: "scheduler_return p ?s1 = Inr ?s2" by (simp add: scheduler_return_def rel_def)
  have 3: "wakeup chan ?t = Inr ?s3" by (rule wakeup_eq) (simp add: unlocked_def)
  have p3: "procs ?s3 p = woken ?t (procs ?t p)" using assms(2,5) by (simp add: wake_procs_def)
  have cx: "p_context (woken r q) = p_context q" for r :: "'z kproc_scheme" and q by (simp add: woken_def Let_def)
  let ?t4 = "switch_to p (?s3\<lparr>held := {Lproc p}\<rparr>)"
  have t4: "held ?t4 = {Lproc p}" "regs ?t4 = p_context (procs ?s3 p)" by (simp_all add: switch_to_def)
  have 4: "\<exists>s4. sleep_return p lk (sie s) ?t4 = Inr s4 \<and> held s4 = {lk} \<and> regs s4 = regs s \<and>
       sie s4 = sie s \<and> p_chan (procs s4 p) = None"
    unfolding sleep_return_eq [OF t4(1) lk] using t4(2) unfolding p3 cx by simp
  have 5: "sleep chan lk (s\<lparr>held := {lk, l'}\<rparr>) = panic ''sched locks''"
    using assms(1,6,7) lk
    by (auto simp: sleep_def myproc_def acq_def rel_def sched_def insert_Diff_if card_insert_if)
  show ?thesis using 1 2 3 4 5 p3 by (intro exI [of _ "sie s"] exI [of _ ?s1] exI [of _ ?s2] exI [of _ ?s3]) auto
qed

theorem sleep_wakeup_witness:
  "\<exists>ie s1. sleep Cticks Ltime (one_demo\<lparr>cur := Some 0, held := {Ltime}\<rparr>) = Inr (ie, s1) \<and> held s1 = {Lproc 0}"
  using sleep_wakeup [of "one_demo\<lparr>cur := Some 0, held := {Ltime}\<rparr>" 0 Ltime 1 Lpid Cticks] by auto

section \<open>Multi-level feedback queue\<close>

definition at_level :: "int \<Rightarrow> 'z kproc_scheme \<Rightarrow> nat \<Rightarrow> bool" where
  "at_level l s p \<longleftrightarrow> p_state (procs s p) = RUNNABLE \<and> p_priority_level (procs s p) = l"

definition older :: "int \<Rightarrow> 'z kproc_scheme \<Rightarrow> nat \<Rightarrow> nat \<Rightarrow> nat" where
  "older l s p c = (if at_level l s p \<and> p_ctime (procs s p) < p_ctime (procs s c) then p else c)"

text \<open>The creation time is never mistaken for the \<open>-1\<close> that stands for ``no candidate''.\<close>

definition ctime_ok :: "'z kproc_scheme \<Rightarrow> bool" where
  "ctime_ok s \<longleftrightarrow> (\<forall>p. sint (p_ctime (procs s p)) \<noteq> -1)"

lemma mlfq_level_some:
  fixes s :: "'z kproc_scheme" and l :: int
  assumes "ctime_ok s" "Lproc c \<notin> H" "\<And>p. p \<in> set ps \<Longrightarrow> Lproc p \<notin> H \<and> p \<noteq> c" "distinct ps"
  defines "b \<equiv> fold (older l s) ps c"
  shows "mlfq_level l ps (sint (p_ctime (procs s c))) c (s\<lparr>held := insert (Lproc c) H\<rparr>) =
    Inr (sint (p_ctime (procs s b)), b, s\<lparr>held := insert (Lproc b) H\<rparr>)"
  using assms(2-4) unfolding b_def
proof (induction ps arbitrary: c)
  case (Cons p ps)
  have p: "Lproc p \<notin> H" "p \<noteq> c" "p \<notin> set ps" and m: "sint (p_ctime (procs s c)) \<noteq> -1"
    using Cons.prems assms(1) by (auto simp: ctime_ok_def)
  have eq: "insert (Lproc p) (insert (Lproc c) H) - {Lproc c} = insert (Lproc p) H"
    "insert (Lproc p) (insert (Lproc c) H) - {Lproc p} = insert (Lproc c) H" using p Cons.prems(1) by auto
  show ?case
  proof (cases "at_level l s p \<and> p_ctime (procs s p) < p_ctime (procs s c)")
    case True
    then have "older l s p c = p" by (simp add: older_def)
    moreover have "mlfq_level l ps (sint (p_ctime (procs s p))) p (s\<lparr>held := insert (Lproc p) H\<rparr>) =
        Inr (sint (p_ctime (procs s (fold (older l s) ps p))), fold (older l s) ps p,
             s\<lparr>held := insert (Lproc (fold (older l s) ps p)) H\<rparr>)"
      by (rule Cons.IH) (use p Cons.prems in auto)
    ultimately show ?thesis using True p m by (simp add: acq_def rel_def at_level_def eq)
  next
    case False
    then have "older l s p c = c" unfolding older_def by (rule if_not_P)
    moreover have "mlfq_level l ps (sint (p_ctime (procs s c))) c (s\<lparr>held := insert (Lproc c) H\<rparr>) =
        Inr (sint (p_ctime (procs s (fold (older l s) ps c))), fold (older l s) ps c,
             s\<lparr>held := insert (Lproc (fold (older l s) ps c)) H\<rparr>)"
      by (rule Cons.IH) (use Cons.prems in auto)
    ultimately show ?thesis using False p m by (auto simp: acq_def rel_def at_level_def eq)
  qed
qed simp

lemma mlfq_level_eq:
  fixes s :: "'z kproc_scheme"
  assumes "ctime_ok s" "\<And>p. p \<in> set ps \<Longrightarrow> Lproc p \<notin> held s" "distinct ps"
  shows "mlfq_level l ps (-1) c s =
    Inr (case find (at_level l s) ps of None \<Rightarrow> (-1, c, s)
         | Some f \<Rightarrow> let b = fold (older l s) ps f in
             (sint (p_ctime (procs s b)), b, s\<lparr>held := insert (Lproc b) (held s)\<rparr>))"
  using assms(2,3)
proof (induction ps)
  case (Cons p ps)
  have lk: "Lproc p \<notin> held s" using Cons.prems by simp
  show ?case
  proof (cases "at_level l s p")
    case True
    have "older l s p p = p" by (simp add: older_def)
    moreover have "mlfq_level l ps (sint (p_ctime (procs s p))) p (s\<lparr>held := insert (Lproc p) (held s)\<rparr>) =
        Inr (sint (p_ctime (procs s (fold (older l s) ps p))), fold (older l s) ps p,
             s\<lparr>held := insert (Lproc (fold (older l s) ps p)) (held s)\<rparr>)"
      by (rule mlfq_level_some [OF assms(1) lk]) (use Cons.prems in auto)
    ultimately show ?thesis using True lk by (simp add: acq_def at_level_def Let_def)
  next
    case False
    then have "older l s p f = f" for f by (simp add: older_def)
    with False lk Cons show ?thesis by (auto simp: acq_def rel_def at_level_def Let_def split: option.splits)
  qed
qed simp

text \<open>The choice at a level: the least \<open>ctime\<close>, and of several with that time the first slot.\<close>

definition before :: "'z kproc_scheme \<Rightarrow> nat \<Rightarrow> nat \<Rightarrow> bool" where
  "before s b k \<longleftrightarrow> p_ctime (procs s b) < p_ctime (procs s k) \<or> p_ctime (procs s b) = p_ctime (procs s k) \<and> b \<le> k"

lemma before_trans: "before s a b \<Longrightarrow> before s b c \<Longrightarrow> before s a c"
  by (auto simp: before_def)

lemma older_least:
  assumes "at_level l s f" "sorted_wrt (<) ps" "\<And>j. j \<in> set ps \<Longrightarrow> at_level l s j \<Longrightarrow> f \<le> j"
  shows "at_level l s (fold (older l s) ps f) \<and> (fold (older l s) ps f = f \<or> fold (older l s) ps f \<in> set ps) \<and>
    before s (fold (older l s) ps f) f \<and> (\<forall>j\<in>set ps. at_level l s j \<longrightarrow> before s (fold (older l s) ps f) j)"
  using assms
proof (induction ps arbitrary: f)
  case (Cons p ps)
  let ?c = "older l s p f"
  have c: "at_level l s ?c" "?c = f \<or> ?c = p" "before s ?c f" "at_level l s p \<Longrightarrow> before s ?c p"
    using Cons.prems(1,3) by (auto simp: older_def before_def)
  have "at_level l s (fold (older l s) ps ?c) \<and> (fold (older l s) ps ?c = ?c \<or> fold (older l s) ps ?c \<in> set ps) \<and>
      before s (fold (older l s) ps ?c) ?c \<and> (\<forall>j\<in>set ps. at_level l s j \<longrightarrow> before s (fold (older l s) ps ?c) j)"
  proof (rule Cons.IH [OF c(1)])
    show "sorted_wrt (<) ps" using Cons.prems(2) by simp
    show "?c \<le> j" if "j \<in> set ps" "at_level l s j" for j
      using c(2) Cons.prems(2) Cons.prems(3) [of j] that by auto
  qed
  then show ?case using c(2-4) by (auto intro: before_trans)
qed (simp add: before_def)

lemma mlfq_levels_skip:
  assumes "ctime_ok s" "unlocked s" "\<And>i j. i \<in> set is \<Longrightarrow> j < NPROC \<Longrightarrow> \<not> at_level i s j"
  shows "mlfq_levels (is @ js) c s = mlfq_levels js c s"
  using assms(3)
proof (induction "is")
  case (Cons i "is")
  have "find (at_level i s) [0..<NPROC] = None" using Cons.prems by (auto simp: find_None_iff)
  then have "mlfq_level i [0..<NPROC] (-1) c s = Inr (-1, c, s)"
    by (subst mlfq_level_eq [OF assms(1)]) (use assms(2) in auto)
  with Cons show ?case by simp
qed simp

lemma mlfq_levels_hit:
  assumes "ctime_ok s" "unlocked s" "j < NPROC" "at_level l s j"
  shows "\<exists>b s'. mlfq_levels (l # ls) c s = Inr (Some b, s') \<and> b < NPROC \<and> at_level l s b \<and>
    (\<forall>k<NPROC. at_level l s k \<longrightarrow> before s b k) \<and>
    held s' = insert (Lproc b) (held s) \<and> cur s' = Some b \<and> p_state (procs s' b) = RUNNING"
proof -
  obtain f where f1: "find (at_level l s) [0..<NPROC] = Some f" "f < NPROC" "at_level l s f" "\<forall>k<f. \<not> at_level l s k"
    using assms(3,4) by (cases "find (at_level l s) [0..<NPROC]") (auto simp: find_None_iff find_Some_iff)
  then have "f \<le> k" if "at_level l s k" for k using that by (meson not_le)
  note f = f1(1-3) this
  let ?b = "fold (older l s) [0..<NPROC] f"
  have "mlfq_level l [0..<NPROC] (-1) c s = Inr (sint (p_ctime (procs s ?b)), ?b, s\<lparr>held := insert (Lproc ?b) (held s)\<rparr>)"
    by (subst mlfq_level_eq [OF assms(1)]) (use assms(2) f(1) in \<open>auto simp: Let_def\<close>)
  moreover have "sint (p_ctime (procs s ?b)) \<noteq> -1" using assms(1) by (simp add: ctime_ok_def)
  ultimately have "mlfq_levels (l # ls) c s = Inr (Some ?b, switch_to ?b (updp ?b (\<lambda>q. q\<lparr>p_state := RUNNING, p_wait_time := 0\<rparr>)
      (s\<lparr>held := insert (Lproc ?b) (held s)\<rparr>)))" by simp
  with older_least [OF f(3), of "[0..<NPROC]"] f(2,4) show ?thesis by (auto simp: switch_to_def)
qed

lemma mlfq_rr_eq:
  assumes "\<And>p. p \<in> set ps \<Longrightarrow> Lproc p \<notin> held s"
  shows "mlfq_rr ps s =
    Inr (case find (at_level 4 s) ps of None \<Rightarrow> (None, s)
         | Some p \<Rightarrow> (Some p, switch_to p (updp p (\<lambda>q. q\<lparr>p_state := RUNNING\<rparr>) (s\<lparr>held := insert (Lproc p) (held s)\<rparr>))))"
  using assms by (induction ps) (auto simp: acq_def rel_def at_level_def)

lemma aging_check_fields [simp]: "held (aging_check s) = held s" "unlocked (aging_check s) = unlocked s"
proof -
  have "held (fold (\<lambda>p s. let q = procs s p in if P q then updp p g s else s) ps s) = held s" for P g ps
    by (induction ps arbitrary: s) (auto simp: Let_def)
  then show "held (aging_check s) = held s" unfolding aging_check_def .
  then show "unlocked (aging_check s) = unlocked s" by (simp add: unlocked_def)
qed

lemma aging_check_none:
  assumes "\<And>i. p_wait_time (procs s i) \<le> AGE"
  shows "aging_check s = s"
proof -
  have "fold (\<lambda>p s. let q = procs s p in if A q \<and> p_wait_time q > AGE \<and> B q then updp p g s else s) ps s = s" for A B g ps
    by (induction ps) (use assms in \<open>simp_all add: Let_def leD\<close>)
  then show ?thesis unfolding aging_check_def .
qed

text \<open>What a choice of the MLFQ scheduler has to satisfy, for the table \<open>t\<close> after ageing.\<close>

definition mlfq_choice :: "'z kproc_scheme \<Rightarrow> nat option \<Rightarrow> nat \<Rightarrow> bool" where
  "mlfq_choice t r i =
     (case r of
        None \<Rightarrow> (\<forall>l\<le>4. \<forall>k<NPROC. \<not> at_level (int l) t k) \<and> i = 0
      | Some b \<Rightarrow> b < NPROC \<and> (\<exists>l\<le>4. at_level (int l) t b \<and> (\<forall>i<l. \<forall>k<NPROC. \<not> at_level (int i) t k) \<and>
          (if l < 4 then (\<forall>k<NPROC. at_level (int l) t k \<longrightarrow> before t b k) \<and> i = 0
           else (\<forall>k<b. \<not> at_level 4 t k) \<and> i = b + 1)))"

lemma mlfq_levels_cases:
  assumes "ctime_ok t" "unlocked t"
  shows "(mlfq_levels [0, 1, 2, 3] 0 t = Inr (None, t) \<and> (\<forall>l<4. \<forall>k<NPROC. \<not> at_level (int l) t k)) \<or>
    (\<exists>b s'. mlfq_levels [0, 1, 2, 3] 0 t = Inr (Some b, s') \<and> mlfq_choice t (Some b) 0 \<and>
       held s' = insert (Lproc b) (held t) \<and> cur s' = Some b \<and> p_state (procs s' b) = RUNNING)"
proof (cases "\<exists>l<4. \<exists>k<NPROC. at_level (int l) t k")
  case True
  define l where "l = (LEAST l. l < 4 \<and> (\<exists>k<NPROC. at_level (int l) t k))"
  have l: "l < 4" "\<exists>k<NPROC. at_level (int l) t k"
    using LeastI_ex [OF True [unfolded Bex_def]] by (simp_all add: l_def)
  have below: "\<not> at_level (int i) t k" if "i < l" "k < NPROC" for i k
    using not_less_Least [OF that(1) [unfolded l_def]] that l(1) by auto
  define lo js where "lo = map int [0..<l]" and "js = map int [Suc l..<4]"
  have "[0, 1, 2, 3] = map int [0..<4]" by (simp add: upt_rec)
  also have "[0..<4] = [0..<l] @ l # [Suc l..<4]"
    using upt_add_eq_append [of 0 l "4 - l"] l(1) by (simp add: upt_conv_Cons)
  finally have levels: "[0, 1, 2, 3] = lo @ int l # js" by (simp add: lo_def js_def)
  have eq: "mlfq_levels [0, 1, 2, 3] 0 t = mlfq_levels (int l # js) 0 t"
    unfolding levels by (rule mlfq_levels_skip [OF assms]) (use below in \<open>auto simp: lo_def\<close>)
  from l(2) obtain k where k: "k < NPROC" "at_level (int l) t k" by blast
  from mlfq_levels_hit [OF assms k, of js 0] obtain b s' where b: "mlfq_levels (int l # js) 0 t = Inr (Some b, s')" "b < NPROC"
    "at_level (int l) t b" "\<forall>k<NPROC. at_level (int l) t k \<longrightarrow> before t b k" "held s' = insert (Lproc b) (held t)"
    "cur s' = Some b" "p_state (procs s' b) = RUNNING" by blast
  then have "mlfq_choice t (Some b) 0" using below l(1) by (auto simp: mlfq_choice_def intro!: exI [of _ l])
  then show ?thesis using eq b by auto
next
  case False
  have "mlfq_levels ([0, 1, 2, 3] @ []) 0 t = mlfq_levels [] 0 t"
  proof (rule mlfq_levels_skip [OF assms])
    fix i :: int and j assume "i \<in> set [0, 1, 2, 3]" "j < NPROC"
    then have "nat i < 4" "i = int (nat i)" by auto
    then show "\<not> at_level i t j" using False \<open>j < NPROC\<close> by metis
  qed
  then show ?thesis using False by auto
qed

text \<open>
  C23: a pass of the MLFQ scheduler over an unlocked table. After ageing it switches to a process of
  the lowest level that has a runnable one, holding exactly its lock besides what was held, and to
  nothing only when no process is runnable at any of the five levels. At the first four levels it
  takes the process with the least \<open>ctime\<close>, and the one in the first slot among several with that
  time, and starts over afterwards; at the last level it takes the first process of the table and
  goes on with the next slot. (No code of the kernel ever assigns \<open>ctime\<close>, so it is the slot that
  decides in practice.)
\<close>

theorem scheduler_MLFQ_spec:
  fixes s :: "'z kproc_scheme"
  defines "t \<equiv> aging_check (s\<lparr>sie := True\<rparr>)"
  assumes "unlocked s" "ctime_ok t"
  shows "\<exists>r i s'. scheduler_MLFQ s = Inr (r, i, s') \<and> mlfq_choice t r i \<and>
    (case r of None \<Rightarrow> held s' = held s
     | Some b \<Rightarrow> held s' = insert (Lproc b) (held s) \<and> cur s' = Some b \<and> p_state (procs s' b) = RUNNING)"
proof -
  have ut: "unlocked t" "held t = held s" using assms(2) by (simp_all add: t_def unlocked_def)
  from mlfq_levels_cases [OF assms(3) ut(1)] show ?thesis
  proof
    assume none: "mlfq_levels [0, 1, 2, 3] 0 t = Inr (None, t) \<and> (\<forall>l<4. \<forall>k<NPROC. \<not> at_level (int l) t k)"
    then have run: "scheduler_MLFQ s = bindR (mlfq_rr [0..<NPROC] t) resume_for"
      by (simp add: scheduler_MLFQ_def Let_def t_def [symmetric])
    have rr: "mlfq_rr [0..<NPROC] t = Inr (case find (at_level 4 t) [0..<NPROC] of None \<Rightarrow> (None, t)
         | Some p \<Rightarrow> (Some p, switch_to p (updp p (\<lambda>q. q\<lparr>p_state := RUNNING\<rparr>) (t\<lparr>held := insert (Lproc p) (held t)\<rparr>))))"
      by (rule mlfq_rr_eq) (use ut(1) in simp)
    show ?thesis
    proof (cases "find (at_level 4 t) [0..<NPROC]")
      case None
      then have "mlfq_choice t None 0" using none by (auto simp: mlfq_choice_def find_None_iff le_less)
      then show ?thesis using run rr None ut(2) by (auto simp: resume_for_def)
    next
      case (Some b)
      then have "b < NPROC" "at_level 4 t b" "\<forall>k<b. \<not> at_level 4 t k" by (auto simp: find_Some_iff)
      then have "mlfq_choice t (Some b) (b + 1)" using none by (auto simp: mlfq_choice_def intro!: exI [of _ 4])
      then show ?thesis using run rr Some ut(2) by (auto simp: resume_for_def switch_to_def)
    qed
  next
    assume "\<exists>b s'. mlfq_levels [0, 1, 2, 3] 0 t = Inr (Some b, s') \<and> mlfq_choice t (Some b) 0 \<and>
       held s' = insert (Lproc b) (held t) \<and> cur s' = Some b \<and> p_state (procs s' b) = RUNNING"
    then show ?thesis by (auto simp: scheduler_MLFQ_def Let_def t_def [symmetric] ut(2) resume_pass_def)
  qed
qed

theorem scheduler_MLFQ_spec_witness:
  "\<exists>s'. scheduler_MLFQ one_demo = Inr (Some 0, 0, s') \<and> held s' = {Lproc 0}"
proof -
  let ?s = "one_demo\<lparr>sie := True\<rparr>"
  have f: "p_wait_time (procs one_demo i) = 0" "p_ctime (procs one_demo i) = 0" "p_priority_level (procs one_demo i) = 0" for i
    by (simp_all add: one_demo_def proc_zero_def)
  have t: "aging_check ?s = ?s" by (rule aging_check_none) (simp add: f)
  have lv: "at_level l ?s k \<longleftrightarrow> k = 0 \<and> l = 0" for l k by (auto simp: at_level_def one_demo_fields f)
  have "unlocked one_demo" "ctime_ok (aging_check ?s)" by (simp_all add: t unlocked_def one_demo_fields ctime_ok_def f)
  from scheduler_MLFQ_spec [OF this] obtain r i s' where r: "scheduler_MLFQ one_demo = Inr (r, i, s')" "mlfq_choice ?s r i"
    "case r of None \<Rightarrow> True | Some b \<Rightarrow> held s' = insert (Lproc b) {}" unfolding t by (auto simp: one_demo_fields split: option.splits)
  have "r = Some 0 \<and> i = 0"
  proof (cases r)
    case None
    then have "\<not> at_level (int 0) ?s 0" using r(2) unfolding mlfq_choice_def by (auto dest: spec [of _ 0])
    then show ?thesis by (simp add: lv)
  next
    case (Some b)
    then show ?thesis using r(2) by (auto simp: mlfq_choice_def lv)
  qed
  then show ?thesis using r(1,3) by simp
qed

end
