(* ===== verification/Console.thy ===== *)
theory Console
  imports SchedProps
begin

text \<open>
  \<^verbatim>\<open>kernel/uart.c\<close> and \<^verbatim>\<open>kernel/console.c\<close>, with \<open>procdump\<close> of \<^verbatim>\<open>kernel/proc.c\<close>: the transmit ring,
  line editing, and reading and writing the console.

  A call that has to wait returns \<open>Blocks\<close> with the channel and the lock of its call of \<open>sleep\<close>, and
  its local variables, so that the loop can be entered again when the process has been woken.
  Loops over a ring take the number of its entries as a bound on their rounds.
\<close>

section \<open>The UART driver\<close>

definition uartinit :: "'z kproc_scheme \<Rightarrow> 'z kproc_scheme" where
  "uartinit s =
     (let s = set_uart (WriteReg IER 0) s;
          s = set_uart (WriteReg LCR LCR_BAUD_LATCH) s;
          s = set_uart (WriteReg 0 3) s;
          s = set_uart (WriteReg 1 0) s;
          s = set_uart (WriteReg LCR LCR_EIGHT_BITS) s;
          s = set_uart (WriteReg FCR (FCR_FIFO_ENABLE OR FCR_FIFO_CLEAR)) s;
          s = set_uart (WriteReg IER (IER_TX_ENABLE OR IER_RX_ENABLE)) s
      in s\<lparr>held := held s - {Luart}\<rparr>)"

fun uartstart_loop :: "nat \<Rightarrow> 'z kproc_scheme \<Rightarrow> 'z kproc_scheme res" where
  "uartstart_loop 0 s = Inr s"
| "uartstart_loop (Suc k) s =
     (let t = con s in
      if uart_tx_w t = uart_tx_r t then Inr s
      else if ReadLSR (con_uart t) AND LSR_TX_IDLE = 0 then Inr s
      else
        let c = uart_tx_buf t ! (unat (uart_tx_r t) mod 32);
            s = s\<lparr>con := t\<lparr>uart_tx_r := uart_tx_r t + 1\<rparr>\<rparr>
        in bindR (wakeup Cuart s) (\<lambda>s. uartstart_loop k (set_uart (WriteReg THR c) s)))"

definition uartstart :: "'z kproc_scheme \<Rightarrow> 'z kproc_scheme res" where
  "uartstart s = uartstart_loop (unat (uart_tx_w (con s) - uart_tx_r (con s))) s"

text \<open>
  \<open>uartputc\<close> from the point where it holds the lock, and from its start. The result is \<open>False\<close> when it
  has to wait on \<open>&uart_tx_r\<close> for room in the ring.
\<close>

definition uartputc_locked :: "byte \<Rightarrow> 'z kproc_scheme \<Rightarrow> (bool \<times> 'z kproc_scheme) res" where
  "uartputc_locked c s =
     (let t = con s in
      if uart_tx_w t = uart_tx_r t + 32 then Inr (False, s)
      else
        let t = t\<lparr>uart_tx_buf := (uart_tx_buf t)[unat (uart_tx_w t) mod 32 := c], uart_tx_w := uart_tx_w t + 1\<rparr>
        in bindR (uartstart (s\<lparr>con := t\<rparr>)) (\<lambda>s. bindR (rel Luart s) (\<lambda>s. Inr (True, s))))"

definition uartputc :: "byte \<Rightarrow> 'z kproc_scheme \<Rightarrow> (bool \<times> 'z kproc_scheme) res" where
  "uartputc c s =
     bindR (acq Luart s) (\<lambda>s. if panicked (con s) then Inl Spin else uartputc_locked c s)"

definition uartgetc :: "'z kproc_scheme \<Rightarrow> int \<times> 'z kproc_scheme" where
  "uartgetc s =
     (let u = con_uart (con s) in
      if ReadLSR u AND 1 \<noteq> 0 then (uint (fst (ReadRHR u)), set_uart (\<lambda>u. snd (ReadRHR u)) s) else (-1, s))"

section \<open>The process listing\<close>

fun state_name :: "procstate \<Rightarrow> string" where
  "state_name UNUSED = ''unused''"
| "state_name USED = ''used''"
| "state_name SLEEPING = ''sleep ''"
| "state_name RUNNABLE = ''runble''"
| "state_name RUNNING = ''run   ''"
| "state_name ZOMBIE = ''zombie''"

definition procdump_1 :: "nat \<Rightarrow> 'z kproc_scheme \<Rightarrow> 'z kproc_scheme res" where
  "procdump_1 p s =
     (if p_state (procs s p) = UNUSED then Inr s
      else
        bindR (if SCHEDULER s = PBS
               then printf ''Run time: %d\<newline>'' [Aint (sint (p_runTime (procs s p)))] s else Inr s) (\<lambda>s.
        bindR (if SCHEDULER s = MLFQ
               then bindR (foldR (\<lambda>j s. printf ''%d '' [Aint (p_queue_ticks (procs s p) ! j)] s) [0..<5] s)
                      (printf ''\<newline>'' [])
               else Inr s) (\<lambda>s.
        bindR (printf ''%d %s %s %d %d''
                 [Aint (p_pid (procs s p)), Astr (Some (bytes_of (state_name (p_state (procs s p))) @ [0])),
                  Astr (Some (p_name (procs s p))), Aint (sint (p_runTime (procs s p))),
                  Aint (sint (p_countTimeCalled (procs s p)))] s)
          (printf ''\<newline>'' []))))"

definition procdump :: "'z kproc_scheme \<Rightarrow> 'z kproc_scheme res" where
  "procdump s = bindR (printf ''\<newline>'' [] s) (foldR procdump_1 [0..<NPROC])"

section \<open>The console\<close>

abbreviation (input) "INPUT_BUF_SIZE \<equiv> 128 :: nat"

text \<open>The first result is what \<open>consolewrite\<close> returns, the second its \<open>i\<close>.\<close>

function consolewrite_loop :: "source \<Rightarrow> int \<Rightarrow> int \<Rightarrow> 'z kproc_scheme \<Rightarrow> (int outcome \<times> int \<times> 'z kproc_scheme) res" where
  "consolewrite_loop src i n s =
     (if i < n then
        bindR (either_copyin (source_add src (nat i)) 1 s) (\<lambda>(r, bs).
          if r = -1 then Inr (Ret i, i, s)
          else
            bindR (uartputc (hd bs) s) (\<lambda>(ok, s).
              if ok then consolewrite_loop src (i + 1) n s else Inr (Blocks Cuart Luart, i, s)))
      else Inr (Ret i, i, s))"
  by pat_completeness auto
termination
  by (relation "measure (\<lambda>(src, i, n, s). nat (n - i))") auto

definition consolewrite :: "source \<Rightarrow> int \<Rightarrow> 'z kproc_scheme \<Rightarrow> (int outcome \<times> int \<times> 'z kproc_scheme) res" where
  "consolewrite src n s = consolewrite_loop src 0 n s"

text \<open>
  \<open>consoleread\<close> with the lock held. The results are what it returns (or that it waits), its \<open>dst\<close> and
  its \<open>n\<close>.
\<close>

function consoleread_loop ::
  "dest \<Rightarrow> int \<Rightarrow> int \<Rightarrow> 'z kproc_scheme \<Rightarrow> (int outcome \<times> (dest \<times> int) \<times> 'z kproc_scheme) res" where
  "consoleread_loop dst n target s =
     (if n > 0 then
        if cons_r (con s) = cons_w (con s) then
          bindR (myproc s) (\<lambda>p.
          bindR (killed p s) (\<lambda>(k, s).
            if k \<noteq> 0 then bindR (rel Lcons s) (\<lambda>s. Inr (Ret (-1), (dst, n), s))
            else Inr (Blocks Ccons Lcons, (dst, n), s)))
        else
          let c = cons_buf (con s) ! (unat (cons_r (con s)) mod INPUT_BUF_SIZE);
              s = s\<lparr>con := (con s)\<lparr>cons_r := cons_r (con s) + 1\<rparr>\<rparr>
          in if c = 4 then
               let s = (if n < target then s\<lparr>con := (con s)\<lparr>cons_r := cons_r (con s) - 1\<rparr>\<rparr> else s) in
               bindR (rel Lcons s) (\<lambda>s. Inr (Ret (target - n), (dst, n), s))
             else
               bindR (either_copyout dst [c] s) (\<lambda>(r, s).
                 if r = -1 then bindR (rel Lcons s) (\<lambda>s. Inr (Ret (target - n), (dst, n), s))
                 else if c = 10 then bindR (rel Lcons s) (\<lambda>s. Inr (Ret (target - (n - 1)), (dest_add dst 1, n - 1), s))
                 else consoleread_loop (dest_add dst 1) (n - 1) target s)
      else bindR (rel Lcons s) (\<lambda>s. Inr (Ret (target - n), (dst, n), s)))"
  by pat_completeness auto
termination
  by (relation "measure (\<lambda>(dst, n, target, s). nat n)") auto

definition consoleread :: "dest \<Rightarrow> int \<Rightarrow> 'z kproc_scheme \<Rightarrow> (int outcome \<times> (dest \<times> int) \<times> 'z kproc_scheme) res" where
  "consoleread dst n s = bindR (acq Lcons s) (consoleread_loop dst n n)"

text \<open>The loop of \<open>^U\<close>: at most one round per character between \<open>cons.w\<close> and \<open>cons.e\<close>.\<close>

fun kill_line :: "nat \<Rightarrow> 'z kproc_scheme \<Rightarrow> 'z kproc_scheme res" where
  "kill_line 0 s = Inr s"
| "kill_line (Suc k) s =
     (let t = con s in
      if cons_e t \<noteq> cons_w t \<and> cons_buf t ! (unat (cons_e t - 1) mod INPUT_BUF_SIZE) \<noteq> 10
      then bindR (consputc BACKSPACE (s\<lparr>con := t\<lparr>cons_e := cons_e t - 1\<rparr>\<rparr>)) (kill_line k)
      else Inr s)"

definition consoleintr :: "int \<Rightarrow> 'z kproc_scheme \<Rightarrow> 'z kproc_scheme res" where
  "consoleintr c s =
     bindR (acq Lcons s) (\<lambda>s.
     bindR (
       if c = 16 then procdump s
       else if c = 21 then kill_line (unat (cons_e (con s) - cons_w (con s))) s
       else if c = 8 \<or> c = 127 then
         if cons_e (con s) \<noteq> cons_w (con s)
         then consputc BACKSPACE (s\<lparr>con := (con s)\<lparr>cons_e := cons_e (con s) - 1\<rparr>\<rparr>)
         else Inr s
       else if c \<noteq> 0 \<and> unat (cons_e (con s) - cons_r (con s)) < INPUT_BUF_SIZE then
         let c = (if c = 13 then 10 else c) in
         bindR (consputc c s) (\<lambda>s.
           let t = con s;
               t = t\<lparr>cons_buf := (cons_buf t)[unat (cons_e t) mod INPUT_BUF_SIZE := word_of_int c], cons_e := cons_e t + 1\<rparr>
           in if c = 10 \<or> c = 4 \<or> unat (cons_e t - cons_r t) = INPUT_BUF_SIZE
              then wakeup Ccons (s\<lparr>con := t\<lparr>cons_w := cons_e t\<rparr>\<rparr>)
              else Inr (s\<lparr>con := t\<rparr>))
       else Inr s)
       (rel Lcons))"

fun uartintr_loop :: "nat \<Rightarrow> 'z kproc_scheme \<Rightarrow> 'z kproc_scheme res" where
  "uartintr_loop 0 s = Inr s"
| "uartintr_loop (Suc k) s =
     (let (c, s) = uartgetc s in if c = -1 then Inr s else bindR (consoleintr c s) (uartintr_loop k))"

definition uartintr :: "'z kproc_scheme \<Rightarrow> 'z kproc_scheme res" where
  "uartintr s =
     bindR (uartintr_loop (length (u_in (con_uart (con s)))) s) (\<lambda>s.
     bindR (acq Luart s) (\<lambda>s. bindR (uartstart s) (rel Luart)))"

abbreviation (input) "CONSOLE \<equiv> 1 :: nat"

definition consoleinit :: "'z kproc_scheme \<Rightarrow> 'z kproc_scheme" where
  "consoleinit s =
     (let s = uartinit (s\<lparr>held := held s - {Lcons}\<rparr>)
      in s\<lparr>con := (con s)\<lparr>devsw := (devsw (con s))(CONSOLE := True)\<rparr>\<rparr>)"

declare consolewrite_loop.simps [simp del] consoleread_loop.simps [simp del]

end
