(* ===== verification/Sleeplock.thy ===== *)
theory Sleeplock
  imports Console
begin

text \<open>
  \<^verbatim>\<open>kernel/sleeplock.c\<close>: locks that a process holds across a sleep. A sleep lock is named by the
  spin lock inside it (\<open>Lbuf i\<close> for a buffer, \<open>Linode i\<close> for an inode). \<open>acquiresleep\<close> of a lock that
  is taken goes to sleep, which ends this run of the process: \<open>Inl (Sleeps (Cslk l))\<close>.
\<close>

record sleeplock =
  sl_locked :: bool
  sl_name :: string
  sl_pid :: int

record kslp = kproc +
  slocks :: "lock \<Rightarrow> sleeplock"

definition upds :: "lock \<Rightarrow> (sleeplock \<Rightarrow> sleeplock) \<Rightarrow> 'z kslp_scheme \<Rightarrow> 'z kslp_scheme" where
  "upds l f s = s\<lparr>slocks := (slocks s)(l := f (slocks s l))\<rparr>"

definition initsleeplock :: "lock \<Rightarrow> string \<Rightarrow> 'z kslp_scheme \<Rightarrow> 'z kslp_scheme" where
  "initsleeplock l nm s =
     upds l (\<lambda>k. k\<lparr>sl_name := nm, sl_locked := False, sl_pid := 0\<rparr>) (s\<lparr>held := held s - {l}\<rparr>)"

text \<open>A call of \<open>sleep\<close> from which this run does not come back.\<close>

definition blocked :: "chan \<Rightarrow> lock \<Rightarrow> 'z kproc_scheme \<Rightarrow> 'a res" where
  "blocked chan lk s = bindR (sleep chan lk s) (\<lambda>_. Inl (Sleeps chan))"

definition acquiresleep :: "lock \<Rightarrow> 'z kslp_scheme \<Rightarrow> 'z kslp_scheme res" where
  "acquiresleep l s =
     bindR (acq l s) (\<lambda>s.
       if sl_locked (slocks s l) then blocked (Cslk l) l s
       else
         let s = upds l (\<lambda>k. k\<lparr>sl_locked := True\<rparr>) s in
         bindR (myproc s) (\<lambda>p.
           rel l (upds l (\<lambda>k. k\<lparr>sl_pid := p_pid (procs s p)\<rparr>) s)))"

definition releasesleep :: "lock \<Rightarrow> 'z kslp_scheme \<Rightarrow> 'z kslp_scheme res" where
  "releasesleep l s =
     bindR (acq l s) (\<lambda>s.
       let s = upds l (\<lambda>k. k\<lparr>sl_locked := False, sl_pid := 0\<rparr>) s in
       bindR (wakeup (Cslk l) s) (\<lambda>s. rel l s))"

definition holdingsleep :: "lock \<Rightarrow> 'z kslp_scheme \<Rightarrow> (bool \<times> 'z kslp_scheme) res" where
  "holdingsleep l s =
     bindR (acq l s) (\<lambda>s.
       bindR (myproc s) (\<lambda>p.
         let r = (sl_locked (slocks s l) \<and> sl_pid (slocks s l) = p_pid (procs s p)) in
         bindR (rel l s) (\<lambda>s. Inr (r, s))))"

section \<open>A process in the kernel that holds no spin lock\<close>

definition in_kernel :: "nat \<Rightarrow> 'z kproc_scheme \<Rightarrow> bool" where
  "in_kernel p s \<longleftrightarrow> cur s = Some p \<and> held s = {}"

lemma in_kernelD [simp]: "in_kernel p s \<Longrightarrow> cur s = Some p" "in_kernel p s \<Longrightarrow> held s = {}"
  by (simp_all add: in_kernel_def)

lemma acquiresleep_eq:
  assumes "in_kernel p s" "\<not> sl_locked (slocks s l)"
  shows "acquiresleep l s = Inr (upds l (\<lambda>k. k\<lparr>sl_locked := True, sl_pid := p_pid (procs s p)\<rparr>) s)"
  using assms by (simp add: acquiresleep_def acq_def rel_def upds_def myproc_def)

lemma blocked_eq: "held s = {lk} \<Longrightarrow> cur s = Some p \<Longrightarrow> lk \<noteq> Lproc p \<Longrightarrow> blocked chan lk s = Inl (Sleeps chan)"
  by (simp add: blocked_def sleep_def sched_def myproc_def acq_def rel_def updp_def intr_get1_def Let_def)

lemma acquiresleep_taken:
  "in_kernel p s \<Longrightarrow> l \<noteq> Lproc p \<Longrightarrow> sl_locked (slocks s l) \<Longrightarrow> acquiresleep l s = Inl (Sleeps (Cslk l))"
  by (simp add: acquiresleep_def acq_def blocked_eq)

lemma holdingsleep_eq:
  assumes "in_kernel p s"
  shows "holdingsleep l s = Inr (sl_locked (slocks s l) \<and> sl_pid (slocks s l) = p_pid (procs s p), s)"
  using assms by (simp add: holdingsleep_def acq_def rel_def myproc_def)

lemma releasesleep_eq:
  assumes "in_kernel p s" "\<forall>i. l \<noteq> Lproc i"
  shows "releasesleep l s = Inr ((upds l (\<lambda>k. k\<lparr>sl_locked := False, sl_pid := 0\<rparr>) s)\<lparr>procs := wake_procs (Cslk l) s\<rparr>)"
proof -
  let ?s = "upds l (\<lambda>k. k\<lparr>sl_locked := False, sl_pid := 0\<rparr>) (s\<lparr>held := {l}\<rparr>)"
  have "unlocked ?s" using assms(2) by (auto simp: unlocked_def upds_def)
  then have "wakeup (Cslk l) ?s = Inr (?s\<lparr>procs := wake_procs (Cslk l) s\<rparr>)"
    using wakeup_eq [of ?s "Cslk l"] wake_procs_cong [of ?s s "Cslk l"] by (simp add: upds_def)
  then show ?thesis using assms(1) by (simp add: releasesleep_def acq_def rel_def upds_def)
qed

end
