(* ===== verification/Virtio.thy ===== *)
theory Virtio
  imports Sleeplock
begin

text \<open>
  \<^verbatim>\<open>kernel/virtio_disk.c\<close> with the buffers of \<^verbatim>\<open>kernel/buf.h\<close> it transfers. The structures the
  driver shares with the device are records: a descriptor names what its address points to
  (a request header, the data of a buffer, a status byte), and the device-written fields are
  \<open>us_idx\<close>, \<open>us_ring\<close>, the status bytes, the data of buffers, and the disk.

  The device is a function of the state, an argument of \<open>virtio_disk_rw\<close>. \<open>disk_rw\<close> is the transfer as
  the caller of \<open>virtio_disk_rw\<close> sees it; \<open>VirtioProps\<close> shows that the driver, with any device that does
  what the virtio specification says, does exactly that. \<open>dwrites\<close> is a ghost field: every block
  write so far, in order.
\<close>

section \<open>State\<close>

abbreviation (input) "NUM \<equiv> 8 :: nat"
abbreviation (input) "BSIZE \<equiv> 1024 :: nat"

record buf =
  b_valid :: bool
  b_disk :: bool
  b_dev :: u32
  b_blockno :: u32
  b_refcnt :: u32
  b_data :: "byte list"

datatype daddr = Dnull | Dops nat | Ddata nat | Dstatus nat

record virtq_desc =
  de_addr :: daddr
  de_len :: u32
  de_flags :: u16
  de_next :: u16

abbreviation (input) "VRING_DESC_F_NEXT \<equiv> 1 :: u16"
abbreviation (input) "VRING_DESC_F_WRITE \<equiv> 2 :: u16"
abbreviation (input) "VIRTIO_BLK_T_IN \<equiv> 0 :: u32"
abbreviation (input) "VIRTIO_BLK_T_OUT \<equiv> 1 :: u32"

record virtio_blk_req =
  rq_type :: u32
  rq_reserved :: u32
  rq_sector :: u64

text \<open>
  \<open>v_mmio\<close> are the registers; \<open>v_accepts\<close> says whether the device accepts the features the driver
  selects, and \<open>v_seen\<close> is the device's own position in the available ring.
\<close>

record vdisk =
  v_desc :: "nat \<Rightarrow> virtq_desc"
  av_idx :: u16
  av_ring :: "nat \<Rightarrow> u16"
  us_idx :: u16
  us_ring :: "nat \<Rightarrow> u32"
  v_free :: "nat \<Rightarrow> bool"
  v_used_idx :: u16
  info_b :: "nat \<Rightarrow> nat option"
  info_status :: "nat \<Rightarrow> byte"
  v_ops :: "nat \<Rightarrow> virtio_blk_req"
  v_pages :: "u64 \<times> u64 \<times> u64"
  v_mmio :: "nat \<Rightarrow> u32"
  v_accepts :: bool
  v_seen :: u16

record kvd = kslp +
  bufs :: "nat \<Rightarrow> buf"
  disk :: "u32 \<Rightarrow> byte list"
  dwrites :: "(u32 \<times> byte list) list"
  vd :: vdisk

definition updb :: "nat \<Rightarrow> (buf \<Rightarrow> buf) \<Rightarrow> 'z kvd_scheme \<Rightarrow> 'z kvd_scheme" where
  "updb i f s = s\<lparr>bufs := (bufs s)(i := f (bufs s i))\<rparr>"

definition updv :: "(vdisk \<Rightarrow> vdisk) \<Rightarrow> 'z kvd_scheme \<Rightarrow> 'z kvd_scheme" where
  "updv f s = s\<lparr>vd := f (vd s)\<rparr>"

section \<open>Initialisation\<close>

definition wreg :: "nat \<Rightarrow> u32 \<Rightarrow> 'z kvd_scheme \<Rightarrow> 'z kvd_scheme" where
  "wreg r x s = updv (\<lambda>v. v\<lparr>v_mmio := (v_mmio v)(r := x)\<rparr>) s"

definition rreg :: "nat \<Rightarrow> 'z kvd_scheme \<Rightarrow> u32" where
  "rreg r s = (let x = v_mmio (vd s) r in if r = 0x070 \<and> \<not> v_accepts (vd s) then x AND NOT 8 else x)"

definition zero_desc :: virtq_desc where
  "zero_desc = \<lparr>de_addr = Dnull, de_len = 0, de_flags = 0, de_next = 0\<rparr>"

definition driver_features :: "u32 \<Rightarrow> u32" where
  "driver_features f = fold (\<lambda>b f. f AND NOT (push_bit b 1)) [5, 7, 11, 12, 27, 29, 28] f"

definition virtio_queue_init :: "'z kvd_scheme \<Rightarrow> 'z kvd_scheme res" where
  "virtio_queue_init s =
     bindR (kalloc s) (\<lambda>(d, s).
     bindR (kalloc s) (\<lambda>(a, s).
     bindR (kalloc s) (\<lambda>(u, s).
       if d = 0 \<or> a = 0 \<or> u = 0 then panic ''virtio disk kalloc''
       else
         let s = s\<lparr>mem := memset (mem s) (unat d) 0 4096\<rparr>;
             s = s\<lparr>mem := memset (mem s) (unat a) 0 4096\<rparr>;
             s = s\<lparr>mem := memset (mem s) (unat u) 0 4096\<rparr>;
             s = updv (\<lambda>v. v\<lparr>v_desc := (\<lambda>_. zero_desc), av_idx := 0, av_ring := (\<lambda>_. 0), us_idx := 0,
                             us_ring := (\<lambda>_. 0), v_pages := (d, a, u)\<rparr>) s;
             s = wreg 0x038 (of_nat NUM) s;
             s = wreg 0x080 (ucast d) s; s = wreg 0x084 (ucast (drop_bit 32 d)) s;
             s = wreg 0x090 (ucast a) s; s = wreg 0x094 (ucast (drop_bit 32 a)) s;
             s = wreg 0x0a0 (ucast u) s; s = wreg 0x0a4 (ucast (drop_bit 32 u)) s;
             s = wreg 0x044 1 s
         in Inr (updv (\<lambda>v. v\<lparr>v_free := (\<lambda>i. i < NUM \<or> v_free v i)\<rparr>) s))))"

definition virtio_disk_init :: "'z kvd_scheme \<Rightarrow> 'z kvd_scheme res" where
  "virtio_disk_init s =
     (let s = s\<lparr>held := held s - {Lvdisk}\<rparr> in
      if rreg 0 s \<noteq> 0x74726976 \<or> rreg 4 s \<noteq> 2 \<or> rreg 8 s \<noteq> 2 \<or> rreg 0xc s \<noteq> 0x554d4551
      then panic ''could not find virtio disk''
      else
        let s = wreg 0x070 0 s; s = wreg 0x070 1 s; s = wreg 0x070 3 s;
            s = wreg 0x020 (driver_features (rreg 0x010 s)) s;
            s = wreg 0x070 11 s;
            status = rreg 0x070 s
        in if status AND 8 = 0 then panic ''virtio disk FEATURES_OK unset''
           else
             let s = wreg 0x030 0 s in
             if rreg 0x044 s \<noteq> 0 then panic ''virtio disk should not be ready''
             else if rreg 0x034 s = 0 then panic ''virtio disk has no queue 0''
             else if rreg 0x034 s < of_nat NUM then panic ''virtio disk max queue too short''
             else bindR (virtio_queue_init s) (\<lambda>s. Inr (wreg 0x070 (status OR 4) s)))"

section \<open>Descriptors\<close>

definition alloc_desc :: "'z kvd_scheme \<Rightarrow> nat option \<times> 'z kvd_scheme" where
  "alloc_desc s =
     (case find (v_free (vd s)) [0..<NUM] of
        Some i \<Rightarrow> (Some i, updv (\<lambda>v. v\<lparr>v_free := (v_free v)(i := False)\<rparr>) s)
      | None \<Rightarrow> (None, s))"

definition free_desc :: "nat \<Rightarrow> 'z kvd_scheme \<Rightarrow> 'z kvd_scheme res" where
  "free_desc i s =
     (if i \<ge> NUM then panic ''free_desc 1''
      else if v_free (vd s) i then panic ''free_desc 2''
      else
        wakeup Cdfree (updv (\<lambda>v. v\<lparr>v_desc := (v_desc v)(i := zero_desc), v_free := (v_free v)(i := True)\<rparr>) s))"

text \<open>
  A chain has at most \<open>NUM\<close> descriptors before \<open>free_desc\<close> finds one that is free already, so
  \<open>NUM + 1\<close> rounds are enough.
\<close>

fun free_chain_loop :: "nat \<Rightarrow> nat \<Rightarrow> 'z kvd_scheme \<Rightarrow> 'z kvd_scheme res" where
  "free_chain_loop 0 i s = Inl Spin"
| "free_chain_loop (Suc k) i s =
     (let flag = de_flags (v_desc (vd s) i); nxt = unat (de_next (v_desc (vd s) i)) in
      bindR (free_desc i s) (\<lambda>s.
        if flag AND VRING_DESC_F_NEXT \<noteq> 0 then free_chain_loop k nxt s else Inr s))"

definition free_chain :: "nat \<Rightarrow> 'z kvd_scheme \<Rightarrow> 'z kvd_scheme res" where
  "free_chain i s = free_chain_loop (NUM + 1) i s"

definition alloc3_desc :: "'z kvd_scheme \<Rightarrow> ((nat \<times> nat \<times> nat) option \<times> 'z kvd_scheme) res" where
  "alloc3_desc s =
     (case alloc_desc s of
        (None, s) \<Rightarrow> Inr (None, s)
      | (Some i0, s) \<Rightarrow>
          (case alloc_desc s of
             (None, s) \<Rightarrow> bindR (free_desc i0 s) (\<lambda>s. Inr (None, s))
           | (Some i1, s) \<Rightarrow>
               (case alloc_desc s of
                  (None, s) \<Rightarrow> bindR (free_desc i0 s) (\<lambda>s. bindR (free_desc i1 s) (\<lambda>s. Inr (None, s)))
                | (Some i2, s) \<Rightarrow> Inr (Some (i0, i1, i2), s))))"

section \<open>Requests\<close>

text \<open>Formatting the three descriptors and telling the device; \<open>b->blockno * 2\<close> is computed at 32 bits.\<close>

definition virtio_submit :: "nat \<Rightarrow> bool \<Rightarrow> nat \<times> nat \<times> nat \<Rightarrow> 'z kvd_scheme \<Rightarrow> 'z kvd_scheme" where
  "virtio_submit b wr idx s =
     (let (i0, i1, i2) = idx;
          sector = ucast (b_blockno (bufs s b) * 2 :: u32);
          s = updv (\<lambda>v. v\<lparr>v_ops := (v_ops v)(i0 := \<lparr>rq_type = (if wr then VIRTIO_BLK_T_OUT else VIRTIO_BLK_T_IN),
                              rq_reserved = 0, rq_sector = sector\<rparr>)\<rparr>) s;
          s = updv (\<lambda>v. v\<lparr>v_desc := (v_desc v)(i0 := \<lparr>de_addr = Dops i0, de_len = 16,
                              de_flags = VRING_DESC_F_NEXT, de_next = of_nat i1\<rparr>)\<rparr>) s;
          s = updv (\<lambda>v. v\<lparr>v_desc := (v_desc v)(i1 := \<lparr>de_addr = Ddata b, de_len = of_nat BSIZE,
                              de_flags = (if wr then 0 else VRING_DESC_F_WRITE) OR VRING_DESC_F_NEXT,
                              de_next = of_nat i2\<rparr>)\<rparr>) s;
          s = updv (\<lambda>v. v\<lparr>info_status := (info_status v)(i0 := 0xff)\<rparr>) s;
          s = updv (\<lambda>v. v\<lparr>v_desc := (v_desc v)(i2 := \<lparr>de_addr = Dstatus i0, de_len = 1,
                              de_flags = VRING_DESC_F_WRITE, de_next = 0\<rparr>)\<rparr>) s;
          s = updb b (\<lambda>x. x\<lparr>b_disk := True\<rparr>) s;
          s = updv (\<lambda>v. v\<lparr>info_b := (info_b v)(i0 := Some b)\<rparr>) s;
          s = updv (\<lambda>v. v\<lparr>av_ring := (av_ring v)(unat (av_idx v) mod NUM := of_nat i0)\<rparr>) s;
          s = updv (\<lambda>v. v\<lparr>av_idx := av_idx v + 1\<rparr>) s
      in wreg 0x050 0 s)"

text \<open>\<open>virtio_disk_rw\<close> with the lock held: the allocation of descriptors, and the wait for the device.\<close>

definition virtio_start :: "nat \<Rightarrow> bool \<Rightarrow> 'z kvd_scheme \<Rightarrow> (nat outcome \<times> 'z kvd_scheme) res" where
  "virtio_start b wr s =
     bindR (alloc3_desc s) (\<lambda>(r, s).
       case r of None \<Rightarrow> Inr (Blocks Cdfree Lvdisk, s)
       | Some idx \<Rightarrow> Inr (Ret (fst idx), virtio_submit b wr idx s))"

definition virtio_wait :: "nat \<Rightarrow> nat \<Rightarrow> 'z kvd_scheme \<Rightarrow> (unit outcome \<times> 'z kvd_scheme) res" where
  "virtio_wait b i0 s =
     (if b_disk (bufs s b) then Inr (Blocks (Cbuf b) Lvdisk, s)
      else
        bindR (free_chain i0 (updv (\<lambda>v. v\<lparr>info_b := (info_b v)(i0 := None)\<rparr>) s)) (\<lambda>s.
        bindR (rel Lvdisk s) (\<lambda>s. Inr (Ret (), s))))"

fun virtio_intr_loop :: "nat \<Rightarrow> 'z kvd_scheme \<Rightarrow> 'z kvd_scheme res" where
  "virtio_intr_loop 0 s = Inr s"
| "virtio_intr_loop (Suc k) s =
     (if v_used_idx (vd s) = us_idx (vd s) then Inr s
      else
        let id1 = unat (us_ring (vd s) (unat (v_used_idx (vd s)) mod NUM)) in
        if info_status (vd s) id1 \<noteq> 0 then panic ''virtio_disk_intr status''
        else case info_b (vd s) id1 of
          None \<Rightarrow> Inl (UB ''virtio_disk_intr: null pointer'')
        | Some b \<Rightarrow>
            bindR (wakeup (Cbuf b) (updb b (\<lambda>x. x\<lparr>b_disk := False\<rparr>) s)) (\<lambda>s.
              virtio_intr_loop k (updv (\<lambda>v. v\<lparr>v_used_idx := v_used_idx v + 1\<rparr>) s)))"

definition virtio_disk_intr :: "'z kvd_scheme \<Rightarrow> 'z kvd_scheme res" where
  "virtio_disk_intr s =
     bindR (acq Lvdisk s) (\<lambda>s.
       let s = wreg 0x064 (rreg 0x060 s AND 3) s in
       bindR (virtio_intr_loop (unat (us_idx (vd s) - v_used_idx (vd s))) s) (rel Lvdisk))"

text \<open>
  The whole of \<open>virtio_disk_rw\<close>, for a request that finds descriptors: while the process sleeps on the
  buffer, the device works and its interrupt is taken. Without descriptors the process goes to sleep
  on \<open>&disk.free[0]\<close>, which ends this run.
\<close>

definition virtio_disk_rw ::
  "('z kvd_scheme \<Rightarrow> 'z kvd_scheme) \<Rightarrow> nat \<Rightarrow> bool \<Rightarrow> 'z kvd_scheme \<Rightarrow> 'z kvd_scheme res" where
  "virtio_disk_rw device b wr s =
     bindR (acq Lvdisk s) (\<lambda>s.
     bindR (virtio_start b wr s) (\<lambda>(r, s).
       case r of
         Ret i0 \<Rightarrow>
           bindR (if b_disk (bufs s b)
                  then bindR (rel Lvdisk s) (\<lambda>s. bindR (virtio_disk_intr (device s)) (acq Lvdisk))
                  else Inr s) (\<lambda>s.
           bindR (virtio_wait b i0 s) (\<lambda>(r, s).
             case r of Ret _ \<Rightarrow> Inr s | _ \<Rightarrow> blocked (Cbuf b) Lvdisk s))
       | _ \<Rightarrow> blocked Cdfree Lvdisk s))"

section \<open>The transfer as its caller sees it\<close>

definition disk_rw :: "nat \<Rightarrow> bool \<Rightarrow> 'z kvd_scheme \<Rightarrow> 'z kvd_scheme" where
  "disk_rw i wr s =
     (let b = bufs s i in
      if wr then s\<lparr>disk := (disk s)(b_blockno b := b_data b), dwrites := dwrites s @ [(b_blockno b, b_data b)]\<rparr>
      else updb i (\<lambda>x. x\<lparr>b_data := disk s (b_blockno x)\<rparr>) s)"

end
