(* ===== verification/Bio.thy ===== *)
theory Bio
  imports Virtio
begin

text \<open>
  \<^verbatim>\<open>kernel/bio.c\<close>: the buffer cache. Buffers are the entries of \<open>bcache.buf\<close>; the list through
  \<open>prev\<close>/\<open>next\<close> is \<open>lru\<close>, from \<open>head.next\<close> (most recently used) to \<open>head.prev\<close>; that the pointer
  surgery keeps such a list is shown in \<open>BufList\<close>. A transfer is \<open>disk_rw\<close> of \<open>Virtio\<close>: the disk is an
  array of blocks (\<open>virtio_disk_rw\<close> never looks at \<open>b->dev\<close>). The driver computes the sector as twice the
  block number in 32 bits, so this is what it does for block numbers below \<open>2 ^ 31\<close>, that is for every disk
  of less than two tebibytes; the file system of \<^verbatim>\<open>mkfs\<close> has 2000 blocks.

  \<open>view s\<close> is the disk as its users see it through the cache. \<open>bread\<close> returns a locked buffer with
  the viewed contents and changes nothing of the view.
\<close>

section \<open>State and operations\<close>

abbreviation (input) "NBUF \<equiv> 30 :: nat"

record kbio = kvd +
  lru :: "nat list"

definition binit :: "'z kbio_scheme \<Rightarrow> 'z kbio_scheme" where
  "binit s =
     fold (\<lambda>b s. initsleeplock (Lbuf b) ''buffer'' (s\<lparr>lru := b # lru s\<rparr>)) [0..<NBUF]
       (s\<lparr>held := held s - {Lbcache}, lru := []\<rparr>)"

definition bget :: "u32 \<Rightarrow> u32 \<Rightarrow> 'z kbio_scheme \<Rightarrow> (nat \<times> 'z kbio_scheme) res" where
  "bget dev blockno s =
     bindR (acq Lbcache s) (\<lambda>s.
       case find (\<lambda>b. b_dev (bufs s b) = dev \<and> b_blockno (bufs s b) = blockno) (lru s) of
         Some b \<Rightarrow>
           let s = updb b (\<lambda>x. x\<lparr>b_refcnt := b_refcnt x + 1\<rparr>) s in
           bindR (rel Lbcache s) (\<lambda>s. bindR (acquiresleep (Lbuf b) s) (\<lambda>s. Inr (b, s)))
       | None \<Rightarrow>
           (case find (\<lambda>b. b_refcnt (bufs s b) = 0) (rev (lru s)) of
              Some b \<Rightarrow>
                let s = updb b (\<lambda>x. x\<lparr>b_dev := dev, b_blockno := blockno, b_valid := False, b_refcnt := 1\<rparr>) s in
                bindR (rel Lbcache s) (\<lambda>s. bindR (acquiresleep (Lbuf b) s) (\<lambda>s. Inr (b, s)))
            | None \<Rightarrow> panic ''bget: no buffers''))"

definition bread :: "u32 \<Rightarrow> u32 \<Rightarrow> 'z kbio_scheme \<Rightarrow> (nat \<times> 'z kbio_scheme) res" where
  "bread dev blockno s =
     bindR (bget dev blockno s) (\<lambda>(b, s).
       if \<not> b_valid (bufs s b) then Inr (b, updb b (\<lambda>x. x\<lparr>b_valid := True\<rparr>) (disk_rw b False s))
       else Inr (b, s))"

definition bwrite :: "nat \<Rightarrow> 'z kbio_scheme \<Rightarrow> 'z kbio_scheme res" where
  "bwrite b s =
     bindR (holdingsleep (Lbuf b) s) (\<lambda>(h, s).
       if \<not> h then panic ''bwrite'' else Inr (disk_rw b True s))"

definition brelse :: "nat \<Rightarrow> 'z kbio_scheme \<Rightarrow> 'z kbio_scheme res" where
  "brelse b s =
     bindR (holdingsleep (Lbuf b) s) (\<lambda>(h, s).
       if \<not> h then panic ''brelse'' else
       bindR (releasesleep (Lbuf b) s) (\<lambda>s.
         bindR (acq Lbcache s) (\<lambda>s.
           let s = updb b (\<lambda>x. x\<lparr>b_refcnt := b_refcnt x - 1\<rparr>) s;
               s = (if b_refcnt (bufs s b) = 0 then s\<lparr>lru := b # remove1 b (lru s)\<rparr> else s)
           in rel Lbcache s)))"

definition bpin :: "nat \<Rightarrow> 'z kbio_scheme \<Rightarrow> 'z kbio_scheme res" where
  "bpin b s =
     bindR (acq Lbcache s) (\<lambda>s. rel Lbcache (updb b (\<lambda>x. x\<lparr>b_refcnt := b_refcnt x + 1\<rparr>) s))"

definition bunpin :: "nat \<Rightarrow> 'z kbio_scheme \<Rightarrow> 'z kbio_scheme res" where
  "bunpin b s =
     bindR (acq Lbcache s) (\<lambda>s. rel Lbcache (updb b (\<lambda>x. x\<lparr>b_refcnt := b_refcnt x - 1\<rparr>) s))"

text \<open>Assigning to \<open>b->data\<close>.\<close>

definition set_data :: "nat \<Rightarrow> byte list \<Rightarrow> 'z kbio_scheme \<Rightarrow> 'z kbio_scheme" where
  "set_data b d s = updb b (\<lambda>x. x\<lparr>b_data := d\<rparr>) s"

section \<open>The cache invariant\<close>

text \<open>
  \<open>pins\<close> counts the extra references the log holds on a buffer, \<open>H\<close> are the buffers the running
  process \<open>p\<close> has locked. A buffer that is neither pinned nor locked can be recycled at any time,
  so its contents, when valid, must be the disk's.
\<close>

definition bio_inv :: "nat \<Rightarrow> (nat \<Rightarrow> nat) \<Rightarrow> nat set \<Rightarrow> 'z kbio_scheme \<Rightarrow> bool" where
  "bio_inv p pins H s \<longleftrightarrow>
     in_kernel p s \<and> distinct (lru s) \<and> set (lru s) = {0..<NBUF} \<and>
     (\<forall>i<NBUF. b_refcnt (bufs s i) = of_nat (pins i + (if i \<in> H then 1 else 0)) \<and> pins i < 2 ^ 31) \<and>
     (\<forall>i<NBUF. sl_locked (slocks s (Lbuf i)) = (i \<in> H) \<and>
        (i \<in> H \<longrightarrow> sl_pid (slocks s (Lbuf i)) = p_pid (procs s p) \<and> b_valid (bufs s i))) \<and>
     (\<forall>i<NBUF. \<forall>j<NBUF. i \<noteq> j \<longrightarrow> b_dev (bufs s i) = 1 \<longrightarrow> b_dev (bufs s j) = 1 \<longrightarrow>
        b_blockno (bufs s i) \<noteq> b_blockno (bufs s j)) \<and>
     (\<forall>i<NBUF. pins i = 0 \<longrightarrow> i \<notin> H \<longrightarrow> b_dev (bufs s i) = 1 \<longrightarrow> b_valid (bufs s i) \<longrightarrow>
        b_data (bufs s i) = disk s (b_blockno (bufs s i))) \<and>
     H \<subseteq> {0..<NBUF}"

definition holds_block :: "'z kbio_scheme \<Rightarrow> u32 \<Rightarrow> nat \<Rightarrow> bool" where
  "holds_block s b i \<longleftrightarrow> b_dev (bufs s i) = 1 \<and> b_blockno (bufs s i) = b"

definition view :: "'z kbio_scheme \<Rightarrow> u32 \<Rightarrow> byte list" where
  "view s b = (case find (\<lambda>i. holds_block s b i \<and> b_valid (bufs s i)) [0..<NBUF] of
     Some i \<Rightarrow> b_data (bufs s i) | None \<Rightarrow> disk s b)"

end
