(* ===== verification/Encode.thy ===== *)
theory Encode
  imports Riscv
begin

text \<open>
  Little-endian integers inside lists of bytes: what a C access through a cast of a buffer to a
  structure reads and writes, and the bytes of a structure that is copied as a whole.
\<close>

fun le_word :: "byte list \<Rightarrow> 'a::len word" where
  "le_word [] = 0"
| "le_word (b # bs) = ucast b OR push_bit 8 (le_word bs)"

definition bytes_le :: "nat \<Rightarrow> 'a::len word \<Rightarrow> byte list" where
  "bytes_le n w = map (\<lambda>i. ucast (drop_bit (8 * i) w)) [0..<n]"

definition overlay :: "byte list \<Rightarrow> nat \<Rightarrow> byte list \<Rightarrow> byte list" where
  "overlay bs a xs = take a bs @ xs @ drop (a + length xs) bs"

definition ldl :: "nat \<Rightarrow> byte list \<Rightarrow> nat \<Rightarrow> 'a::len word" where
  "ldl n bs a = le_word (take n (drop a bs))"

definition stl :: "nat \<Rightarrow> byte list \<Rightarrow> nat \<Rightarrow> 'a::len word \<Rightarrow> byte list" where
  "stl n bs a v = overlay bs a (bytes_le n v)"

text \<open>The C type \<open>int\<close> in memory.\<close>

definition ld_int :: "byte list \<Rightarrow> nat \<Rightarrow> int" where
  "ld_int bs a = sint (ldl 4 bs a :: u32)"

definition st_int :: "byte list \<Rightarrow> nat \<Rightarrow> int \<Rightarrow> byte list" where
  "st_int bs a v = stl 4 bs a (word_of_int v :: u32)"

section \<open>Laws\<close>

lemma bit_le_word:
  "bit (le_word bs :: 'a::len word) k \<longleftrightarrow> k < LENGTH('a) \<and> k div 8 < length bs \<and> bit (bs ! (k div 8)) (k mod 8)"
proof (induction bs arbitrary: k)
  case (Cons b bs)
  show ?case
  proof (cases "k < 8")
    case False
    then have "k div 8 = Suc ((k - 8) div 8)" "k mod 8 = (k - 8) mod 8"
      by (simp_all add: le_div_geq le_mod_geq)
    then show ?thesis using False Cons.IH [of "k - 8"]
      by (auto simp: bit_simps dest: bit_imp_le_length)
  qed (auto simp: bit_simps)
qed simp

lemma length_bytes_le [simp]: "length (bytes_le n w) = n"
  by (simp add: bytes_le_def)

lemma le_word_bytes [simp]:
  assumes "LENGTH('a) \<le> 8 * n"
  shows "le_word (bytes_le n w) = (w :: 'a::len word)"
proof (rule bit_word_eqI)
  fix k assume k: "k < LENGTH('a)"
  with assms have "k div 8 < n" by (simp add: div_less_iff_less_mult)
  moreover have "8 * (k div 8) + k mod 8 = k" by simp
  ultimately show "bit (le_word (bytes_le n w) :: 'a word) k = bit w k"
    using k by (auto simp: bit_le_word bytes_le_def bit_simps)
qed

lemma length_overlay [simp]: "a + length xs \<le> length bs \<Longrightarrow> length (overlay bs a xs) = length bs"
  by (simp add: overlay_def)

lemma length_stl [simp]: "a + n \<le> length bs \<Longrightarrow> length (stl n bs a v) = length bs"
  by (simp add: stl_def)

lemma take_drop_overlay_same: "a \<le> length bs \<Longrightarrow> take (length xs) (drop a (overlay bs a xs)) = xs"
  by (simp add: overlay_def)

lemma nth_overlay:
  "x < length bs \<Longrightarrow> a + length xs \<le> length bs \<Longrightarrow>
   overlay bs a xs ! x = (if a \<le> x \<and> x < a + length xs then xs ! (x - a) else bs ! x)"
  by (auto simp: overlay_def nth_append min_def)

lemma overlay_other:
  assumes "a + length xs \<le> b \<or> b + n \<le> a" "a + length xs \<le> length bs" "b + n \<le> length bs"
  shows "take n (drop b (overlay bs a xs)) = take n (drop b bs)"
  by (rule nth_equalityI) (use assms in \<open>auto simp: nth_overlay\<close>)

lemma ldl_stl_same [simp]:
  assumes "LENGTH('a) \<le> 8 * n" "a + n \<le> length bs"
  shows "ldl n (stl n bs a v) a = (v :: 'a::len word)"
  using take_drop_overlay_same [of a bs "bytes_le n v"] assms by (simp add: ldl_def stl_def)

lemma ldl_stl_other [simp]:
  assumes "b + k \<le> a \<or> a + n \<le> b" "a + n \<le> length bs" "b + k \<le> length bs"
  shows "ldl n (stl k bs b v) a = ldl n bs a"
  using overlay_other [of b "bytes_le k v" a n bs] assms by (simp add: ldl_def stl_def)

lemma length_st_int [simp]: "a + 4 \<le> length bs \<Longrightarrow> length (st_int bs a v) = length bs"
  by (simp add: st_int_def)

lemma ld_st_int_other [simp]:
  "b + 4 \<le> a \<or> a + 4 \<le> b \<Longrightarrow> a + 4 \<le> length bs \<Longrightarrow> b + 4 \<le> length bs \<Longrightarrow> ld_int (st_int bs b v) a = ld_int bs a"
  by (simp add: ld_int_def st_int_def)

lemma ld_st_int_same [simp]:
  "a + 4 \<le> length bs \<Longrightarrow> - (2 ^ 31) \<le> v \<Longrightarrow> v < 2 ^ 31 \<Longrightarrow> ld_int (st_int bs a v) a = v"
  by (simp add: ld_int_def st_int_def signed_of_int signed_take_bit_int_eq_self)

end
