(* ===== verification/Log.thy ===== *)
theory Log
  imports Bio Encode
begin

text \<open>
  \<^verbatim>\<open>kernel/log.c\<close>: the write-ahead log. The header block is a \<open>struct logheader\<close> (a count and
  \<open>LOGSIZE\<close> block numbers, 4 bytes each) at block \<open>log.start\<close>; copies of the logged blocks follow.
\<close>

section \<open>State and operations\<close>

abbreviation (input) "LOGSIZE \<equiv> 30 :: nat"
abbreviation (input) "MAXOPBLOCKS \<equiv> 10 :: int"

record klog = kbio +
  l_start :: int
  l_size :: int
  l_outstanding :: int
  l_committing :: int
  l_dev :: int
  l_n :: int
  l_block :: "int list"

definition log_bread :: "int \<Rightarrow> 'z klog_scheme \<Rightarrow> (nat \<times> 'z klog_scheme) res" where
  "log_bread blockno s = bread (word_of_int (l_dev s)) (word_of_int blockno) s"

definition install_trans_1 :: "bool \<Rightarrow> nat \<Rightarrow> 'z klog_scheme \<Rightarrow> 'z klog_scheme res" where
  "install_trans_1 recovering tail s =
     bindR (log_bread (l_start s + int tail + 1) s) (\<lambda>(lbuf, s).
     bindR (log_bread (l_block s ! tail) s) (\<lambda>(dbuf, s).
     bindR (bwrite dbuf (set_data dbuf (b_data (bufs s lbuf)) s)) (\<lambda>s.
     bindR (if recovering then Inr s else bunpin dbuf s) (\<lambda>s.
     bindR (brelse lbuf s) (brelse dbuf)))))"

definition install_trans :: "bool \<Rightarrow> 'z klog_scheme \<Rightarrow> 'z klog_scheme res" where
  "install_trans recovering s = foldR (install_trans_1 recovering) [0..<nat (l_n s)] s"

definition read_head :: "'z klog_scheme \<Rightarrow> 'z klog_scheme res" where
  "read_head s =
     bindR (log_bread (l_start s) s) (\<lambda>(buf, s).
       let lh = b_data (bufs s buf); s = s\<lparr>l_n := ld_int lh 0\<rparr> in
       bindR (foldR (\<lambda>i s. if i < LOGSIZE then Inr (s\<lparr>l_block := (l_block s)[i := ld_int lh (4 + 4 * i)]\<rparr>)
                           else Inl (UB ''read_head: block[i]'')) [0..<nat (l_n s)] s)
         (brelse buf))"

definition write_head :: "'z klog_scheme \<Rightarrow> 'z klog_scheme res" where
  "write_head s =
     bindR (log_bread (l_start s) s) (\<lambda>(buf, s).
       let hb = st_int (b_data (bufs s buf)) 0 (l_n s);
           hb = fold (\<lambda>i hb. st_int hb (4 + 4 * i) (l_block s ! i)) [0..<nat (l_n s)] hb
       in bindR (bwrite buf (set_data buf hb s)) (brelse buf))"

definition recover_from_log :: "'z klog_scheme \<Rightarrow> 'z klog_scheme res" where
  "recover_from_log s =
     bindR (read_head s) (\<lambda>s.
     bindR (install_trans True s) (\<lambda>s.
       write_head (s\<lparr>l_n := 0\<rparr>)))"

text \<open>\<open>sizeof(struct logheader)\<close> is 124, so the first test of \<open>initlog\<close> never fires.\<close>

definition initlog :: "int \<Rightarrow> u32 \<Rightarrow> u32 \<Rightarrow> 'z klog_scheme \<Rightarrow> 'z klog_scheme res" where
  "initlog dev sb_logstart sb_nlog s =
     (if 4 + 4 * LOGSIZE \<ge> BSIZE then panic ''initlog: too big logheader'' else
      recover_from_log (s\<lparr>held := held s - {Llog}, l_start := sint sb_logstart,
        l_size := sint sb_nlog, l_dev := dev\<rparr>))"

definition begin_op :: "'z klog_scheme \<Rightarrow> 'z klog_scheme res" where
  "begin_op s =
     bindR (acq Llog s) (\<lambda>s.
       if l_committing s \<noteq> 0 then blocked Clog Llog s
       else if l_n s + (l_outstanding s + 1) * MAXOPBLOCKS > int LOGSIZE then blocked Clog Llog s
       else rel Llog (s\<lparr>l_outstanding := l_outstanding s + 1\<rparr>))"

definition write_log_1 :: "nat \<Rightarrow> 'z klog_scheme \<Rightarrow> 'z klog_scheme res" where
  "write_log_1 tail s =
     bindR (log_bread (l_start s + int tail + 1) s) (\<lambda>(to, s).
     bindR (log_bread (l_block s ! tail) s) (\<lambda>(from1, s).
     bindR (bwrite to (set_data to (b_data (bufs s from1)) s)) (\<lambda>s.
     bindR (brelse from1 s) (brelse to))))"

definition write_log :: "'z klog_scheme \<Rightarrow> 'z klog_scheme res" where
  "write_log s = foldR write_log_1 [0..<nat (l_n s)] s"

definition commit :: "'z klog_scheme \<Rightarrow> 'z klog_scheme res" where
  "commit s =
     (if l_n s > 0 then
        bindR (write_log s) (\<lambda>s.
        bindR (write_head s) (\<lambda>s.
        bindR (install_trans False s) (\<lambda>s.
          write_head (s\<lparr>l_n := 0\<rparr>))))
      else Inr s)"

definition end_op :: "'z klog_scheme \<Rightarrow> 'z klog_scheme res" where
  "end_op s =
     bindR (acq Llog s) (\<lambda>s.
       let s = s\<lparr>l_outstanding := l_outstanding s - 1\<rparr> in
       if l_committing s \<noteq> 0 then panic ''log.committing''
       else if l_outstanding s = 0 then
         bindR (rel Llog (s\<lparr>l_committing := 1\<rparr>)) (\<lambda>s.
         bindR (commit s) (\<lambda>s.
         bindR (acq Llog s) (\<lambda>s.
         bindR (wakeup Clog (s\<lparr>l_committing := 0\<rparr>)) (rel Llog))))
       else bindR (wakeup Clog s) (rel Llog))"

definition log_index :: "u32 \<Rightarrow> 'z klog_scheme \<Rightarrow> nat" where
  "log_index b s =
     (case find (\<lambda>i. word_of_int (l_block s ! i) = b) [0..<nat (l_n s)] of
        Some i \<Rightarrow> i | None \<Rightarrow> nat (l_n s))"

definition log_write :: "nat \<Rightarrow> 'z klog_scheme \<Rightarrow> 'z klog_scheme res" where
  "log_write b s =
     bindR (acq Llog s) (\<lambda>s.
       if l_n s \<ge> int LOGSIZE \<or> l_n s \<ge> l_size s - 1 then panic ''too big a transaction''
       else if l_outstanding s < 1 then panic ''log_write outside of trans''
       else
         let i = log_index (b_blockno (bufs s b)) s;
             s = s\<lparr>l_block := (l_block s)[i := sint (b_blockno (bufs s b))]\<rparr>
         in if int i = l_n s
            then bindR (bpin b s) (\<lambda>s. rel Llog (s\<lparr>l_n := l_n s + 1\<rparr>))
            else rel Llog s)"

end
