(* ===== verification/Fs.thy ===== *)
theory Fs
  imports Log KString
begin

text \<open>
  \<^verbatim>\<open>kernel/fs.c\<close>: blocks, inodes, directories and path names, on the log. An in-memory inode is
  named by its index in \<open>itable.inode\<close>, so the tests \<open>ip == 0\<close> of \<open>ilock\<close> and \<open>iunlock\<close> have no
  counterpart: a null pointer is \<open>None\<close>, and every caller tests for it first. A C \<open>short\<close> is kept as
  its 16 bits. Offsets into a file are natural numbers where the code has checked that \<open>off + n\<close>
  does not wrap. A path and a name are the arrays they sit in, with the terminating NUL.
\<close>

section \<open>On-disk structures (\<^verbatim>\<open>kernel/fs.h\<close>)\<close>

abbreviation (input) "ROOTDEV \<equiv> 1 :: u32"
abbreviation (input) "ROOTINO \<equiv> 1 :: u32"
abbreviation (input) "FSMAGIC \<equiv> 0x10203040 :: u32"
abbreviation (input) "NDIRECT \<equiv> 12 :: nat"
abbreviation (input) "NINDIRECT \<equiv> 256 :: nat"
abbreviation (input) "MAXFILE \<equiv> 268 :: nat"
abbreviation (input) "IPB \<equiv> 16 :: nat"
abbreviation (input) "BPB \<equiv> 8192 :: nat"
abbreviation (input) "DIRSIZ \<equiv> 14 :: nat"
abbreviation (input) "NINODE \<equiv> 50 :: nat"
abbreviation (input) "T_DIR \<equiv> 1 :: u16"
abbreviation (input) "T_FILE \<equiv> 2 :: u16"
abbreviation (input) "T_DEVICE \<equiv> 3 :: u16"

record superblock =
  sb_magic :: u32
  sb_size :: u32
  sb_nblocks :: u32
  sb_ninodes :: u32
  sb_nlog :: u32
  sb_logstart :: u32
  sb_inodestart :: u32
  sb_bmapstart :: u32

definition dec_superblock :: "byte list \<Rightarrow> superblock" where
  "dec_superblock bs =
     \<lparr>sb_magic = ldl 4 bs 0, sb_size = ldl 4 bs 4, sb_nblocks = ldl 4 bs 8, sb_ninodes = ldl 4 bs 12,
      sb_nlog = ldl 4 bs 16, sb_logstart = ldl 4 bs 20, sb_inodestart = ldl 4 bs 24, sb_bmapstart = ldl 4 bs 28\<rparr>"

record dinode =
  d_type :: u16
  d_major :: u16
  d_minor :: u16
  d_nlink :: u16
  d_size :: u32
  d_addrs :: "u32 list"

definition enc_dinode :: "dinode \<Rightarrow> byte list" where
  "enc_dinode d = bytes_le 2 (d_type d) @ bytes_le 2 (d_major d) @ bytes_le 2 (d_minor d) @
     bytes_le 2 (d_nlink d) @ bytes_le 4 (d_size d) @ concat (map (bytes_le 4) (d_addrs d))"

definition dec_dinode :: "byte list \<Rightarrow> nat \<Rightarrow> dinode" where
  "dec_dinode bs o1 =
     \<lparr>d_type = ldl 2 bs o1, d_major = ldl 2 bs (o1 + 2), d_minor = ldl 2 bs (o1 + 4), d_nlink = ldl 2 bs (o1 + 6),
      d_size = ldl 4 bs (o1 + 8), d_addrs = map (\<lambda>i. ldl 4 bs (o1 + 12 + 4 * i)) [0..<NDIRECT + 1]\<rparr>"

text \<open>The address of inode \<open>inum\<close>: block \<open>IBLOCK(inum, sb)\<close>, entry \<open>inum % IPB\<close>.\<close>

definition IBLOCK :: "u32 \<Rightarrow> superblock \<Rightarrow> u32" where
  "IBLOCK i sb = i div of_nat IPB + sb_inodestart sb"

definition BBLOCK :: "u32 \<Rightarrow> superblock \<Rightarrow> u32" where
  "BBLOCK b sb = b div of_nat BPB + sb_bmapstart sb"

definition ioff :: "u32 \<Rightarrow> nat" where
  "ioff inum = 64 * (unat inum mod IPB)"

text \<open>A directory entry: 2 bytes of inode number, 14 of name.\<close>

definition enc_dirent :: "u16 \<Rightarrow> byte list \<Rightarrow> byte list" where
  "enc_dirent inum nm = bytes_le 2 inum @ nm"

definition de_inum :: "byte list \<Rightarrow> u16" where
  "de_inum de = ldl 2 de 0"

definition de_name :: "byte list \<Rightarrow> byte list" where
  "de_name de = take DIRSIZ (drop 2 de)"

section \<open>State\<close>

record inode =
  i_dev :: u32
  i_inum :: u32
  i_ref :: int
  i_valid :: bool
  i_type :: u16
  i_major :: u16
  i_minor :: u16
  i_nlink :: u16
  i_size :: u32
  i_addrs :: "u32 list"

record kfs = klog +
  sb :: superblock
  inodes :: "nat \<Rightarrow> inode"

definition updi :: "nat \<Rightarrow> (inode \<Rightarrow> inode) \<Rightarrow> 'z kfs_scheme \<Rightarrow> 'z kfs_scheme" where
  "updi i f s = s\<lparr>inodes := (inodes s)(i := f (inodes s i))\<rparr>"

section \<open>Blocks\<close>

definition readsb :: "int \<Rightarrow> 'z kfs_scheme \<Rightarrow> (superblock \<times> 'z kfs_scheme) res" where
  "readsb dev s =
     bindR (bread (word_of_int dev) 1 s) (\<lambda>(bp, s).
       let r = dec_superblock (b_data (bufs s bp)) in bindR (brelse bp s) (\<lambda>s. Inr (r, s)))"

definition fsinit :: "int \<Rightarrow> 'z kfs_scheme \<Rightarrow> 'z kfs_scheme res" where
  "fsinit dev s =
     bindR (readsb dev s) (\<lambda>(r, s).
       let s = s\<lparr>sb := r\<rparr> in
       if sb_magic (sb s) \<noteq> FSMAGIC then panic ''invalid file system''
       else initlog dev (sb_logstart (sb s)) (sb_nlog (sb s)) s)"

definition bzero :: "u32 \<Rightarrow> u32 \<Rightarrow> 'z kfs_scheme \<Rightarrow> 'z kfs_scheme res" where
  "bzero dev bno s =
     bindR (bread dev bno s) (\<lambda>(bp, s).
       bindR (log_write bp (set_data bp (replicate BSIZE 0) s)) (brelse bp))"

fun balloc_loop :: "u32 \<Rightarrow> nat list \<Rightarrow> 'z kfs_scheme \<Rightarrow> (u32 \<times> 'z kfs_scheme) res" where
  "balloc_loop dev [] s = bindR (printf ''balloc: out of blocks\<newline>'' [] s) (\<lambda>s. Inr (0, s))"
| "balloc_loop dev (b # bs) s =
     bindR (bread dev (BBLOCK (of_nat b) (sb s)) s) (\<lambda>(bp, s).
       let d = b_data (bufs s bp) in
       case find (\<lambda>bi. \<not> bit (d ! (bi div 8)) (bi mod 8)) [0..<min BPB (unat (sb_size (sb s)) - b)] of
         Some bi \<Rightarrow>
           let s = set_data bp (d[bi div 8 := d ! (bi div 8) OR push_bit (bi mod 8) 1]) s in
           bindR (log_write bp s) (\<lambda>s.
           bindR (brelse bp s) (\<lambda>s.
           bindR (bzero dev (of_nat (b + bi)) s) (\<lambda>s. Inr (of_nat (b + bi), s))))
       | None \<Rightarrow> bindR (brelse bp s) (balloc_loop dev bs))"

definition balloc :: "u32 \<Rightarrow> 'z kfs_scheme \<Rightarrow> (u32 \<times> 'z kfs_scheme) res" where
  "balloc dev s = balloc_loop dev (map (\<lambda>k. k * BPB) [0..<(unat (sb_size (sb s)) + (BPB - 1)) div BPB]) s"

definition bfree :: "u32 \<Rightarrow> u32 \<Rightarrow> 'z kfs_scheme \<Rightarrow> 'z kfs_scheme res" where
  "bfree dev b s =
     bindR (bread dev (BBLOCK b (sb s)) s) (\<lambda>(bp, s).
       let d = b_data (bufs s bp); bi = unat b mod BPB in
       if \<not> bit (d ! (bi div 8)) (bi mod 8) then panic ''freeing free block''
       else
         bindR (log_write bp (set_data bp (d[bi div 8 := d ! (bi div 8) AND NOT (push_bit (bi mod 8) 1)]) s))
           (brelse bp))"

section \<open>Inodes\<close>

definition iinit :: "'z kfs_scheme \<Rightarrow> 'z kfs_scheme" where
  "iinit s = fold (\<lambda>i. initsleeplock (Linode i) ''inode'') [0..<NINODE] (s\<lparr>held := held s - {Litable}\<rparr>)"

fun iget_scan :: "u32 \<Rightarrow> u32 \<Rightarrow> nat list \<Rightarrow> nat option \<Rightarrow> 'z kfs_scheme \<Rightarrow> nat option \<times> nat option" where
  "iget_scan dev inum [] emp s = (None, emp)"
| "iget_scan dev inum (ip # ips) emp s =
     (if i_ref (inodes s ip) > 0 \<and> i_dev (inodes s ip) = dev \<and> i_inum (inodes s ip) = inum
      then (Some ip, emp)
      else iget_scan dev inum ips (if emp = None \<and> i_ref (inodes s ip) = 0 then Some ip else emp) s)"

definition iget :: "u32 \<Rightarrow> u32 \<Rightarrow> 'z kfs_scheme \<Rightarrow> (nat \<times> 'z kfs_scheme) res" where
  "iget dev inum s =
     bindR (acq Litable s) (\<lambda>s.
       case iget_scan dev inum [0..<NINODE] None s of
         (Some ip, _) \<Rightarrow>
           bindR (rel Litable (updi ip (\<lambda>x. x\<lparr>i_ref := i_ref x + 1\<rparr>) s)) (\<lambda>s. Inr (ip, s))
       | (None, None) \<Rightarrow> panic ''iget: no inodes''
       | (None, Some ip) \<Rightarrow>
           bindR (rel Litable (updi ip (\<lambda>x. x\<lparr>i_dev := dev, i_inum := inum, i_ref := 1, i_valid := False\<rparr>) s))
             (\<lambda>s. Inr (ip, s)))"

fun ialloc_loop :: "u32 \<Rightarrow> u16 \<Rightarrow> nat list \<Rightarrow> 'z kfs_scheme \<Rightarrow> (nat option \<times> 'z kfs_scheme) res" where
  "ialloc_loop dev ty [] s = bindR (printf ''ialloc: no inodes\<newline>'' [] s) (\<lambda>s. Inr (None, s))"
| "ialloc_loop dev ty (inum # inums) s =
     bindR (bread dev (IBLOCK (of_nat inum) (sb s)) s) (\<lambda>(bp, s).
       let d = b_data (bufs s bp); o1 = ioff (of_nat inum) in
       if d_type (dec_dinode d o1) = 0 then
         let s = set_data bp (stl 2 (overlay d o1 (replicate 64 0)) o1 ty) s in
         bindR (log_write bp s) (\<lambda>s.
         bindR (brelse bp s) (\<lambda>s.
         bindR (iget dev (of_nat inum) s) (\<lambda>(ip, s). Inr (Some ip, s))))
       else bindR (brelse bp s) (ialloc_loop dev ty inums))"

definition ialloc :: "u32 \<Rightarrow> u16 \<Rightarrow> 'z kfs_scheme \<Rightarrow> (nat option \<times> 'z kfs_scheme) res" where
  "ialloc dev ty s = ialloc_loop dev ty [1..<unat (sb_ninodes (sb s))] s"

text \<open>The part of an in-memory inode that lives on disk.\<close>

definition to_dinode :: "inode \<Rightarrow> dinode" where
  "to_dinode x = \<lparr>d_type = i_type x, d_major = i_major x, d_minor = i_minor x, d_nlink = i_nlink x,
     d_size = i_size x, d_addrs = i_addrs x\<rparr>"

definition iupdate :: "nat \<Rightarrow> 'z kfs_scheme \<Rightarrow> 'z kfs_scheme res" where
  "iupdate ip s =
     bindR (bread (i_dev (inodes s ip)) (IBLOCK (i_inum (inodes s ip)) (sb s)) s) (\<lambda>(bp, s).
       let d = overlay (b_data (bufs s bp)) (ioff (i_inum (inodes s ip))) (enc_dinode (to_dinode (inodes s ip))) in
       bindR (log_write bp (set_data bp d s)) (brelse bp))"

definition idup :: "nat \<Rightarrow> 'z kfs_scheme \<Rightarrow> 'z kfs_scheme res" where
  "idup ip s = bindR (acq Litable s) (\<lambda>s. rel Litable (updi ip (\<lambda>x. x\<lparr>i_ref := i_ref x + 1\<rparr>) s))"

definition ilock :: "nat \<Rightarrow> 'z kfs_scheme \<Rightarrow> 'z kfs_scheme res" where
  "ilock ip s =
     (if i_ref (inodes s ip) < 1 then panic ''ilock'' else
      bindR (acquiresleep (Linode ip) s) (\<lambda>s.
        if i_valid (inodes s ip) then Inr s else
        bindR (bread (i_dev (inodes s ip)) (IBLOCK (i_inum (inodes s ip)) (sb s)) s) (\<lambda>(bp, s).
          let d = dec_dinode (b_data (bufs s bp)) (ioff (i_inum (inodes s ip)));
              s = updi ip (\<lambda>x. x\<lparr>i_type := d_type d, i_major := d_major d, i_minor := d_minor d,
                     i_nlink := d_nlink d, i_size := d_size d, i_addrs := d_addrs d\<rparr>) s
          in bindR (brelse bp s) (\<lambda>s.
               let s = updi ip (\<lambda>x. x\<lparr>i_valid := True\<rparr>) s in
               if i_type (inodes s ip) = 0 then panic ''ilock: no type'' else Inr s))))"

definition iunlock :: "nat \<Rightarrow> 'z kfs_scheme \<Rightarrow> 'z kfs_scheme res" where
  "iunlock ip s =
     bindR (holdingsleep (Linode ip) s) (\<lambda>(h, s).
       if \<not> h \<or> i_ref (inodes s ip) < 1 then panic ''iunlock'' else releasesleep (Linode ip) s)"

definition bmap_indirect :: "nat \<Rightarrow> nat \<Rightarrow> u32 \<Rightarrow> 'z kfs_scheme \<Rightarrow> (u32 \<times> 'z kfs_scheme) res" where
  "bmap_indirect ip bn addr s =
     bindR (bread (i_dev (inodes s ip)) addr s) (\<lambda>(bp, s).
       let addr = ldl 4 (b_data (bufs s bp)) (4 * bn) in
       if addr = 0 then
         bindR (balloc (i_dev (inodes s ip)) s) (\<lambda>(addr, s).
           bindR (if addr \<noteq> 0 then log_write bp (set_data bp (stl 4 (b_data (bufs s bp)) (4 * bn) addr) s)
                  else Inr s)
             (\<lambda>s. bindR (brelse bp s) (\<lambda>s. Inr (addr, s))))
       else bindR (brelse bp s) (\<lambda>s. Inr (addr, s)))"

definition bmap :: "nat \<Rightarrow> nat \<Rightarrow> 'z kfs_scheme \<Rightarrow> (u32 \<times> 'z kfs_scheme) res" where
  "bmap ip bn s =
     (if bn < NDIRECT then
        (let addr = i_addrs (inodes s ip) ! bn in
         if addr = 0 then
           bindR (balloc (i_dev (inodes s ip)) s) (\<lambda>(addr, s).
             if addr = 0 then Inr (0, s)
             else Inr (addr, updi ip (\<lambda>x. x\<lparr>i_addrs := (i_addrs x)[bn := addr]\<rparr>) s))
         else Inr (addr, s))
      else if bn - NDIRECT < NINDIRECT then
        (let addr = i_addrs (inodes s ip) ! NDIRECT in
         if addr = 0 then
           bindR (balloc (i_dev (inodes s ip)) s) (\<lambda>(addr, s).
             if addr = 0 then Inr (0, s)
             else bmap_indirect ip (bn - NDIRECT) addr
                    (updi ip (\<lambda>x. x\<lparr>i_addrs := (i_addrs x)[NDIRECT := addr]\<rparr>) s))
         else bmap_indirect ip (bn - NDIRECT) addr s)
      else panic ''bmap: out of range'')"

definition itrunc :: "nat \<Rightarrow> 'z kfs_scheme \<Rightarrow> 'z kfs_scheme res" where
  "itrunc ip s =
     bindR (foldR (\<lambda>i s.
        if i_addrs (inodes s ip) ! i \<noteq> 0 then
          bindR (bfree (i_dev (inodes s ip)) (i_addrs (inodes s ip) ! i) s) (\<lambda>s.
            Inr (updi ip (\<lambda>x. x\<lparr>i_addrs := (i_addrs x)[i := 0]\<rparr>) s))
        else Inr s) [0..<NDIRECT] s) (\<lambda>s.
     bindR (if i_addrs (inodes s ip) ! NDIRECT \<noteq> 0 then
              bindR (bread (i_dev (inodes s ip)) (i_addrs (inodes s ip) ! NDIRECT) s) (\<lambda>(bp, s).
              bindR (foldR (\<lambda>j s.
                 let a = ldl 4 (b_data (bufs s bp)) (4 * j) in
                 if a \<noteq> 0 then bfree (i_dev (inodes s ip)) a s else Inr s) [0..<NINDIRECT] s) (\<lambda>s.
              bindR (brelse bp s) (\<lambda>s.
              bindR (bfree (i_dev (inodes s ip)) (i_addrs (inodes s ip) ! NDIRECT) s) (\<lambda>s.
                Inr (updi ip (\<lambda>x. x\<lparr>i_addrs := (i_addrs x)[NDIRECT := 0]\<rparr>) s)))))
            else Inr s) (\<lambda>s.
       iupdate ip (updi ip (\<lambda>x. x\<lparr>i_size := 0\<rparr>) s)))"

definition iput :: "nat \<Rightarrow> 'z kfs_scheme \<Rightarrow> 'z kfs_scheme res" where
  "iput ip s =
     bindR (acq Litable s) (\<lambda>s.
     bindR (if i_ref (inodes s ip) = 1 \<and> i_valid (inodes s ip) \<and> i_nlink (inodes s ip) = 0 then
              bindR (acquiresleep (Linode ip) s) (\<lambda>s.
              bindR (rel Litable s) (\<lambda>s.
              bindR (itrunc ip s) (\<lambda>s.
              bindR (iupdate ip (updi ip (\<lambda>x. x\<lparr>i_type := 0\<rparr>) s)) (\<lambda>s.
              bindR (releasesleep (Linode ip) (updi ip (\<lambda>x. x\<lparr>i_valid := False\<rparr>) s))
                (acq Litable)))))
            else Inr s) (\<lambda>s.
       rel Litable (updi ip (\<lambda>x. x\<lparr>i_ref := i_ref x - 1\<rparr>) s)))"

definition iunlockput :: "nat \<Rightarrow> 'z kfs_scheme \<Rightarrow> 'z kfs_scheme res" where
  "iunlockput ip s = bindR (iunlock ip s) (iput ip)"

section \<open>Inode content\<close>

record stat =
  st_dev :: u32
  st_ino :: u32
  st_type :: u16
  st_nlink :: u16
  st_size :: u64

definition stati :: "nat \<Rightarrow> 'z kfs_scheme \<Rightarrow> stat" where
  "stati ip s = (let x = inodes s ip in
     \<lparr>st_dev = i_dev x, st_ino = i_inum x, st_type = i_type x, st_nlink = i_nlink x, st_size = ucast (i_size x)\<rparr>)"

text \<open>
  \<open>readi\<close> gives its result, the bytes it put at the destination (for a destination that is a
  variable of the caller), and the state. \<open>bmap\<close> panics for offsets of \<open>MAXFILE * BSIZE\<close> and more, so
  the count always fits an \<open>int\<close>.
\<close>

function readi_loop ::
  "nat \<Rightarrow> dest \<Rightarrow> nat \<Rightarrow> nat \<Rightarrow> nat \<Rightarrow> 'z kfs_scheme \<Rightarrow> (int \<times> byte list \<times> 'z kfs_scheme) res" where
  "readi_loop ip dst off tot n s =
     (if tot < n then
        bindR (bmap ip (off div BSIZE) s) (\<lambda>(addr, s).
          if addr = 0 then Inr (int tot, [], s) else
          bindR (bread (i_dev (inodes s ip)) addr s) (\<lambda>(bp, s).
            let m = min (n - tot) (BSIZE - off mod BSIZE);
                bs = take m (drop (off mod BSIZE) (b_data (bufs s bp)))
            in bindR (either_copyout dst bs s) (\<lambda>(r, s).
                 bindR (brelse bp s) (\<lambda>s.
                   if r = -1 then Inr (-1, [], s) else
                   bindR (readi_loop ip (dest_add dst m) (off + m) (tot + m) n s) (\<lambda>(r, rest, s).
                     Inr (r, bs @ rest, s))))))
      else Inr (int tot, [], s))"
  by pat_completeness auto
termination
  by (relation "measure (\<lambda>(ip, dst, off, tot, n, s). n - tot)") auto

definition readi ::
  "nat \<Rightarrow> dest \<Rightarrow> u32 \<Rightarrow> u32 \<Rightarrow> 'z kfs_scheme \<Rightarrow> (int \<times> byte list \<times> 'z kfs_scheme) res" where
  "readi ip dst off n s =
     (let sz = i_size (inodes s ip) in
      if off > sz \<or> off + n < off then Inr (0, [], s)
      else readi_loop ip dst (unat off) 0 (unat (if off + n > sz then sz - off else n)) s)"

text \<open>The result of the loop of \<open>writei\<close> is \<open>tot\<close> and \<open>off\<close> at its end.\<close>

function writei_loop ::
  "nat \<Rightarrow> source \<Rightarrow> nat \<Rightarrow> nat \<Rightarrow> nat \<Rightarrow> 'z kfs_scheme \<Rightarrow> (nat \<times> nat \<times> 'z kfs_scheme) res" where
  "writei_loop ip src off tot n s =
     (if tot < n then
        bindR (bmap ip (off div BSIZE) s) (\<lambda>(addr, s).
          if addr = 0 then Inr (tot, off, s) else
          bindR (bread (i_dev (inodes s ip)) addr s) (\<lambda>(bp, s).
            let m = min (n - tot) (BSIZE - off mod BSIZE) in
            bindR (either_copyin src m s) (\<lambda>(r, bs).
              let s = set_data bp (overlay (b_data (bufs s bp)) (off mod BSIZE) bs) s in
              if r = -1 then bindR (brelse bp s) (\<lambda>s. Inr (tot, off, s)) else
              bindR (log_write bp s) (\<lambda>s.
              bindR (brelse bp s) (\<lambda>s.
                writei_loop ip (source_add src m) (off + m) (tot + m) n s)))))
      else Inr (tot, off, s))"
  by pat_completeness auto
termination
  by (relation "measure (\<lambda>(ip, src, off, tot, n, s). n - tot)") auto

definition writei :: "nat \<Rightarrow> source \<Rightarrow> u32 \<Rightarrow> u32 \<Rightarrow> 'z kfs_scheme \<Rightarrow> (int \<times> 'z kfs_scheme) res" where
  "writei ip src off n s =
     (if off > i_size (inodes s ip) \<or> off + n < off then Inr (-1, s)
      else if unat (off + n) > MAXFILE * BSIZE then Inr (-1, s)
      else
        bindR (writei_loop ip src (unat off) 0 (unat n) s) (\<lambda>(tot, off, s).
          let s = (if off > unat (i_size (inodes s ip)) then updi ip (\<lambda>x. x\<lparr>i_size := of_nat off\<rparr>) s else s) in
          bindR (iupdate ip s) (\<lambda>s. Inr (int tot, s))))"

section \<open>Directories\<close>

definition namecmp :: "byte list \<Rightarrow> byte list \<Rightarrow> int res" where
  "namecmp s t = strncmp s t DIRSIZ"

definition dir_offsets :: "nat \<Rightarrow> nat list" where
  "dir_offsets sz = map (\<lambda>k. 16 * k) [0..<(sz + 15) div 16]"

text \<open>\<open>dirlookup\<close> returns the inode and what it stores through \<open>poff\<close>.\<close>

fun dirlookup_loop ::
  "nat \<Rightarrow> byte list \<Rightarrow> nat list \<Rightarrow> 'z kfs_scheme \<Rightarrow> ((nat \<times> u32) option \<times> 'z kfs_scheme) res" where
  "dirlookup_loop dp nm [] s = Inr (None, s)"
| "dirlookup_loop dp nm (off # offs) s =
     bindR (readi dp ToLocal (of_nat off) 16 s) (\<lambda>(r, de, s).
       if r \<noteq> 16 then panic ''dirlookup read''
       else if de_inum de = 0 then dirlookup_loop dp nm offs s
       else
         bindR (namecmp nm (de_name de)) (\<lambda>c.
           if c = 0 then
             bindR (iget (i_dev (inodes s dp)) (ucast (de_inum de)) s) (\<lambda>(ip, s).
               Inr (Some (ip, of_nat off), s))
           else dirlookup_loop dp nm offs s))"

definition dirlookup :: "nat \<Rightarrow> byte list \<Rightarrow> 'z kfs_scheme \<Rightarrow> ((nat \<times> u32) option \<times> 'z kfs_scheme) res" where
  "dirlookup dp nm s =
     (if i_type (inodes s dp) \<noteq> T_DIR then panic ''dirlookup not DIR''
      else dirlookup_loop dp nm (dir_offsets (unat (i_size (inodes s dp)))) s)"

text \<open>The search of \<open>dirlink\<close> for an empty entry ends at the size of the directory if there is none.\<close>

fun dirlink_loop :: "nat \<Rightarrow> nat list \<Rightarrow> nat \<Rightarrow> 'z kfs_scheme \<Rightarrow> (nat \<times> 'z kfs_scheme) res" where
  "dirlink_loop dp [] off s = Inr (off, s)"
| "dirlink_loop dp (off # offs) _ s =
     bindR (readi dp ToLocal (of_nat off) 16 s) (\<lambda>(r, de, s).
       if r \<noteq> 16 then panic ''dirlink read''
       else if de_inum de = 0 then Inr (off, s)
       else dirlink_loop dp offs (off + 16) s)"

definition dirlink :: "nat \<Rightarrow> byte list \<Rightarrow> u32 \<Rightarrow> 'z kfs_scheme \<Rightarrow> (int \<times> 'z kfs_scheme) res" where
  "dirlink dp nm inum s =
     bindR (dirlookup dp nm s) (\<lambda>(r, s).
       case r of
         Some (ip, _) \<Rightarrow> bindR (iput ip s) (\<lambda>s. Inr (-1, s))
       | None \<Rightarrow>
           bindR (dirlink_loop dp (dir_offsets (unat (i_size (inodes s dp)))) 0 s) (\<lambda>(off, s).
           bindR (strncpy (replicate DIRSIZ 0) nm (int DIRSIZ)) (\<lambda>de_nm.
           bindR (writei dp (FromKernel (enc_dirent (ucast inum) de_nm)) (of_nat off) 16 s) (\<lambda>(r, s).
             if r \<noteq> 16 then Inr (-1, s) else Inr (0, s)))))"

section \<open>Paths\<close>

abbreviation (input) "SLASH \<equiv> 47 :: byte"

definition skipelem :: "byte list \<Rightarrow> byte list \<Rightarrow> (byte list \<times> byte list) option res" where
  "skipelem path nm =
     (case dropWhile (\<lambda>c. c = SLASH) path of
        [] \<Rightarrow> Inl (UB ''skipelem: past the end'')
      | c # cs \<Rightarrow>
          if c = 0 then Inr None
          else
            let elem = takeWhile (\<lambda>c. c \<noteq> SLASH \<and> c \<noteq> 0) (c # cs);
                path = dropWhile (\<lambda>c. c \<noteq> SLASH \<and> c \<noteq> 0) (c # cs);
                nm = (if length elem \<ge> DIRSIZ then overlay nm 0 (take DIRSIZ elem)
                      else (overlay nm 0 elem)[length elem := 0]);
                path = dropWhile (\<lambda>c. c = SLASH) path
            in if path = [] then Inl (UB ''skipelem: past the end'') else Inr (Some (path, nm)))"

lemma skipelem_shorter:
  assumes "skipelem path nm = Inr (Some (path', nm'))"
  shows "length path' < length path"
proof (cases "dropWhile (\<lambda>c. c = SLASH) path")
  case (Cons c cs)
  let ?ne = "\<lambda>c. c \<noteq> SLASH \<and> c \<noteq> (0 :: byte)"
  have "c \<noteq> SLASH" using hd_dropWhile [of "\<lambda>c. c = SLASH" path] Cons by simp
  moreover have "c \<noteq> 0" using assms by (intro notI) (simp add: skipelem_def Cons)
  ultimately have d: "dropWhile ?ne (c # cs) = dropWhile ?ne cs" by simp
  have p: "path' = dropWhile (\<lambda>c. c = SLASH) (dropWhile ?ne cs)"
    using assms \<open>c \<noteq> 0\<close> unfolding skipelem_def Cons list.case Let_def d by (simp only: if_False prod.inject option.inject sum.inject sum.distinct split: if_splits)
  have "length path' \<le> length cs"
    unfolding p using length_dropWhile_le [of "\<lambda>c. c = SLASH" "dropWhile ?ne cs"] length_dropWhile_le [of ?ne cs] by linarith
  moreover have "length (c # cs) \<le> length path" unfolding Cons [symmetric] by (rule length_dropWhile_le)
  ultimately show ?thesis by simp
next
  case Nil
  show ?thesis using assms unfolding skipelem_def Nil by simp
qed

function namex_loop ::
  "nat \<Rightarrow> byte list \<Rightarrow> bool \<Rightarrow> byte list \<Rightarrow> 'z kfs_scheme \<Rightarrow> ((nat option \<times> byte list) \<times> 'z kfs_scheme) res" where
  "namex_loop ip path nip nm s =
     bindR (skipelem path nm) (\<lambda>r.
       case r of
         None \<Rightarrow> if nip then bindR (iput ip s) (\<lambda>s. Inr ((None, nm), s)) else Inr ((Some ip, nm), s)
       | Some (path, nm) \<Rightarrow>
           bindR (ilock ip s) (\<lambda>s.
             if i_type (inodes s ip) \<noteq> T_DIR then bindR (iunlockput ip s) (\<lambda>s. Inr ((None, nm), s))
             else if nip \<and> hd path = 0 then bindR (iunlock ip s) (\<lambda>s. Inr ((Some ip, nm), s))
             else
               bindR (dirlookup ip nm s) (\<lambda>(r, s).
                 case r of
                   None \<Rightarrow> bindR (iunlockput ip s) (\<lambda>s. Inr ((None, nm), s))
                 | Some (next1, _) \<Rightarrow> bindR (iunlockput ip s) (namex_loop next1 path nip nm))))"
  by pat_completeness auto
termination
  by (relation "measure (\<lambda>(ip, path, nip, nm, s). length path)") (auto intro: skipelem_shorter)

definition namex :: "byte list \<Rightarrow> bool \<Rightarrow> byte list \<Rightarrow> 'z kfs_scheme \<Rightarrow> ((nat option \<times> byte list) \<times> 'z kfs_scheme) res" where
  "namex path nip nm s =
     (case path of
        [] \<Rightarrow> Inl (UB ''namex: past the end'')
      | c # cs \<Rightarrow>
          if c = SLASH then bindR (iget ROOTDEV ROOTINO s) (\<lambda>(ip, s). namex_loop ip path nip nm s)
          else
            bindR (myproc s) (\<lambda>p.
              case p_cwd (procs s p) of
                None \<Rightarrow> Inl (UB ''idup: null pointer'')
              | Some ip \<Rightarrow> bindR (idup ip s) (namex_loop ip path nip nm)))"

definition namei :: "byte list \<Rightarrow> 'z kfs_scheme \<Rightarrow> (nat option \<times> 'z kfs_scheme) res" where
  "namei path s = bindR (namex path False (replicate DIRSIZ 0) s) (\<lambda>((ip, nm), s). Inr (ip, s))"

definition nameiparent ::
  "byte list \<Rightarrow> byte list \<Rightarrow> 'z kfs_scheme \<Rightarrow> ((nat option \<times> byte list) \<times> 'z kfs_scheme) res" where
  "nameiparent path nm s = namex path True nm s"

declare readi_loop.simps [simp del] writei_loop.simps [simp del] namex_loop.simps [simp del]

end
