(* ===== verification/File.thy ===== *)
theory File
  imports Fs
begin

text \<open>
  \<^verbatim>\<open>kernel/file.c\<close> and \<^verbatim>\<open>kernel/pipe.c\<close>: the table of open files, and pipes. A \<open>struct file\<close> is named by
  its index in \<open>ftable.file\<close>. A \<open>struct pipe\<close> is named by the address of its page; \<open>pipes\<close> is the store
  of the pipes at those addresses. The parts of a file that a descriptor of its kind does not use
  keep what was there before, as in the code.
\<close>

section \<open>State\<close>

abbreviation (input) "PIPESIZE \<equiv> 512 :: nat"
abbreviation (input) "NDEV \<equiv> 10 :: int"

datatype ftype = FD_NONE | FD_PIPE | FD_INODE | FD_DEVICE

record ofile =
  f_type :: ftype
  f_ref :: int
  f_readable :: bool
  f_writable :: bool
  f_pipe :: u64
  f_ip :: nat
  f_off :: u32
  f_major :: u16

record pipe =
  pi_data :: "byte list"
  pi_nread :: u32
  pi_nwrite :: u32
  pi_readopen :: bool
  pi_writeopen :: bool

text \<open>\<open>stk_junk\<close> is what the kernel stack holds under local variables that are not initialised.\<close>

record kfile = kfs +
  files :: "nat \<Rightarrow> ofile"
  pipes :: "u64 \<Rightarrow> pipe"
  stk_junk :: "byte list"

definition updf :: "nat \<Rightarrow> (ofile \<Rightarrow> ofile) \<Rightarrow> 'z kfile_scheme \<Rightarrow> 'z kfile_scheme" where
  "updf i g s = s\<lparr>files := (files s)(i := g (files s i))\<rparr>"

definition updpi :: "u64 \<Rightarrow> (pipe \<Rightarrow> pipe) \<Rightarrow> 'z kfile_scheme \<Rightarrow> 'z kfile_scheme" where
  "updpi a g s = s\<lparr>pipes := (pipes s)(a := g (pipes s a))\<rparr>"

section \<open>Reference counts of open files\<close>

definition fileinit :: "'z kfile_scheme \<Rightarrow> 'z kfile_scheme" where
  "fileinit s = s\<lparr>held := held s - {Lftable}\<rparr>"

definition filealloc :: "'z kfile_scheme \<Rightarrow> (nat option \<times> 'z kfile_scheme) res" where
  "filealloc s =
     bindR (acq Lftable s) (\<lambda>s.
       case find (\<lambda>f. f_ref (files s f) = 0) [0..<NFILE] of
         Some f \<Rightarrow> bindR (rel Lftable (updf f (\<lambda>x. x\<lparr>f_ref := 1\<rparr>) s)) (\<lambda>s. Inr (Some f, s))
       | None \<Rightarrow> bindR (rel Lftable s) (\<lambda>s. Inr (None, s)))"

definition filedup :: "nat \<Rightarrow> 'z kfile_scheme \<Rightarrow> 'z kfile_scheme res" where
  "filedup f s =
     bindR (acq Lftable s) (\<lambda>s.
       if f_ref (files s f) < 1 then panic ''filedup''
       else rel Lftable (updf f (\<lambda>x. x\<lparr>f_ref := f_ref x + 1\<rparr>) s))"

definition pipeclose :: "u64 \<Rightarrow> bool \<Rightarrow> 'z kfile_scheme \<Rightarrow> 'z kfile_scheme res" where
  "pipeclose pi1 writable s =
     bindR (acq (Lpipe pi1) s) (\<lambda>s.
     bindR (if writable then wakeup (Cnread pi1) (updpi pi1 (\<lambda>x. x\<lparr>pi_writeopen := False\<rparr>) s)
            else wakeup (Cnwrite pi1) (updpi pi1 (\<lambda>x. x\<lparr>pi_readopen := False\<rparr>) s)) (\<lambda>s.
       if \<not> pi_readopen (pipes s pi1) \<and> \<not> pi_writeopen (pipes s pi1)
       then bindR (rel (Lpipe pi1) s) (kfree pi1)
       else rel (Lpipe pi1) s))"

definition fileclose :: "nat \<Rightarrow> 'z kfile_scheme \<Rightarrow> 'z kfile_scheme res" where
  "fileclose f s =
     bindR (acq Lftable s) (\<lambda>s.
       if f_ref (files s f) < 1 then panic ''fileclose''
       else
         let s = updf f (\<lambda>x. x\<lparr>f_ref := f_ref x - 1\<rparr>) s in
         if f_ref (files s f) > 0 then rel Lftable s
         else
           let ff = files s f in
           bindR (rel Lftable (updf f (\<lambda>x. x\<lparr>f_ref := 0, f_type := FD_NONE\<rparr>) s)) (\<lambda>s.
             if f_type ff = FD_PIPE then pipeclose (f_pipe ff) (f_writable ff) s
             else if f_type ff = FD_INODE \<or> f_type ff = FD_DEVICE
             then bindR (begin_op s) (\<lambda>s. bindR (iput (f_ip ff) s) end_op)
             else Inr s))"

section \<open>Pipes\<close>

text \<open>The error exit of \<open>pipealloc\<close>; \<open>pi\<close> is always null there.\<close>

definition pipealloc_bad ::
  "nat option \<Rightarrow> nat option \<Rightarrow> 'z kfile_scheme \<Rightarrow> ((nat \<times> nat) option \<times> 'z kfile_scheme) res" where
  "pipealloc_bad f0 f1 s =
     bindR (case f0 of None \<Rightarrow> Inr s | Some f \<Rightarrow> fileclose f s) (\<lambda>s.
     bindR (case f1 of None \<Rightarrow> Inr s | Some f \<Rightarrow> fileclose f s) (\<lambda>s. Inr (None, s)))"

definition pipealloc :: "'z kfile_scheme \<Rightarrow> ((nat \<times> nat) option \<times> 'z kfile_scheme) res" where
  "pipealloc s =
     bindR (filealloc s) (\<lambda>(f0, s).
       case f0 of None \<Rightarrow> pipealloc_bad None None s
       | Some r \<Rightarrow>
         bindR (filealloc s) (\<lambda>(f1, s).
           case f1 of None \<Rightarrow> pipealloc_bad f0 None s
           | Some w \<Rightarrow>
             bindR (kalloc s) (\<lambda>(pi1, s).
               if pi1 = 0 then pipealloc_bad f0 f1 s
               else
                 let s = updpi pi1 (\<lambda>x. x\<lparr>pi_readopen := True, pi_writeopen := True, pi_nwrite := 0, pi_nread := 0\<rparr>) s;
                     s = s\<lparr>held := held s - {Lpipe pi1}\<rparr>;
                     s = updf r (\<lambda>x. x\<lparr>f_type := FD_PIPE, f_readable := True, f_writable := False, f_pipe := pi1\<rparr>) s;
                     s = updf w (\<lambda>x. x\<lparr>f_type := FD_PIPE, f_readable := False, f_writable := True, f_pipe := pi1\<rparr>) s
                 in Inr (Some (r, w), s))))"

text \<open>
  \<open>pipewrite\<close> with the lock held, from \<open>i\<close> on; the second result is \<open>i\<close>. When the pipe is full it
  wakes the readers and waits.
\<close>

function pipewrite_loop ::
  "u64 \<Rightarrow> nat \<Rightarrow> u64 \<Rightarrow> int \<Rightarrow> int \<Rightarrow> 'z kfile_scheme \<Rightarrow> (int outcome \<times> int \<times> 'z kfile_scheme) res" where
  "pipewrite_loop pi1 pr addr n i s =
     (if i < n then
        bindR (if pi_readopen (pipes s pi1) then killed pr s else Inr (1, s)) (\<lambda>(k, s).
          if k \<noteq> 0 then bindR (rel (Lpipe pi1) s) (\<lambda>s. Inr (Ret (-1), i, s))
          else if pi_nwrite (pipes s pi1) = pi_nread (pipes s pi1) + of_nat PIPESIZE then
            bindR (wakeup (Cnread pi1) s) (\<lambda>s. Inr (Blocks (Cnwrite pi1) (Lpipe pi1), i, s))
          else
            bindR (copyin (p_pagetable (procs s pr)) (addr + of_int i) 1 s) (\<lambda>(r, bs).
              if r = -1 then
                bindR (wakeup (Cnread pi1) s) (\<lambda>s. bindR (rel (Lpipe pi1) s) (\<lambda>s. Inr (Ret i, i, s)))
              else
                let s = updpi pi1 (\<lambda>x. x\<lparr>pi_data := (pi_data x)[unat (pi_nwrite x) mod PIPESIZE := hd bs],
                                         pi_nwrite := pi_nwrite x + 1\<rparr>) s
                in pipewrite_loop pi1 pr addr n (i + 1) s))
      else
        bindR (wakeup (Cnread pi1) s) (\<lambda>s. bindR (rel (Lpipe pi1) s) (\<lambda>s. Inr (Ret i, i, s))))"
  by pat_completeness auto
termination
  by (relation "measure (\<lambda>(pi1, pr, addr, n, i, s). nat (n - i))") auto

definition pipewrite :: "u64 \<Rightarrow> u64 \<Rightarrow> int \<Rightarrow> 'z kfile_scheme \<Rightarrow> (int outcome \<times> int \<times> 'z kfile_scheme) res" where
  "pipewrite pi1 addr n s =
     bindR (myproc s) (\<lambda>pr. bindR (acq (Lpipe pi1) s) (pipewrite_loop pi1 pr addr n 0))"

function piperead_copy :: "u64 \<Rightarrow> nat \<Rightarrow> u64 \<Rightarrow> int \<Rightarrow> int \<Rightarrow> 'z kfile_scheme \<Rightarrow> (int \<times> 'z kfile_scheme) res" where
  "piperead_copy pi1 pr addr n i s =
     (if i < n then
        if pi_nread (pipes s pi1) = pi_nwrite (pipes s pi1) then Inr (i, s)
        else
          let ch = pi_data (pipes s pi1) ! (unat (pi_nread (pipes s pi1)) mod PIPESIZE);
              s = updpi pi1 (\<lambda>x. x\<lparr>pi_nread := pi_nread x + 1\<rparr>) s
          in bindR (copyout (p_pagetable (procs s pr)) (addr + of_int i) [ch] s) (\<lambda>(r, s).
               if r = -1 then Inr (i, s) else piperead_copy pi1 pr addr n (i + 1) s)
      else Inr (i, s))"
  by pat_completeness auto
termination
  by (relation "measure (\<lambda>(pi1, pr, addr, n, i, s). nat (n - i))") auto

text \<open>\<open>piperead\<close> with the lock held.\<close>

definition piperead_locked :: "u64 \<Rightarrow> nat \<Rightarrow> u64 \<Rightarrow> int \<Rightarrow> 'z kfile_scheme \<Rightarrow> (int outcome \<times> 'z kfile_scheme) res" where
  "piperead_locked pi1 pr addr n s =
     (if pi_nread (pipes s pi1) = pi_nwrite (pipes s pi1) \<and> pi_writeopen (pipes s pi1) then
        bindR (killed pr s) (\<lambda>(k, s).
          if k \<noteq> 0 then bindR (rel (Lpipe pi1) s) (\<lambda>s. Inr (Ret (-1), s))
          else Inr (Blocks (Cnread pi1) (Lpipe pi1), s))
      else
        bindR (piperead_copy pi1 pr addr n 0 s) (\<lambda>(i, s).
        bindR (wakeup (Cnwrite pi1) s) (\<lambda>s.
        bindR (rel (Lpipe pi1) s) (\<lambda>s. Inr (Ret i, s)))))"

definition piperead :: "u64 \<Rightarrow> u64 \<Rightarrow> int \<Rightarrow> 'z kfile_scheme \<Rightarrow> (int outcome \<times> 'z kfile_scheme) res" where
  "piperead pi1 addr n s =
     bindR (myproc s) (\<lambda>pr. bindR (acq (Lpipe pi1) s) (piperead_locked pi1 pr addr n))"

section \<open>Reading and writing a file\<close>

definition enc_stat :: "byte list \<Rightarrow> stat \<Rightarrow> byte list" where
  "enc_stat pad st = bytes_le 4 (st_dev st) @ bytes_le 4 (st_ino st) @ bytes_le 2 (st_type st) @
     bytes_le 2 (st_nlink st) @ take 4 pad @ bytes_le 8 (st_size st)"

definition filestat :: "nat \<Rightarrow> u64 \<Rightarrow> 'z kfile_scheme \<Rightarrow> (int \<times> 'z kfile_scheme) res" where
  "filestat f addr s =
     bindR (myproc s) (\<lambda>p.
       if f_type (files s f) = FD_INODE \<or> f_type (files s f) = FD_DEVICE then
         bindR (ilock (f_ip (files s f)) s) (\<lambda>s.
           let st = stati (f_ip (files s f)) s in
           bindR (iunlock (f_ip (files s f)) s) (\<lambda>s.
           bindR (copyout (p_pagetable (procs s p)) addr (enc_stat (stk_junk s) st) s) (\<lambda>(r, s).
             if r < 0 then Inr (-1, s) else Inr (0, s))))
       else Inr (-1, s))"

definition fileread :: "nat \<Rightarrow> u64 \<Rightarrow> int \<Rightarrow> 'z kfile_scheme \<Rightarrow> (int outcome \<times> 'z kfile_scheme) res" where
  "fileread f addr n s =
     (if \<not> f_readable (files s f) then Inr (Ret (-1), s) else
      case f_type (files s f) of
        FD_PIPE \<Rightarrow> piperead (f_pipe (files s f)) addr n s
      | FD_DEVICE \<Rightarrow>
          let major = sint (f_major (files s f)) in
          if major < 0 \<or> major \<ge> NDEV \<or> \<not> devsw (con s) (nat major) then Inr (Ret (-1), s)
          else bindR (consoleread (ToUser addr) n s) (\<lambda>(r, _, s). Inr (r, s))
      | FD_INODE \<Rightarrow>
          bindR (ilock (f_ip (files s f)) s) (\<lambda>s.
          bindR (readi (f_ip (files s f)) (ToUser addr) (f_off (files s f)) (word_of_int n) s) (\<lambda>(r, _, s).
            let s = (if r > 0 then updf f (\<lambda>x. x\<lparr>f_off := f_off x + word_of_int r\<rparr>) s else s) in
            bindR (iunlock (f_ip (files s f)) s) (\<lambda>s. Inr (Ret r, s))))
      | FD_NONE \<Rightarrow> panic ''fileread'')"

abbreviation (input) "WMAX \<equiv> 3072 :: int"

function filewrite_loop :: "nat \<Rightarrow> u64 \<Rightarrow> int \<Rightarrow> int \<Rightarrow> 'z kfile_scheme \<Rightarrow> (int \<times> 'z kfile_scheme) res" where
  "filewrite_loop f addr n i s =
     (if i < n then
        let n1 = (if n - i > WMAX then WMAX else n - i) in
        bindR (begin_op s) (\<lambda>s.
        bindR (ilock (f_ip (files s f)) s) (\<lambda>s.
        bindR (writei (f_ip (files s f)) (FromUser (addr + of_int i)) (f_off (files s f)) (word_of_int n1) s) (\<lambda>(r, s).
          let s = (if r > 0 then updf f (\<lambda>x. x\<lparr>f_off := f_off x + word_of_int r\<rparr>) s else s) in
          bindR (iunlock (f_ip (files s f)) s) (\<lambda>s.
          bindR (end_op s) (\<lambda>s.
            if r \<noteq> n1 then Inr (i, s) else filewrite_loop f addr n (i + r) s)))))
      else Inr (i, s))"
  by pat_completeness auto
termination
  by (relation "measure (\<lambda>(f, addr, n, i, s). nat (n - i))") auto

definition filewrite :: "nat \<Rightarrow> u64 \<Rightarrow> int \<Rightarrow> 'z kfile_scheme \<Rightarrow> (int outcome \<times> 'z kfile_scheme) res" where
  "filewrite f addr n s =
     (if \<not> f_writable (files s f) then Inr (Ret (-1), s) else
      case f_type (files s f) of
        FD_PIPE \<Rightarrow> bindR (pipewrite (f_pipe (files s f)) addr n s) (\<lambda>(r, _, s). Inr (r, s))
      | FD_DEVICE \<Rightarrow>
          let major = sint (f_major (files s f)) in
          if major < 0 \<or> major \<ge> NDEV \<or> \<not> devsw (con s) (nat major) then Inr (Ret (-1), s)
          else bindR (consolewrite (FromUser addr) n s) (\<lambda>(r, _, s). Inr (r, s))
      | FD_INODE \<Rightarrow>
          bindR (filewrite_loop f addr n 0 s) (\<lambda>(i, s). Inr (Ret (if i = n then n else -1), s))
      | FD_NONE \<Rightarrow> panic ''filewrite'')"

declare pipewrite_loop.simps [simp del] piperead_copy.simps [simp del] filewrite_loop.simps [simp del]

end
