(* ===== verification/Exec.thy ===== *)
theory Exec
  imports File
begin

text \<open>
  The argument fetchers of \<^verbatim>\<open>kernel/syscall.c\<close> and \<^verbatim>\<open>kernel/exec.c\<close>. A buffer that a fetcher fills is
  returned as the bytes that were written to it.
\<close>

section \<open>System call arguments\<close>

definition fetchaddr :: "u64 \<Rightarrow> 'z kproc_scheme \<Rightarrow> (int \<times> u64) res" where
  "fetchaddr addr s =
     bindR (myproc s) (\<lambda>p.
       if addr \<ge> p_sz (procs s p) \<or> addr + 8 > p_sz (procs s p) then Inr (-1, 0)
       else
         bindR (copyin (p_pagetable (procs s p)) addr 8 s) (\<lambda>(r, bs).
           if r \<noteq> 0 then Inr (-1, 0) else Inr (0, le_word bs)))"

definition fetchstr :: "u64 \<Rightarrow> nat \<Rightarrow> 'z kproc_scheme \<Rightarrow> (int \<times> byte list) res" where
  "fetchstr addr mx s =
     bindR (myproc s) (\<lambda>p.
     bindR (copyinstr (p_pagetable (procs s p)) addr mx s) (\<lambda>(r, buf).
       if r < 0 then Inr (-1, buf) else bindR (strlen buf) (\<lambda>n. Inr (int n, buf))))"

definition argraw :: "nat \<Rightarrow> 'z kproc_scheme \<Rightarrow> u64 res" where
  "argraw n s =
     bindR (myproc s) (\<lambda>p.
       let tf = p_trapframe (procs s p) in
       if n = 0 then Inr (ldtf tf TF_a0 s)
       else if n = 1 then Inr (ldtf tf TF_a1 s)
       else if n = 2 then Inr (ldtf tf TF_a2 s)
       else if n = 3 then Inr (ldtf tf TF_a3 s)
       else if n = 4 then Inr (ldtf tf TF_a4 s)
       else if n = 5 then Inr (ldtf tf TF_a5 s)
       else panic ''argraw'')"

definition argint :: "nat \<Rightarrow> 'z kproc_scheme \<Rightarrow> int res" where
  "argint n s = bindR (argraw n s) (\<lambda>x. Inr (sint (ucast x :: u32)))"

definition argaddr :: "nat \<Rightarrow> 'z kproc_scheme \<Rightarrow> u64 res" where
  "argaddr n s = argraw n s"

definition argstr :: "nat \<Rightarrow> nat \<Rightarrow> 'z kproc_scheme \<Rightarrow> (int \<times> byte list) res" where
  "argstr n mx s = bindR (argaddr n s) (\<lambda>addr. fetchstr addr mx s)"

section \<open>ELF headers (\<^verbatim>\<open>kernel/elf.h\<close>)\<close>

abbreviation (input) "ELF_MAGIC \<equiv> 0x464C457F :: u32"
abbreviation (input) "MAXARG \<equiv> 32 :: nat"

record elfhdr =
  e_magic :: u32
  e_entry :: u64
  e_phoff :: u64
  e_phnum :: u16

definition dec_elfhdr :: "byte list \<Rightarrow> elfhdr" where
  "dec_elfhdr bs = \<lparr>e_magic = ldl 4 bs 0, e_entry = ldl 8 bs 24, e_phoff = ldl 8 bs 32, e_phnum = ldl 2 bs 56\<rparr>"

record proghdr =
  ph_type :: u32
  ph_flags :: u32
  ph_off :: u64
  ph_vaddr :: u64
  ph_filesz :: u64
  ph_memsz :: u64

definition dec_proghdr :: "byte list \<Rightarrow> proghdr" where
  "dec_proghdr bs = \<lparr>ph_type = ldl 4 bs 0, ph_flags = ldl 4 bs 4, ph_off = ldl 8 bs 8, ph_vaddr = ldl 8 bs 16,
     ph_filesz = ldl 8 bs 32, ph_memsz = ldl 8 bs 40\<rparr>"

section \<open>Loading a program\<close>

definition flags2perm :: "u32 \<Rightarrow> u64" where
  "flags2perm flags =
     (if flags AND 1 \<noteq> 0 then PTE_X else 0) OR (if flags AND 2 \<noteq> 0 then PTE_W else 0)"

fun loadseg_loop ::
  "u64 \<Rightarrow> u64 \<Rightarrow> nat \<Rightarrow> u32 \<Rightarrow> nat \<Rightarrow> nat list \<Rightarrow> 'z kfile_scheme \<Rightarrow> (int \<times> 'z kfile_scheme) res" where
  "loadseg_loop pagetable va ip offset sz [] s = Inr (0, s)"
| "loadseg_loop pagetable va ip offset sz (i # is) s =
     bindR (walkaddr pagetable (va + of_nat i) s) (\<lambda>pa.
       if pa = 0 then panic ''loadseg: address should exist''
       else
         let n = (if sz - i < 4096 then sz - i else 4096) in
         bindR (readi ip (ToPhys pa) (offset + of_nat i) (of_nat n) s) (\<lambda>(r, _, s).
           if r \<noteq> int n then Inr (-1, s) else loadseg_loop pagetable va ip offset sz is s))"

definition loadseg :: "u64 \<Rightarrow> u64 \<Rightarrow> nat \<Rightarrow> u32 \<Rightarrow> u32 \<Rightarrow> 'z kfile_scheme \<Rightarrow> (int \<times> 'z kfile_scheme) res" where
  "loadseg pagetable va ip offset sz s =
     loadseg_loop pagetable va ip offset (unat sz) (map (\<lambda>k. 4096 * k) [0..<(unat sz + 4095) div 4096]) s"

text \<open>The loop over the program headers: whether it succeeded, and \<open>sz\<close>.\<close>

fun exec_load :: "nat \<Rightarrow> u64 \<Rightarrow> nat \<Rightarrow> u32 \<Rightarrow> u64 \<Rightarrow> 'z kfile_scheme \<Rightarrow> (bool \<times> u64 \<times> 'z kfile_scheme) res" where
  "exec_load ip pagetable 0 off sz s = Inr (True, sz, s)"
| "exec_load ip pagetable (Suc k) off sz s =
     bindR (readi ip ToLocal off 56 s) (\<lambda>(r, bs, s).
       if r \<noteq> 56 then Inr (False, sz, s)
       else
         let ph = dec_proghdr bs in
         if ph_type ph \<noteq> 1 then exec_load ip pagetable k (off + 56) sz s
         else if ph_memsz ph < ph_filesz ph then Inr (False, sz, s)
         else if ph_vaddr ph + ph_memsz ph < ph_vaddr ph then Inr (False, sz, s)
         else if ph_vaddr ph mod PGSIZE \<noteq> 0 then Inr (False, sz, s)
         else
           bindR (uvmalloc pagetable sz (ph_vaddr ph + ph_memsz ph) (flags2perm (ph_flags ph)) s) (\<lambda>(sz1, s).
             if sz1 = 0 then Inr (False, sz, s)
             else
               bindR (loadseg pagetable (ph_vaddr ph) ip (ucast (ph_off ph)) (ucast (ph_filesz ph)) s) (\<lambda>(r, s).
                 if r < 0 then Inr (False, sz1, s) else exec_load ip pagetable k (off + 56) sz1 s)))"

text \<open>The label \<open>bad\<close>.\<close>

definition exec_bad :: "u64 \<Rightarrow> u64 \<Rightarrow> nat option \<Rightarrow> 'z kfile_scheme \<Rightarrow> (int \<times> 'z kfile_scheme) res" where
  "exec_bad pagetable sz ip s =
     bindR (if pagetable \<noteq> 0 then proc_freepagetable pagetable sz s else Inr s) (\<lambda>s.
       case ip of
         Some ip \<Rightarrow> bindR (iunlockput ip s) (\<lambda>s. bindR (end_op s) (\<lambda>s. Inr (-1, s)))
       | None \<Rightarrow> Inr (-1, s))"

text \<open>
  The arguments: \<open>argv\<close> holds the addresses of kernel pages with the strings, and ends with a null
  pointer. The result is the stack pointer and \<open>ustack\<close>, or \<open>None\<close> for \<open>goto bad\<close>.
\<close>

fun exec_push ::
  "u64 \<Rightarrow> u64 \<Rightarrow> u64 list \<Rightarrow> u64 \<Rightarrow> u64 list \<Rightarrow> 'z kfile_scheme \<Rightarrow> ((u64 \<times> u64 list) option \<times> 'z kfile_scheme) res" where
  "exec_push pagetable stackbase [] sp ustack s = Inl (UB ''exec: past the end of argv'')"
| "exec_push pagetable stackbase (a # argv) sp ustack s =
     (if a = 0 then Inr (Some (sp, ustack), s)
      else if length ustack \<ge> MAXARG then Inr (None, s)
      else
        let (str, nul) = scan_str (mem s) (unat a) 4096 in
        if \<not> nul then Inl (UB ''exec: past the end of argv[i]'')
        else
          let sp = sp - of_nat (length str); sp = sp - sp mod 16 in
          if sp < stackbase then Inr (None, s)
          else
            bindR (copyout pagetable sp str s) (\<lambda>(r, s).
              if r < 0 then Inr (None, s) else exec_push pagetable stackbase argv sp (ustack @ [sp]) s))"

definition last_elem :: "byte list \<Rightarrow> byte list" where
  "last_elem path = rev (takeWhile (\<lambda>c. c \<noteq> SLASH) (rev (takeWhile (\<lambda>c. c \<noteq> 0) path))) @ [0]"

text \<open>The last part, which cannot fail any more.\<close>

definition exec_commit ::
  "nat \<Rightarrow> u64 \<Rightarrow> u64 \<Rightarrow> u64 \<Rightarrow> byte list \<Rightarrow> u64 \<Rightarrow> u64 \<Rightarrow> nat \<Rightarrow> 'z kfile_scheme \<Rightarrow> (int \<times> 'z kfile_scheme) res" where
  "exec_commit p pagetable sz oldsz path entry1 sp argc s =
     (let s = sttf (p_trapframe (procs s p)) TF_a1 sp s in
      bindR (safestrcpy (p_name (procs s p)) (last_elem path) 16) (\<lambda>nm.
        let s = updp p (\<lambda>q. q\<lparr>p_name := nm\<rparr>) s;
            oldpagetable = p_pagetable (procs s p);
            s = updp p (\<lambda>q. q\<lparr>p_pagetable := pagetable, p_sz := sz\<rparr>) s;
            s = sttf (p_trapframe (procs s p)) TF_epc entry1 s;
            s = sttf (p_trapframe (procs s p)) TF_sp sp s
        in bindR (proc_freepagetable oldpagetable oldsz s) (\<lambda>s. Inr (int argc, s))))"

text \<open>From the point where the program is loaded and its inode released.\<close>

definition exec_stack ::
  "nat \<Rightarrow> u64 \<Rightarrow> u64 \<Rightarrow> byte list \<Rightarrow> u64 list \<Rightarrow> u64 \<Rightarrow> 'z kfile_scheme \<Rightarrow> (int \<times> 'z kfile_scheme) res" where
  "exec_stack p pagetable sz0 path argv entry1 s =
     (let oldsz = p_sz (procs s p); sz = PGROUNDUP sz0 in
      bindR (uvmalloc pagetable sz (sz + 2 * PGSIZE) PTE_W s) (\<lambda>(sz1, s).
        if sz1 = 0 then exec_bad pagetable sz None s
        else
          bindR (uvmclear pagetable (sz1 - 2 * PGSIZE) s) (\<lambda>s.
          bindR (exec_push pagetable (sz1 - PGSIZE) argv sz1 [] s) (\<lambda>(r, s).
            case r of None \<Rightarrow> exec_bad pagetable sz1 None s
            | Some (sp, ustack) \<Rightarrow>
                if length ustack \<ge> MAXARG then Inl (UB ''exec: ustack'')
                else
                  let sp = sp - of_nat ((length ustack + 1) * 8); sp = sp - sp mod 16 in
                  if sp < sz1 - PGSIZE then exec_bad pagetable sz1 None s
                  else
                    bindR (copyout pagetable sp (concat (map (bytes_le 8) (ustack @ [0]))) s) (\<lambda>(r, s).
                      if r < 0 then exec_bad pagetable sz1 None s
                      else exec_commit p pagetable sz1 oldsz path entry1 sp (length ustack) s)))))"

definition exec :: "byte list \<Rightarrow> u64 list \<Rightarrow> 'z kfile_scheme \<Rightarrow> (int \<times> 'z kfile_scheme) res" where
  "exec path argv s =
     bindR (myproc s) (\<lambda>p.
     bindR (begin_op s) (\<lambda>s.
     bindR (namei path s) (\<lambda>(r, s).
       case r of None \<Rightarrow> bindR (end_op s) (\<lambda>s. Inr (-1, s))
       | Some ip \<Rightarrow>
         bindR (ilock ip s) (\<lambda>s.
         bindR (readi ip ToLocal 0 64 s) (\<lambda>(r, bs, s).
           let elf = dec_elfhdr bs in
           if r \<noteq> 64 then exec_bad 0 0 (Some ip) s
           else if e_magic elf \<noteq> ELF_MAGIC then exec_bad 0 0 (Some ip) s
           else
             bindR (proc_pagetable p s) (\<lambda>(pagetable, s).
               if pagetable = 0 then exec_bad 0 0 (Some ip) s
               else
                 bindR (exec_load ip pagetable (unat (e_phnum elf)) (ucast (e_phoff elf)) 0 s) (\<lambda>(ok, sz, s).
                   if \<not> ok then exec_bad pagetable sz (Some ip) s
                   else
                     bindR (iunlockput ip s) (\<lambda>s.
                     bindR (end_op s) (\<lambda>s.
                       exec_stack p pagetable sz path argv (e_entry elf) s)))))))))"

end
