(* ===== verification/Sysfile.thy ===== *)
theory Sysfile
  imports Exec
begin

text \<open>
  \<^verbatim>\<open>kernel/sysfile.c\<close>: the file system calls. They fetch their arguments from the trapframe of the
  calling process. Each returns the \<open>uint64\<close> that goes into \<open>a0\<close> (\<open>-1\<close> is all ones); \<open>sys_read\<close> and
  \<open>sys_write\<close> may also wait.
\<close>

abbreviation (input) "MAXPATH \<equiv> 128 :: nat"
abbreviation (input) "O_WRONLY \<equiv> 1 :: u32"
abbreviation (input) "O_RDWR \<equiv> 2 :: u32"
abbreviation (input) "O_CREATE \<equiv> 0x200 :: u32"
abbreviation (input) "O_TRUNC \<equiv> 0x400 :: u32"

section \<open>File descriptors\<close>

text \<open>The descriptor and the file, or \<open>None\<close> for the result \<open>-1\<close>.\<close>

definition argfd :: "nat \<Rightarrow> 'z kproc_scheme \<Rightarrow> (nat \<times> nat) option res" where
  "argfd n s =
     bindR (argint n s) (\<lambda>fd.
     bindR (myproc s) (\<lambda>p.
       if fd < 0 \<or> fd \<ge> int NOFILE then Inr None
       else case p_ofile (procs s p) ! nat fd of
         None \<Rightarrow> Inr None
       | Some f \<Rightarrow> Inr (Some (nat fd, f))))"

definition fdalloc :: "nat \<Rightarrow> 'z kproc_scheme \<Rightarrow> (nat option \<times> 'z kproc_scheme) res" where
  "fdalloc f s =
     bindR (myproc s) (\<lambda>p.
       case find (\<lambda>fd. p_ofile (procs s p) ! fd = None) [0..<NOFILE] of
         Some fd \<Rightarrow> Inr (Some fd, updp p (\<lambda>q. q\<lparr>p_ofile := (p_ofile q)[fd := Some f]\<rparr>) s)
       | None \<Rightarrow> Inr (None, s))"

definition sys_dup :: "'z kfile_scheme \<Rightarrow> (u64 \<times> 'z kfile_scheme) res" where
  "sys_dup s =
     bindR (argfd 0 s) (\<lambda>r.
       case r of None \<Rightarrow> Inr (-1, s)
       | Some (_, f) \<Rightarrow>
           bindR (fdalloc f s) (\<lambda>(r, s).
             case r of None \<Rightarrow> Inr (-1, s)
             | Some fd \<Rightarrow> bindR (filedup f s) (\<lambda>s. Inr (of_nat fd, s))))"

definition sys_read :: "'z kfile_scheme \<Rightarrow> (int outcome \<times> 'z kfile_scheme) res" where
  "sys_read s =
     bindR (argaddr 1 s) (\<lambda>p.
     bindR (argint 2 s) (\<lambda>n.
     bindR (argfd 0 s) (\<lambda>r.
       case r of None \<Rightarrow> Inr (Ret (-1), s) | Some (_, f) \<Rightarrow> fileread f p n s)))"

definition sys_write :: "'z kfile_scheme \<Rightarrow> (int outcome \<times> 'z kfile_scheme) res" where
  "sys_write s =
     bindR (argaddr 1 s) (\<lambda>p.
     bindR (argint 2 s) (\<lambda>n.
     bindR (argfd 0 s) (\<lambda>r.
       case r of None \<Rightarrow> Inr (Ret (-1), s) | Some (_, f) \<Rightarrow> filewrite f p n s)))"

definition sys_close :: "'z kfile_scheme \<Rightarrow> (u64 \<times> 'z kfile_scheme) res" where
  "sys_close s =
     bindR (argfd 0 s) (\<lambda>r.
       case r of None \<Rightarrow> Inr (-1, s)
       | Some (fd, f) \<Rightarrow>
           bindR (myproc s) (\<lambda>p.
           bindR (fileclose f (updp p (\<lambda>q. q\<lparr>p_ofile := (p_ofile q)[fd := None]\<rparr>) s)) (\<lambda>s. Inr (0, s))))"

definition sys_fstat :: "'z kfile_scheme \<Rightarrow> (u64 \<times> 'z kfile_scheme) res" where
  "sys_fstat s =
     bindR (argaddr 1 s) (\<lambda>st.
     bindR (argfd 0 s) (\<lambda>r.
       case r of None \<Rightarrow> Inr (-1, s)
       | Some (_, f) \<Rightarrow> bindR (filestat f st s) (\<lambda>(r, s). Inr (of_int r, s))))"

section \<open>Links\<close>

text \<open>Ends a transaction and returns \<open>-1\<close>.\<close>

definition op_fails :: "'z klog_scheme \<Rightarrow> (u64 \<times> 'z klog_scheme) res" where
  "op_fails s = bindR (end_op s) (\<lambda>s. Inr (-1, s))"

definition sys_link_bad :: "nat \<Rightarrow> 'z kfs_scheme \<Rightarrow> (u64 \<times> 'z kfs_scheme) res" where
  "sys_link_bad ip s =
     bindR (ilock ip s) (\<lambda>s.
     bindR (iupdate ip (updi ip (\<lambda>x. x\<lparr>i_nlink := i_nlink x - 1\<rparr>) s)) (\<lambda>s.
     bindR (iunlockput ip s) op_fails))"

definition sys_link :: "'z kfs_scheme \<Rightarrow> (u64 \<times> 'z kfs_scheme) res" where
  "sys_link s =
     bindR (argstr 0 MAXPATH s) (\<lambda>(r, old).
     if r < 0 then Inr (-1, s) else
     bindR (argstr 1 MAXPATH s) (\<lambda>(r, new1).
     if r < 0 then Inr (-1, s) else
     bindR (begin_op s) (\<lambda>s.
     bindR (namei old s) (\<lambda>(r, s).
       case r of None \<Rightarrow> op_fails s
       | Some ip \<Rightarrow>
         bindR (ilock ip s) (\<lambda>s.
           if i_type (inodes s ip) = T_DIR then bindR (iunlockput ip s) op_fails
           else
             bindR (iupdate ip (updi ip (\<lambda>x. x\<lparr>i_nlink := i_nlink x + 1\<rparr>) s)) (\<lambda>s.
             bindR (iunlock ip s) (\<lambda>s.
             bindR (nameiparent new1 (replicate DIRSIZ 0) s) (\<lambda>((r, nm), s).
               case r of None \<Rightarrow> sys_link_bad ip s
               | Some dp \<Rightarrow>
                 bindR (ilock dp s) (\<lambda>s.
                 bindR (if i_dev (inodes s dp) \<noteq> i_dev (inodes s ip) then Inr (-1, s)
                        else dirlink dp nm (i_inum (inodes s ip)) s) (\<lambda>(r, s).
                   if r < 0 then bindR (iunlockput dp s) (sys_link_bad ip)
                   else
                     bindR (iunlockput dp s) (\<lambda>s.
                     bindR (iput ip s) (\<lambda>s.
                     bindR (end_op s) (\<lambda>s. Inr (0, s))))))))))))))"

fun isdirempty_loop :: "nat \<Rightarrow> nat list \<Rightarrow> 'z kfs_scheme \<Rightarrow> (bool \<times> 'z kfs_scheme) res" where
  "isdirempty_loop dp [] s = Inr (True, s)"
| "isdirempty_loop dp (off # offs) s =
     bindR (readi dp ToLocal (of_nat off) 16 s) (\<lambda>(r, de, s).
       if r \<noteq> 16 then panic ''isdirempty: readi''
       else if de_inum de \<noteq> 0 then Inr (False, s)
       else isdirempty_loop dp offs s)"

definition isdirempty :: "nat \<Rightarrow> 'z kfs_scheme \<Rightarrow> (bool \<times> 'z kfs_scheme) res" where
  "isdirempty dp s = isdirempty_loop dp (drop 2 (dir_offsets (unat (i_size (inodes s dp))))) s"

definition sys_unlink :: "'z kfs_scheme \<Rightarrow> (u64 \<times> 'z kfs_scheme) res" where
  "sys_unlink s =
     bindR (argstr 0 MAXPATH s) (\<lambda>(r, path).
     if r < 0 then Inr (-1, s) else
     bindR (begin_op s) (\<lambda>s.
     bindR (nameiparent path (replicate DIRSIZ 0) s) (\<lambda>((r, nm), s).
       case r of None \<Rightarrow> op_fails s
       | Some dp \<Rightarrow>
         bindR (ilock dp s) (\<lambda>s.
         bindR (namecmp nm [46, 0]) (\<lambda>c1.
         bindR (if c1 = 0 then Inr 0 else namecmp nm [46, 46, 0]) (\<lambda>c2.
           if c2 = 0 then bindR (iunlockput dp s) op_fails
           else
             bindR (dirlookup dp nm s) (\<lambda>(r, s).
               case r of None \<Rightarrow> bindR (iunlockput dp s) op_fails
               | Some (ip, off) \<Rightarrow>
                 bindR (ilock ip s) (\<lambda>s.
                   if sint (i_nlink (inodes s ip)) < 1 then panic ''unlink: nlink < 1''
                   else
                     bindR (if i_type (inodes s ip) = T_DIR then isdirempty ip s else Inr (True, s)) (\<lambda>(e, s).
                       if \<not> e then bindR (iunlockput ip s) (\<lambda>s. bindR (iunlockput dp s) op_fails)
                       else
                         bindR (writei dp (FromKernel (replicate 16 0)) off 16 s) (\<lambda>(r, s).
                           if r \<noteq> 16 then panic ''unlink: writei''
                           else
                             bindR (if i_type (inodes s ip) = T_DIR
                                    then iupdate dp (updi dp (\<lambda>x. x\<lparr>i_nlink := i_nlink x - 1\<rparr>) s) else Inr s) (\<lambda>s.
                             bindR (iunlockput dp s) (\<lambda>s.
                             bindR (iupdate ip (updi ip (\<lambda>x. x\<lparr>i_nlink := i_nlink x - 1\<rparr>) s)) (\<lambda>s.
                             bindR (iunlockput ip s) (\<lambda>s.
                             bindR (end_op s) (\<lambda>s. Inr (0, s))))))))))))))))"

section \<open>Creating and opening\<close>

definition create_fail :: "nat \<Rightarrow> nat \<Rightarrow> 'z kfs_scheme \<Rightarrow> (nat option \<times> 'z kfs_scheme) res" where
  "create_fail ip dp s =
     bindR (iupdate ip (updi ip (\<lambda>x. x\<lparr>i_nlink := 0\<rparr>) s)) (\<lambda>s.
     bindR (iunlockput ip s) (\<lambda>s.
     bindR (iunlockput dp s) (\<lambda>s. Inr (None, s))))"

text \<open>The part of \<open>create\<close> that fills the new inode \<open>ip\<close> and links it into \<open>dp\<close>.\<close>

definition create_new ::
  "nat \<Rightarrow> nat \<Rightarrow> byte list \<Rightarrow> u16 \<Rightarrow> u16 \<Rightarrow> u16 \<Rightarrow> 'z kfs_scheme \<Rightarrow> (nat option \<times> 'z kfs_scheme) res" where
  "create_new ip dp nm ty major minor s =
     bindR (ilock ip s) (\<lambda>s.
     bindR (iupdate ip (updi ip (\<lambda>x. x\<lparr>i_major := major, i_minor := minor, i_nlink := 1\<rparr>) s)) (\<lambda>s.
     bindR (if ty = T_DIR then
              bindR (dirlink ip [46, 0] (i_inum (inodes s ip)) s) (\<lambda>(r, s).
                if r < 0 then Inr (-1, s) else dirlink ip [46, 46, 0] (i_inum (inodes s dp)) s)
            else Inr (0, s)) (\<lambda>(r, s).
       if r < 0 then create_fail ip dp s
       else
         bindR (dirlink dp nm (i_inum (inodes s ip)) s) (\<lambda>(r, s).
           if r < 0 then create_fail ip dp s
           else
             bindR (if ty = T_DIR then iupdate dp (updi dp (\<lambda>x. x\<lparr>i_nlink := i_nlink x + 1\<rparr>) s) else Inr s) (\<lambda>s.
             bindR (iunlockput dp s) (\<lambda>s. Inr (Some ip, s)))))))"

definition create :: "byte list \<Rightarrow> u16 \<Rightarrow> u16 \<Rightarrow> u16 \<Rightarrow> 'z kfs_scheme \<Rightarrow> (nat option \<times> 'z kfs_scheme) res" where
  "create path ty major minor s =
     bindR (nameiparent path (replicate DIRSIZ 0) s) (\<lambda>((r, nm), s).
       case r of None \<Rightarrow> Inr (None, s)
       | Some dp \<Rightarrow>
         bindR (ilock dp s) (\<lambda>s.
         bindR (dirlookup dp nm s) (\<lambda>(r, s).
           case r of
             Some (ip, _) \<Rightarrow>
               bindR (iunlockput dp s) (\<lambda>s.
               bindR (ilock ip s) (\<lambda>s.
                 if ty = T_FILE \<and> (i_type (inodes s ip) = T_FILE \<or> i_type (inodes s ip) = T_DEVICE)
                 then Inr (Some ip, s)
                 else bindR (iunlockput ip s) (\<lambda>s. Inr (None, s))))
           | None \<Rightarrow>
               bindR (ialloc (i_dev (inodes s dp)) ty s) (\<lambda>(r, s).
                 case r of None \<Rightarrow> bindR (iunlockput dp s) (\<lambda>s. Inr (None, s))
                 | Some ip \<Rightarrow> create_new ip dp nm ty major minor s))))"

text \<open>\<open>sys_open\<close> once it has the locked inode.\<close>

definition sys_open_inode :: "nat \<Rightarrow> u32 \<Rightarrow> 'z kfile_scheme \<Rightarrow> (u64 \<times> 'z kfile_scheme) res" where
  "sys_open_inode ip omode s =
     (if i_type (inodes s ip) = T_DEVICE \<and> (sint (i_major (inodes s ip)) < 0 \<or> sint (i_major (inodes s ip)) \<ge> NDEV)
      then bindR (iunlockput ip s) op_fails
      else
        bindR (filealloc s) (\<lambda>(r, s).
          case r of None \<Rightarrow> bindR (iunlockput ip s) op_fails
          | Some f \<Rightarrow>
            bindR (fdalloc f s) (\<lambda>(r, s).
              case r of None \<Rightarrow> bindR (fileclose f s) (\<lambda>s. bindR (iunlockput ip s) op_fails)
              | Some fd \<Rightarrow>
                let s = (if i_type (inodes s ip) = T_DEVICE
                         then updf f (\<lambda>x. x\<lparr>f_type := FD_DEVICE, f_major := i_major (inodes s ip)\<rparr>) s
                         else updf f (\<lambda>x. x\<lparr>f_type := FD_INODE, f_off := 0\<rparr>) s);
                    s = updf f (\<lambda>x. x\<lparr>f_ip := ip, f_readable := (omode AND O_WRONLY = 0),
                                      f_writable := (omode AND O_WRONLY \<noteq> 0 \<or> omode AND O_RDWR \<noteq> 0)\<rparr>) s
                in bindR (if omode AND O_TRUNC \<noteq> 0 \<and> i_type (inodes s ip) = T_FILE then itrunc ip s else Inr s) (\<lambda>s.
                   bindR (iunlock ip s) (\<lambda>s.
                   bindR (end_op s) (\<lambda>s. Inr (of_nat fd, s)))))))"

definition sys_open :: "'z kfile_scheme \<Rightarrow> (u64 \<times> 'z kfile_scheme) res" where
  "sys_open s =
     bindR (argint 1 s) (\<lambda>m.
     bindR (argstr 0 MAXPATH s) (\<lambda>(n, path).
       let omode = word_of_int m :: u32 in
       if n < 0 then Inr (-1, s)
       else
         bindR (begin_op s) (\<lambda>s.
           if omode AND O_CREATE \<noteq> 0 then
             bindR (create path T_FILE 0 0 s) (\<lambda>(r, s).
               case r of None \<Rightarrow> op_fails s | Some ip \<Rightarrow> sys_open_inode ip omode s)
           else
             bindR (namei path s) (\<lambda>(r, s).
               case r of None \<Rightarrow> op_fails s
               | Some ip \<Rightarrow>
                 bindR (ilock ip s) (\<lambda>s.
                   if i_type (inodes s ip) = T_DIR \<and> omode \<noteq> 0 then bindR (iunlockput ip s) op_fails
                   else sys_open_inode ip omode s)))))"

definition sys_mkdir :: "'z kfs_scheme \<Rightarrow> (u64 \<times> 'z kfs_scheme) res" where
  "sys_mkdir s =
     bindR (begin_op s) (\<lambda>s.
     bindR (argstr 0 MAXPATH s) (\<lambda>(r, path).
       if r < 0 then op_fails s
       else
         bindR (create path T_DIR 0 0 s) (\<lambda>(r, s).
           case r of None \<Rightarrow> op_fails s
           | Some ip \<Rightarrow> bindR (iunlockput ip s) (\<lambda>s. bindR (end_op s) (\<lambda>s. Inr (0, s))))))"

definition sys_mknod :: "'z kfs_scheme \<Rightarrow> (u64 \<times> 'z kfs_scheme) res" where
  "sys_mknod s =
     bindR (begin_op s) (\<lambda>s.
     bindR (argint 1 s) (\<lambda>major.
     bindR (argint 2 s) (\<lambda>minor.
     bindR (argstr 0 MAXPATH s) (\<lambda>(r, path).
       if r < 0 then op_fails s
       else
         bindR (create path T_DEVICE (word_of_int major) (word_of_int minor) s) (\<lambda>(r, s).
           case r of None \<Rightarrow> op_fails s
           | Some ip \<Rightarrow> bindR (iunlockput ip s) (\<lambda>s. bindR (end_op s) (\<lambda>s. Inr (0, s))))))))"

definition sys_chdir :: "'z kfs_scheme \<Rightarrow> (u64 \<times> 'z kfs_scheme) res" where
  "sys_chdir s =
     bindR (myproc s) (\<lambda>p.
     bindR (begin_op s) (\<lambda>s.
     bindR (argstr 0 MAXPATH s) (\<lambda>(r, path).
       if r < 0 then op_fails s
       else
         bindR (namei path s) (\<lambda>(r, s).
           case r of None \<Rightarrow> op_fails s
           | Some ip \<Rightarrow>
             bindR (ilock ip s) (\<lambda>s.
               if i_type (inodes s ip) \<noteq> T_DIR then bindR (iunlockput ip s) op_fails
               else
                 bindR (iunlock ip s) (\<lambda>s.
                   case p_cwd (procs s p) of None \<Rightarrow> Inl (UB ''iput: null pointer'')
                   | Some cwd \<Rightarrow>
                     bindR (iput cwd s) (\<lambda>s.
                     bindR (end_op s) (\<lambda>s.
                       Inr (0, updp p (\<lambda>q. q\<lparr>p_cwd := Some ip\<rparr>) s)))))))))"

section \<open>Programs and pipes\<close>

text \<open>
  The argument strings of \<open>sys_exec\<close>, each in a page of its own: whether the loop ended well, and the
  pages so far (\<open>argv\<close> up to its first null pointer).
\<close>

fun sys_exec_args :: "u64 \<Rightarrow> nat list \<Rightarrow> u64 list \<Rightarrow> 'z kproc_scheme \<Rightarrow> (bool \<times> u64 list \<times> 'z kproc_scheme) res" where
  "sys_exec_args uargv [] argv s = Inr (False, argv, s)"
| "sys_exec_args uargv (i # is) argv s =
     bindR (fetchaddr (uargv + 8 * of_nat i) s) (\<lambda>(r, uarg).
       if r < 0 then Inr (False, argv, s)
       else if uarg = 0 then Inr (True, argv, s)
       else
         bindR (kalloc s) (\<lambda>(pa, s).
           if pa = 0 then Inr (False, argv, s)
           else
             bindR (fetchstr uarg 4096 s) (\<lambda>(r, buf).
               let s = s\<lparr>mem := store_bytes (mem s) (unat pa) buf\<rparr> in
               if r < 0 then Inr (False, argv @ [pa], s)
               else sys_exec_args uargv is (argv @ [pa]) s)))"

definition sys_exec :: "'z kfile_scheme \<Rightarrow> (u64 \<times> 'z kfile_scheme) res" where
  "sys_exec s =
     bindR (argaddr 1 s) (\<lambda>uargv.
     bindR (argstr 0 MAXPATH s) (\<lambda>(r, path).
       if r < 0 then Inr (-1, s)
       else
         bindR (sys_exec_args uargv [0..<MAXARG] [] s) (\<lambda>(ok, argv, s).
         bindR (if ok then exec path (argv @ [0]) s else Inr (-1, s)) (\<lambda>(ret, s).
         bindR (foldR kfree argv s) (\<lambda>s. Inr (of_int ret, s))))))"

definition sys_pipe_bad :: "nat \<Rightarrow> nat \<Rightarrow> 'z kfile_scheme \<Rightarrow> (u64 \<times> 'z kfile_scheme) res" where
  "sys_pipe_bad rdf wrf s =
     bindR (fileclose rdf s) (\<lambda>s. bindR (fileclose wrf s) (\<lambda>s. Inr (-1, s)))"

definition sys_pipe :: "'z kfile_scheme \<Rightarrow> (u64 \<times> 'z kfile_scheme) res" where
  "sys_pipe s =
     bindR (myproc s) (\<lambda>p.
     bindR (argaddr 0 s) (\<lambda>fdarray.
     bindR (pipealloc s) (\<lambda>(r, s).
       case r of None \<Rightarrow> Inr (-1, s)
       | Some (rdf, wrf) \<Rightarrow>
         bindR (fdalloc rdf s) (\<lambda>(r0, s).
           case r0 of None \<Rightarrow> sys_pipe_bad rdf wrf s
           | Some fd0 \<Rightarrow>
             bindR (fdalloc wrf s) (\<lambda>(r1, s).
               case r1 of None \<Rightarrow> sys_pipe_bad rdf wrf (updp p (\<lambda>q. q\<lparr>p_ofile := (p_ofile q)[fd0 := None]\<rparr>) s)
               | Some fd1 \<Rightarrow>
                 bindR (copyout (p_pagetable (procs s p)) fdarray (int_bytes (int fd0)) s) (\<lambda>(r, s).
                 bindR (if r < 0 then Inr (r, s)
                        else copyout (p_pagetable (procs s p)) (fdarray + 4) (int_bytes (int fd1)) s) (\<lambda>(r, s).
                   if r < 0
                   then sys_pipe_bad rdf wrf (updp p (\<lambda>q. q\<lparr>p_ofile := (p_ofile q)[fd0 := None, fd1 := None]\<rparr>) s)
                   else Inr (0, s))))))))"

end
