(* ===== verification/Process.thy ===== *)
theory Process
  imports Sysfile
begin

text \<open>
  The operations of \<^verbatim>\<open>kernel/proc.c\<close> that need the file system: \<open>userinit\<close>, \<open>fork\<close>, \<open>exit\<close>; and the
  system calls of \<^verbatim>\<open>kernel/sysproc.c\<close>.
\<close>

section \<open>The first process\<close>

definition initcode :: "byte list" where
  "initcode = [
     0x17, 0x05, 0x00, 0x00, 0x13, 0x05, 0x45, 0x02,
     0x97, 0x05, 0x00, 0x00, 0x93, 0x85, 0x35, 0x02,
     0x93, 0x08, 0x70, 0x00, 0x73, 0x00, 0x00, 0x00,
     0x93, 0x08, 0x20, 0x00, 0x73, 0x00, 0x00, 0x00,
     0xef, 0xf0, 0x9f, 0xff, 0x2f, 0x69, 0x6e, 0x69,
     0x74, 0x00, 0x00, 0x24, 0x00, 0x00, 0x00, 0x00,
     0x00, 0x00, 0x00, 0x00]"

definition userinit :: "'z kfs_scheme \<Rightarrow> 'z kfs_scheme res" where
  "userinit s =
     bindR (allocproc s) (\<lambda>(r, s).
       case r of None \<Rightarrow> Inl (UB ''userinit: null pointer'')
       | Some p \<Rightarrow>
         bindR (uvmfirst (p_pagetable (procs s p)) initcode (s\<lparr>initproc := Some p\<rparr>)) (\<lambda>s.
           let s = updp p (\<lambda>q. q\<lparr>p_sz := PGSIZE\<rparr>) s;
               s = sttf (p_trapframe (procs s p)) TF_epc 0 s;
               s = sttf (p_trapframe (procs s p)) TF_sp PGSIZE s
           in bindR (safestrcpy (p_name (procs s p)) (bytes_of ''initcode'' @ [0]) 16) (\<lambda>nm.
              let s = updp p (\<lambda>q. q\<lparr>p_name := nm\<rparr>) s in
              bindR (namei [SLASH, 0] s) (\<lambda>(cwd, s).
                rel (Lproc p) (updp p (\<lambda>q. q\<lparr>p_cwd := cwd, p_state := RUNNABLE\<rparr>) s)))))"

section \<open>Fork and exit\<close>

definition fork_file :: "nat \<Rightarrow> nat \<Rightarrow> nat \<Rightarrow> 'z kfile_scheme \<Rightarrow> 'z kfile_scheme res" where
  "fork_file p np i s =
     (case p_ofile (procs s p) ! i of
        None \<Rightarrow> Inr s
      | Some f \<Rightarrow> bindR (filedup f s) (\<lambda>s. Inr (updp np (\<lambda>q. q\<lparr>p_ofile := (p_ofile q)[i := Some f]\<rparr>) s)))"

text \<open>The fields, registers, files and directory of the child.\<close>

definition fork_copy :: "nat \<Rightarrow> nat \<Rightarrow> 'z kfile_scheme \<Rightarrow> 'z kfile_scheme res" where
  "fork_copy p np s =
     (let s = updp np (\<lambda>q. q\<lparr>p_mask := p_mask (procs s p)\<rparr>) s;
          s = (if SCHEDULER s = LBS then updp np (\<lambda>q. q\<lparr>p_tickets := p_tickets (procs s p)\<rparr>) s else s);
          s = updp np (\<lambda>q. q\<lparr>p_sz := p_sz (procs s p)\<rparr>) s;
          s = s\<lparr>mem := memmove (mem s) (unat (p_trapframe (procs s np))) (unat (p_trapframe (procs s p))) 288\<rparr>;
          s = sttf (p_trapframe (procs s np)) TF_a0 0 s
      in bindR (foldR (fork_file p np) [0..<NOFILE] s) (\<lambda>s.
         case p_cwd (procs s p) of None \<Rightarrow> Inl (UB ''idup: null pointer'')
         | Some c \<Rightarrow>
           bindR (idup c s) (\<lambda>s.
             let s = updp np (\<lambda>q. q\<lparr>p_cwd := Some c\<rparr>) s in
             bindR (safestrcpy (p_name (procs s np)) (p_name (procs s p)) 16) (\<lambda>nm.
               Inr (updp np (\<lambda>q. q\<lparr>p_name := nm\<rparr>) s)))))"

definition fork :: "'z kfile_scheme \<Rightarrow> (int outcome \<times> 'z kfile_scheme) res" where
  "fork s =
     bindR (myproc s) (\<lambda>p.
     bindR (allocproc s) (\<lambda>(r, s).
       case r of None \<Rightarrow> Inr (Ret (-1), s)
       | Some np \<Rightarrow>
         bindR (uvmcopy (p_pagetable (procs s p)) (p_pagetable (procs s np)) (p_sz (procs s p)) s) (\<lambda>(r, s).
           if r < 0 then
             bindR (freeproc np s) (\<lambda>s. bindR (rel (Lproc np) s) (\<lambda>s. Inr (Ret (-1), s)))
           else
             bindR (fork_copy p np s) (\<lambda>s.
               let pid = p_pid (procs s np) in
               bindR (rel (Lproc np) s) (\<lambda>s.
               bindR (acq Lwait s) (\<lambda>s.
               bindR (rel Lwait (updp np (\<lambda>q. q\<lparr>p_parent := Some p\<rparr>) s)) (\<lambda>s.
               bindR (acq (Lproc np) s) (\<lambda>s.
               bindR (rel (Lproc np) (updp np (\<lambda>q. q\<lparr>p_state := RUNNABLE\<rparr>) s)) (\<lambda>s.
                 if SCHEDULER s = MLFQ \<and> p_priority_level (procs s p) > 0 then
                   bindR (yield (updp p (\<lambda>q. q\<lparr>p_ticks_elapsed := 0\<rparr>) s)) (\<lambda>(ie, s). Inr (Yields pid ie, s))
                 else Inr (Ret pid, s))))))))))"

definition exit_file :: "nat \<Rightarrow> nat \<Rightarrow> 'z kfile_scheme \<Rightarrow> 'z kfile_scheme res" where
  "exit_file p fd s =
     (case p_ofile (procs s p) ! fd of
        None \<Rightarrow> Inr s
      | Some f \<Rightarrow> bindR (fileclose f s) (\<lambda>s. Inr (updp p (\<lambda>q. q\<lparr>p_ofile := (p_ofile q)[fd := None]\<rparr>) s)))"

text \<open>\<open>exit\<close> up to the switch to the scheduler, from which it does not come back.\<close>

definition exit :: "int \<Rightarrow> 'z kfile_scheme \<Rightarrow> 'z kfile_scheme res" where
  "exit status s =
     bindR (myproc s) (\<lambda>p.
       if initproc s = Some p then panic ''init exiting''
       else
         bindR (foldR (exit_file p) [0..<NOFILE] s) (\<lambda>s.
         bindR (begin_op s) (\<lambda>s.
           case p_cwd (procs s p) of None \<Rightarrow> Inl (UB ''iput: null pointer'')
           | Some c \<Rightarrow>
             bindR (iput c s) (\<lambda>s.
             bindR (end_op s) (\<lambda>s.
             bindR (acq Lwait (updp p (\<lambda>q. q\<lparr>p_cwd := None\<rparr>) s)) (\<lambda>s.
             bindR (reparent p s) (\<lambda>s.
             bindR (case p_parent (procs s p) of None \<Rightarrow> Inr s | Some pp \<Rightarrow> wakeup (Cproc pp) s) (\<lambda>s.
             bindR (acq (Lproc p) s) (\<lambda>s.
               let s = updp p (\<lambda>q. q\<lparr>p_xstate := status, p_state := ZOMBIE, p_endTime := ticks s\<rparr>) s in
               bindR (rel Lwait s) (\<lambda>s.
               bindR (sched s) (\<lambda>(_, s). Inr s)))))))))))"

section \<open>System calls on processes\<close>

definition sys_exit :: "'z kfile_scheme \<Rightarrow> 'z kfile_scheme res" where
  "sys_exit s = bindR (argint 0 s) (\<lambda>n. exit n s)"

definition sys_getpid :: "'z kproc_scheme \<Rightarrow> u64 res" where
  "sys_getpid s = bindR (myproc s) (\<lambda>p. Inr (of_int (p_pid (procs s p))))"

definition sys_fork :: "'z kfile_scheme \<Rightarrow> (int outcome \<times> 'z kfile_scheme) res" where
  "sys_fork s = fork s"

definition sys_wait :: "'z kproc_scheme \<Rightarrow> (int outcome \<times> 'z kproc_scheme) res" where
  "sys_wait s = bindR (argaddr 0 s) (\<lambda>p. wait p s)"

definition sys_sbrk :: "'z kproc_scheme \<Rightarrow> (u64 \<times> 'z kproc_scheme) res" where
  "sys_sbrk s =
     bindR (argint 0 s) (\<lambda>n.
     bindR (myproc s) (\<lambda>p.
       let addr = p_sz (procs s p) in
       bindR (growproc n s) (\<lambda>(r, s). if r < 0 then Inr (-1, s) else Inr (addr, s))))"

text \<open>One round of the loop of \<open>sys_sleep\<close>, with the lock held. The comparison is unsigned.\<close>

definition sys_sleep_round :: "int \<Rightarrow> u32 \<Rightarrow> 'z kproc_scheme \<Rightarrow> (int outcome \<times> 'z kproc_scheme) res" where
  "sys_sleep_round n ticks0 s =
     (if ticks s - ticks0 < word_of_int n then
        bindR (myproc s) (\<lambda>p.
        bindR (killed p s) (\<lambda>(k, s).
          if k \<noteq> 0 then bindR (rel Ltime s) (\<lambda>s. Inr (Ret (-1), s))
          else Inr (Blocks Cticks Ltime, s)))
      else bindR (rel Ltime s) (\<lambda>s. Inr (Ret 0, s)))"

definition sys_sleep :: "'z kproc_scheme \<Rightarrow> (int outcome \<times> 'z kproc_scheme) res" where
  "sys_sleep s = bindR (argint 0 s) (\<lambda>n. bindR (acq Ltime s) (\<lambda>s. sys_sleep_round n (ticks s) s))"

definition sys_kill :: "'z kproc_scheme \<Rightarrow> (int \<times> 'z kproc_scheme) res" where
  "sys_kill s = bindR (argint 0 s) (\<lambda>pid. kill pid s)"

definition sys_uptime :: "'z kproc_scheme \<Rightarrow> (u64 \<times> 'z kproc_scheme) res" where
  "sys_uptime s =
     bindR (acq Ltime s) (\<lambda>s. let xticks = ticks s in bindR (rel Ltime s) (\<lambda>s. Inr (ucast xticks, s)))"

definition sys_trace :: "'z kproc_scheme \<Rightarrow> (u64 \<times> 'z kproc_scheme) res" where
  "sys_trace s =
     bindR (argint 0 s) (\<lambda>n. bindR (myproc s) (\<lambda>p. Inr (0, updp p (\<lambda>q. q\<lparr>p_mask := n\<rparr>) s)))"

definition sys_setpriority :: "'z kproc_scheme \<Rightarrow> (int \<times> 'z kproc_scheme) res" where
  "sys_setpriority s = bindR (argint 0 s) (\<lambda>priority. bindR (argint 1 s) (\<lambda>pid. set_priority priority pid s))"

definition sys_settickets :: "'z kproc_scheme \<Rightarrow> (u64 \<times> 'z kproc_scheme) res" where
  "sys_settickets s =
     bindR (argint 0 s) (\<lambda>n. bindR (myproc s) (\<lambda>p. Inr (0, updp p (\<lambda>q. q\<lparr>p_tickets := n\<rparr>) s)))"

text \<open>
  When \<open>waitx\<close> finds no child, \<open>wtime\<close> and \<open>rtime\<close> stay uninitialised and what is on the stack is
  copied out.
\<close>

definition sys_waitx_finish ::
  "u64 \<Rightarrow> u64 \<Rightarrow> int \<Rightarrow> (u32 \<times> u32) option \<Rightarrow> 'z kfile_scheme \<Rightarrow> (int \<times> 'z kfile_scheme) res" where
  "sys_waitx_finish addr1 addr2 ret t s =
     (let w = (case t of Some (w, r) \<Rightarrow> bytes_le 4 w | None \<Rightarrow> take 4 (stk_junk s));
          r = (case t of Some (w, r) \<Rightarrow> bytes_le 4 r | None \<Rightarrow> take 4 (drop 4 (stk_junk s)))
      in bindR (myproc s) (\<lambda>p.
         bindR (copyout (p_pagetable (procs s p)) addr1 w s) (\<lambda>(e, s).
           if e < 0 then Inr (-1, s)
           else
             bindR (copyout (p_pagetable (procs s p)) addr2 r s) (\<lambda>(e, s).
               if e < 0 then Inr (-1, s) else Inr (ret, s)))))"

definition sys_waitx :: "'z kfile_scheme \<Rightarrow> (int outcome \<times> 'z kfile_scheme) res" where
  "sys_waitx s =
     bindR (argaddr 0 s) (\<lambda>addr.
     bindR (argaddr 1 s) (\<lambda>addr1.
     bindR (argaddr 2 s) (\<lambda>addr2.
     bindR (waitx addr s) (\<lambda>(o1, s).
       case o1 of
         Ret (ret, t) \<Rightarrow> bindR (sys_waitx_finish addr1 addr2 ret t s) (\<lambda>(r, s). Inr (Ret r, s))
       | Blocks ch lk \<Rightarrow> Inr (Blocks ch lk, s)
       | Yields rt ie \<Rightarrow> Inr (Yields (fst rt) ie, s)
       | Exits \<Rightarrow> Inr (Exits, s)))))"

definition sys_sigalarm :: "'z kproc_scheme \<Rightarrow> (u64 \<times> 'z kproc_scheme) res" where
  "sys_sigalarm s =
     bindR (argint 0 s) (\<lambda>n.
     bindR (argaddr 1 s) (\<lambda>addr.
     bindR (myproc s) (\<lambda>p. Inr (0, updp p (\<lambda>q. q\<lparr>p_maxticks := n, p_handler := addr\<rparr>) s))))"

text \<open>
  Address 0 is not mapped in the kernel's page table: reading the saved trapframe through a null
  \<open>alarm_handler\<close> is a page fault in the kernel, which \<open>kerneltrap\<close> answers with a panic.
\<close>

definition sys_sigreturn :: "'z kproc_scheme \<Rightarrow> (u64 \<times> 'z kproc_scheme) res" where
  "sys_sigreturn s =
     bindR (myproc s) (\<lambda>p.
       let ah = p_alarm_handler (procs s p); tf = p_trapframe (procs s p) in
       if ah = 0 then panic ''kerneltrap''
       else
         let s = s\<lparr>mem := memmove (mem s) (unat tf) (unat ah) 4096\<rparr> in
         bindR (kfree ah s) (\<lambda>s.
           let s = updp p (\<lambda>q. q\<lparr>p_alarm_handler := 0, p_checkifAlarmOn := 0, p_sigticks := 0\<rparr>) s
           in Inr (ldtf (p_trapframe (procs s p)) TF_a0 s, s)))"

end
