(* ===== verification/Syscall.thy ===== *)
theory Syscall
  imports Process
begin

text \<open>
  The dispatcher of \<^verbatim>\<open>kernel/syscall.c\<close> with the tracing the repository added: the table of handlers,
  the table of names and argument counts, and \<open>syscall\<close>.
\<close>

definition val :: "(u64 \<times> 's) res \<Rightarrow> (u64 outcome \<times> 's) res" where
  "val m = bindR m (\<lambda>(r, s). Inr (Ret r, s))"

definition ival :: "(int \<times> 's) res \<Rightarrow> (u64 outcome \<times> 's) res" where
  "ival m = bindR m (\<lambda>(r, s). Inr (Ret (of_int r), s))"

definition oval :: "(int outcome \<times> 's) res \<Rightarrow> (u64 outcome \<times> 's) res" where
  "oval m = bindR m (\<lambda>(r, s). Inr (map_outcome of_int r, s))"

text \<open>The handler in \<open>syscalls[num]\<close>.\<close>

definition syscalls :: "nat \<Rightarrow> ('z kfile_scheme \<Rightarrow> (u64 outcome \<times> 'z kfile_scheme) res) option" where
  "syscalls num =
     (if num = 1 then Some (\<lambda>s. oval (sys_fork s))
      else if num = 2 then Some (\<lambda>s. bindR (sys_exit s) (\<lambda>s. Inr (Exits, s)))
      else if num = 3 then Some (\<lambda>s. oval (sys_wait s))
      else if num = 4 then Some (\<lambda>s. val (sys_pipe s))
      else if num = 5 then Some (\<lambda>s. oval (sys_read s))
      else if num = 6 then Some (\<lambda>s. ival (sys_kill s))
      else if num = 7 then Some (\<lambda>s. val (sys_exec s))
      else if num = 8 then Some (\<lambda>s. val (sys_fstat s))
      else if num = 9 then Some (\<lambda>s. val (sys_chdir s))
      else if num = 10 then Some (\<lambda>s. val (sys_dup s))
      else if num = 11 then Some (\<lambda>s. bindR (sys_getpid s) (\<lambda>r. Inr (Ret r, s)))
      else if num = 12 then Some (\<lambda>s. val (sys_sbrk s))
      else if num = 13 then Some (\<lambda>s. oval (sys_sleep s))
      else if num = 14 then Some (\<lambda>s. val (sys_uptime s))
      else if num = 15 then Some (\<lambda>s. val (sys_open s))
      else if num = 16 then Some (\<lambda>s. oval (sys_write s))
      else if num = 17 then Some (\<lambda>s. val (sys_mknod s))
      else if num = 18 then Some (\<lambda>s. val (sys_unlink s))
      else if num = 19 then Some (\<lambda>s. val (sys_link s))
      else if num = 20 then Some (\<lambda>s. val (sys_mkdir s))
      else if num = 21 then Some (\<lambda>s. val (sys_close s))
      else if num = 22 then Some (\<lambda>s. val (sys_trace s))
      else if num = 23 then Some (\<lambda>s. val (sys_sigalarm s))
      else if num = 24 then Some (\<lambda>s. ival (sys_setpriority s))
      else if num = 25 then Some (\<lambda>s. val (sys_settickets s))
      else if num = 26 then Some (\<lambda>s. oval (sys_waitx s))
      else if num = 27 then Some (\<lambda>s. val (sys_sigreturn s))
      else None)"

definition syscall_info :: "(string \<times> nat) list" where
  "syscall_info = [
     (''fork'', 0), (''exit'', 1), (''wait'', 1), (''pipe'', 0), (''read'', 3), (''kill'', 2),
     (''exec'', 2), (''fstat'', 1), (''chdir'', 1), (''dup'', 1), (''getpid'', 0), (''sbrk'', 1),
     (''sleep'', 1), (''uptime'', 0), (''open'', 2), (''write'', 3), (''mknod'', 3), (''unlink'', 1),
     (''link'', 2), (''mkdir'', 1), (''close'', 1), (''trace'', 1), (''sigalarm'', 2),
     (''setpriority'', 2), (''settickets'', 1), (''waitx'', 3), (''sigreturn'', 0)]"

fun read_args :: "nat list \<Rightarrow> 'z kproc_scheme \<Rightarrow> int list res" where
  "read_args [] s = Inr []"
| "read_args (j # js) s = bindR (argint j s) (\<lambda>x. bindR (read_args js s) (\<lambda>xs. Inr (x # xs)))"

text \<open>After the handler has returned \<open>r\<close>: \<open>a0\<close>, and the trace line if the mask asks for it.\<close>

definition syscall_finish :: "nat \<Rightarrow> nat \<Rightarrow> int list \<Rightarrow> u64 \<Rightarrow> 'z kproc_scheme \<Rightarrow> 'z kproc_scheme res" where
  "syscall_finish p num args r s =
     (let s = sttf (p_trapframe (procs s p)) TF_a0 r s in
      if (word_of_int (p_mask (procs s p)) :: u32) AND push_bit num 1 \<noteq> 0 then
        bindR (printf ''%d: syscall %s '' [Aint (p_pid (procs s p)),
                 Astr (Some (bytes_of (fst (syscall_info ! (num - 1))) @ [0]))] s) (\<lambda>s.
        bindR (printf ''('' [] s) (\<lambda>s.
        bindR (foldR (\<lambda>x. printf ''%d '' [Aint x]) args s) (\<lambda>s.
        bindR (printf '')'' [] s) (\<lambda>s.
          printf '' -> %d\<newline>'' [Aint (sint (ucast (ldtf (p_trapframe (procs s p)) TF_a0 s) :: u32))] s))))
      else Inr s)"

text \<open>
  When the handler waits or yields, the result also says how to finish: the number and the
  arguments for \<open>syscall_finish\<close>.
\<close>

definition syscall :: "'z kfile_scheme \<Rightarrow> (u64 outcome \<times> (nat \<times> int list) \<times> 'z kfile_scheme) res" where
  "syscall s =
     bindR (myproc s) (\<lambda>p.
       let num = sint (ucast (ldtf (p_trapframe (procs s p)) TF_a7 s) :: u32) in
       case (if num > 0 \<and> num < 28 then syscalls (nat num) else None) of
         Some h \<Rightarrow>
           bindR (read_args [0..<snd (syscall_info ! (nat num - 1))] s) (\<lambda>args.
           bindR (h s) (\<lambda>(o1, s).
             case o1 of
               Ret r \<Rightarrow> bindR (syscall_finish p (nat num) args r s) (\<lambda>s. Inr (Ret r, (nat num, args), s))
             | _ \<Rightarrow> Inr (o1, (nat num, args), s)))
       | None \<Rightarrow>
           bindR (printf ''%d %s: unknown sys call %d\<newline>''
                    [Aint (p_pid (procs s p)), Astr (Some (p_name (procs s p))), Aint num] s) (\<lambda>s.
             Inr (Ret (-1), (0, []), sttf (p_trapframe (procs s p)) TF_a0 (-1) s)))"

end
