(* ===== verification/Trap.thy ===== *)
theory Trap
  imports Syscall
begin

text \<open>
  \<^verbatim>\<open>kernel/trap.c\<close> and \<^verbatim>\<open>kernel/plic.c\<close>, over the control and status registers of \<^verbatim>\<open>kernel/riscv.h\<close>:
  traps from user space and from the kernel, device and timer interrupts, and the return to user
  space. \<open>intr_on\<close>, \<open>intr_off\<close> and \<open>intr_get\<close> work on \<open>sie\<close>, the interrupt-enable bit of \<open>sstatus\<close>; the
  other bits of \<open>sstatus\<close> are in \<open>csrs\<close>. The PLIC has its registers, and the interrupts it will
  report, in order.
\<close>

section \<open>Registers\<close>

datatype csr =
    mhartid | mstatus | mepc | sstatus | sip | sie_reg | mie | sepc | medeleg | mideleg | stvec | mtvec
  | pmpcfg0 | pmpaddr0 | satp | mscratch | scause | stval | tp

record ktrap = kfile +
  csrs :: "csr \<Rightarrow> u64"
  pl_regs :: "u64 \<Rightarrow> u32"
  pl_irqs :: "u32 list"
  a_kernelvec :: u64

definition rcsr :: "csr \<Rightarrow> 'z ktrap_scheme \<Rightarrow> u64" where
  "rcsr r s = csrs s r"

definition wcsr :: "csr \<Rightarrow> u64 \<Rightarrow> 'z ktrap_scheme \<Rightarrow> 'z ktrap_scheme" where
  "wcsr r x s = s\<lparr>csrs := (csrs s)(r := x)\<rparr>"

definition r_sstatus :: "'z ktrap_scheme \<Rightarrow> u64" where "r_sstatus s = rcsr sstatus s"
definition w_sstatus :: "u64 \<Rightarrow> 'z ktrap_scheme \<Rightarrow> 'z ktrap_scheme" where "w_sstatus x s = wcsr sstatus x s"
definition r_sip :: "'z ktrap_scheme \<Rightarrow> u64" where "r_sip s = rcsr sip s"
definition w_sip :: "u64 \<Rightarrow> 'z ktrap_scheme \<Rightarrow> 'z ktrap_scheme" where "w_sip x s = wcsr sip x s"
definition r_sepc :: "'z ktrap_scheme \<Rightarrow> u64" where "r_sepc s = rcsr sepc s"
definition w_sepc :: "u64 \<Rightarrow> 'z ktrap_scheme \<Rightarrow> 'z ktrap_scheme" where "w_sepc x s = wcsr sepc x s"
definition r_satp :: "'z ktrap_scheme \<Rightarrow> u64" where "r_satp s = rcsr satp s"
definition w_satp :: "u64 \<Rightarrow> 'z ktrap_scheme \<Rightarrow> 'z ktrap_scheme" where "w_satp x s = wcsr satp x s"
definition w_stvec :: "u64 \<Rightarrow> 'z ktrap_scheme \<Rightarrow> 'z ktrap_scheme" where "w_stvec x s = wcsr stvec x s"
definition r_scause :: "'z ktrap_scheme \<Rightarrow> u64" where "r_scause s = rcsr scause s"
definition r_stval :: "'z ktrap_scheme \<Rightarrow> u64" where "r_stval s = rcsr stval s"
definition r_tp :: "'z ktrap_scheme \<Rightarrow> u64" where "r_tp s = rcsr tp s"

definition cpuid :: "'z ktrap_scheme \<Rightarrow> int" where
  "cpuid s = sint (ucast (r_tp s) :: u32)"

abbreviation (input) "SSTATUS_SPP \<equiv> 0x100 :: u64"
abbreviation (input) "SSTATUS_SPIE \<equiv> 0x20 :: u64"

section \<open>The interrupt controller\<close>

abbreviation (input) "UART0_IRQ \<equiv> 10 :: u32"
abbreviation (input) "VIRTIO0_IRQ \<equiv> 1 :: u32"

definition PLIC_SENABLE :: "int \<Rightarrow> u64" where "PLIC_SENABLE hart = PLIC + 0x2080 + of_int hart * 0x100"
definition PLIC_SPRIORITY :: "int \<Rightarrow> u64" where "PLIC_SPRIORITY hart = PLIC + 0x201000 + of_int hart * 0x2000"
definition PLIC_SCLAIM :: "int \<Rightarrow> u64" where "PLIC_SCLAIM hart = PLIC + 0x201004 + of_int hart * 0x2000"

definition wplic :: "u64 \<Rightarrow> u32 \<Rightarrow> 'z ktrap_scheme \<Rightarrow> 'z ktrap_scheme" where
  "wplic a x s = s\<lparr>pl_regs := (pl_regs s)(a := x)\<rparr>"

definition plicinit :: "'z ktrap_scheme \<Rightarrow> 'z ktrap_scheme" where
  "plicinit s = wplic (PLIC + ucast VIRTIO0_IRQ * 4) 1 (wplic (PLIC + ucast UART0_IRQ * 4) 1 s)"

definition plicinithart :: "'z ktrap_scheme \<Rightarrow> 'z ktrap_scheme" where
  "plicinithart s =
     (let hart = cpuid s in
      wplic (PLIC_SPRIORITY hart) 0
        (wplic (PLIC_SENABLE hart) (push_bit (unat UART0_IRQ) 1 OR push_bit (unat VIRTIO0_IRQ) 1) s))"

text \<open>Reading the claim register takes the next pending interrupt; 0 means there is none.\<close>

definition plic_claim :: "'z ktrap_scheme \<Rightarrow> u32 \<times> 'z ktrap_scheme" where
  "plic_claim s = (case pl_irqs s of [] \<Rightarrow> (0, s) | i # is \<Rightarrow> (i, s\<lparr>pl_irqs := is\<rparr>))"

definition plic_complete :: "u32 \<Rightarrow> 'z ktrap_scheme \<Rightarrow> 'z ktrap_scheme" where
  "plic_complete irq s = wplic (PLIC_SCLAIM (cpuid s)) irq s"

section \<open>Interrupts\<close>

definition trapinit :: "'z ktrap_scheme \<Rightarrow> 'z ktrap_scheme" where
  "trapinit s = s\<lparr>held := held s - {Ltime}\<rparr>"

definition trapinithart :: "'z ktrap_scheme \<Rightarrow> 'z ktrap_scheme" where
  "trapinithart s = w_stvec (a_kernelvec s) s"

definition clockintr :: "'z kproc_scheme \<Rightarrow> 'z kproc_scheme res" where
  "clockintr s =
     bindR (acq Ltime s) (\<lambda>s.
     bindR (upd_time (s\<lparr>ticks := ticks s + 1\<rparr>)) (\<lambda>s.
     bindR (wakeup Cticks s) (rel Ltime)))"

definition devintr_plic :: "'z ktrap_scheme \<Rightarrow> 'z ktrap_scheme res" where
  "devintr_plic s =
     (let (irq, s) = plic_claim s in
      bindR (if irq = UART0_IRQ then uartintr s
             else if irq = VIRTIO0_IRQ then virtio_disk_intr s
             else if irq \<noteq> 0 then printf ''unexpected interrupt irq=%d\<newline>'' [Aint (sint irq)] s
             else Inr s) (\<lambda>s.
        Inr (if irq \<noteq> 0 then plic_complete irq s else s)))"

definition devintr :: "'z ktrap_scheme \<Rightarrow> (int \<times> 'z ktrap_scheme) res" where
  "devintr s =
     (let c = r_scause s in
      if c AND 0x8000000000000000 \<noteq> 0 \<and> c AND 0xff = 9 then
        bindR (devintr_plic s) (\<lambda>s. Inr (1, s))
      else if c = 0x8000000000000001 then
        bindR (if cpuid s = 0 then clockintr s else Inr s) (\<lambda>s.
          Inr (2, w_sip (r_sip s AND NOT 2) s))
      else Inr (0, s))"

section \<open>Returning to user space\<close>

text \<open>
  What the hart is set up to do by \<open>userret\<close> and \<open>sret\<close> is in the registers; the result is the \<open>satp\<close>
  that is passed to \<open>userret\<close>.
\<close>

definition usertrapret :: "'z ktrap_scheme \<Rightarrow> (u64 \<times> 'z ktrap_scheme) res" where
  "usertrapret s =
     bindR (myproc s) (\<lambda>p.
       let s = s\<lparr>sie := False\<rparr>;
           s = w_stvec (TRAMPOLINE + (a_uservec s - trampoline s)) s;
           tf = p_trapframe (procs s p);
           s = sttf tf kernel_satp (r_satp s) s;
           s = sttf tf kernel_sp (p_kstack (procs s p) + PGSIZE) s;
           s = sttf tf kernel_trap (a_usertrap s) s;
           s = sttf tf kernel_hartid (r_tp s) s;
           x = r_sstatus s;
           x = x AND NOT SSTATUS_SPP;
           x = x OR SSTATUS_SPIE;
           s = w_sstatus x s;
           s = w_sepc (ldtf tf TF_epc s) s
       in Inr (MAKE_SATP (p_pagetable (procs s p)), s))"

text \<open>The time slice at the end of a timer interrupt; the result says whether the process yields.\<close>

definition time_slice :: "nat \<Rightarrow> 'z kproc_scheme \<Rightarrow> bool \<times> 'z kproc_scheme" where
  "time_slice p s =
     (case SCHEDULER s of
        DEFAULT \<Rightarrow> (True, s)
      | LBS \<Rightarrow>
          let s = updp p (\<lambda>q. q\<lparr>p_time_spent := p_time_spent q + 1\<rparr>) s in
          if p_time_spent (procs s p) \<ge> p_time_avail (procs s p)
          then (True, updp p (\<lambda>q. q\<lparr>p_time_spent := 0\<rparr>) s) else (False, s)
      | MLFQ \<Rightarrow>
          let s = updp p (\<lambda>q. q\<lparr>p_ticks_elapsed := p_ticks_elapsed q + 1\<rparr>) s in
          if p_ticks_elapsed (procs s p) \<ge> p_ass_ticks (procs s p)
          then (True, updp p (\<lambda>q. let q = q\<lparr>p_ticks_elapsed := 0\<rparr> in
                 if p_priority_level q < 4
                 then q\<lparr>p_priority_level := p_priority_level q + 1, p_ass_ticks := p_ass_ticks q * 2\<rparr> else q) s)
          else (False, s)
      | FCFS \<Rightarrow> (False, s)
      | PBS \<Rightarrow> (False, s))"

section \<open>Traps\<close>

text \<open>From the test of \<open>killed\<close> on. A process that yields goes on with \<open>usertrapret\<close>.\<close>

definition usertrap_tail :: "nat \<Rightarrow> int \<Rightarrow> 'z ktrap_scheme \<Rightarrow> (u64 outcome \<times> 'z ktrap_scheme) res" where
  "usertrap_tail p which_dev s =
     bindR (killed p s) (\<lambda>(k, s).
       if k \<noteq> 0 then bindR (exit (-1) s) (\<lambda>s. Inr (Exits, s))
       else
         let (y, s) = (if which_dev = 2 then time_slice p s else (False, s)) in
         if y then bindR (yield s) (\<lambda>(ie, s). Inr (Yields 0 ie, s))
         else bindR (usertrapret s) (\<lambda>(r, s). Inr (Ret r, s)))"

definition usertrap_fault :: "nat \<Rightarrow> 'z ktrap_scheme \<Rightarrow> 'z ktrap_scheme res" where
  "usertrap_fault p s =
     (let addr = r_stval s; sp = ldtf (p_trapframe (procs s p)) TF_sp s in
      bindR (if addr \<ge> MAXVA \<or> addr < sp \<and> addr \<ge> sp - PGSIZE then setkilled p s else Inr s) (\<lambda>s.
      bindR (cowalloc (p_pagetable (procs s p)) (PGROUNDDOWN addr) s) (\<lambda>(r, s).
        if r < 0 then setkilled p s else Inr s)))"

definition usertrap :: "'z ktrap_scheme \<Rightarrow> (u64 outcome \<times> 'z ktrap_scheme) res" where
  "usertrap s =
     (if r_sstatus s AND SSTATUS_SPP \<noteq> 0 then panic ''usertrap: not from user mode''
      else
        let s = w_stvec (a_kernelvec s) s in
        bindR (myproc s) (\<lambda>p.
          let tf = p_trapframe (procs s p);
              s = sttf tf TF_epc (r_sepc s) s
          in if r_scause s = 8 then
               if p_killed (procs s p) \<noteq> 0 then bindR (exit (-1) s) (\<lambda>s. Inr (Exits, s))
               else
                 let s = sttf tf TF_epc (ldtf tf TF_epc s + 4) s;
                     s = s\<lparr>sie := True\<rparr>
                 in bindR (syscall s) (\<lambda>(o1, _, s).
                      case o1 of Ret _ \<Rightarrow> usertrap_tail p 0 s | _ \<Rightarrow> Inr (o1, s))
             else if r_scause s = 15 then bindR (usertrap_fault p s) (usertrap_tail p 0)
             else
               bindR (devintr s) (\<lambda>(which_dev, s).
                 if which_dev \<noteq> 0 then usertrap_tail p which_dev s
                 else
                   bindR (printf ''usertrap(): unexpected scause %p pid=%d\<newline>''
                            [Aptr (r_scause s), Aint (p_pid (procs s p))] s) (\<lambda>s.
                   bindR (printf ''            sepc=%p stval=%p\<newline>'' [Aptr (r_sepc s), Aptr (r_stval s)] s) (\<lambda>s.
                   bindR (setkilled p s) (usertrap_tail p 0))))))"

text \<open>\<open>kerneltrap\<close>, and its end after a yield.\<close>

definition kerneltrap_finish :: "u64 \<Rightarrow> u64 \<Rightarrow> 'z ktrap_scheme \<Rightarrow> 'z ktrap_scheme" where
  "kerneltrap_finish epc st s = w_sstatus st (w_sepc epc s)"

definition kerneltrap :: "'z ktrap_scheme \<Rightarrow> (unit outcome \<times> 'z ktrap_scheme) res" where
  "kerneltrap s =
     (let epc = r_sepc s; st = r_sstatus s; c = r_scause s in
      if st AND SSTATUS_SPP = 0 then panic ''kerneltrap: not from supervisor mode''
      else if intr_get1 s then panic ''kerneltrap: interrupts enabled''
      else
        bindR (devintr s) (\<lambda>(which_dev, s).
          if which_dev = 0 then
            bindR (printf ''scause %p\<newline>'' [Aptr c] s) (\<lambda>s.
            bindR (printf ''sepc=%p stval=%p\<newline>'' [Aptr (r_sepc s), Aptr (r_stval s)] s) (\<lambda>s.
              panic ''kerneltrap''))
          else
            case cur s of
              Some p \<Rightarrow>
                if which_dev = 2 \<and> p_state (procs s p) = RUNNING then
                  let (y, s) = time_slice p s in
                  if y then bindR (yield s) (\<lambda>(ie, s). Inr (Yields () ie, s))
                  else Inr (Ret (), kerneltrap_finish epc st s)
                else Inr (Ret (), kerneltrap_finish epc st s)
            | None \<Rightarrow> Inr (Ret (), kerneltrap_finish epc st s)))"

section \<open>The first run of a process\<close>

definition forkret :: "'z ktrap_scheme \<Rightarrow> (u64 \<times> 'z ktrap_scheme) res" where
  "forkret s =
     bindR (myproc s) (\<lambda>p.
     bindR (rel (Lproc p) s) (\<lambda>s.
     bindR (if forkret_first s then fsinit 1 (s\<lparr>forkret_first := False\<rparr>) else Inr s) usertrapret))"

end
