(* ===== verification/Boot.thy ===== *)
theory Boot
  imports Trap
begin

text \<open>
  Boot: \<^verbatim>\<open>kernel/start.c\<close> (machine mode, one hart), the kernel's page table (\<open>kvmmake\<close> and
  \<open>kvminit\<close> of \<^verbatim>\<open>kernel/vm.c\<close>, \<open>proc_mapstacks\<close> of \<^verbatim>\<open>kernel/proc.c\<close>) and \<open>main\<close> of \<^verbatim>\<open>kernel/main.c\<close> up to
  its call of \<open>scheduler\<close>.
\<close>

section \<open>Machine mode\<close>

record kboot = ktrap +
  mtime :: u64
  mtimecmp :: "nat \<Rightarrow> u64"
  timer_scratch :: "nat \<Rightarrow> u64 list"
  a_main :: u64
  a_timervec :: u64
  a_scratch :: "nat \<Rightarrow> u64"
  started :: bool

definition r_mhartid :: "'z ktrap_scheme \<Rightarrow> u64" where "r_mhartid s = rcsr mhartid s"
definition r_mstatus :: "'z ktrap_scheme \<Rightarrow> u64" where "r_mstatus s = rcsr mstatus s"
definition w_mstatus :: "u64 \<Rightarrow> 'z ktrap_scheme \<Rightarrow> 'z ktrap_scheme" where "w_mstatus x s = wcsr mstatus x s"
definition w_mepc :: "u64 \<Rightarrow> 'z ktrap_scheme \<Rightarrow> 'z ktrap_scheme" where "w_mepc x s = wcsr mepc x s"
definition r_sie :: "'z ktrap_scheme \<Rightarrow> u64" where "r_sie s = rcsr sie_reg s"
definition w_sie :: "u64 \<Rightarrow> 'z ktrap_scheme \<Rightarrow> 'z ktrap_scheme" where "w_sie x s = wcsr sie_reg x s"
definition r_mie :: "'z ktrap_scheme \<Rightarrow> u64" where "r_mie s = rcsr mie s"
definition w_mie :: "u64 \<Rightarrow> 'z ktrap_scheme \<Rightarrow> 'z ktrap_scheme" where "w_mie x s = wcsr mie x s"
definition w_medeleg :: "u64 \<Rightarrow> 'z ktrap_scheme \<Rightarrow> 'z ktrap_scheme" where "w_medeleg x s = wcsr medeleg x s"
definition w_mideleg :: "u64 \<Rightarrow> 'z ktrap_scheme \<Rightarrow> 'z ktrap_scheme" where "w_mideleg x s = wcsr mideleg x s"
definition w_mtvec :: "u64 \<Rightarrow> 'z ktrap_scheme \<Rightarrow> 'z ktrap_scheme" where "w_mtvec x s = wcsr mtvec x s"
definition w_pmpcfg0 :: "u64 \<Rightarrow> 'z ktrap_scheme \<Rightarrow> 'z ktrap_scheme" where "w_pmpcfg0 x s = wcsr pmpcfg0 x s"
definition w_pmpaddr0 :: "u64 \<Rightarrow> 'z ktrap_scheme \<Rightarrow> 'z ktrap_scheme" where "w_pmpaddr0 x s = wcsr pmpaddr0 x s"
definition w_mscratch :: "u64 \<Rightarrow> 'z ktrap_scheme \<Rightarrow> 'z ktrap_scheme" where "w_mscratch x s = wcsr mscratch x s"
definition w_tp :: "u64 \<Rightarrow> 'z ktrap_scheme \<Rightarrow> 'z ktrap_scheme" where "w_tp x s = wcsr tp x s"

abbreviation (input) "MSTATUS_MPP_MASK \<equiv> 0x1800 :: u64"
abbreviation (input) "MSTATUS_MPP_S \<equiv> 0x800 :: u64"
abbreviation (input) "MSTATUS_MIE \<equiv> 8 :: u64"
abbreviation (input) "SIE_SEIE \<equiv> 0x200 :: u64"
abbreviation (input) "SIE_STIE \<equiv> 0x20 :: u64"
abbreviation (input) "SIE_SSIE \<equiv> 2 :: u64"
abbreviation (input) "MIE_MTIE \<equiv> 0x80 :: u64"

definition CLINT_MTIMECMP :: "nat \<Rightarrow> u64" where
  "CLINT_MTIMECMP hartid = 0x2000000 + 0x4000 + 8 * of_nat hartid"

definition timerinit :: "'z kboot_scheme \<Rightarrow> 'z kboot_scheme" where
  "timerinit s =
     (let id1 = unat (r_mhartid s);
          interval = 1000000;
          s = s\<lparr>mtimecmp := (mtimecmp s)(id1 := mtime s + interval)\<rparr>;
          s = s\<lparr>timer_scratch := (timer_scratch s)(id1 := (timer_scratch s id1)[3 := CLINT_MTIMECMP id1, 4 := interval])\<rparr>;
          s = w_mscratch (a_scratch s id1) s;
          s = w_mtvec (a_timervec s) s;
          s = w_mstatus (r_mstatus s OR MSTATUS_MIE) s
      in w_mie (r_mie s OR MIE_MTIE) s)"

text \<open>\<open>start\<close> up to its \<open>mret\<close>.\<close>

definition start :: "'z kboot_scheme \<Rightarrow> 'z kboot_scheme" where
  "start s =
     (let x = r_mstatus s;
          x = x AND NOT MSTATUS_MPP_MASK;
          x = x OR MSTATUS_MPP_S;
          s = w_mstatus x s;
          s = w_mepc (a_main s) s;
          s = w_satp 0 s;
          s = w_medeleg 0xffff s;
          s = w_mideleg 0xffff s;
          s = w_sie (r_sie s OR SIE_SEIE OR SIE_STIE OR SIE_SSIE) s;
          s = w_pmpaddr0 0x3fffffffffffff s;
          s = w_pmpcfg0 0xf s;
          s = timerinit s
      in w_tp (r_mhartid s) s)"

section \<open>The kernel page table\<close>

definition proc_mapstacks :: "u64 \<Rightarrow> 'z kmem_scheme \<Rightarrow> 'z kmem_scheme res" where
  "proc_mapstacks kpgtbl s =
     foldR (\<lambda>p s.
       bindR (kalloc s) (\<lambda>(pa, s).
         if pa = 0 then panic ''kalloc'' else kvmmap kpgtbl (KSTACK p) pa PGSIZE (PTE_R OR PTE_W) s)) [0..<NPROC] s"

definition kvmmake :: "'z kmem_scheme \<Rightarrow> (u64 \<times> 'z kmem_scheme) res" where
  "kvmmake s =
     bindR (kalloc s) (\<lambda>(kpgtbl, s).
       if kpgtbl = 0 then Inl (UB ''kvmmake: null page'') else
       bindR (kvmmap kpgtbl UART0 UART0 PGSIZE (PTE_R OR PTE_W) (zero_page kpgtbl s)) (\<lambda>s.
       bindR (kvmmap kpgtbl VIRTIO0 VIRTIO0 PGSIZE (PTE_R OR PTE_W) s) (\<lambda>s.
       bindR (kvmmap kpgtbl PLIC PLIC 0x400000 (PTE_R OR PTE_W) s) (\<lambda>s.
       bindR (kvmmap kpgtbl KERNBASE KERNBASE (etext s - KERNBASE) (PTE_R OR PTE_X) s) (\<lambda>s.
       bindR (kvmmap kpgtbl (etext s) (etext s) (PHYSTOP - etext s) (PTE_R OR PTE_W) s) (\<lambda>s.
       bindR (kvmmap kpgtbl TRAMPOLINE (trampoline s) PGSIZE (PTE_R OR PTE_X) s) (\<lambda>s.
       bindR (proc_mapstacks kpgtbl s) (\<lambda>s. Inr (kpgtbl, s)))))))))"

definition kvminit :: "'z kproc_scheme \<Rightarrow> 'z kproc_scheme res" where
  "kvminit s = bindR (kvmmake s) (\<lambda>(pt, s). Inr (s\<lparr>kernel_pagetable := pt\<rparr>))"

definition kvminithart :: "'z ktrap_scheme \<Rightarrow> 'z ktrap_scheme" where
  "kvminithart s = w_satp (MAKE_SATP (kernel_pagetable s)) s"

section \<open>main\<close>

definition main_hart0 :: "'z kboot_scheme \<Rightarrow> 'z kboot_scheme res" where
  "main_hart0 s =
     (let s = consoleinit s; s = printfinit s in
      bindR (printf ''\<newline>'' [] s) (\<lambda>s.
      bindR (printf ''xv6 kernel is booting\<newline>'' [] s) (\<lambda>s.
      bindR (printf ''\<newline>'' [] s) (\<lambda>s.
      bindR (kinit s) (\<lambda>s.
      bindR (kvminit s) (\<lambda>s.
        let s = kvminithart s; s = procinit s; s = trapinit s; s = trapinithart s; s = plicinit s;
            s = plicinithart s; s = binit s; s = iinit s; s = fileinit s
        in bindR (virtio_disk_init s) (\<lambda>s.
           bindR (userinit s) (\<lambda>s. Inr (s\<lparr>started := True\<rparr>)))))))))"

definition main_other :: "'z kboot_scheme \<Rightarrow> 'z kboot_scheme res" where
  "main_other s =
     (if \<not> started s then Inl Spin
      else
        bindR (printf ''hart %d starting\<newline>'' [Aint (cpuid s)] s) (\<lambda>s.
          let s = kvminithart s; s = trapinithart s in Inr (plicinithart s)))"

definition main :: "'z kboot_scheme \<Rightarrow> 'z kboot_scheme res" where
  "main s = (if cpuid s = 0 then main_hart0 s else main_other s)"

end
