(* ===== verification/VmProps.thy ===== *)
theory VmProps
  imports ProcMem CowFork
begin

text \<open>
  What the address-space operations promise their callers, over the whole of an address space:
  reading and writing user memory, growing it, and \<open>uvmcopy\<close>, including the one way in which its
  copy-on-write does not isolate the two processes.
\<close>

section \<open>A machine with two address spaces\<close>

text \<open>A process with two pages of memory, and a second, empty page table.\<close>

lemma second_table:
  fixes s :: "'z kmem_scheme"
  assumes "kmem_inv s (p # q # fl)"
  obtains s' :: "'z kmem_scheme" where "pt_inv s' p [[] \<mapsto> p]" "leaf s' [[] \<mapsto> p] = (\<lambda>_. 0)" "pt_inv s' q [[] \<mapsto> q]"
    "leaf s' [[] \<mapsto> q] = (\<lambda>_. 0)" "kmem_inv s' fl" "konly s s'"
proof -
  note u = uvmcreate_eq [OF assms]
  let ?s1 = "zero_page p (kalloc_post p s)"
  note v = uvmcreate_eq [OF u(3)]
  let ?s2 = "zero_page q (kalloc_post q ?s1)"
  have ram: "ram_page s p" "ram_page s q" "p \<noteq> q" using kmem_invD(4,5) [OF assms] by auto
  have k: "kend ?s2 = kend ?s1" "kend ?s1 = kend s" using konlyD(2) [OF u(5)] konlyD(2) [OF v(5)] by auto
  have "pno p \<noteq> pno q" using pno_inj [of p q] ram by (auto simp: ram_page_def)
  then have rc: "refcnt ?s2 (pno p) = refcnt ?s1 (pno p)" using v(6) by simp
  have m: "mem ?s2 x = mem ?s1 x" if "x \<in> page_bytes p" for x
    by (rule v(7)) (rule page_out [OF that ram(1,2,3)])
  have "pt_inv ?s2 p [[] \<mapsto> p]" by (rule pt_inv_frame(1) [OF u(2) k(1)]) (use m rc in auto)
  moreover have "leaf ?s2 [[] \<mapsto> p] = (\<lambda>_. 0)"
    using pt_inv_frame(2) [OF u(2) k(1)] m rc u(4) by auto
  moreover have "konly s ?s2" by (rule konly_trans [OF u(5) v(5)])
  ultimately show ?thesis using that [of ?s2] v(2,3,4) by blast
qed

text \<open>Mapping more pages keeps another table that shares no page with the first or with the free list.\<close>

lemma alloc_at_other:
  assumes "alloc_at s root N fl v0 i s' N' fl'" "pt_inv s r2 N2" "kmem_inv s fl" "pt_inv s root N" "ran N \<inter> ran N2 = {}"
  shows "pt_inv s' r2 N2" "leaf s' N2 = leaf s N2"
proof -
  note a = alloc_atD [OF assms(1)]
  have nf: "q \<notin> ran N \<union> set fl" if "q \<in> ran N2" for q
    using node_not_free [OF assms(2,3) that] assms(5) that by auto
  have ram: "ram_page s q" if "q \<in> ran N \<union> set fl" for q
    using that node_ram [OF assms(4)] kmem_invD(5) [OF assms(3)] by auto
  have m: "mem s' x = mem s x" if "q \<in> ran N2" "x \<in> page_bytes q" for q x
    using page_out [OF that(2) node_ram [OF assms(2) that(1)] ram] nf [OF that(1)] by (intro a(13)) blast
  have rc: "refcnt s' (pno q) = refcnt s (pno q)" if q: "q \<in> ran N2" for q
  proof (rule a(12), rule notI)
    assume "pno q \<in> pno ` set fl"
    then obtain t where t: "t \<in> set fl" "pno q = pno t" by auto
    then have "q = t" using pno_inj [of q t] node_ram [OF assms(2) q] ram [of t] by (auto simp: ram_page_def)
    with t(1) nf [OF q] show False by simp
  qed
  show "pt_inv s' r2 N2" by (rule pt_inv_frame(1) [OF assms(2) konlyD(2) [OF a(4)] m rc])
  show "leaf s' N2 = leaf s N2" by (rule pt_inv_frame(2) [OF assms(2) konlyD(2) [OF a(4)] m rc])
qed

text \<open>Two tables, the first with the pages 0 and 1 mapped and private.\<close>

lemma spaces_from:
  fixes s0 :: "'z kmem_scheme"
  assumes "kmem_inv s0 demo_pages"
  shows "\<exists>(s :: 'z kmem_scheme) ro No rn Nn fl. fork_user s ro No rn Nn fl 2 \<and>
     (\<forall>v<2. upage s No v \<noteq> 0 \<and> leaf s No v AND PTE_C = 0) \<and> (\<forall>v\<ge>2. leaf s No v = 0) \<and> 6 \<le> length fl \<and> konly s0 s"
proof -
  obtain p q fl where d: "demo_pages = p # q # fl" "length fl = 14"
    by (simp add: demo_pages_def)
  obtain s :: "'z kmem_scheme" where s: "pt_inv s p [[] \<mapsto> p]" "leaf s [[] \<mapsto> p] = (\<lambda>_. 0)" "pt_inv s q [[] \<mapsto> q]"
    "leaf s [[] \<mapsto> q] = (\<lambda>_. 0)" "kmem_inv s fl" "konly s0 s"
    by (rule second_table [OF assms [unfolded d(1)]])
  let ?Nn = "[[] \<mapsto> p]" and ?No = "[[] \<mapsto> q]"
  have ne: "ran ?No \<inter> ran ?Nn = {}" "p \<notin> set fl"
    using kmem_invD(4) [OF assms] unfolding d(1) by auto
  have u0: "upage s ?No = (\<lambda>_. 0)" by (simp add: fun_eq_iff upage_def s(4))
  then have "user_inv s ?No" using kmem_invD(7) [OF s(5)] by (auto simp: user_inv_def)
  note a0 = alloc_at_0 [OF s(3,5) this, of 0]
  have pg: "pages_of (8192 :: u64) = 2" by (simp add: pages_of_def)
  obtain r s' No' fl' where a: "alloc_at s q ?No fl 0 2 s' No' fl'" "8 \<le> length fl'"
    using uvmalloc_loop_spec [OF a0, of 8192 PTE_W] d(2) by (auto simp: s(4) pg)
  note b = alloc_atD [OF a(1)] and o = alloc_at_other [OF a(1) s(1,5,3) ne(1)]
  have z: "leaf s' ?Nn v = 0" for v using o(2) s(2) by simp
  have up: "upage s' No' v \<noteq> 0" "upage s' No' v \<in> set fl" if "v < 2" for v using b(8,9) that by auto
  have "forkable s' q No' p ?Nn fl' 2"
  proof -
    have "leaf s' No' v AND PTE_V \<noteq> 0 \<and> ram_page s' (PTE2PA (leaf s' No' v)) \<and>
        PTE2PA (leaf s' No' v) \<notin> ran No' \<union> ran ?Nn \<and> 1 \<le> refcnt s' (pno (PTE2PA (leaf s' No' v)))" if "v < 2" for v
    proof -
      note l = upage_leaf [OF up(1) [OF that]]
      have "1 \<le> refcnt s' (pno (upage s' No' v))"
        by (rule user_page_counted [OF b(3) up(1) [OF that]])
      then show ?thesis using l user_invD(1,2) [OF b(3) up(1) [OF that]] up(2) [OF that] ne(2) by auto
    qed
    moreover have "ran No' \<inter> ran ?Nn = {}" using b(6) ne by auto
    ultimately show ?thesis using b(1,2) o(1) z by (simp add: forkable_def)
  qed
  moreover have "upage s' ?Nn v = 0" for v by (simp add: upage_def z)
  moreover have "upage s' No' v = 0" if "2 \<le> v" for v using b(7) [of v] that by (simp add: upage_def s(4))
  ultimately have "fork_user s' q No' p ?Nn fl' 2" using b(3) by (simp add: fork_user_def)
  moreover have "\<forall>v<2. upage s' No' v \<noteq> 0 \<and> leaf s' No' v AND PTE_C = 0" using b(14) up(1) by simp
  moreover have "\<forall>v\<ge>2. leaf s' No' v = 0" using b(7) by (simp add: s(4))
  moreover have "konly s0 s'" by (rule konly_trans [OF s(6) b(4)])
  ultimately show ?thesis using a(2) by (intro exI [of _ s'] exI [of _ q] exI [of _ No'] exI [of _ p] exI [of _ ?Nn] exI [of _ fl']) simp
qed

lemma two_spaces:
  "\<exists>(s :: kproc) ro No rn Nn fl. fork_user s ro No rn Nn fl 2 \<and> (\<forall>v<2. upage s No v \<noteq> 0 \<and> leaf s No v AND PTE_C = 0) \<and>
     (\<forall>v\<ge>2. leaf s No v = 0) \<and> 6 \<le> length fl"
  using spaces_from [OF boot_demo_inv(1)] by blast

lemma page1_readable:
  assumes "upage s N 1 \<noteq> 0" "4096 \<le> a" "a < 8192"
  shows "readable s N a"
proof -
  have "a div 4096 = 1" using assms(2,3) by (intro div_nat_eqI) auto
  with assms show ?thesis by (simp add: readable_def)
qed

section \<open>Reading and writing user memory\<close>

text \<open>C10: \<open>copyin\<close> never fails inside the kernel: it returns 0 with exactly the \<open>len\<close> bytes that the
  address space holds at \<open>va\<close> when every one of them is mapped for the user, and otherwise -1, having
  copied just the bytes before the first unmapped one.\<close>

theorem copyin_spec:
  assumes "pt_inv s root N" "kmem_inv s fl"
  shows "copyin root va len s =
    (let bs = map (ubyte s N) (takeWhile (readable s N) [unat va..<unat va + len])
     in Inr (if \<forall>i<len. readable s N (unat va + i) then 0 else - 1, bs))"
proof -
  have "takeWhile (readable s N) [unat va..<unat va + len] = [unat va..<unat va + rlen s N (unat va) len]"
    using rlen_le [of s N "unat va" len] by (subst takeWhile_eq_take) (simp add: rlen_def [symmetric] take_upt)
  then show ?thesis
    using copyin_eq [OF assms(1) kmem_invD(2) [OF assms(2)], of va len]
    by (simp add: ubytes_def rlen_full Let_def)
qed

theorem copyin_spec_witness:
  "\<exists>(s :: kproc) root N fl. pt_inv s root N \<and> kmem_inv s fl \<and>
     copyin root 4096 8 s =
       (let bs = map (ubyte s N) (takeWhile (readable s N) [unat (4096 :: u64)..<unat (4096 :: u64) + 8])
        in Inr (if \<forall>i<8. readable s N (unat (4096 :: u64) + i) then 0 else - 1, bs))"
proof -
  obtain s :: kproc and ro No rn Nn fl where "fork_user s ro No rn Nn fl 2" using two_spaces by blast
  then have "pt_inv s ro No" "kmem_inv s fl" using forkableD(1,3) by (auto simp: fork_user_def)
  with copyin_spec [OF this, of 4096 8] show ?thesis by blast
qed

text \<open>C9: What \<open>copyout\<close> writes \<open>copyin\<close> reads back. When the destination lies above the first page, is
  mapped for the user, and the allocator has a page for each copy-on-write page to break, \<open>copyout\<close>
  succeeds, the bytes read back are the bytes written, the rest of the address space is as it was, and
  the invariants of the page table, of the allocator and of the user's pages hold again.\<close>

theorem copyout_copyin:
  assumes "pt_inv s root N" "kmem_inv s fl" "user_inv s N"
    and "\<forall>i<length src. readable s N (unat va + i)" "4096 \<le> unat va"
    and "length src + unat va mod 4096 \<le> 4096 * length fl"
  shows "\<exists>s' fl'. copyout root va src s = Inr (0, s') \<and> copyin root va (length src) s' = Inr (0, src) \<and>
    (\<forall>a. readable s N a \<longrightarrow> a < unat va \<or> unat va + length src \<le> a \<longrightarrow> ubyte s' N a = ubyte s N a) \<and>
    pt_inv s' root N \<and> kmem_inv s' fl' \<and> user_inv s' N"
proof -
  obtain r s' fl' k where c: "copyout root va src s = Inr (r, s')" "copyout_result s root N fl va src r k s' fl'"
    using copyout_eq [OF assms(1-3)] by blast
  have w: "wrote s root N fl s' fl'" "r = 0" "k = length src"
    and b: "\<And>a. upage s N (a div 4096) \<noteq> 0 \<Longrightarrow> ubyte s' N a = written (unat va) k src (ubyte s N) a"
    using c(2) assms(4-6) unfolding copyout_result_def by (auto simp: rlen_full)
  note d = wroteD [OF w(1)]
  have rd: "readable s' N = readable s N" using d(6) by (auto simp: fun_eq_iff readable_def)
  have "ubytes s' N (unat va) (length src) = src"
  proof (rule nth_equalityI)
    fix i assume "i < length (ubytes s' N (unat va) (length src))"
    then have i: "i < length src" by (simp add: ubytes_def)
    with assms(4) have "upage s N ((unat va + i) div 4096) \<noteq> 0" by (auto simp: readable_def)
    from b [OF this] i w(3) show "ubytes s' N (unat va) (length src) ! i = src ! i"
      by (simp add: ubytes_def written_def)
  qed (simp add: ubytes_def)
  moreover have "rlen s' N (unat va) (length src) = length src" using assms(4) by (simp add: rlen_full rd)
  ultimately have "copyin root va (length src) s' = Inr (0, src)"
    using copyin_eq [OF d(1) kmem_invD(2) [OF d(2)], of va "length src"] by simp
  moreover have "ubyte s' N a = ubyte s N a" if "readable s N a" "a < unat va \<or> unat va + length src \<le> a" for a
    using b [of a] that w(3) by (auto simp: readable_def written_def)
  ultimately show ?thesis using c(1) w(2) d(1-3) by blast
qed

theorem copyout_copyin_witness:
  "\<exists>(s :: kproc) root N fl. pt_inv s root N \<and> kmem_inv s fl \<and> user_inv s N \<and> 6 \<le> length fl \<and>
     (\<forall>i<length [1, 2, 3 :: byte]. readable s N (unat (5000 :: u64) + i)) \<and>
     (\<exists>s' fl'. copyout root 5000 [1, 2, 3] s = Inr (0, s') \<and> copyin root 5000 (length [1, 2, 3 :: byte]) s' = Inr (0, [1, 2, 3]) \<and>
       (\<forall>a. readable s N a \<longrightarrow> a < unat (5000 :: u64) \<or> unat (5000 :: u64) + length [1, 2, 3 :: byte] \<le> a \<longrightarrow>
          ubyte s' N a = ubyte s N a) \<and> pt_inv s' root N \<and> kmem_inv s' fl' \<and> user_inv s' N)"
proof -
  obtain s :: kproc and ro No rn Nn fl where f: "fork_user s ro No rn Nn fl 2" "6 \<le> length fl" "upage s No 1 \<noteq> 0"
    using two_spaces by (metis one_less_numeral_iff semiring_norm(76))
  have "\<forall>i<length [1, 2, 3 :: byte]. readable s No (unat (5000 :: u64) + i)"
    using page1_readable [OF f(3)] by simp
  note h = forkableD(1,3) [OF fork_userD(1) [OF f(1)]] fork_userD(2) [OF f(1)] this
  have "length [1, 2, 3 :: byte] + unat (5000 :: u64) mod 4096 \<le> 4096 * length fl" using f(2) by simp
  from copyout_copyin [OF h(1-4) _ this] show ?thesis
    using h f(2) by (intro exI [of _ s] exI [of _ ro] exI [of _ No] exI [of _ fl]) simp
qed

section \<open>Growing an address space\<close>

text \<open>Mapping more pages keeps what the user already had.\<close>

lemma alloc_at_old:
  assumes "alloc_at s root N fl v0 i s' N' fl'" "pt_inv s root N" "kmem_inv s fl" "user_inv s N"
    and "upage s N (a div 4096) \<noteq> 0" "\<not> (v0 \<le> a div 4096 \<and> a div 4096 < i)"
  shows "upage s' N' (a div 4096) = upage s N (a div 4096)" "ubyte s' N' a = ubyte s N a"
proof -
  note a = alloc_atD [OF assms(1)]
  let ?p = "upage s N (a div 4096)"
  show up: "upage s' N' (a div 4096) = ?p" using a(7) [OF assms(6)] by (simp add: upage_def)
  have "?p \<notin> ran N \<union> set fl"
    using user_invD(2) [OF assms(4,5)] user_page_not_free [OF assms(4,3,5)] by auto
  moreover have "ram_page s q" if "q \<in> ran N \<union> set fl" for q
    using that node_ram [OF assms(2)] kmem_invD(5) [OF assms(3)] by auto
  ultimately have "mem s' (unat ?p + a mod 4096) = mem s (unat ?p + a mod 4096)"
    using page_out [OF page_bytes_offset [of "a mod 4096"] user_invD(1) [OF assms(4,5)]] by (intro a(13)) auto
  then show "ubyte s' N' a = ubyte s N a" by (simp add: ubyte_def up)
qed

text \<open>C11: Growing a process from \<open>oldsz\<close> to \<open>newsz\<close> bytes: \<open>uvmalloc\<close> returns \<open>newsz\<close> and every new page
  is mapped for the user and full of zeros, or, only when the allocator has fewer pages than the new
  ones and their tables need, it returns 0 with no page mapped that was not mapped before. In both
  cases each byte the user had keeps its value and the three invariants hold.\<close>

theorem uvmalloc_spec:
  assumes "pt_inv s root N" "kmem_inv s fl" "user_inv s N" "oldsz \<le> newsz" "newsz \<le> 0x4000000000"
    and "\<forall>v. pages_of oldsz \<le> v \<and> v < pages_of newsz \<longrightarrow> leaf s N v = 0"
    and "xperm AND NOT 0x3FF = 0" "xperm AND PTE_C = 0"
  shows "\<exists>r s' N' fl'. uvmalloc root oldsz newsz xperm s = Inr (r, s') \<and>
    pt_inv s' root N' \<and> kmem_inv s' fl' \<and> user_inv s' N' \<and>
    (\<forall>a. readable s N a \<longrightarrow> readable s' N' a \<and> ubyte s' N' a = ubyte s N a) \<and>
    (r = newsz \<and> (\<forall>a. unat (PGROUNDUP oldsz) \<le> a \<and> a < unat newsz \<longrightarrow> readable s' N' a \<and> ubyte s' N' a = 0) \<or>
     r = 0 \<and> length fl < 3 * (pages_of newsz - pages_of oldsz) \<and> (\<forall>a. readable s' N' a \<longleftrightarrow> readable s N a))"
proof -
  have n: "unat newsz \<le> 0x4000000000" "unat oldsz \<le> 0x4000000000" using assms(4,5) by (simp_all add: word_le_nat_alt)
  have le: "pages_of oldsz \<le> pages_of newsz" using assms(4) by (simp add: pages_of_def div_le_mono word_le_nat_alt)
  note o = PGROUNDUP_va [OF n(2)] and w = PGROUNDUP_va [OF n(1)]
  have eq: "uvmalloc root oldsz newsz xperm s =
      uvmalloc_loop root (PGSIZE * of_nat (pages_of oldsz)) (PGSIZE * of_nat (pages_of oldsz)) newsz xperm s"
    using assms(4) unfolding uvmalloc_def o(1) by (simp add: not_less [symmetric])
  obtain r s' N' fl' where r: "uvmalloc root oldsz newsz xperm s = Inr (r, s')"
    "r = newsz \<and> alloc_at s root N fl (pages_of oldsz) (pages_of newsz) s' N' fl' \<or>
     r = 0 \<and> alloc_at s root N fl (pages_of oldsz) (pages_of oldsz) s' N' fl' \<and>
       length fl < 3 * (pages_of newsz - pages_of oldsz)"
    using uvmalloc_loop_spec [OF alloc_at_0 [OF assms(1-3), of "pages_of oldsz"] _ _ _ _ _ assms(7,8), of newsz]
      le w(2) assms(6) unfolding eq max_absorb2 [OF le] by auto
  then obtain i where i: "alloc_at s root N fl (pages_of oldsz) i s' N' fl'" "i \<le> pages_of newsz"
    "i = pages_of newsz \<and> r = newsz \<or> i = pages_of oldsz \<and> r = 0 \<and> length fl < 3 * (pages_of newsz - pages_of oldsz)"
    using le by auto
  note d = alloc_atD [OF i(1)]
  have old: "readable s' N' a \<and> ubyte s' N' a = ubyte s N a" if "readable s N a" for a
  proof -
    have "\<not> (pages_of oldsz \<le> a div 4096 \<and> a div 4096 < i)"
      using that assms(6) i(2) by (auto simp: readable_def upage_def)
    with that alloc_at_old [OF i(1) assms(1-3), of a] show ?thesis by (simp add: readable_def)
  qed
  have new: "readable s' N' a \<and> ubyte s' N' a = 0"
    if a: "unat (PGROUNDUP oldsz) \<le> a" "a < unat newsz" and i': "i = pages_of newsz" for a
  proof -
    have "4096 * pages_of oldsz \<le> a" using a(1) unat_va [OF o(2)] by (simp add: o(1))
    then have v: "pages_of oldsz \<le> a div 4096" by (simp add: less_eq_div_iff_mult_less_eq mult.commute)
    have "a div 4096 < i" using a(2) by (simp add: i' pages_of_def less_mult_imp_div_less)
    with d(8,11) [OF v] a(2) n(1) show ?thesis
      by (auto simp: readable_def ubyte_def page_bytes_offset)
  qed
  have "readable s' N' a \<longleftrightarrow> readable s N a" if "i = pages_of oldsz" for a
    using d(7) that by (simp add: readable_def upage_def)
  with new i(3) have
    "r = newsz \<and> (\<forall>a. unat (PGROUNDUP oldsz) \<le> a \<and> a < unat newsz \<longrightarrow> readable s' N' a \<and> ubyte s' N' a = 0) \<or>
     r = 0 \<and> length fl < 3 * (pages_of newsz - pages_of oldsz) \<and> (\<forall>a. readable s' N' a \<longleftrightarrow> readable s N a)"
    by blast
  with r(1) old d(1-3) show ?thesis by blast
qed

theorem uvmalloc_spec_witness:
  "\<exists>(s :: kproc) root N fl. pt_inv s root N \<and> kmem_inv s fl \<and> user_inv s N \<and> 6 \<le> length fl \<and>
     (\<forall>v. pages_of 8192 \<le> v \<and> v < pages_of 12288 \<longrightarrow> leaf s N v = 0) \<and>
     (\<exists>s' N'. uvmalloc root 8192 12288 PTE_W s = Inr (12288, s') \<and> pt_inv s' root N' \<and>
        (\<forall>a. unat (PGROUNDUP 8192) \<le> a \<and> a < unat (12288 :: u64) \<longrightarrow> readable s' N' a \<and> ubyte s' N' a = 0))"
proof -
  obtain s :: kproc and ro No rn Nn fl where f: "fork_user s ro No rn Nn fl 2" "6 \<le> length fl"
    "\<And>v. 2 \<le> v \<Longrightarrow> leaf s No v = 0"
    using two_spaces by blast
  note h = forkableD(1,3) [OF fork_userD(1) [OF f(1)]] fork_userD(2) [OF f(1)]
  have pg: "pages_of (8192 :: u64) = 2" "pages_of (12288 :: u64) = 3" by (simp_all add: pages_of_def)
  have l: "\<forall>v. pages_of 8192 \<le> v \<and> v < pages_of 12288 \<longrightarrow> leaf s No v = 0" using f(3) by (simp add: pg)
  from uvmalloc_spec [OF h _ _ l, of PTE_W] f(2) obtain s' N' where
    "uvmalloc ro 8192 12288 PTE_W s = Inr (12288, s')" "pt_inv s' ro N'"
    "\<forall>a. unat (PGROUNDUP 8192) \<le> a \<and> a < unat (12288 :: u64) \<longrightarrow> readable s' N' a \<and> ubyte s' N' a = 0"
    by (auto simp: pg)
  with h l f(2) show ?thesis by blast
qed

section \<open>Fork\<close>

text \<open>C6: \<open>uvmcopy\<close> gives the child the parent's memory. It returns 0, unless the allocator has fewer than
  two pages for each page of the parent; when it returns 0, every \<open>copyin\<close> through the child's table
  gives what it gave through the parent's before the call, the parent reads what it read, and both
  tables, the allocator and the user pages of both satisfy their invariants.\<close>

theorem uvmcopy_spec:
  assumes "fork_user s ro No rn Nn fl (pages_of sz)"
  shows "\<exists>r s' N' fl'. uvmcopy ro rn sz s = Inr (r, s') \<and> (r = 0 \<or> r = - 1 \<and> length fl < 2 * pages_of sz) \<and>
    pt_inv s' ro No \<and> pt_inv s' rn N' \<and> kmem_inv s' fl' \<and>
    (r = 0 \<longrightarrow> user_inv s' No \<and> user_inv s' N' \<and>
       (\<forall>va len. copyin rn va len s' = copyin ro va len s \<and> copyin ro va len s' = copyin ro va len s))"
proof -
  note u = fork_userD [OF assms]
  obtain r s' N' fl' j where r: "uvmcopy ro rn sz s = Inr (r, s')"
    "r = 0 \<and> fork_at s ro No rn Nn fl (pages_of sz) (pages_of sz) s' N' fl' \<or>
     r = - 1 \<and> j < pages_of sz \<and> fork_failed s ro No rn Nn fl j s' N' fl' \<and> length fl < 2 * pages_of sz"
    using uvmcopy_eq [OF u(1)] by blast
  from r(2) show ?thesis
  proof
    assume a: "r = 0 \<and> fork_at s ro No rn Nn fl (pages_of sz) (pages_of sz) s' N' fl'"
    then have "pt_inv s' ro No" "pt_inv s' rn N'" "kmem_inv s' fl'" by (auto simp: fork_at_def)
    moreover have "user_inv s' No" "user_inv s' N'"
      "\<forall>va len. copyin rn va len s' = copyin ro va len s \<and> copyin ro va len s' = copyin ro va len s"
      using a fork_copyin [OF assms] fork_child_inv [OF assms] by auto
    ultimately show ?thesis
      using a r(1) by (intro exI [of _ r] exI [of _ s'] exI [of _ N'] exI [of _ fl']) simp
  next
    assume "r = - 1 \<and> j < pages_of sz \<and> fork_failed s ro No rn Nn fl j s' N' fl' \<and> length fl < 2 * pages_of sz"
    with r(1) show ?thesis
      by (intro exI [of _ r] exI [of _ s'] exI [of _ N'] exI [of _ fl']) (simp add: fork_failed_def)
  qed
qed

theorem uvmcopy_spec_witness:
  "\<exists>(s :: kproc) ro No rn Nn fl. fork_user s ro No rn Nn fl (pages_of 8192) \<and>
     (\<exists>s'. uvmcopy ro rn 8192 s = Inr (0, s') \<and> (\<forall>va len. copyin rn va len s' = copyin ro va len s))"
proof -
  have pg: "pages_of (8192 :: u64) = 2" by (simp add: pages_of_def)
  obtain s :: kproc and ro No rn Nn fl where f: "fork_user s ro No rn Nn fl (pages_of 8192)" "6 \<le> length fl"
    using two_spaces unfolding pg by blast
  from uvmcopy_spec [OF f(1)] f(2) obtain s' where
    "uvmcopy ro rn 8192 s = Inr (0, s')" "\<forall>va len. copyin rn va len s' = copyin ro va len s"
    by (auto simp: pg)
  with f(1) show ?thesis by blast
qed

text \<open>C7: Copy-on-write isolates the parent from the child: after a successful \<open>uvmcopy\<close>, whatever the
  kernel writes into the child's memory, at any address and of any length, succeeding or not, the
  parent reads exactly what it read before the fork.\<close>

theorem fork_parent_isolated:
  assumes "fork_user s ro No rn Nn fl (pages_of sz)" "uvmcopy ro rn sz s = Inr (0, s1)"
  shows "\<exists>r s2. copyout rn dst src s1 = Inr (r, s2) \<and> copyin ro va len s2 = copyin ro va len s"
proof -
  note u = fork_userD [OF assms(1)]
  obtain N' fl' where a: "fork_at s ro No rn Nn fl (pages_of sz) (pages_of sz) s1 N' fl'"
    using uvmcopy_eq [OF u(1)] assms(2) by auto
  then have "pt_inv s1 rn N'" "kmem_inv s1 fl'" by (auto simp: fork_at_def)
  from copyout_eq [OF this fork_child_inv(1) [OF assms(1) a], of dst src] obtain r s2 fl2 k where
    c: "copyout rn dst src s1 = Inr (r, s2)" "copyout_result s1 rn N' fl' dst src r k s2 fl2" by blast
  then have "wrote s1 rn N' fl' s2 fl2" by (simp add: copyout_result_def)
  from child_write_isolated [OF assms(1) a this] c(1) show ?thesis by blast
qed

theorem fork_parent_isolated_witness:
  "\<exists>(s :: kproc) ro No rn Nn fl s1. fork_user s ro No rn Nn fl (pages_of 8192) \<and> uvmcopy ro rn 8192 s = Inr (0, s1) \<and>
     (\<exists>r s2. copyout rn 4096 [7] s1 = Inr (r, s2) \<and> copyin ro 4096 1 s2 = copyin ro 4096 1 s)"
proof -
  have pg: "pages_of (8192 :: u64) = 2" by (simp add: pages_of_def)
  obtain s :: kproc and ro No rn Nn fl where f: "fork_user s ro No rn Nn fl (pages_of 8192)" "6 \<le> length fl"
    using two_spaces unfolding pg by blast
  obtain s1 where c: "uvmcopy ro rn 8192 s = Inr (0, s1)"
    using uvmcopy_eq [OF fork_userD(1) [OF f(1)]] f(2) by (auto simp: pg)
  from f(1) c fork_parent_isolated [OF f(1) c, of 4096 "[7]" 4096 1] show ?thesis by blast
qed

text \<open>C8: The isolation is one-way. The lines of \<open>uvmcopy\<close> that would make the parent's own entry
  copy-on-write are commented out, so that after a fork a store of the parent into a page of its own
  (here through \<open>copyout\<close>, within one page above the first) is what the child reads there.\<close>

theorem fork_child_sees_parent_write:
  assumes "fork_user s ro No rn Nn fl (pages_of sz)" "uvmcopy ro rn sz s = Inr (0, s1)"
    and "va < MAXVA" "4096 \<le> unat va" "upage s No (vpn va) \<noteq> 0" "leaf s No (vpn va) AND PTE_C = 0"
    and "src \<noteq> []" "length src \<le> page_rest va"
  shows "\<exists>s2. copyout ro va src s1 = Inr (0, s2) \<and> copyin rn va (length src) s2 = Inr (0, src)"
proof -
  obtain N' fl' where "fork_at s ro No rn Nn fl (pages_of sz) (pages_of sz) s1 N' fl'"
    using uvmcopy_eq [OF fork_userD(1) [OF assms(1)]] assms(2) by auto
  from parent_write_shared [OF assms(1) this assms(3-8)] show ?thesis .
qed

theorem fork_child_sees_parent_write_witness:
  "\<exists>(s :: kproc) ro No rn Nn fl s1. fork_user s ro No rn Nn fl (pages_of 8192) \<and> uvmcopy ro rn 8192 s = Inr (0, s1) \<and>
     (\<exists>s2. copyout ro 4096 [7] s1 = Inr (0, s2) \<and> copyin rn 4096 (length [7 :: byte]) s2 = Inr (0, [7]))"
proof -
  have pg: "pages_of (8192 :: u64) = 2" by (simp add: pages_of_def)
  obtain s :: kproc and ro No rn Nn fl where f: "fork_user s ro No rn Nn fl (pages_of 8192)" "6 \<le> length fl"
    "\<And>v. v < 2 \<Longrightarrow> upage s No v \<noteq> 0" "\<And>v. v < 2 \<Longrightarrow> leaf s No v AND PTE_C = 0"
    using two_spaces unfolding pg by blast
  obtain s1 where c: "uvmcopy ro rn 8192 s = Inr (0, s1)"
    using uvmcopy_eq [OF fork_userD(1) [OF f(1)]] f(2) by (auto simp: pg)
  have v: "vpn (4096 :: u64) = 1" "(1 :: nat) < 2" by (simp_all add: vpn_def)
  have "length [7 :: byte] \<le> page_rest 4096" by (simp add: page_rest_eq)
  with fork_child_sees_parent_write [OF f(1) c, of 4096 "[7]"] f(3,4) [OF v(2)]
  have "\<exists>s2. copyout ro 4096 [7] s1 = Inr (0, s2) \<and> copyin rn 4096 (length [7 :: byte]) s2 = Inr (0, [7])"
    by (simp add: v(1))
  with f(1) c show ?thesis by blast
qed

end
