(* ===== verification/Ring.thy ===== *)
theory Ring
  imports Prelude
begin

text \<open>
  Rings indexed by free-running counters, as the console (128 bytes), the pipes (512 bytes) and the
  transmit buffer of the UART (32 bytes) have them: the two counters wrap around at their width, and
  the entry of a counter is its remainder by the capacity. The locale \<open>ring_buffer\<close> is what the three
  have in common; the capacity divides the range of the counter, so that the remainder is not
  disturbed by the wrap-around.
\<close>

definition ring :: "nat \<Rightarrow> 'b list \<Rightarrow> 'a::len word \<Rightarrow> 'a word \<Rightarrow> 'b list" where
  "ring cap buf a b = map (\<lambda>i. buf ! ((unat a + i) mod cap)) [0..<unat (b - a)]"

lemma length_ring [simp]: "length (ring cap buf a b) = unat (b - a)"
  by (simp add: ring_def)

lemma nth_ring: "i < unat (b - a) \<Longrightarrow> ring cap buf a b ! i = buf ! ((unat a + i) mod cap)"
  by (simp add: ring_def)

lemma ring_same [simp]: "ring cap buf a a = []"
  by (simp add: ring_def)

lemma ring_nonempty: "ring cap buf a b \<noteq> [] \<longleftrightarrow> a \<noteq> b"
proof -
  have "ring cap buf a b = [] \<longleftrightarrow> unat (b - a) = 0" by (metis length_ring length_0_conv)
  then show ?thesis by (auto simp: unat_eq_0)
qed

lemma unat_diff_pred: "a \<noteq> b \<Longrightarrow> unat (b - 1 - a) = unat (b - a) - 1" for a :: "'a::len word"
proof -
  assume "a \<noteq> b"
  then have "unat (b - a - 1) = unat (b - a) - 1" using unat_minus_one [of "b - a"] by simp
  then show ?thesis by (simp add: algebra_simps)
qed

lemma ring_butlast: "a \<noteq> b \<Longrightarrow> ring cap buf a (b - 1) = butlast (ring cap buf a b)"
  by (simp add: ring_def unat_diff_pred butlast_conv_take take_map)

lemma mod_add_inj:
  assumes "(x + i) mod n = (x + j) mod n" "i < n" "j < n"
  shows "i = (j :: nat)"
proof -
  have "int (x + i) mod int n = int (x + j) mod int n" using assms(1) by (metis of_nat_mod)
  then have "(int (x + i) - int x) mod int n = (int (x + j) - int x) mod int n" by (rule mod_diff_cong) simp
  then have "int i mod int n = int j mod int n" by simp
  then show ?thesis using assms(2,3) by simp
qed

locale ring_buffer =
  fixes cap :: nat and slot :: "'a::len word \<Rightarrow> nat"
  assumes cap_dvd: "cap dvd 2 ^ LENGTH('a)"
    and cap_less: "cap < 2 ^ LENGTH('a)"
    and slot: "slot i = unat i mod cap"
begin

lemma unat_add_mod: "unat (a + b :: 'a word) mod cap = (unat a + unat b) mod cap"
  using cap_dvd by (simp add: unat_word_ariths mod_mod_cancel)

lemma slot_add: "slot b = (unat a + unat (b - a)) mod cap"
  using unat_add_mod [of a "b - a"] by (simp add: slot)

lemma unat_suc: "unat (b - a :: 'a word) < cap \<Longrightarrow> unat (b + 1 - a) = Suc (unat (b - a))"
proof -
  assume "unat (b - a) < cap"
  moreover have "b + 1 - a = (b - a) + 1" by simp
  ultimately show ?thesis using cap_less by (simp only: unat_word_ariths) simp
qed

lemma ring_last: "a \<noteq> b \<Longrightarrow> last (ring cap buf a b) = buf ! slot (b - 1)"
proof -
  assume ne: "a \<noteq> b"
  then have p: "0 < unat (b - a)" by (simp add: unat_gt_0)
  then show ?thesis using slot_add [of "b - 1" a] by (simp add: ring_def last_map unat_diff_pred [OF ne])
qed

lemma ring_hd: "a \<noteq> b \<Longrightarrow> ring cap buf a b = buf ! slot a # ring cap buf (a + 1) b"
proof (rule nth_equalityI)
  assume ne: "a \<noteq> b"
  then have p: "0 < unat (b - a)" by (simp add: unat_gt_0)
  have e: "unat (b - (a + 1)) = unat (b - a) - 1" using unat_diff_pred [OF ne] by (simp add: algebra_simps)
  then show "length (ring cap buf a b) = length (buf ! slot a # ring cap buf (a + 1) b)" using p by simp
  fix i assume i: "i < length (ring cap buf a b)"
  have "(unat (a + 1) + j) mod cap = (unat a + Suc j) mod cap" for j
    using unat_add_mod [of a 1] by (metis add.assoc mod_add_left_eq plus_1_eq_Suc unat_1)
  then show "ring cap buf a b ! i = (buf ! slot a # ring cap buf (a + 1) b) ! i"
    using i e by (cases i) (simp_all add: nth_ring slot)
qed

lemma ring_snoc:
  assumes "length buf = cap" "unat (b - a) < cap"
  shows "ring cap (buf[slot b := c]) a (b + 1) = ring cap buf a b @ [c]"
proof -
  have b: "slot b = (unat a + unat (b - a)) mod cap" by (rule slot_add)
  have "(unat a + unat (b - a)) mod cap \<noteq> (unat a + i) mod cap" if "i < unat (b - a)" for i
  proof
    assume "(unat a + unat (b - a)) mod cap = (unat a + i) mod cap"
    then have "unat (b - a) = i" by (rule mod_add_inj) (use that assms(2) in linarith)+
    then show False using that by simp
  qed
  moreover have "(unat a + unat (b - a)) mod cap < cap" using assms(2) by simp
  ultimately show ?thesis using assms(1) unat_suc [OF assms(2)] b by (simp add: ring_def nth_list_update)
qed

lemma ring_append:
  fixes r w e :: "'a word"
  assumes "unat (w - r) + unat (e - w) \<le> cap"
  shows "ring cap buf r e = ring cap buf r w @ ring cap buf w e"
proof (rule nth_equalityI)
  have l: "unat (e - r) = unat (w - r) + unat (e - w)"
  proof -
    have "e - r = (w - r) + (e - w)" by simp
    then show ?thesis using assms cap_less by (simp only: unat_word_ariths) simp
  qed
  then show "length (ring cap buf r e) = length (ring cap buf r w @ ring cap buf w e)" by simp
  fix i assume "i < length (ring cap buf r e)"
  moreover have "(unat w + (i - unat (w - r))) mod cap = (unat r + i) mod cap" if "unat (w - r) \<le> i"
  proof -
    have "unat w mod cap = (unat r + unat (w - r)) mod cap" using unat_add_mod [of r "w - r"] by simp
    then have "(unat w + (i - unat (w - r))) mod cap = (unat r + unat (w - r) + (i - unat (w - r))) mod cap"
      by (metis mod_add_left_eq)
    with that show ?thesis by simp
  qed
  ultimately show "ring cap buf r e ! i = (ring cap buf r w @ ring cap buf w e) ! i"
    by (cases "i < unat (w - r)") (simp_all add: nth_append nth_ring l less_diff_conv2 add.commute)
qed

end

end
