(* ===== verification/ConsoleProps.thy ===== *)
theory ConsoleProps
  imports Console Ring
begin

text \<open>
  What the console does with characters: \<open>printint\<close> prints numbers that read back, and the input ring
  of \<^verbatim>\<open>kernel/console.c\<close> refines line editing on two sequences of bytes, the lines that are complete
  and the line being edited.
\<close>

section \<open>Printing numbers\<close>

text \<open>The value of a digit, of a sequence of digits, and of a printed number.\<close>

definition digit_value :: "byte \<Rightarrow> nat" where
  "digit_value d = (if d < 58 then unat d - 48 else unat d - 87)"

definition digits_value :: "nat \<Rightarrow> byte list \<Rightarrow> nat" where
  "digits_value base ds = foldl (\<lambda>a d. a * base + digit_value d) 0 ds"

definition number_value :: "nat \<Rightarrow> byte list \<Rightarrow> int" where
  "number_value base bs = (if hd bs = 45 then - int (digits_value base (tl bs)) else int (digits_value base bs))"

lemma digit_value_digits: "i < 16 \<Longrightarrow> digit_value (digits ! i) = i" "i < 16 \<Longrightarrow> digits ! i \<noteq> 45"
proof -
  have "\<forall>i\<in>set [0..<16]. digit_value (digits ! i) = i \<and> digits ! i \<noteq> 45" by code_simp
  then show "i < 16 \<Longrightarrow> digit_value (digits ! i) = i" "i < 16 \<Longrightarrow> digits ! i \<noteq> 45" by auto
qed

lemma digits_value_printint: "2 \<le> base \<Longrightarrow> base \<le> 16 \<Longrightarrow> digits_value base (rev (printint_digits base x)) = x"
proof (induction base x rule: printint_digits.induct)
  case (1 base x)
  have m: "x mod base < 16" using 1(2,3) by (meson mod_less_divisor less_le_trans zero_less_numeral)
  show ?case
  proof (cases "x div base = 0")
    case True
    then have "x mod base = x" using mod_div_mult_eq [of x base] by simp
    then show ?thesis using True digit_value_digits(1) [OF m]
      by (subst printint_digits.simps) (simp add: digits_value_def)
  next
    case False
    then have "printint_digits base x = digits ! (x mod base) # printint_digits base (x div base)"
      using 1(2) by (subst printint_digits.simps) simp
    then show ?thesis
      using 1 False digit_value_digits(1) [OF m] by (simp add: digits_value_def)
  qed
qed

lemma printint_digits_length: "2 \<le> base \<Longrightarrow> x < base ^ Suc k \<Longrightarrow> length (printint_digits base x) \<le> Suc k"
proof (induction k arbitrary: x)
  case 0
  then show ?case by (subst printint_digits.simps) simp
next
  case (Suc k)
  have "x div base < base ^ Suc k" using Suc(2,3) by (simp add: div_less_iff_less_mult mult.commute)
  from Suc(1) [OF Suc(2) this] show ?case by (subst printint_digits.simps) simp
qed

lemma printint_digits_set: "2 \<le> base \<Longrightarrow> base \<le> 16 \<Longrightarrow> d \<in> set (printint_digits base x) \<Longrightarrow> d \<noteq> 45"
proof (induction base x rule: printint_digits.induct)
  case (1 base x)
  have m: "x mod base < 16" using 1(2,3) by (meson mod_less_divisor less_le_trans zero_less_numeral)
  show ?case using 1 digit_value_digits(2) [OF m] by (subst (asm) (2) printint_digits.simps) (auto split: if_splits)
qed

lemma printint_digits_nonempty [simp]: "printint_digits base x \<noteq> []"
  by (subst printint_digits.simps) simp

text \<open>Output that the transmitter takes.\<close>

definition sends :: "byte list \<Rightarrow> uart \<Rightarrow> uart" where
  "sends bs u = u\<lparr>u_out := u_out u @ bs, u_room := u_room u - length bs\<rparr>"

lemma consputc_eq:
  assumes "\<not> panicked (con s)" "u_lcr (con_uart (con s)) AND LCR_BAUD_LATCH = 0"
  shows "consputc (uint (c :: byte)) s = Inr (set_uart (sends [c]) s)"
proof -
  have "uint c < 256" using uint_bounded [of c] by simp
  then show ?thesis using assms by (simp add: consputc_def uartputc_sync_def set_uart_def WriteReg_def sends_def)
qed

lemma print_bytes_eq:
  assumes "\<not> panicked (con s)" "u_lcr (con_uart (con s)) AND LCR_BAUD_LATCH = 0"
  shows "foldR (\<lambda>c. consputc (uint (c :: byte))) cs s = Inr (set_uart (sends cs) s)"
  using assms
proof (induction cs arbitrary: s)
  case Nil
  then show ?case by (simp add: set_uart_def sends_def)
next
  case (Cons c cs)
  let ?s = "set_uart (sends [c]) s"
  have "\<not> panicked (con ?s)" "u_lcr (con_uart (con ?s)) AND LCR_BAUD_LATCH = 0"
    using Cons(2,3) by (simp_all add: set_uart_def sends_def)
  from Cons(1) [OF this] consputc_eq [OF Cons(2,3)] show ?case
    by (simp add: set_uart_def sends_def)
qed

text \<open>C29: \<open>printint\<close> of a 32-bit value in base 10 or 16 returns and prints a text that reads back as the value
  it was given, as a signed number when it is called with \<open>sign\<close> and as an unsigned one otherwise; it
  never puts more than 11 of the 16 characters into \<open>buf\<close>. The one exception is the most negative number
  with \<open>sign\<close>, which it negates as an \<open>int\<close>.\<close>

theorem printint_reads_back:
  assumes "\<not> panicked (con s)" "u_lcr (con_uart (con s)) AND LCR_BAUD_LATCH = 0" "base = 10 \<or> base = 16"
    and "- (2 ^ 31) \<le> xx" "xx < 2 ^ 31"
  shows "if sign \<and> xx = - (2 ^ 31) then printint xx base sign s = Inl (UB ''signed integer overflow'')
    else \<exists>bs. printint xx base sign s = Inr (set_uart (sends bs) s) \<and> length bs \<le> 11 \<and>
      number_value base bs = (if sign then xx else xx mod 2 ^ 32)"
proof (cases "sign \<and> xx = - (2 ^ 31)")
  case True
  then show ?thesis by (simp add: printint_def cint_def)
next
  case False
  define neg where "neg = (sign \<and> xx < 0)"
  define x :: u32 where "x = (if neg then word_of_int (- xx) else word_of_int xx)"
  let ?ds = "rev (printint_digits base (unat x))"
  let ?bs = "(if neg then [45] else []) @ ?ds"
  have b: "2 \<le> base" "base \<le> 16" using assms(3) by auto
  have "unat x < base ^ Suc 9" using unsigned_less [of x, where 'a=nat] assms(3) by auto
  then have "length ?bs \<le> 11" using printint_digits_length [OF b(1), of "unat x" 9] by simp
  moreover have "(if neg then cint (- xx) else Inr xx) = Inr (if neg then - xx else xx)"
    using False assms(4) by (auto simp: neg_def cint_def)
  then have "printint xx base sign s = foldR (\<lambda>c. consputc (uint c))
      (rev (if neg then printint_digits base (unat x) @ [45] else printint_digits base (unat x))) s"
    by (simp only: printint_def Let_def neg_def [symmetric] x_def bindR_simps if_distrib [of word_of_int])
  then have "printint xx base sign s = Inr (set_uart (sends ?bs) s)"
    unfolding print_bytes_eq [OF assms(1,2)] by simp
  moreover have "hd ?ds \<noteq> 45" using printint_digits_set [OF b, of "hd ?ds" "unat x"] hd_in_set [of ?ds] by simp
  then have "number_value base ?bs = (if neg then - int (unat x) else int (unat x))"
    using digits_value_printint [OF b, of "unat x"] by (simp add: number_value_def)
  moreover have "int (unat x) = (if neg then - xx else xx mod 2 ^ 32)"
  proof -
    have "int (unat x) = (if neg then (- xx) mod 2 ^ 32 else xx mod 2 ^ 32)"
      by (simp only: x_def uint_nat [symmetric] if_distrib [of uint] uint_word_of_int len_bit0 len_num1) simp
    moreover have "(- xx) mod 2 ^ 32 = - xx" if neg using that assms(4) by (simp add: neg_def)
    ultimately show ?thesis by simp
  qed
  moreover have "xx mod 2 ^ 32 = xx" if "0 \<le> xx" using that assms(5) by simp
  ultimately have "\<exists>bs. printint xx base sign s = Inr (set_uart (sends bs) s) \<and> length bs \<le> 11 \<and>
      number_value base bs = (if sign then xx else xx mod 2 ^ 32)"
    by (intro exI [of _ ?bs]) (auto simp: neg_def)
  then show ?thesis using False by auto
qed

theorem printint_reads_back_witness:
  "(\<exists>bs. printint (- 2147483647) 10 True boot_demo = Inr (set_uart (sends bs) boot_demo) \<and>
     number_value 10 bs = - 2147483647) \<and>
   (\<exists>bs. printint (- 2147483648) 16 False boot_demo = Inr (set_uart (sends bs) boot_demo) \<and>
     number_value 16 bs = 2147483648)"
  using printint_reads_back [of boot_demo 10 "- 2147483647" True] printint_reads_back [of boot_demo 16 "- 2147483648" False]
  by (auto simp: boot_demo_def console_zero_def)

section \<open>Line editing\<close>

interpretation input_ring: ring_buffer 128 "\<lambda>i :: u32. unat i mod 128"
  by unfold_locales simp_all

text \<open>
  What the driver promises: the lines that are complete, and the line that is being edited. A key
  either edits that line or completes it.
\<close>

type_synonym lines = "byte list \<times> byte list"

definition console_lines :: "console \<Rightarrow> lines" where
  "console_lines t = (ring 128 (cons_buf t) (cons_r t) (cons_w t), ring 128 (cons_buf t) (cons_w t) (cons_e t))"

definition cons_inv :: "console \<Rightarrow> bool" where
  "cons_inv t \<longleftrightarrow> length (cons_buf t) = 128 \<and> unat (cons_w t - cons_r t) + unat (cons_e t - cons_w t) \<le> 128 \<and>
     10 \<notin> set (ring 128 (cons_buf t) (cons_w t) (cons_e t))"

fun line_key :: "int \<Rightarrow> lines \<Rightarrow> lines" where
  "line_key c (done, ed) =
     (if c = 21 then (done, [])
      else if c = 8 \<or> c = 127 then (done, butlast ed)
      else if c \<noteq> 0 \<and> length done + length ed < 128 then
        let b = (if c = 13 then 10 else word_of_int c); ed = ed @ [b]
        in if b = 10 \<or> b = 4 \<or> length done + length ed = 128 then (done @ ed, []) else (done, ed)
      else (done, ed))"

text \<open>The state of the console apart from the UART.\<close>

lemma con_set_uart [simp]:
  "cons_buf (con (set_uart f s)) = cons_buf (con s)" "cons_r (con (set_uart f s)) = cons_r (con s)"
  "cons_w (con (set_uart f s)) = cons_w (con s)" "cons_e (con (set_uart f s)) = cons_e (con s)"
  "panicked (con (set_uart f s)) = panicked (con s)" "held (set_uart f s) = held s"
  "con_uart (con (set_uart f s)) = f (con_uart (con s))" "u_lcr (sends bs u) = u_lcr u"
  by (simp_all add: set_uart_def sends_def)

definition uart_ready :: "'z kproc_scheme \<Rightarrow> bool" where
  "uart_ready s \<longleftrightarrow> \<not> panicked (con s) \<and> u_lcr (con_uart (con s)) AND LCR_BAUD_LATCH = 0"

lemma uart_ready_sends [simp]: "uart_ready (set_uart (sends bs) s) = uart_ready s"
  by (simp add: uart_ready_def)

lemma consputc_byte: "uart_ready s \<Longrightarrow> 0 \<le> c \<Longrightarrow> c < 256 \<Longrightarrow> consputc c s = Inr (set_uart (sends [word_of_int c]) s)"
  using consputc_eq [of s "word_of_int c"] by (simp add: uart_ready_def uint_word_of_int)

lemma consputc_backspace: "uart_ready s \<Longrightarrow> consputc BACKSPACE s = Inr (set_uart (sends [8, 32, 8]) s)"
  by (simp add: consputc_def uartputc_sync_def uart_ready_def set_uart_def WriteReg_def sends_def)

lemma kill_line_eq:
  assumes "uart_ready s" "10 \<notin> set (ring 128 (cons_buf (con s)) (cons_w (con s)) (cons_e (con s)))"
    and "k = unat (cons_e (con s) - cons_w (con s))"
  shows "\<exists>bs. kill_line k s = Inr (set_uart (sends bs) (s\<lparr>con := (con s)\<lparr>cons_e := cons_w (con s)\<rparr>\<rparr>))"
  using assms
proof (induction k arbitrary: s)
  case 0
  then have "cons_e (con s) = cons_w (con s)" by (simp add: unat_eq_0)
  then have "kill_line 0 s = Inr (set_uart (sends []) (s\<lparr>con := (con s)\<lparr>cons_e := cons_w (con s)\<rparr>\<rparr>))"
    by (simp add: set_uart_def sends_def)
  then show ?case by blast
next
  case (Suc k)
  let ?t = "con s"
  let ?s = "s\<lparr>con := ?t\<lparr>cons_e := cons_e ?t - 1\<rparr>\<rparr>"
  let ?u = "set_uart (sends [8, 32, 8]) ?s"
  have ne: "cons_w ?t \<noteq> cons_e ?t" using Suc(4) by auto
  have r: "uart_ready ?s" using Suc(2) by (simp add: uart_ready_def)
  have "ring 128 (cons_buf ?t) (cons_w ?t) (cons_e ?t) \<noteq> []" using Suc(4) by (metis length_ring list.size(3) nat.distinct(1))
  then have "cons_buf ?t ! (unat (cons_e ?t - 1) mod 128) \<noteq> 10"
    using Suc(3) last_in_set [of "ring 128 (cons_buf ?t) (cons_w ?t) (cons_e ?t)"] input_ring.ring_last [OF ne] by metis
  then have run: "kill_line (Suc k) s = kill_line k ?u"
    using ne consputc_backspace [OF r] by (simp add: Let_def)
  have "10 \<notin> set (ring 128 (cons_buf (con ?u)) (cons_w (con ?u)) (cons_e (con ?u)))"
    using Suc(3) in_set_butlastD [of 10] by (auto simp: ring_butlast [OF ne])
  moreover have "k = unat (cons_e (con ?u) - cons_w (con ?u))" using Suc(4) by (simp add: unat_diff_pred [OF ne])
  moreover have "uart_ready ?u" using r by simp
  ultimately obtain bs where
    "kill_line k ?u = Inr (set_uart (sends bs) (?u\<lparr>con := (con ?u)\<lparr>cons_e := cons_w (con ?u)\<rparr>\<rparr>))"
    using Suc(1) by blast
  moreover have "set_uart (sends bs) (?u\<lparr>con := (con ?u)\<lparr>cons_e := cons_w (con ?u)\<rparr>\<rparr>) =
      set_uart (sends ([8, 32, 8] @ bs)) (s\<lparr>con := ?t\<lparr>cons_e := cons_w ?t\<rparr>\<rparr>)"
    by (simp add: set_uart_def sends_def)
  ultimately show ?case using run by metis
qed


lemma key_stored:
  fixes t :: console and b :: byte
  assumes "cons_inv t" "unat (cons_e t - cons_r t) < 128"
  defines "t' \<equiv> t\<lparr>cons_buf := (cons_buf t)[unat (cons_e t) mod 128 := b], cons_e := cons_e t + 1\<rparr>"
  shows "console_lines t' = (fst (console_lines t), snd (console_lines t) @ [b])"
    "console_lines (t'\<lparr>cons_w := cons_e t'\<rparr>) = (fst (console_lines t) @ snd (console_lines t) @ [b], [])"
    "unat (cons_e t' - cons_r t') = Suc (length (fst (console_lines t)) + length (snd (console_lines t)))"
    "length (cons_buf t') = 128"
proof -
  let ?r = "cons_r t" and ?w = "cons_w t" and ?e = "cons_e t" and ?b = "cons_buf t"
  let ?b' = "?b[unat ?e mod 128 := b]"
  have i: "length ?b = 128" "unat (?w - ?r) + unat (?e - ?w) \<le> 128" using assms(1) by (auto simp: cons_inv_def)
  note a = input_ring.ring_append [of ?w ?r ?e]
  have l: "unat (?e - ?r) = unat (?w - ?r) + unat (?e - ?w)" using arg_cong [OF a [of ?b], of length] i(2) by simp
  have w: "unat (?e - ?w) < 128" using l assms(2) by simp
  have re: "ring 128 ?b' ?r (?e + 1) = ring 128 ?b ?r ?e @ [b]" by (rule input_ring.ring_snoc [OF i(1) assms(2)])
  have we: "ring 128 ?b' ?w (?e + 1) = ring 128 ?b ?w ?e @ [b]" by (rule input_ring.ring_snoc [OF i(1) w])
  have "ring 128 ?b' ?r (?e + 1) = ring 128 ?b' ?r ?w @ ring 128 ?b' ?w (?e + 1)"
    using l assms(2) by (intro input_ring.ring_append) (simp add: input_ring.unat_suc [OF w])
  then have rw: "ring 128 ?b' ?r ?w = ring 128 ?b ?r ?w" using re we a [of ?b] i(2) by simp
  show "console_lines t' = (fst (console_lines t), snd (console_lines t) @ [b])"
    by (simp add: t'_def console_lines_def rw we)
  show "console_lines (t'\<lparr>cons_w := cons_e t'\<rparr>) = (fst (console_lines t) @ snd (console_lines t) @ [b], [])"
    using re a [of ?b] i(2) by (simp add: t'_def console_lines_def)
  show "unat (cons_e t' - cons_r t') = Suc (length (fst (console_lines t)) + length (snd (console_lines t)))"
    using l assms(2) by (simp add: t'_def console_lines_def input_ring.unat_suc)
  show "length (cons_buf t') = 128" using i(1) by (simp add: t'_def)
qed

text \<open>A character that is stored.\<close>

lemma consoleintr_key:
  assumes "cons_inv (con s)" "uart_ready s" "held s = {}" "0 \<le> c" "c < 256" "c \<notin> {0, 8, 16, 21, 127}"
    and "console_lines (con s) = (d, e)" "length d + length e < 128" "unat (cons_e (con s) - cons_r (con s)) = length d + length e"
  obtains v where "consoleintr c s = Inr (v\<lparr>held := {}\<rparr>)" "cons_inv (con v)" "console_lines (con v) = line_key c (d, e)"
    "uart_ready v"
proof -
  define k where "k = (if c = 13 then 10 else c)"
  define b :: byte where "b = word_of_int k"
  let ?s = "s\<lparr>held := {Lcons}\<rparr>"
  let ?v = "set_uart (sends [b]) ?s"
  let ?w = "(con ?v)\<lparr>cons_buf := (cons_buf (con ?v))[unat (cons_e (con ?v)) mod 128 := b], cons_e := cons_e (con ?v) + 1\<rparr>"
  let ?x = "?v\<lparr>con := ?w\<lparr>cons_w := cons_e ?w\<rparr>\<rparr>"
  have k: "0 \<le> k" "k < 256" using assms(4,5) by (auto simp: k_def)
  then have "uint b = k" by (simp add: b_def uint_word_of_int)
  then have kb: "k = 10 \<longleftrightarrow> b = 10" "k = 4 \<longleftrightarrow> b = 4" by (auto simp: word_uint_eq_iff)
  have "uart_ready ?s" using assms(2) by (simp add: uart_ready_def)
  then have put: "consputc k ?s = Inr ?v" unfolding b_def by (rule consputc_byte [OF _ k])
  have lv: "console_lines (con ?v) = (d, e)" "cons_inv (con ?v)" "unat (cons_e (con ?v) - cons_r (con ?v)) < 128"
    using assms(1,7-9) by (simp_all add: console_lines_def cons_inv_def)
  note st = key_stored [OF lv(2,3), of b, unfolded lv(1) fst_conv snd_conv]
  have key: "line_key c (d, e) = (if k = 10 \<or> k = 4 \<or> length d + length e + 1 = 128 then (d @ e @ [b], []) else (d, e @ [b]))"
    using assms(6,8) unfolding kb by (simp add: Let_def b_def k_def)
  have "consoleintr c s = bindR (if k = 10 \<or> k = 4 \<or> unat (cons_e ?w - cons_r ?w) = 128 then wakeup Ccons ?x
      else Inr (?v\<lparr>con := ?w\<rparr>)) (rel Lcons)"
    using assms(3,6,8,9) put unfolding consoleintr_def k_def [symmetric] by (simp add: acq_def Let_def b_def [symmetric])
  moreover have "wakeup Ccons ?x = Inr (?x\<lparr>procs := wake_procs Ccons ?x\<rparr>)" by (rule wakeup_eq) (simp add: unlocked_def)
  ultimately have run: "consoleintr c s = (if k = 10 \<or> k = 4 \<or> unat (cons_e ?w - cons_r ?w) = 128
      then Inr ((?x\<lparr>procs := wake_procs Ccons ?x\<rparr>)\<lparr>held := {}\<rparr>) else Inr ((?v\<lparr>con := ?w\<rparr>)\<lparr>held := {}\<rparr>))"
    by (simp add: rel_def)
  have c1: "con (y\<lparr>con := t, procs := f\<rparr>) = t" "con (y\<lparr>con := t\<rparr>) = t" for y :: "'a kproc_scheme" and t f by simp_all
  have rd: "uart_ready (?x\<lparr>procs := f\<rparr>)" "uart_ready (?v\<lparr>con := ?w\<rparr>)" for f
    using assms(2) by (simp_all add: uart_ready_def)
  show thesis
  proof (cases "k = 10 \<or> k = 4 \<or> unat (cons_e ?w - cons_r ?w) = 128")
    case True
    have "cons_inv (?w\<lparr>cons_w := cons_e ?w\<rparr>)" using st(3,4) assms(8) by (simp add: cons_inv_def)
    moreover have "console_lines (?w\<lparr>cons_w := cons_e ?w\<rparr>) = line_key c (d, e)" using True st(2,3) unfolding key by auto
    moreover have "consoleintr c s = Inr ((?x\<lparr>procs := wake_procs Ccons ?x\<rparr>)\<lparr>held := {}\<rparr>)"
      using run by (simp only: True if_True)
    ultimately show thesis by (intro that [OF _ _ _ rd(1)]) (simp_all only: c1)
  next
    case False
    have "10 \<notin> set e" using lv(1,2) by (auto simp: cons_inv_def console_lines_def)
    moreover have "unat (cons_e ?w - cons_w ?w) = Suc (length e)"
      using arg_cong [OF st(1), of "\<lambda>l. length (snd l)"] by (simp add: console_lines_def)
    ultimately have "cons_inv ?w"
      using st(1,3,4) False assms(8) kb by (auto simp: cons_inv_def console_lines_def)
    moreover have "console_lines ?w = line_key c (d, e)" using False st(1,3) unfolding key by auto
    moreover have "consoleintr c s = Inr ((?v\<lparr>con := ?w\<rparr>)\<lparr>held := {}\<rparr>)" using run by (simp only: False if_False)
    ultimately show thesis by (intro that [OF _ _ _ rd(2)]) (simp_all only: c1)
  qed
qed

text \<open>C28: The console's input side implements line editing. For every character but \<open>^P\<close>, which lists the
  processes, the interrupt handler returns and does to the ring of the driver exactly what the key
  does to the lines: \<open>^U\<close> empties the line being edited, backspace and delete drop its last character,
  any other character is appended while there is room, and a newline, \<open>^D\<close> or a full buffer hands the
  line over. The indices may have wrapped around.\<close>

theorem consoleintr_refines:
  assumes "cons_inv (con s)" "uart_ready s" "held s = {}" "0 \<le> c" "c < 256" "c \<noteq> 16"
  shows "\<exists>s'. consoleintr c s = Inr s' \<and> cons_inv (con s') \<and>
    console_lines (con s') = line_key c (console_lines (con s)) \<and> uart_ready s' \<and> held s' = {}"
proof -
  let ?s = "s\<lparr>held := {Lcons}\<rparr>" and ?t = "con s"
  obtain d e where ln: "console_lines ?t = (d, e)" by (cases "console_lines ?t")
  then have de: "d = ring 128 (cons_buf ?t) (cons_r ?t) (cons_w ?t)" "e = ring 128 (cons_buf ?t) (cons_w ?t) (cons_e ?t)"
    by (simp_all add: console_lines_def)
  have r: "uart_ready ?s" using assms(2) by (simp add: uart_ready_def)
  have i: "length (cons_buf ?t) = 128" "unat (cons_w ?t - cons_r ?t) + unat (cons_e ?t - cons_w ?t) \<le> 128" "10 \<notin> set e"
    using assms(1) by (auto simp: cons_inv_def de)
  have le: "unat (cons_e ?t - cons_r ?t) = length d + length e"
    using arg_cong [OF input_ring.ring_append [of "cons_w ?t" "cons_r ?t" "cons_e ?t" "cons_buf ?t"], of length] i(2)
    by (simp add: de)
  have acq: "acq Lcons s = Inr ?s" using assms(3) by (simp add: acq_def)
  have rel: "rel Lcons u = Inr (u\<lparr>held := {}\<rparr>)" if "held u = {Lcons}" for u :: "'a kproc_scheme" using that by (simp add: rel_def)
  have fin: ?thesis if "consoleintr c s = Inr (v\<lparr>held := {}\<rparr>)" "cons_inv (con v)" "console_lines (con v) = line_key c (d, e)"
    "uart_ready v" for v
    using that by (intro exI [of _ "v\<lparr>held := {}\<rparr>"]) (simp add: ln uart_ready_def)
  consider (kill) "c = 21" | (erase) "c = 8 \<or> c = 127" | (none) "c \<noteq> 21" "c \<noteq> 8" "c \<noteq> 127" "c = 0 \<or> 128 \<le> length d + length e"
    | (key) "c \<noteq> 21" "c \<noteq> 8" "c \<noteq> 127" "c \<noteq> 0" "length d + length e < 128" by fastforce
  then show ?thesis
  proof cases
    case kill
    obtain bs where "kill_line (unat (cons_e ?t - cons_w ?t)) ?s = Inr (set_uart (sends bs) (?s\<lparr>con := ?t\<lparr>cons_e := cons_w ?t\<rparr>\<rparr>))"
      using kill_line_eq [OF r] i(3) by (auto simp: de)
    then have "consoleintr c s = Inr ((set_uart (sends bs) (?s\<lparr>con := ?t\<lparr>cons_e := cons_w ?t\<rparr>\<rparr>))\<lparr>held := {}\<rparr>)"
      using kill acq rel by (simp add: consoleintr_def)
    then show ?thesis 
      by (rule fin) (use kill i assms(2) in \<open>simp_all add: cons_inv_def uart_ready_def\<close>, simp add: console_lines_def de)
  next
    case erase
    show ?thesis
    proof (cases "cons_e ?t = cons_w ?t")
      case True
      then have "consoleintr c s = Inr s" using erase acq rel assms(3) by (auto simp: consoleintr_def)
      then show ?thesis using erase assms True by (auto simp: ln de)
    next
      case False
      let ?v = "set_uart (sends [8, 32, 8]) (?s\<lparr>con := ?t\<lparr>cons_e := cons_e ?t - 1\<rparr>\<rparr>)"
      have "consputc BACKSPACE (?s\<lparr>con := ?t\<lparr>cons_e := cons_e ?t - 1\<rparr>\<rparr>) = Inr ?v"
        using assms(2) by (intro consputc_backspace) (simp add: uart_ready_def)
      then have "consoleintr c s = Inr (?v\<lparr>held := {}\<rparr>)" using erase False acq rel by (auto simp: consoleintr_def)
      moreover have "cons_inv (con ?v)"
        using i False in_set_butlastD [of 10 e]
        by (auto simp: cons_inv_def de ring_butlast unat_diff_pred)
      moreover have "console_lines (con ?v) = (d, butlast e)" using False by (simp add: console_lines_def de ring_butlast)
      ultimately show ?thesis 
        using fin [of ?v] erase assms(2) by (auto simp: uart_ready_def)
    qed
  next
    case none
    then have "consoleintr c s = Inr s" using acq rel assms(3,6) le by (auto simp: consoleintr_def)
    then show ?thesis using none assms by (auto simp: ln)
  next
    case key
    with assms(6) have "c \<notin> {0, 8, 16, 21, 127}" by auto
    from assms(1-5) this ln key(5) le show ?thesis by (rule consoleintr_key) (rule fin; assumption)
  qed
qed

theorem consoleintr_refines_witness:
  "cons_inv (con boot_demo) \<and> (\<exists>s'. consoleintr 97 boot_demo = Inr s' \<and> console_lines (con s') = ([], [97]))"
proof -
  have c: "cons_inv (con boot_demo)" "uart_ready boot_demo" "held boot_demo = {}" "console_lines (con boot_demo) = ([], [])"
    by (simp_all add: boot_demo_def console_zero_def cons_inv_def uart_ready_def console_lines_def)
  from consoleintr_refines [OF c(1-3), of 97] c show ?thesis by auto
qed

end
