(* ===== verification/Demo.thy ===== *)
theory Demo
  imports File
begin

text \<open>
  A concrete machine on which the properties of the file system, of pipes and of system calls are
  instantiated: just booted, sixteen free pages, process 0 running, an empty disk, an empty buffer
  cache as \<open>binit\<close> leaves it and an empty log.
\<close>

definition buf_zero :: buf where
  "buf_zero = \<lparr>b_valid = False, b_disk = False, b_dev = 0, b_blockno = 0, b_refcnt = 0, b_data = replicate 1024 0\<rparr>"

definition vdisk_demo :: vdisk where
  "vdisk_demo = \<lparr>v_desc = (\<lambda>_. zero_desc), av_idx = 0, av_ring = (\<lambda>_. 0), us_idx = 0, us_ring = (\<lambda>_. 0),
     v_free = (\<lambda>_. True), v_used_idx = 0, info_b = (\<lambda>_. None), info_status = (\<lambda>_. 0),
     v_ops = (\<lambda>_. \<lparr>rq_type = 0, rq_reserved = 0, rq_sector = 0\<rparr>), v_pages = (0, 0, 0), v_mmio = (\<lambda>_. 0),
     v_accepts = True, v_seen = 0\<rparr>"

definition sb_demo :: superblock where
  "sb_demo = \<lparr>sb_magic = 0x10203040, sb_size = 2000, sb_nblocks = 1954, sb_ninodes = 200, sb_nlog = 30,
     sb_logstart = 2, sb_inodestart = 32, sb_bmapstart = 45\<rparr>"

definition inode_zero :: inode where
  "inode_zero = \<lparr>i_dev = 0, i_inum = 0, i_ref = 0, i_valid = False, i_type = 0, i_major = 0, i_minor = 0,
     i_nlink = 0, i_size = 0, i_addrs = replicate 13 0\<rparr>"

definition ofile_zero :: ofile where
  "ofile_zero = \<lparr>f_type = FD_NONE, f_ref = 0, f_readable = False, f_writable = False, f_pipe = 0, f_ip = 0,
     f_off = 0, f_major = 0\<rparr>"

definition pipe_zero :: pipe where
  "pipe_zero = \<lparr>pi_data = replicate 512 0, pi_nread = 0, pi_nwrite = 0, pi_readopen = True, pi_writeopen = True\<rparr>"

definition file_demo :: kfile where
  "file_demo =
     kfs.extend (klog.extend (kbio.extend (kvd.extend (kslp.extend (kproc.extend (boot_demo\<lparr>cur := Some 0\<rparr>)
       (kslp.fields (\<lambda>_. \<lparr>sl_locked = False, sl_name = [], sl_pid = 0\<rparr>)))
       (kvd.fields (\<lambda>_. buf_zero) (\<lambda>_. replicate 1024 0) [] vdisk_demo))
       (kbio.fields (rev [0..<30])))
       (klog.fields 2 30 0 0 1 0 (replicate 30 0)))
       (kfs.fields sb_demo (\<lambda>_. inode_zero)))
       (kfile.fields (\<lambda>_. ofile_zero) (\<lambda>_. pipe_zero) (replicate 64 0))"

lemmas demo_defs = file_demo_def boot_demo_def kproc.defs kslp.defs kvd.defs kbio.defs klog.defs kfs.defs kfile.defs

lemma file_demo_simps [simp]:
  "cur file_demo = Some 0" "held file_demo = {}" "procs file_demo = (\<lambda>_. proc_zero)" "kend file_demo = 0x80024000"
  "slocks file_demo = (\<lambda>_. \<lparr>sl_locked = False, sl_name = [], sl_pid = 0\<rparr>)" "bufs file_demo = (\<lambda>_. buf_zero)"
  "disk file_demo = (\<lambda>_. replicate 1024 0)" "dwrites file_demo = []" "vd file_demo = vdisk_demo"
  "lru file_demo = rev [0..<30]" "l_start file_demo = 2" "l_size file_demo = 30" "l_outstanding file_demo = 0"
  "l_committing file_demo = 0" "l_dev file_demo = 1" "l_n file_demo = 0" "l_block file_demo = replicate 30 0"
  "sb file_demo = sb_demo" "inodes file_demo = (\<lambda>_. inode_zero)" "files file_demo = (\<lambda>_. ofile_zero)"
  "pipes file_demo = (\<lambda>_. pipe_zero)" "con file_demo = console_zero" "SCHEDULER file_demo = DEFAULT" "ticks file_demo = 0"
  by (simp_all add: demo_defs)

lemma file_demo_inv: "kmem_inv file_demo demo_pages"
  by (rule demo_pages_inv) (simp_all add: demo_defs)

end
