(* ===== verification/PipeProps.thy ===== *)
theory PipeProps
  imports VmProps Ring Demo
begin

text \<open>
  A pipe is a bounded queue of bytes: \<open>pipewrite\<close> appends what it reads from the writer's memory,
  \<open>piperead\<close> takes from the front what it writes to the reader's.
\<close>

section \<open>The queue a pipe holds\<close>

interpretation pipe_ring: ring_buffer 512 "\<lambda>i :: u32. unat i mod 512"
  by unfold_locales simp_all

definition pipe_items :: "pipe \<Rightarrow> byte list" where
  "pipe_items x = ring 512 (pi_data x) (pi_nread x) (pi_nwrite x)"

definition pipe_ok :: "pipe \<Rightarrow> bool" where
  "pipe_ok x \<longleftrightarrow> length (pi_data x) = 512 \<and> length (pipe_items x) \<le> 512"

definition pipe_put :: "byte \<Rightarrow> pipe \<Rightarrow> pipe" where
  "pipe_put c x = x\<lparr>pi_data := (pi_data x)[unat (pi_nwrite x) mod 512 := c], pi_nwrite := pi_nwrite x + 1\<rparr>"

definition pipe_drop :: "pipe \<Rightarrow> pipe" where
  "pipe_drop x = x\<lparr>pi_nread := pi_nread x + 1\<rparr>"

lemma pipe_put_items:
  assumes "pipe_ok x" "length (pipe_items x) < 512"
  shows "pipe_items (pipe_put c x) = pipe_items x @ [c]" "pipe_ok (pipe_put c x)"
proof -
  show "pipe_items (pipe_put c x) = pipe_items x @ [c]"
    using assms pipe_ring.ring_snoc [of "pi_data x" "pi_nwrite x" "pi_nread x" c]
    by (simp add: pipe_items_def pipe_put_def pipe_ok_def)
  then show "pipe_ok (pipe_put c x)" using assms by (simp add: pipe_ok_def) (simp add: pipe_put_def)
qed

lemma pipe_drop_items:
  assumes "pi_nread x \<noteq> pi_nwrite x"
  shows "pipe_items x = pi_data x ! (unat (pi_nread x) mod 512) # pipe_items (pipe_drop x)"
  using pipe_ring.ring_hd [OF assms] by (simp add: pipe_items_def pipe_drop_def)

lemma pipe_drop_ok: "pipe_ok x \<Longrightarrow> pi_nread x \<noteq> pi_nwrite x \<Longrightarrow> pipe_ok (pipe_drop x)"
  using pipe_drop_items [of x] by (simp add: pipe_ok_def) (simp add: pipe_drop_def)

lemma pipe_empty_iff: "pi_nread x = pi_nwrite x \<longleftrightarrow> pipe_items x = []"
  using ring_nonempty [of 512 "pi_data x" "pi_nread x" "pi_nwrite x"] by (auto simp: pipe_items_def)

lemma pipe_full_iff: "pi_nwrite x = pi_nread x + 512 \<longleftrightarrow> length (pipe_items x) = 512"
proof -
  have "pi_nwrite x = pi_nread x + 512 \<longleftrightarrow> pi_nwrite x - pi_nread x = 512" by (auto simp: algebra_simps)
  also have "\<dots> \<longleftrightarrow> unat (pi_nwrite x - pi_nread x) = 512" by (simp add: word_unat_eq_iff)
  finally show ?thesis by (simp add: pipe_items_def)
qed

section \<open>Writing\<close>

lemma killed_eq: "unlocked s \<Longrightarrow> killed p s = Inr (p_killed (procs s p), s)"
  by (simp add: killed_def acq_def rel_def)

text \<open>A change of the state that leaves memory alone leaves the address spaces alone.\<close>

lemma user_same:
  assumes "pt_inv s root N" "kend s' = kend s" "mem s' = mem s" "refcnt s' = refcnt s"
  shows "pt_inv s' root N" "leaf s' N = leaf s N" "upage s' N = upage s N" "ubyte s' N = ubyte s N"
    "readable s' N = readable s N" "rlen s' N = rlen s N"
proof -
  have *: "pt_inv s' root N \<and> leaf s' N = leaf s N" by (intro conjI pt_inv_frame [OF assms(1)]) (simp_all add: assms)
  then show "pt_inv s' root N" "leaf s' N = leaf s N" by auto
  show u: "upage s' N = upage s N" using * by (intro upage_cong) simp
  show "ubyte s' N = ubyte s N" by (simp add: ubyte_def fun_eq_iff u assms(3))
  show r: "readable s' N = readable s N" by (simp add: readable_def fun_eq_iff u)
  show "rlen s' N = rlen s N" by (simp add: rlen_def fun_eq_iff r)
qed

lemma updpi_user:
  assumes "pt_inv s root N"
  shows "pt_inv (updpi a g s) root N" "leaf (updpi a g s) N = leaf s N" "upage (updpi a g s) N = upage s N"
    "ubyte (updpi a g s) N = ubyte s N" "readable (updpi a g s) N = readable s N"
    "rlen (updpi a g s) N = rlen s N"
  using user_same [OF assms, of "updpi a g s"] by (simp_all add: updpi_def)

lemma copyin_byte:
  assumes "pt_inv s root N" "KERNBASE \<le> kend s"
  shows "copyin root va 1 s = (if readable s N (unat va) then Inr (0, [ubyte s N (unat va)]) else Inr (- 1, []))"
  using copyin_eq [OF assms, of va 1] by (simp add: rlen_def ubytes_def)

text \<open>How many bytes a write transfers: as many as asked for, as there is room for, and as are mapped.\<close>

definition pipe_room :: "pipe \<Rightarrow> nat" where
  "pipe_room x = 512 - length (pipe_items x)"

lemma rlen_step: "rlen s N a (Suc m) = (if readable s N a then Suc (rlen s N (Suc a) m) else 0)"
  using rlen_append [of 1 s N a m] rlen_unreadable [of s N a "Suc m"] by auto

lemma readable_suc: "readable s N (unat va) \<Longrightarrow> unat (va + 1) = Suc (unat va)" for va :: u64
  by (simp add: readable_def unat_word_ariths)

lemma pipe_wakeup:
  fixes s :: "'z kfile_scheme"
  assumes "held s = {Lpipe a}"
  shows "wakeup ch s = Inr (s\<lparr>procs := wake_procs ch s\<rparr>)" "rel (Lpipe a) (s\<lparr>procs := f\<rparr>) = Inr (s\<lparr>procs := f, held := {}\<rparr>)"
  using assms by (simp_all add: wakeup_eq unlocked_def rel_def)

lemma pipewrite_loop_eq:
  fixes s :: "'z kfile_scheme"
  assumes "pt_inv s (p_pagetable (procs s pr)) N" "KERNBASE \<le> kend s" "held s = {Lpipe a}" "pipe_ok (pipes s a)"
    and "pi_readopen (pipes s a)" "p_killed (procs s pr) = 0" "m = nat (n - i)" "va = addr + of_int i"
    and "k = min m (min (pipe_room (pipes s a)) (rlen s N (unat va) m))"
  shows "\<exists>s'. pipewrite_loop a pr addr n i s = Inr (if k < m \<and> k = pipe_room (pipes s a)
        then Blocks (Cnwrite a) (Lpipe a) else Ret (i + int k), i + int k, s') \<and>
      pipe_items (pipes s' a) = pipe_items (pipes s a) @ ubytes s N (unat va) k \<and> pipe_ok (pipes s' a) \<and>
      held s' = (if k < m \<and> k = pipe_room (pipes s a) then {Lpipe a} else {}) \<and> mem s' = mem s"
  using assms
proof (induction m arbitrary: s i va k)
  case 0
  then have "\<not> i < n" by simp
  then show ?case using 0 pipe_wakeup [OF 0(3)]
    by (subst pipewrite_loop.simps) (simp add: ubytes_def)
next
  case (Suc m)
  let ?x = "pipes s a"
  have i: "i < n" "m = nat (n - (i + 1))" using Suc(8) by auto
  have kl: "killed pr s = Inr (0, s)" using Suc(4,7) killed_eq [of s pr] by (simp add: unlocked_def)
  note ci = copyin_byte [OF Suc(2,3), of va]
  note run = pipewrite_loop.simps [of a pr addr n i s]
  consider (full) "pipe_room ?x = 0" | (unmapped) "0 < pipe_room ?x" "\<not> readable s N (unat va)"
    | (put) "0 < pipe_room ?x" "readable s N (unat va)" by blast
  then show ?case
  proof cases
    case full
    then have "pi_nwrite ?x = pi_nread ?x + 512" "k = 0"
      using Suc(5,10) pipe_full_iff [of ?x] by (auto simp: pipe_room_def pipe_ok_def)
    then show ?thesis using full i Suc(4-6) kl pipe_wakeup [OF Suc(4)] by (simp add: run ubytes_def)
  next
    case unmapped
    then have "pi_nwrite ?x \<noteq> pi_nread ?x + 512" "k = 0"
      using Suc(10) pipe_full_iff [of ?x] by (auto simp: pipe_room_def rlen_unreadable)
    then show ?thesis using unmapped i Suc(4-6,9) kl ci pipe_wakeup [OF Suc(4)] by (simp add: run ubytes_def)
  next
    case put
    let ?c = "ubyte s N (unat va)"
    let ?s = "updpi a (pipe_put ?c) s"
    define k' where "k' = min m (min (pipe_room (pipes ?s a)) (rlen ?s N (unat (va + 1)) m))"
    have nf: "pi_nwrite ?x \<noteq> pi_nread ?x + 512" using put(1) pipe_full_iff [of ?x] by (auto simp: pipe_room_def)
    have lt: "length (pipe_items ?x) < 512" using put(1) by (simp add: pipe_room_def)
    note it = pipe_put_items [OF Suc(5) lt, of ?c] and u = updpi_user [OF Suc(2), of a "pipe_put ?c"]
    have x: "pipes ?s a = pipe_put ?c ?x" "procs ?s = procs s" "held ?s = held s" "kend ?s = kend s" "mem ?s = mem s"
      by (simp_all add: updpi_def)
    have room: "pipe_room ?x = Suc (pipe_room (pipes ?s a))" using lt it(1) by (simp add: x pipe_room_def)
    have rl: "rlen s N (unat va) (Suc m) = Suc (rlen ?s N (unat (va + 1)) m)"
      using put(2) by (simp add: rlen_step readable_suc [OF put(2)] u(6))
    have k: "k = Suc k'" unfolding Suc(10) k'_def room rl by simp
    have step: "pipewrite_loop a pr addr n i s = pipewrite_loop a pr addr n (i + 1) ?s"
      using i(1) Suc(6) kl nf ci put(2) Suc(9) by (simp add: run pipe_put_def [abs_def])
    have "pi_readopen (pipes ?s a)" "p_killed (procs ?s pr) = 0" "va + 1 = addr + of_int (i + 1)"
      using Suc(6,7,9) unfolding x by (simp_all add: pipe_put_def)
    from Suc(1) [OF u(1) [folded x(2)] _ _ _ this(1,2) i(2) this(3) k'_def] Suc(3,4) it(2) obtain s' where
      "pipewrite_loop a pr addr n (i + 1) ?s = Inr (if k' < m \<and> k' = pipe_room (pipes ?s a)
         then Blocks (Cnwrite a) (Lpipe a) else Ret (i + 1 + int k'), i + 1 + int k', s')"
      "pipe_items (pipes s' a) = pipe_items (pipes ?s a) @ ubytes ?s N (unat (va + 1)) k'" "pipe_ok (pipes s' a)"
      "held s' = (if k' < m \<and> k' = pipe_room (pipes ?s a) then {Lpipe a} else {})" "mem s' = mem ?s"
      by (auto simp: x)
    moreover have "ubytes s N (unat va) k = ?c # ubytes ?s N (unat (va + 1)) k'"
      by (simp add: k ubytes_def u(4) readable_suc [OF put(2)] upt_conv_Cons del: upt_Suc)
    ultimately show ?thesis using step it(1) unfolding k room x(1,5) by (simp add: add.assoc)
  qed
qed

text \<open>C32: A pipe is written as a bounded queue. \<open>pipewrite\<close> of \<open>n\<close> bytes returns -1 and changes nothing when
  there is something to write and no reader is left, or the writer has been killed. Otherwise it appends, in order, the \<open>k\<close> bytes
  of the writer's memory from \<open>addr\<close> on, where \<open>k\<close> is the least of \<open>n\<close>, of the room in the pipe and of the
  number of bytes that are mapped; the pipe never holds more than 512. It returns \<open>k\<close>, except that it waits when the pipe became full
  before all was written. The counters may have wrapped around.\<close>

theorem pipewrite_queue:
  assumes "in_kernel pr s" "pt_inv s (p_pagetable (procs s pr)) N" "KERNBASE \<le> kend s" "pipe_ok (pipes s a)"
    and "k = min (nat n) (min (pipe_room (pipes s a)) (rlen s N (unat addr) (nat n)))"
  shows "if 0 < n \<and> (\<not> pi_readopen (pipes s a) \<or> p_killed (procs s pr) \<noteq> 0)
    then pipewrite a addr n s = Inr (Ret (- 1), 0, s)
    else \<exists>s'. pipewrite a addr n s = Inr (if k < nat n \<and> k = pipe_room (pipes s a)
           then Blocks (Cnwrite a) (Lpipe a) else Ret (int k), int k, s') \<and>
         pipe_items (pipes s' a) = pipe_items (pipes s a) @ ubytes s N (unat addr) k \<and> pipe_ok (pipes s' a) \<and>
         held s' = (if k < nat n \<and> k = pipe_room (pipes s a) then {Lpipe a} else {})"
proof -
  let ?s = "s\<lparr>held := {Lpipe a}\<rparr>"
  have run: "pipewrite a addr n s = pipewrite_loop a pr addr n 0 ?s"
    using assms(1) by (simp add: pipewrite_def myproc_def acq_def)
  have kl: "killed pr ?s = Inr (p_killed (procs s pr), ?s)" using killed_eq [of ?s pr] by (simp add: unlocked_def)
  have u: "pt_inv ?s (p_pagetable (procs s pr)) N" "leaf ?s N = leaf s N"
    and b: "ubyte ?s N = ubyte s N" "rlen ?s N = rlen s N"
    using user_same [OF assms(2), of ?s] by simp_all
  show ?thesis
  proof (cases "0 < n \<and> (\<not> pi_readopen (pipes s a) \<or> p_killed (procs s pr) \<noteq> 0)")
    case True
    moreover have "s\<lparr>held := {}\<rparr> = s" using assms(1) by simp
    ultimately show ?thesis unfolding run
      using kl by (subst pipewrite_loop.simps) (auto simp: rel_def)
  next
    case False
    show ?thesis
    proof (cases "0 < n")
      case n: True
      have h: "KERNBASE \<le> kend ?s" "held ?s = {Lpipe a}" "pipe_ok (pipes ?s a)" "pi_readopen (pipes ?s a)"
        "p_killed (procs ?s pr) = 0" "nat n = nat (n - 0)" "addr = addr + of_int 0" "pt_inv ?s (p_pagetable (procs ?s pr)) N"
        "k = min (nat n) (min (pipe_room (pipes ?s a)) (rlen ?s N (unat addr) (nat n)))"
        using assms(3-5) u False n b by simp_all
      have p: "pipes ?s = pipes s" "ubytes ?s N (unat addr) k = ubytes s N (unat addr) k"
        using b by (simp_all add: ubytes_def)
      from pipewrite_loop_eq [OF h(8,1-7,9)] False show ?thesis unfolding run p add_0 by (simp only: if_False) blast
    next
      case n: False
      then have "k = 0" using assms(5) by simp
      moreover from n have "pipewrite_loop a pr addr n 0 ?s = Inr (Ret 0, 0, s\<lparr>procs := wake_procs (Cnread a) ?s, held := {}\<rparr>)"
        using pipe_wakeup [of ?s a] by (subst pipewrite_loop.simps) simp
      ultimately show ?thesis using n assms(4) by (simp add: run ubytes_def)
    qed
  qed
qed

section \<open>Reading\<close>

lemma written_0 [simp]: "written a 0 src u = u"
  by (auto simp: written_def fun_eq_iff)

lemma written_cong: "u x = v x \<Longrightarrow> written a k src u x = written a k src v x"
  by (simp add: written_def)

lemma copyout_byte:
  assumes "pt_inv s root N" "kmem_inv s fl" "user_inv s N"
  obtains (ok) s' fl' where "copyout root va [c] s = Inr (0, s')" "wrote s root N fl s' fl'" "readable s N (unat va)"
      "\<And>x. upage s N (x div 4096) \<noteq> 0 \<Longrightarrow> ubyte s' N x = written (unat va) 1 [c] (ubyte s N) x"
    | (fault) s' fl' where "copyout root va [c] s = Inr (- 1, s')" "wrote s root N fl s' fl'"
      "\<And>x. upage s N (x div 4096) \<noteq> 0 \<Longrightarrow> ubyte s' N x = ubyte s N x"
proof -
  obtain r s' fl' k where c: "copyout root va [c] s = Inr (r, s')" "copyout_result s root N fl va [c] r k s' fl'"
    using copyout_eq [OF assms] by blast
  show thesis
  proof (cases "r = 0")
    case True
    then show thesis using c ok [of s' fl'] by (auto simp: copyout_result_def rlen_full)
  next
    case False
    then have "k = 0" using c(2) by (auto simp: copyout_result_def)
    then show thesis using False c fault [of s' fl'] by (auto simp: copyout_result_def)
  qed
qed

text \<open>What reading leaves of the rest of the state.\<close>

definition read_frame :: "'z kfile_scheme \<Rightarrow> u64 \<Rightarrow> nodes \<Rightarrow> 'z kfile_scheme \<Rightarrow> bool" where
  "read_frame s root N s' \<longleftrightarrow> pt_inv s' root N \<and> (\<exists>fl'. kmem_inv s' fl') \<and> user_inv s' N \<and> held s' = held s \<and>
     procs s' = procs s \<and> cur s' = cur s \<and> (\<forall>v. upage s' N v = 0 \<longleftrightarrow> upage s N v = 0)"

lemma wrote_frame: "wrote s root N fl s' fl' \<Longrightarrow> read_frame s root N s' \<and> pipes s' = pipes s"
  by (auto simp: wrote_def read_frame_def konly_def)

lemma updpi_inv:
  assumes "kmem_inv s fl" "pt_inv s root N" "user_inv s N"
  shows "kmem_inv (updpi a g s) fl" "user_inv (updpi a g s) N"
  using assms(1) updpi_user(3,2) [OF assms(2)] assms(3)
  by (auto simp: kmem_inv_def user_inv_def updpi_def ram_page_def)

lemma piperead_copy_eq:
  fixes s :: "'z kfile_scheme"
  assumes "pt_inv s root N" "kmem_inv s fl" "user_inv s N" "root = p_pagetable (procs s pr)" "pipe_ok (pipes s a)"
    and "m = nat (n - i)" "va = addr + of_int i"
  shows "\<exists>k s'. piperead_copy a pr addr n i s = Inr (i + int k, s') \<and> k \<le> m \<and> k \<le> length (pipe_items (pipes s a)) \<and>
    (\<forall>x. upage s N (x div 4096) \<noteq> 0 \<longrightarrow> ubyte s' N x = written (unat va) k (pipe_items (pipes s a)) (ubyte s N) x) \<and>
    (\<forall>j<k. readable s N (unat va + j)) \<and>
    ((k = m \<or> k = length (pipe_items (pipes s a))) \<and> pipe_items (pipes s' a) = drop k (pipe_items (pipes s a)) \<or>
     k < m \<and> k < length (pipe_items (pipes s a)) \<and> pipe_items (pipes s' a) = drop (Suc k) (pipe_items (pipes s a))) \<and>
    pipe_ok (pipes s' a) \<and> read_frame s root N s'"
  using assms
proof (induction m arbitrary: s fl i va)
  case 0
  then have "\<not> i < n" by simp
  then show ?case
    using 0 by (intro exI [of _ 0] exI [of _ s], subst piperead_copy.simps) (auto simp: written_def read_frame_def)
next
  case (Suc m)
  let ?x = "pipes s a"
  have i: "i < n" "m = nat (n - (i + 1))" using Suc(7) by auto
  show ?case
  proof (cases "pipe_items ?x = []")
    case True
    then have "piperead_copy a pr addr n i s = Inr (i + int 0, s)"
      using i(1) by (subst piperead_copy.simps) (simp add: pipe_empty_iff)
    then show ?thesis
      using Suc True by (intro exI [of _ 0] exI [of _ s]) (auto simp: written_def read_frame_def)
  next
    case False
    then have ne: "pi_nread ?x \<noteq> pi_nwrite ?x" by (simp add: pipe_empty_iff)
    let ?c = "pi_data ?x ! (unat (pi_nread ?x) mod 512)"
    let ?s = "updpi a pipe_drop s"
    note it = pipe_drop_items [OF ne] and u = updpi_user [OF Suc(2), of a pipe_drop]
    note v = updpi_inv [OF Suc(3,2,4), of a pipe_drop]
    have x: "pipes ?s a = pipe_drop ?x" "procs ?s = procs s" "held ?s = held s" "cur ?s = cur s" by (simp_all add: updpi_def)
    have run: "piperead_copy a pr addr n i s = bindR (copyout root va [?c] ?s)
        (\<lambda>(r, s). if r = - 1 then Inr (i, s) else piperead_copy a pr addr n (i + 1) s)"
      using i(1) ne Suc(5,8) x(2) by (subst piperead_copy.simps) (simp add: Let_def pipe_drop_def [abs_def] updpi_def)
    show ?thesis
    proof (rule copyout_byte [OF u(1) v])
      fix s' fl' assume c: "copyout root va [?c] ?s = Inr (- 1, s')" "wrote ?s root N fl s' fl'"
        "\<And>y. upage ?s N (y div 4096) \<noteq> 0 \<Longrightarrow> ubyte s' N y = ubyte ?s N y"
      have "piperead_copy a pr addr n i s = Inr (i + int 0, s')" using run c(1) by simp
      moreover have "read_frame s root N s'" "pipe_items (pipes s' a) = drop (Suc 0) (pipe_items ?x)" "pipe_ok (pipes s' a)"
        using wrote_frame [OF c(2)] x u(3) it pipe_drop_ok [OF Suc(6) ne] by (auto simp: read_frame_def)
      ultimately show ?thesis using c(3) u(3,4) False by (intro exI [of _ 0] exI [of _ s']) (auto simp: written_def)
    next
      fix s' fl' assume c: "copyout root va [?c] ?s = Inr (0, s')" "wrote ?s root N fl s' fl'" "readable ?s N (unat va)"
        "\<And>y. upage ?s N (y div 4096) \<noteq> 0 \<Longrightarrow> ubyte s' N y = written (unat va) 1 [?c] (ubyte ?s N) y"
      note f = wrote_frame [OF c(2)] and w = wroteD [OF c(2)]
      have p': "pipes s' a = pipe_drop ?x" "procs s' = procs s" "held s' = held s" "cur s' = cur s"
        "\<And>v. upage s' N v = 0 \<longleftrightarrow> upage s N v = 0"
        using f x u(3) by (auto simp: read_frame_def)
      have va: "unat (va + 1) = Suc (unat va)" by (rule readable_suc [OF c(3)])
      have "root = p_pagetable (procs s' pr)" "pipe_ok (pipes s' a)" "va + 1 = addr + of_int (i + 1)"
        using Suc(5,8) p' pipe_drop_ok [OF Suc(6) ne] by simp_all
      from Suc(1) [OF w(1-3) this(1,2) i(2) this(3)] obtain k s'' where IH:
        "piperead_copy a pr addr n (i + 1) s' = Inr (i + 1 + int k, s'')" "k \<le> m" "k \<le> length (pipe_items (pipe_drop ?x))"
        "\<And>y. upage s N (y div 4096) \<noteq> 0 \<Longrightarrow>
           ubyte s'' N y = written (unat (va + 1)) k (pipe_items (pipe_drop ?x)) (ubyte s' N) y"
        "\<forall>j<k. readable s N (Suc (unat va + j))"
        "(k = m \<or> k = length (pipe_items (pipe_drop ?x))) \<and> pipe_items (pipes s'' a) = drop k (pipe_items (pipe_drop ?x)) \<or>
         k < m \<and> k < length (pipe_items (pipe_drop ?x)) \<and> pipe_items (pipes s'' a) = drop (Suc k) (pipe_items (pipe_drop ?x))"
        "pipe_ok (pipes s'' a)" "read_frame s' root N s''"
        unfolding p'(1,5) by (auto simp: va readable_def p'(5))
      have "ubyte s'' N y = written (unat va) (Suc k) (pipe_items ?x) (ubyte s N) y" if "upage s N (y div 4096) \<noteq> 0" for y
      proof -
        have "ubyte s'' N y = written (unat va + 1) k (pipe_items (pipe_drop ?x)) (written (unat va) 1 [?c] (ubyte s N)) y"
          using IH(4) [OF that] c(4) [of y] that u(3,4) va by (simp add: written_def)
        also have "\<dots> = written (unat va) (1 + k) (pipe_items ?x) (ubyte s N) y"
          using written_page [of k 1 1 "pipe_items ?x" "unat va" "ubyte s N"] IH(3) it by simp
        finally show ?thesis by simp
      qed
      moreover have "read_frame s root N s''" using IH(8) p' by (auto simp: read_frame_def)
      moreover have "\<forall>j<Suc k. readable s N (unat va + j)" using IH(5) c(3) u(5) by (auto simp: less_Suc_eq_0_disj)
      moreover have "piperead_copy a pr addr n i s = Inr (i + int (Suc k), s'')" using run c(1) IH(1) by (simp add: algebra_simps)
      ultimately show ?thesis
        using IH(2,3,6,7) it by (intro exI [of _ "Suc k"] exI [of _ s'']) auto
    qed
  qed
qed

text \<open>C33: A pipe is read as a queue. \<open>piperead\<close> of an empty pipe that still has a writer waits, or returns
  -1 when the reader has been killed, and leaves the pipe as it is. Otherwise it returns the number \<open>k\<close>
  of bytes it delivered: the first \<open>k\<close> bytes of the queue are then in the reader's memory from \<open>addr\<close> on, the
  rest of that memory is as it was, and either \<open>k\<close> is all that was asked for or all there was and exactly
  \<open>k\<close> bytes have left the queue, or the \<open>(k+1)\<close>st byte could not be stored, and that byte is lost.\<close>

theorem piperead_queue:
  assumes "in_kernel pr s" "pt_inv s (p_pagetable (procs s pr)) N" "kmem_inv s fl" "user_inv s N" "pipe_ok (pipes s a)"
    and "q = pipe_items (pipes s a)"
  shows "if q = [] \<and> pi_writeopen (pipes s a)
    then (\<exists>s'. piperead a addr n s = Inr (if p_killed (procs s pr) \<noteq> 0 then Ret (- 1) else Blocks (Cnread a) (Lpipe a), s') \<and>
            pipes s' = pipes s)
    else (\<exists>k s'. piperead a addr n s = Inr (Ret (int k), s') \<and> k \<le> nat n \<and> k \<le> length q \<and>
            ubytes s' N (unat addr) k = take k q \<and>
            (\<forall>x. readable s N x \<longrightarrow> x < unat addr \<or> unat addr + k \<le> x \<longrightarrow> ubyte s' N x = ubyte s N x) \<and>
            pipe_items (pipes s' a) = drop (if k = nat n \<or> k = length q then k else Suc k) q \<and>
            pipe_ok (pipes s' a) \<and> held s' = {})"
proof -
  let ?s = "s\<lparr>held := {Lpipe a}\<rparr>"
  have run: "piperead a addr n s = piperead_locked a pr addr n ?s"
    using assms(1) by (simp add: piperead_def myproc_def acq_def)
  show ?thesis
  proof (cases "q = [] \<and> pi_writeopen (pipes s a)")
    case True
    moreover have "killed pr ?s = Inr (p_killed (procs s pr), ?s)" using killed_eq [of ?s pr] by (simp add: unlocked_def)
    ultimately show ?thesis using assms(6) by (simp add: run piperead_locked_def pipe_empty_iff rel_def)
  next
    case False
    note u = user_same [OF assms(2), of ?s]
    have k: "kmem_inv ?s fl" "user_inv ?s N"
      using assms(1,3,4) u(2,3) by (auto simp: kmem_inv_def user_inv_def ram_page_def)
    have "p_pagetable (procs s pr) = p_pagetable (procs ?s pr)" "pipe_ok (pipes ?s a)" "nat n = nat (n - 0)" "addr = addr + of_int 0"
      using assms(5) by simp_all
    from piperead_copy_eq [OF _ k this] u(1) obtain k s' where r:
      "piperead_copy a pr addr n 0 ?s = Inr (0 + int k, s')" "k \<le> nat n" "k \<le> length q"
      "\<And>x. upage s N (x div 4096) \<noteq> 0 \<Longrightarrow> ubyte s' N x = written (unat addr) k q (ubyte s N) x"
      "\<And>j. j < k \<Longrightarrow> readable s N (unat addr + j)"
      "(k = nat n \<or> k = length q) \<and> pipe_items (pipes s' a) = drop k q \<or>
       k < nat n \<and> k < length q \<and> pipe_items (pipes s' a) = drop (Suc k) q"
      "pipe_ok (pipes s' a)" "read_frame ?s (p_pagetable (procs s pr)) N s'"
      using u(3,4,5) by (auto simp: assms(6))
    let ?t = "s'\<lparr>procs := wake_procs (Cnwrite a) s', held := {}\<rparr>"
    have h: "held s' = {Lpipe a}" and pt: "pt_inv s' (p_pagetable (procs s pr)) N" using r(8) by (auto simp: read_frame_def)
    have "piperead a addr n s = Inr (Ret (int k), ?t)"
      using False r(1) pipe_wakeup [OF h] by (auto simp: run piperead_locked_def assms(6) pipe_empty_iff)
    moreover have b: "ubyte ?t N = ubyte s' N" using user_same(4) [OF pt, of ?t] by simp
    have "ubytes ?t N (unat addr) k = take k q"
    proof (rule nth_equalityI)
      fix i assume "i < length (ubytes ?t N (unat addr) k)"
      then have "i < k" by (simp add: ubytes_def)
      with r(3,4,5) show "ubytes ?t N (unat addr) k ! i = take k q ! i"
        by (simp add: ubytes_def b readable_def written_def)
    qed (use r(3) in \<open>simp add: ubytes_def\<close>)
    moreover have "ubyte ?t N x = ubyte s N x" if "readable s N x" "x < unat addr \<or> unat addr + k \<le> x" for x
      using r(4) [of x] that by (auto simp: b readable_def written_def)
    ultimately show ?thesis using False r(2,3,6,7) by (simp only: if_False) (intro exI [of _ k] exI [of _ ?t], auto)
  qed
qed

text \<open>A process with memory and a pipe with three bytes in it, whose counters are about to wrap around.\<close>

definition pipe_demo :: pipe where
  "pipe_demo = pipe_zero\<lparr>pi_nread := 0xFFFFFFFE, pi_nwrite := 1\<rparr>"

lemma pipe_demo_ok: "pipe_ok pipe_demo" "pipe_items pipe_demo = [0, 0, 0]"
  by (simp_all add: pipe_ok_def pipe_demo_def pipe_zero_def pipe_items_def ring_def upt_rec)

lemma reader_writer:
  "\<exists>(s :: kfile) N fl. in_kernel 0 s \<and> pt_inv s (p_pagetable (procs s 0)) N \<and> kmem_inv s fl \<and> user_inv s N \<and>
     pipes s 0 = pipe_demo \<and> p_killed (procs s 0) = 0 \<and> upage s N 1 \<noteq> 0 \<and> KERNBASE \<le> kend s"
proof -
  obtain s :: kfile and ro No rn Nn fl where s: "fork_user s ro No rn Nn fl 2" "\<forall>v<2. upage s No v \<noteq> 0" "konly file_demo s"
    using spaces_from [OF file_demo_inv] by blast
  let ?t = "s\<lparr>procs := (procs s)(0 := (procs s 0)\<lparr>p_pagetable := ro\<rparr>), pipes := (pipes s)(0 := pipe_demo)\<rparr>"
  note f = forkableD(1,3) [OF fork_userD(1) [OF s(1)]] and ui = fork_userD(2) [OF s(1)]
  note u = user_same [OF f(1), of ?t]
  have k: "kmem_inv ?t fl" "user_inv ?t No" using f(2) ui u(2,3) by (auto simp: kmem_inv_def user_inv_def ram_page_def)
  moreover obtain m f r where "s = file_demo\<lparr>mem := m, freelist := f, refcnt := r\<rparr>"
    using s(3) unfolding konly_def by blast
  then have "cur s = Some 0" "held s = {}" "procs s = (\<lambda>_. proc_zero)" by simp_all
  then have "in_kernel 0 ?t" "p_killed (procs ?t 0) = 0" unfolding in_kernel_def by (simp_all add: proc_zero_def)
  moreover have "KERNBASE \<le> kend ?t" by (rule kmem_invD(2) [OF k(1)])
  ultimately show ?thesis using u(1,3) s(2) by (intro exI [of _ ?t] exI [of _ No] exI [of _ fl]) simp
qed

theorem pipewrite_queue_witness:
  "\<exists>(s :: kfile) s' N. pipe_items (pipes s 0) = [0, 0, 0] \<and> pipewrite 0 4096 2 s = Inr (Ret 2, 2, s') \<and>
     pipe_items (pipes s' 0) = [0, 0, 0] @ ubytes s N 4096 2"
proof -
  obtain s :: kfile and N fl where s: "in_kernel 0 s" "pt_inv s (p_pagetable (procs s 0)) N" "pipes s 0 = pipe_demo"
    "p_killed (procs s 0) = 0" "upage s N 1 \<noteq> 0" "KERNBASE \<le> kend s"
    using reader_writer by blast
  have "rlen s N 4096 2 = 2" using page1_readable [OF s(5)] by (simp add: rlen_full)
  moreover have "pipe_room pipe_demo = 509" "pi_readopen pipe_demo"
    by (simp_all add: pipe_room_def pipe_demo_ok) (simp add: pipe_demo_def pipe_zero_def)
  ultimately obtain s' where "pipewrite 0 4096 2 s = Inr (Ret (int 2), int 2, s')"
    "pipe_items (pipes s' 0) = pipe_items (pipes s 0) @ ubytes s N (unat (4096 :: u64)) 2"
    using pipewrite_queue [OF s(1,2,6), of 0 2 2 4096] pipe_demo_ok(1) s(3,4) by auto
  then show ?thesis using s(3) pipe_demo_ok(2) by (intro exI [of _ s] exI [of _ s'] exI [of _ N]) simp
qed

theorem piperead_queue_witness:
  "\<exists>(s :: kfile) k s'. pipe_items (pipes s 0) = [0, 0, 0] \<and> piperead 0 4096 2 s = Inr (Ret (int k), s') \<and> k \<le> 2"
proof -
  obtain s :: kfile and N fl where s: "in_kernel 0 s" "pt_inv s (p_pagetable (procs s 0)) N" "kmem_inv s fl" "user_inv s N"
    "pipes s 0 = pipe_demo"
    using reader_writer by blast
  have "pipe_ok (pipes s 0)" "\<not> (pipe_items (pipes s 0) = [] \<and> pi_writeopen (pipes s 0))"
    using s(5) pipe_demo_ok by simp_all
  with piperead_queue [OF s(1-4) this(1) refl, of 4096 2] obtain k s' where
    "piperead 0 4096 2 s = Inr (Ret (int k), s')" "k \<le> nat 2" by (simp only: if_False) blast
  then show ?thesis using s(5) pipe_demo_ok(2) by (intro exI [of _ s] exI [of _ k] exI [of _ s']) simp
qed

end
