(* ===== verification/VirtioProps.thy ===== *)
theory VirtioProps
  imports Demo
begin

text \<open>
  The disk driver of \<^verbatim>\<open>kernel/virtio_disk.c\<close> together with a device that follows the virtio
  specification transfers exactly one block, or panics on a failure that the device reports, and
  \<open>free_chain\<close> ends for every chain.
\<close>

section \<open>The device\<close>

text \<open>
  The device is not part of the repository. What is relied on is what the virtio specification says
  of a block device and of a request for one block of 1024 bytes. A request is a chain of three
  descriptors, linked by \<open>next\<close> under \<open>VRING_DESC_F_NEXT\<close>: a header of 16 bytes that the device reads,
  the data, and a status byte that the device writes. The device may write only where
  \<open>VRING_DESC_F_WRITE\<close> is set, so the data have the flag for a read of the disk and do not have it for
  a write. \<open>block_request\<close> recognises such a chain from its head.
\<close>

definition block_request :: "vdisk \<Rightarrow> nat \<Rightarrow> (u32 \<times> u32 \<times> nat \<times> nat) option" where
  "block_request v h =
     (let d0 = v_desc v h; i1 = unat (de_next d0); d1 = v_desc v i1; i2 = unat (de_next d1); d2 = v_desc v i2 in
      case (de_addr d0, de_addr d1, de_addr d2) of
        (Dops r, Ddata b, Dstatus k) \<Rightarrow>
          let q = v_ops v r in
          if h < NUM \<and> i1 < NUM \<and> i2 < NUM \<and>
             de_flags d0 = VRING_DESC_F_NEXT \<and> de_len d0 = 16 \<and>
             (rq_type q = VIRTIO_BLK_T_IN \<and> de_flags d1 = VRING_DESC_F_NEXT OR VRING_DESC_F_WRITE \<or>
              rq_type q = VIRTIO_BLK_T_OUT \<and> de_flags d1 = VRING_DESC_F_NEXT) \<and> de_len d1 = of_nat BSIZE \<and>
             de_flags d2 = VRING_DESC_F_WRITE \<and> 1 \<le> de_len d2 \<and> rq_sector q AND 1 = 0
          then Some (rq_type q, ucast (rq_sector q div 2), b, k) else None
      | _ \<Rightarrow> None)"

text \<open>The request that waits in the available ring.\<close>

definition pending :: "vdisk \<Rightarrow> nat" where
  "pending v = unat (av_ring v (unat (v_seen v) mod NUM))"

text \<open>
  The answer to a request: the status byte, the head of the chain in the used ring, and the transfer,
  which is complete when the status is 0. With any other status the block or the buffer it was
  about may be in any state. The registers change as the device likes.
\<close>

definition answered :: "nat \<Rightarrow> nat \<Rightarrow> byte \<Rightarrow> (nat \<Rightarrow> u32) \<Rightarrow> vdisk \<Rightarrow> vdisk" where
  "answered h k st m v = v\<lparr>info_status := (info_status v)(k := st), us_ring := (us_ring v)(unat (us_idx v) mod NUM := of_nat h),
     us_idx := us_idx v + 1, v_seen := v_seen v + 1, v_mmio := m\<rparr>"

definition answers :: "u32 \<times> u32 \<times> nat \<times> nat \<Rightarrow> byte \<Rightarrow> 'z kvd_scheme \<Rightarrow> 'z kvd_scheme \<Rightarrow> bool" where
  "answers rq st s s' \<longleftrightarrow>
     (case rq of (ty, blk, b, k) \<Rightarrow>
        \<exists>m x ws. s' = (if ty = VIRTIO_BLK_T_OUT then s\<lparr>disk := (disk s)(blk := x), dwrites := dwrites s @ ws\<rparr>
                       else updb b (\<lambda>c. c\<lparr>b_data := x\<rparr>) s)\<lparr>vd := answered (pending (vd s)) k st m (vd s)\<rparr> \<and>
          (st = 0 \<longrightarrow> (if ty = VIRTIO_BLK_T_OUT then x = b_data (bufs s b) \<and> ws = [(blk, x)] else x = disk s blk)))"

text \<open>
  A device that answers each request for a block with the status it likes, \<open>status\<close>. Nothing is relied
  on when what waits in the ring is anything else.
\<close>

definition device_spec :: "('z kvd_scheme \<Rightarrow> byte) \<Rightarrow> ('z kvd_scheme \<Rightarrow> 'z kvd_scheme) \<Rightarrow> bool" where
  "device_spec status device \<longleftrightarrow>
     (\<forall>s rq. av_idx (vd s) = v_seen (vd s) + 1 \<and> block_request (vd s) (pending (vd s)) = Some rq \<longrightarrow>
        answers rq (status s) s (device s))"

text \<open>The driver with nothing in flight.\<close>

definition vd_idle :: "vdisk \<Rightarrow> bool" where
  "vd_idle v \<longleftrightarrow> (\<forall>i<NUM. v_free v i) \<and> v_used_idx v = us_idx v \<and> v_seen v = av_idx v"

section \<open>One request\<close>

lemma wakeup_any: "unlocked s \<Longrightarrow> \<exists>f. wakeup ch s = Inr (s\<lparr>procs := f\<rparr>)"
  using wakeup_eq by blast

lemma free_desc_ok:
  assumes "unlocked s" "i < NUM" "\<not> v_free (vd s) i"
  shows "\<exists>f. free_desc i s = Inr (s\<lparr>vd := (vd s)\<lparr>v_desc := (v_desc (vd s))(i := zero_desc), v_free := (v_free (vd s))(i := True)\<rparr>,
    procs := f\<rparr>)"
proof -
  let ?s = "s\<lparr>vd := (vd s)\<lparr>v_desc := (v_desc (vd s))(i := zero_desc), v_free := (v_free (vd s))(i := True)\<rparr>\<rparr>"
  have "unlocked ?s" using assms(1) by (simp add: unlocked_def)
  then obtain f where "wakeup Cdfree ?s = Inr (?s\<lparr>procs := f\<rparr>)" using wakeup_any by blast
  then show ?thesis using assms(2,3) by (auto simp: free_desc_def updv_def)
qed

text \<open>The state after the three descriptors have been taken and formatted.\<close>

definition submitted :: "nat \<Rightarrow> bool \<Rightarrow> buf \<Rightarrow> vdisk \<Rightarrow> vdisk" where
  "submitted b wr x v = v\<lparr>v_free := (v_free v)(0 := False, 1 := False, 2 := False),
     v_ops := (v_ops v)(0 := \<lparr>rq_type = (if wr then VIRTIO_BLK_T_OUT else VIRTIO_BLK_T_IN), rq_reserved = 0,
                              rq_sector = ucast (b_blockno x * 2 :: u32)\<rparr>),
     v_desc := (v_desc v)(0 := \<lparr>de_addr = Dops 0, de_len = 16, de_flags = VRING_DESC_F_NEXT, de_next = 1\<rparr>,
       1 := \<lparr>de_addr = Ddata b, de_len = of_nat BSIZE, de_flags = (if wr then 0 else VRING_DESC_F_WRITE) OR VRING_DESC_F_NEXT, de_next = 2\<rparr>,
       2 := \<lparr>de_addr = Dstatus 0, de_len = 1, de_flags = VRING_DESC_F_WRITE, de_next = 0\<rparr>),
     info_status := (info_status v)(0 := 0xff), info_b := (info_b v)(0 := Some b),
     av_ring := (av_ring v)(unat (av_idx v) mod NUM := 0), av_idx := av_idx v + 1, v_mmio := (v_mmio v)(0x050 := 0)\<rparr>"

lemma virtio_start_idle:
  assumes "vd_idle (vd s)"
  shows "virtio_start b wr s = Inr (Ret 0, s\<lparr>bufs := (bufs s)(b := (bufs s b)\<lparr>b_disk := True\<rparr>),
    vd := submitted b wr (bufs s b) (vd s)\<rparr>)"
proof -
  have f: "v_free (vd s) 0" "v_free (vd s) (Suc 0)" "v_free (vd s) 2" using assms by (auto simp: vd_idle_def)
  have l: "[0..<NUM] = [0, 1, 2, 3, 4, 5, 6, 7]" by (simp add: upt_rec)
  show ?thesis
    by (simp add: virtio_start_def alloc3_desc_def alloc_desc_def l f virtio_submit_def Let_def updv_def updb_def wreg_def submitted_def)
qed

lemma sector_block: "b < 0x80000000 \<Longrightarrow> ucast (ucast (b * 2 :: u32) div 2 :: u64) = b"
proof -
  assume "b < 0x80000000"
  then have "unat b < 0x80000000" by (simp add: word_less_nat_alt)
  then have "unat (b * 2) = unat b * 2" by (simp add: unat_word_ariths)
  moreover have "unat (ucast (b * 2 :: u32) :: u64) = unat (b * 2)"
    using unsigned_less [of "b * 2", where 'a = nat] by (simp add: unsigned_ucast_eq take_bit_nat_eq_self)
  ultimately have "unat (ucast (b * 2 :: u32) div 2 :: u64) = unat b" by (simp add: unat_div)
  then show ?thesis
    using unsigned_less [of b, where 'a = nat] by (simp add: word_unat_eq_iff unsigned_ucast_eq take_bit_nat_eq_self)
qed

text \<open>What the driver submits is a request for the block of the buffer.\<close>

lemma even_sector: "ucast (b * 2 :: u32) AND (1 :: u64) = 0"
proof -
  have "\<not> bit (b * 2) 0" by (simp add: bit_0)
  then have "0 < n" if "bit (b * 2) n" for n using that by (cases n) auto
  then show ?thesis by (intro bit_eqI) (auto simp: bit_simps bit_1_iff)
qed

lemma submitted_request:
  assumes "b_blockno x < 0x80000000"
  shows "block_request (submitted b wr x v) 0 =
    Some (if wr then VIRTIO_BLK_T_OUT else VIRTIO_BLK_T_IN, b_blockno x, b, 0)"
  using sector_block [OF assms] even_sector [of "b_blockno x"]
  by (cases wr) (simp_all add: block_request_def submitted_def Let_def)

lemma device_answers:
  fixes wr :: bool and b :: nat and s :: "'z kvd_scheme"
  assumes "device_spec status device" "vd_idle (vd s)" "b_blockno (bufs s b) < 0x80000000"
  defines "t \<equiv> s\<lparr>bufs := (bufs s)(b := (bufs s b)\<lparr>b_disk := True\<rparr>), vd := submitted b wr (bufs s b) (vd s)\<rparr>"
  shows "\<exists>m u. device t = u\<lparr>vd := answered 0 0 (status t) m (submitted b wr (bufs s b) (vd s))\<rparr> \<and> held u = held s \<and>
    (status t = 0 \<longrightarrow> u\<lparr>vd := vd s\<rparr> = disk_rw b wr (updb b (\<lambda>x. x\<lparr>b_disk := True\<rparr>) s))"
proof -
  have p: "pending (vd t) = 0" using assms(2) by (simp add: t_def pending_def submitted_def vd_idle_def)
  have "av_idx (vd t) = v_seen (vd t) + 1" using assms(2) by (simp add: t_def vd_idle_def submitted_def)
  moreover have "block_request (vd t) (pending (vd t)) = Some (if wr then VIRTIO_BLK_T_OUT else VIRTIO_BLK_T_IN, b_blockno (bufs s b), b, 0)"
    unfolding p using submitted_request [OF assms(3)] by (simp add: t_def)
  ultimately have "answers (if wr then VIRTIO_BLK_T_OUT else VIRTIO_BLK_T_IN, b_blockno (bufs s b), b, 0) (status t) t (device t)"
    using assms(1) unfolding device_spec_def by blast
  then show ?thesis
  proof (cases wr)
    case True
    then obtain m x ws where "device t = (t\<lparr>disk := (disk t)(b_blockno (bufs s b) := x), dwrites := dwrites t @ ws\<rparr>)
        \<lparr>vd := answered 0 0 (status t) m (vd t)\<rparr>"
      "status t = 0 \<longrightarrow> x = b_data (bufs t b) \<and> ws = [(b_blockno (bufs s b), x)]"
      using \<open>answers _ _ _ _\<close> p by (auto simp: answers_def)
    then show ?thesis using True
      by (intro exI [of _ m] exI [of _ "t\<lparr>disk := (disk t)(b_blockno (bufs s b) := x), dwrites := dwrites t @ ws\<rparr>"])
        (simp add: t_def disk_rw_def updb_def)
  next
    case False
    then obtain m x where "device t = (updb b (\<lambda>c. c\<lparr>b_data := x\<rparr>) t)\<lparr>vd := answered 0 0 (status t) m (vd t)\<rparr>"
      "status t = 0 \<longrightarrow> x = disk t (b_blockno (bufs s b))"
      using \<open>answers _ _ _ _\<close> p by (auto simp: answers_def)
    then show ?thesis using False
      by (intro exI [of _ m] exI [of _ "updb b (\<lambda>c. c\<lparr>b_data := x\<rparr>) t"]) (simp add: t_def disk_rw_def updb_def)
  qed
qed

text \<open>The interrupt that follows.\<close>

lemma intr_one:
  assumes "held s = {}" "us_idx (vd s) = v_used_idx (vd s) + 1" "us_ring (vd s) (unat (v_used_idx (vd s)) mod NUM) = 0"
    and "info_status (vd s) 0 = 0" "info_b (vd s) 0 = Some b"
  shows "\<exists>f m. virtio_disk_intr s = Inr (s\<lparr>bufs := (bufs s)(b := (bufs s b)\<lparr>b_disk := False\<rparr>), procs := f,
    vd := (vd s)\<lparr>v_used_idx := us_idx (vd s), v_mmio := m\<rparr>\<rparr>)"
proof -
  define m where "m = (v_mmio (vd s))(0x064 := rreg 0x060 (s\<lparr>held := {Lvdisk}\<rparr>) AND 3)"
  let ?s = "s\<lparr>held := {Lvdisk}, vd := (vd s)\<lparr>v_mmio := m\<rparr>\<rparr>"
  let ?t = "updb b (\<lambda>x. x\<lparr>b_disk := False\<rparr>) ?s"
  have "unlocked ?t" by (simp add: unlocked_def updb_def)
  then obtain f where w: "wakeup (Cbuf b) ?t = Inr (?t\<lparr>procs := f\<rparr>)" using wakeup_any by blast
  have fuel: "unat (us_idx (vd ?s) - v_used_idx (vd ?s)) = Suc 0" using assms(2) by simp
  have "virtio_intr_loop (unat (us_idx (vd ?s) - v_used_idx (vd ?s))) ?s =
      Inr (updv (\<lambda>v. v\<lparr>v_used_idx := v_used_idx v + 1\<rparr>) (?t\<lparr>procs := f\<rparr>))"
    unfolding fuel using assms(2-5) w by simp
  then have "virtio_disk_intr s = rel Lvdisk (updv (\<lambda>v. v\<lparr>v_used_idx := v_used_idx v + 1\<rparr>) (?t\<lparr>procs := f\<rparr>))"
    using assms(1) by (simp add: virtio_disk_intr_def acq_def wreg_def updv_def m_def Let_def)
  also have "\<dots> = Inr (s\<lparr>bufs := (bufs s)(b := (bufs s b)\<lparr>b_disk := False\<rparr>), procs := f,
      vd := (vd s)\<lparr>v_used_idx := us_idx (vd s), v_mmio := m\<rparr>\<rparr>)"
    using assms(1,2) by (simp add: rel_def updv_def updb_def)
  finally show ?thesis by blast
qed

lemma free_chain_step:
  assumes "unlocked s" "i < NUM" "\<not> v_free (vd s) i"
  obtains f where "free_chain_loop (Suc k) i s =
    (let s' = s\<lparr>vd := (vd s)\<lparr>v_desc := (v_desc (vd s))(i := zero_desc), v_free := (v_free (vd s))(i := True)\<rparr>, procs := f\<rparr>
     in if de_flags (v_desc (vd s) i) AND VRING_DESC_F_NEXT \<noteq> 0 then free_chain_loop k (unat (de_next (v_desc (vd s) i))) s' else Inr s')"
  using free_desc_ok [OF assms] by (auto simp: Let_def)

text \<open>Freeing the chain of a request.\<close>

lemma free_request:
  assumes "unlocked s" "\<not> v_free (vd s) 0" "\<not> v_free (vd s) 1" "\<not> v_free (vd s) 2"
    and "de_flags (v_desc (vd s) 0) AND 1 \<noteq> 0" "de_next (v_desc (vd s) 0) = 1"
    and "de_flags (v_desc (vd s) 1) AND 1 \<noteq> 0" "de_next (v_desc (vd s) 1) = 2" "de_flags (v_desc (vd s) 2) AND 1 = 0"
  shows "\<exists>f d. free_chain 0 s = Inr (s\<lparr>vd := (vd s)\<lparr>v_desc := d, v_free := (v_free (vd s))(0 := True, 1 := True, 2 := True)\<rparr>, procs := f\<rparr>)"
proof -
  let ?f = "\<lambda>i s g. s\<lparr>vd := (vd s)\<lparr>v_desc := (v_desc (vd s))(i := zero_desc), v_free := (v_free (vd s))(i := True)\<rparr>, procs := g\<rparr>"
  have u: "unlocked (?f i t g)" if "unlocked t" for i t g using that by (simp add: unlocked_def)
  obtain f where 1: "free_chain_loop 9 0 s = free_chain_loop 8 1 (?f 0 s f)"
    using free_chain_step [of s 0 8] assms by (auto simp: Let_def)
  let ?s1 = "?f 0 s f"
  obtain g where 2: "free_chain_loop 8 1 ?s1 = free_chain_loop 7 2 (?f 1 ?s1 g)"
    using free_chain_step [of ?s1 1 7] u [OF assms(1)] assms by (auto simp: Let_def)
  let ?s2 = "?f 1 ?s1 g"
  obtain h where 3: "free_chain_loop 7 2 ?s2 = Inr (?f 2 ?s2 h)"
    using free_chain_step [of ?s2 2 6] u [OF u [OF assms(1)]] assms by (auto simp: Let_def)
  have "free_chain 0 s = Inr (?f 2 ?s2 h)" unfolding free_chain_def using 1 2 3 by simp
  then show ?thesis by auto
qed

text \<open>The driver's steps put together.\<close>

lemma virtio_run:
  assumes "held s = {}" "vd_idle (vd s)"
    and "device (s\<lparr>bufs := (bufs s)(b := (bufs s b)\<lparr>b_disk := True\<rparr>), vd := submitted b wr (bufs s b) (vd s)\<rparr>) = u"
    and "virtio_disk_intr u = Inr w" "held w = {}" "\<not> b_disk (bufs w b)"
    and "free_chain 0 (w\<lparr>held := {Lvdisk}, vd := (vd w)\<lparr>info_b := (info_b (vd w))(0 := None)\<rparr>\<rparr>) = Inr x" "held x = {Lvdisk}"
  shows "virtio_disk_rw device b wr s = Inr (x\<lparr>held := {}\<rparr>)"
proof -
  let ?t = "s\<lparr>bufs := (bufs s)(b := (bufs s b)\<lparr>b_disk := True\<rparr>), vd := submitted b wr (bufs s b) (vd s)\<rparr>"
  have start: "virtio_start b wr (s\<lparr>held := {Lvdisk}\<rparr>) = Inr (Ret 0, ?t\<lparr>held := {Lvdisk}\<rparr>)"
    using virtio_start_idle [of "s\<lparr>held := {Lvdisk}\<rparr>" b wr] assms(2) by simp
  have h: "rel Lvdisk (?t\<lparr>held := {Lvdisk}\<rparr>) = Inr ?t" "acq Lvdisk s = Inr (s\<lparr>held := {Lvdisk}\<rparr>)"
    "acq Lvdisk w = Inr (w\<lparr>held := {Lvdisk}\<rparr>)"
    using assms(1,5) by (simp_all add: rel_def acq_def)
  have "virtio_wait b 0 (w\<lparr>held := {Lvdisk}\<rparr>) = Inr (Ret (), x\<lparr>held := {}\<rparr>)"
    using assms(6-8) by (simp add: virtio_wait_def updv_def rel_def)
  then show ?thesis using start h assms(3,4) by (simp add: virtio_disk_rw_def)
qed

lemma intr_failed:
  assumes "held s = {}" "us_idx (vd s) = v_used_idx (vd s) + 1" "us_ring (vd s) (unat (v_used_idx (vd s)) mod NUM) = 0"
    and "info_status (vd s) 0 \<noteq> 0"
  shows "virtio_disk_intr s = panic ''virtio_disk_intr status''"
  using assms by (simp add: virtio_disk_intr_def acq_def wreg_def updv_def Let_def)

lemma virtio_run_failed:
  assumes "held s = {}" "vd_idle (vd s)"
    and "virtio_disk_intr (device (s\<lparr>bufs := (bufs s)(b := (bufs s b)\<lparr>b_disk := True\<rparr>), vd := submitted b wr (bufs s b) (vd s)\<rparr>)) = panic m"
  shows "virtio_disk_rw device b wr s = panic m"
proof -
  let ?t = "s\<lparr>bufs := (bufs s)(b := (bufs s b)\<lparr>b_disk := True\<rparr>), vd := submitted b wr (bufs s b) (vd s)\<rparr>"
  have start: "virtio_start b wr (s\<lparr>held := {Lvdisk}\<rparr>) = Inr (Ret 0, ?t\<lparr>held := {Lvdisk}\<rparr>)"
    using virtio_start_idle [of "s\<lparr>held := {Lvdisk}\<rparr>" b wr] assms(2) by simp
  have "rel Lvdisk (?t\<lparr>held := {Lvdisk}\<rparr>) = Inr ?t" "acq Lvdisk s = Inr (s\<lparr>held := {Lvdisk}\<rparr>)"
    using assms(1) by (simp_all add: rel_def acq_def)
  then show ?thesis using start assms(3) by (simp add: virtio_disk_rw_def)
qed

text \<open>The driver after the device has answered with success.\<close>

lemma virtio_success:
  assumes "held s = {}" "vd_idle (vd s)" "\<not> b_disk (bufs s b)"
    and dev: "device (s\<lparr>bufs := (bufs s)(b := (bufs s b)\<lparr>b_disk := True\<rparr>), vd := submitted b wr (bufs s b) (vd s)\<rparr>) =
      u\<lparr>vd := answered 0 0 0 m (submitted b wr (bufs s b) (vd s))\<rparr>"
    and xu: "u\<lparr>vd := vd s\<rparr> = disk_rw b wr (updb b (\<lambda>x. x\<lparr>b_disk := True\<rparr>) s)"
  shows "\<exists>v f. virtio_disk_rw device b wr s = Inr ((disk_rw b wr s)\<lparr>vd := v, procs := f\<rparr>) \<and> vd_idle v"
proof -
  let ?v = "submitted b wr (bufs s b) (vd s)"
  let ?x = "disk_rw b wr (updb b (\<lambda>x. x\<lparr>b_disk := True\<rparr>) s)"
  define u' where "u' = ?x\<lparr>vd := answered 0 0 0 m ?v\<rparr>"
  have dev': "device (s\<lparr>bufs := (bufs s)(b := (bufs s b)\<lparr>b_disk := True\<rparr>), vd := ?v\<rparr>) = u'"
    unfolding dev u'_def xu [symmetric] by simp
  have u: "held u' = {}" "us_idx (vd u') = v_used_idx (vd u') + 1" "us_ring (vd u') (unat (v_used_idx (vd u')) mod NUM) = 0"
    "info_status (vd u') 0 = 0" "info_b (vd u') 0 = Some b"
    using assms(1,2) by (auto simp: u'_def disk_rw_def updb_def Let_def answered_def submitted_def vd_idle_def)
  obtain f n where intr: "virtio_disk_intr u' = Inr (u'\<lparr>bufs := (bufs u')(b := (bufs u' b)\<lparr>b_disk := False\<rparr>), procs := f,
      vd := (vd u')\<lparr>v_used_idx := us_idx (vd u'), v_mmio := n\<rparr>\<rparr>)"
    using intr_one [OF u] by blast
  define w where "w = u'\<lparr>bufs := (bufs u')(b := (bufs u' b)\<lparr>b_disk := False\<rparr>), procs := f,
      vd := (vd u')\<lparr>v_used_idx := us_idx (vd u'), v_mmio := n\<rparr>\<rparr>"
  define y where "y = w\<lparr>held := {Lvdisk}, vd := (vd w)\<lparr>info_b := (info_b (vd w))(0 := None)\<rparr>\<rparr>"
  have vy: "vd y = (answered 0 0 0 m ?v)\<lparr>v_used_idx := us_idx (answered 0 0 0 m ?v), v_mmio := n, info_b := (info_b ?v)(0 := None)\<rparr>"
    by (simp add: y_def w_def u'_def answered_def)
  have "unlocked y" by (simp add: unlocked_def y_def)
  from free_request [OF this] obtain g d where free: "free_chain 0 y =
      Inr (y\<lparr>vd := (vd y)\<lparr>v_desc := d, v_free := (v_free (vd y))(0 := True, 1 := True, 2 := True)\<rparr>, procs := g\<rparr>)"
    by (auto simp: vy answered_def submitted_def)
  define z where "z = y\<lparr>vd := (vd y)\<lparr>v_desc := d, v_free := (v_free (vd y))(0 := True, 1 := True, 2 := True)\<rparr>, procs := g\<rparr>"
  have "held w = {}" "\<not> b_disk (bufs w b)" "held z = {Lvdisk}" using u(1) by (simp_all add: w_def z_def y_def)
  then have run: "virtio_disk_rw device b wr s = Inr (z\<lparr>held := {}\<rparr>)"
    using virtio_run [where device = device and s = s and b = b and wr = wr and u = u' and w = w and x = z]
      assms(1,2) dev' intr [folded w_def] free [folded z_def] by (simp add: y_def)
  have d: "(bufs s b)\<lparr>b_disk := True, b_disk := False\<rparr> = bufs s b"
    "(bufs s b)\<lparr>b_disk := True, b_data := y, b_disk := False\<rparr> = (bufs s b)\<lparr>b_data := y\<rparr>" for y
    using assms(3) by (cases "bufs s b", simp)+
  have "z\<lparr>held := {}\<rparr> = (disk_rw b wr s)\<lparr>vd := vd z, procs := g\<rparr>"
    using assms(1) d by (cases wr) (simp_all add: z_def y_def w_def u'_def disk_rw_def updb_def Let_def)
  moreover have "vd_idle (vd z)" using assms(2) by (auto simp: z_def vy vd_idle_def answered_def submitted_def)
  ultimately show ?thesis using run by auto
qed

text \<open>C34: The disk driver does what its caller relies on. With any device that answers requests for a block
  as the virtio specification says, and nothing else in flight, \<open>virtio_disk_rw\<close> of a buffer whose
  block number is below 2^31 puts one request \<open>t\<close> before the device. If the device reports success, the
  call returns; it has then copied exactly that block between the disk and the buffer, in the
  direction asked for, and the driver is idle again: all descriptors are free and both rings are
  caught up. If the device reports any failure, the interrupt panics.\<close>

theorem virtio_disk_rw_transfers:
  assumes "device_spec status device" "held s = {}" "vd_idle (vd s)" "b_blockno (bufs s b) < 0x80000000" "\<not> b_disk (bufs s b)"
  shows "\<exists>t. virtio_start b wr (s\<lparr>held := {Lvdisk}\<rparr>) = Inr (Ret 0, t\<lparr>held := {Lvdisk}\<rparr>) \<and> held t = {} \<and>
    (if status t = 0
     then \<exists>v f. virtio_disk_rw device b wr s = Inr ((disk_rw b wr s)\<lparr>vd := v, procs := f\<rparr>) \<and> vd_idle v
     else virtio_disk_rw device b wr s = panic ''virtio_disk_intr status'')"
proof -
  define t where "t = s\<lparr>bufs := (bufs s)(b := (bufs s b)\<lparr>b_disk := True\<rparr>), vd := submitted b wr (bufs s b) (vd s)\<rparr>"
  have start: "virtio_start b wr (s\<lparr>held := {Lvdisk}\<rparr>) = Inr (Ret 0, t\<lparr>held := {Lvdisk}\<rparr>)"
    using virtio_start_idle [of "s\<lparr>held := {Lvdisk}\<rparr>" b wr] assms(3) by (simp add: t_def)
  obtain m u where dev: "device t = u\<lparr>vd := answered 0 0 (status t) m (submitted b wr (bufs s b) (vd s))\<rparr>" "held u = held s"
    "status t = 0 \<longrightarrow> u\<lparr>vd := vd s\<rparr> = disk_rw b wr (updb b (\<lambda>x. x\<lparr>b_disk := True\<rparr>) s)"
    using device_answers [OF assms(1,3,4), of wr] unfolding t_def by blast
  have "virtio_disk_rw device b wr s = panic ''virtio_disk_intr status''" if "status t \<noteq> 0"
  proof (rule virtio_run_failed [OF assms(2,3)], fold t_def, unfold dev(1), rule intr_failed)
  qed (use that dev(2) assms(2,3) in \<open>simp_all add: answered_def submitted_def vd_idle_def\<close>)
  moreover have "\<exists>v f. virtio_disk_rw device b wr s = Inr ((disk_rw b wr s)\<lparr>vd := v, procs := f\<rparr>) \<and> vd_idle v" if "status t = 0"
    using virtio_success [OF assms(2,3,5), where device = device and wr = wr and u = u and m = m] dev(1,3) that unfolding t_def by simp
  moreover have "held t = {}" using assms(2) by (simp add: t_def)
  ultimately show ?thesis using start by (intro exI [of _ t]) simp
qed

text \<open>A device that serves every request, and one that fails every request.\<close>

definition good_device :: "'z kvd_scheme \<Rightarrow> 'z kvd_scheme" where
  "good_device s =
     (case block_request (vd s) (pending (vd s)) of
        None \<Rightarrow> s
      | Some (ty, blk, b, k) \<Rightarrow>
          (if ty = VIRTIO_BLK_T_OUT
           then s\<lparr>disk := (disk s)(blk := b_data (bufs s b)), dwrites := dwrites s @ [(blk, b_data (bufs s b))]\<rparr>
           else updb b (\<lambda>c. c\<lparr>b_data := disk s blk\<rparr>) s)\<lparr>vd := answered (pending (vd s)) k 0 (v_mmio (vd s)) (vd s)\<rparr>)"

definition bad_device :: "'z kvd_scheme \<Rightarrow> 'z kvd_scheme" where
  "bad_device s =
     (case block_request (vd s) (pending (vd s)) of
        None \<Rightarrow> s
      | Some (ty, blk, b, k) \<Rightarrow> s\<lparr>vd := answered (pending (vd s)) k 1 (v_mmio (vd s)) (vd s)\<rparr>)"

lemma good_device_spec: "device_spec (\<lambda>_. 0) good_device"
  unfolding device_spec_def by (auto simp: good_device_def answers_def split: option.splits prod.splits)

lemma bad_device_spec: "device_spec (\<lambda>_. 1) bad_device"
proof -
  have id: "s\<lparr>disk := (disk s)(blk := disk s blk), dwrites := dwrites s @ []\<rparr> = s"
    "updb b (\<lambda>c. c\<lparr>b_data := b_data (bufs s b)\<rparr>) s = s" for s :: "'a kvd_scheme" and blk b
    by (simp_all add: updb_def)
  show ?thesis unfolding device_spec_def
  proof (intro allI impI)
    fix s :: "'a kvd_scheme" and rq
    assume a: "av_idx (vd s) = v_seen (vd s) + 1 \<and> block_request (vd s) (pending (vd s)) = Some rq"
    obtain ty blk b k where rq: "rq = (ty, blk, b, k)" by (cases rq)
    let ?x = "if ty = VIRTIO_BLK_T_OUT then disk s blk else b_data (bufs s b)"
    have "bad_device s = (if ty = VIRTIO_BLK_T_OUT then s\<lparr>disk := (disk s)(blk := ?x), dwrites := dwrites s @ []\<rparr>
        else updb b (\<lambda>c. c\<lparr>b_data := ?x\<rparr>) s)\<lparr>vd := answered (pending (vd s)) k 1 (v_mmio (vd s)) (vd s)\<rparr>"
      using a by (simp add: bad_device_def rq id(2))
    then show "answers rq 1 s (bad_device s)" unfolding rq answers_def prod.case by (intro exI conjI) simp_all
  qed
qed

theorem virtio_disk_rw_transfers_witness:
  "vd_idle (vd file_demo) \<and>
   (\<exists>v f. virtio_disk_rw good_device 3 True file_demo = Inr ((disk_rw 3 True file_demo)\<lparr>vd := v, procs := f\<rparr>) \<and> vd_idle v) \<and>
   virtio_disk_rw bad_device 3 False file_demo = panic ''virtio_disk_intr status''"
proof -
  have "vd_idle (vd file_demo)" by (simp add: vd_idle_def vdisk_demo_def)
  then show ?thesis
    using virtio_disk_rw_transfers [OF good_device_spec, of file_demo 3 True]
      virtio_disk_rw_transfers [OF bad_device_spec, of file_demo 3 False] by (auto simp: buf_zero_def)
qed

section \<open>Termination\<close>

lemma free_chain_fuel:
  assumes "unlocked s" "card {j. j < NUM \<and> \<not> v_free (vd s) j} < k" "k \<le> k'"
  shows "free_chain_loop k i s \<noteq> Inl Spin \<and> free_chain_loop k' i s = free_chain_loop k i s"
  using assms
proof (induction k arbitrary: i s k')
  case (Suc k)
  obtain n where n: "k' = Suc n" "k \<le> n" using Suc(4) by (cases k') auto
  show ?case
  proof (cases "i < NUM \<and> \<not> v_free (vd s) i")
    case True
    then obtain f where f: "free_desc i s = Inr (s\<lparr>vd := (vd s)\<lparr>v_desc := (v_desc (vd s))(i := zero_desc), v_free := (v_free (vd s))(i := True)\<rparr>,
      procs := f\<rparr>)" (is "_ = Inr ?s") using free_desc_ok [OF Suc(2)] by blast
    have "{j. j < NUM \<and> \<not> v_free (vd s) j} = insert i {j. j < NUM \<and> \<not> v_free (vd ?s) j}" using True by auto
    then have "card {j. j < NUM \<and> \<not> v_free (vd ?s) j} < k" using Suc(3) by simp
    moreover have "unlocked ?s" using Suc(2) by (simp add: unlocked_def)
    ultimately show ?thesis using Suc(1) [OF _ _ n(2)] f by (simp add: n(1) Let_def)
  next
    case False
    then show ?thesis by (auto simp: n(1) Let_def free_desc_def)
  qed
qed simp

text \<open>C35: \<open>free_chain\<close> ends for every descriptor table, also for one whose \<open>next\<close> fields form a cycle: each
  round marks a descriptor free and a second visit panics, so that after 9 rounds the loop has
  returned or panicked, and more rounds make no difference.\<close>

theorem free_chain_terminates:
  assumes "unlocked s" "9 \<le> k"
  shows "free_chain_loop k i s = free_chain i s \<and> free_chain i s \<noteq> Inl Spin"
proof -
  have "card {j. j < NUM \<and> \<not> v_free (vd s) j} \<le> card {0..<NUM}" by (rule card_mono) auto
  then show ?thesis using free_chain_fuel [OF assms(1) _ assms(2), of i] by (simp add: free_chain_def)
qed

theorem free_chain_terminates_witness:
  "unlocked file_demo \<and> free_chain_loop 100 3 file_demo = free_chain 3 file_demo \<and> free_chain 3 file_demo \<noteq> Inl Spin"
  using free_chain_terminates [of file_demo 100 3] by (simp add: unlocked_def)

end
