(* ===== verification/BufList.thy ===== *)
theory BufList
  imports Bio
begin

text \<open>
  The list through \<open>prev\<close> and \<open>next\<close> of \<^verbatim>\<open>kernel/bio.c\<close>: a ring of the buffers with \<open>bcache.head\<close>, changed
  by assignments to pointers. \<open>linked\<close> relates the pointers to the sequence \<open>lru\<close> of \<open>Bio\<close>, and the
  pointer operations refine the operations on the sequence.
\<close>

section \<open>Pointers\<close>

datatype node = Head | Buf nat

record links =
  nx :: "node \<Rightarrow> node"
  pv :: "node \<Rightarrow> node"

definition set_nx :: "node \<Rightarrow> node \<Rightarrow> links \<Rightarrow> links" where
  "set_nx a b l = l\<lparr>nx := (nx l)(a := b)\<rparr>"

definition set_pv :: "node \<Rightarrow> node \<Rightarrow> links \<Rightarrow> links" where
  "set_pv a b l = l\<lparr>pv := (pv l)(a := b)\<rparr>"

text \<open>The four assignments that put a buffer behind the head, and those that take it out of its place.\<close>

definition push_front :: "nat \<Rightarrow> links \<Rightarrow> links" where
  "push_front b l =
     (let l = set_nx (Buf b) (nx l Head) l;
          l = set_pv (Buf b) Head l;
          l = set_pv (nx l Head) (Buf b) l
      in set_nx Head (Buf b) l)"

definition unlink :: "nat \<Rightarrow> links \<Rightarrow> links" where
  "unlink b l =
     (let l = set_pv (nx l (Buf b)) (pv l (Buf b)) l
      in set_nx (pv l (Buf b)) (nx l (Buf b)) l)"

definition binit_links :: "links \<Rightarrow> links" where
  "binit_links l = fold push_front [0..<NBUF] (set_nx Head Head (set_pv Head Head l))"

definition brelse_links :: "nat \<Rightarrow> links \<Rightarrow> links" where
  "brelse_links b l = push_front b (unlink b l)"

text \<open>The loops of \<open>bget\<close>, which walk forwards from \<open>head.next\<close> and backwards from \<open>head.prev\<close>.\<close>

fun walk_links :: "nat \<Rightarrow> (node \<Rightarrow> node) \<Rightarrow> node \<Rightarrow> nat list" where
  "walk_links 0 f a = []"
| "walk_links (Suc k) f a = (case a of Head \<Rightarrow> [] | Buf b \<Rightarrow> b # walk_links k f (f a))"

section \<open>The sequence the pointers stand for\<close>

fun seg :: "links \<Rightarrow> node \<Rightarrow> nat list \<Rightarrow> node \<Rightarrow> bool" where
  "seg l a [] b \<longleftrightarrow> nx l a = b \<and> pv l b = a"
| "seg l a (x # xs) b \<longleftrightarrow> nx l a = Buf x \<and> pv l (Buf x) = a \<and> seg l (Buf x) xs b"

definition linked :: "links \<Rightarrow> nat list \<Rightarrow> bool" where
  "linked l xs \<longleftrightarrow> seg l Head xs Head \<and> distinct xs"

lemma seg_append: "seg l a (xs @ x # ys) b \<longleftrightarrow> seg l a xs (Buf x) \<and> seg l (Buf x) ys b"
  by (induction xs arbitrary: a) auto

lemma seg_frame:
  assumes "seg l a xs b" "\<And>n. n = a \<or> n \<in> Buf ` set xs \<Longrightarrow> nx l' n = nx l n"
    and "\<And>n. n = b \<or> n \<in> Buf ` set xs \<Longrightarrow> pv l' n = pv l n"
  shows "seg l' a xs b"
  using assms by (induction xs arbitrary: a) auto

text \<open>The last node before the end of a segment, and the end redirected.\<close>

lemma seg_end: "seg l a xs b \<Longrightarrow> pv l b = last (a # map Buf xs)"
  by (induction xs arbitrary: a) auto

lemma seg_start: "seg l a xs b \<Longrightarrow> nx l a = hd (map Buf xs @ [b])"
  by (cases xs) auto

lemma seg_retarget:
  assumes "seg l a xs b" "distinct (a # map Buf xs)" "c \<notin> Buf ` set xs" "z = last (a # map Buf xs)"
  shows "seg (set_nx z c (set_pv c z l)) a xs c"
  using assms
proof (induction xs arbitrary: a)
  case (Cons x xs)
  have "z \<in> Buf ` set (x # xs)" using Cons(5) last_in_set [of "map Buf (x # xs)"] by (simp del: last.simps) auto
  then have "z \<noteq> a" using Cons(3) by auto
  moreover have "seg (set_nx z c (set_pv c z l)) (Buf x) xs c" using Cons by auto
  ultimately show ?case using Cons(2,4) by (auto simp: set_nx_def set_pv_def)
qed (simp add: set_nx_def set_pv_def)

lemma unlink_linked:
  assumes "linked l (xs @ x # ys)"
  shows "linked (unlink x l) (xs @ ys)"
proof -
  have s: "seg l Head xs (Buf x)" "seg l (Buf x) ys Head" and d: "distinct (xs @ x # ys)"
    using assms by (auto simp: linked_def seg_append)
  let ?z = "last (Head # map Buf xs)" and ?c = "hd (map Buf ys @ [Head])"
  have e: "pv l (Buf x) = ?z" "nx l (Buf x) = ?c" using seg_end [OF s(1)] seg_start [OF s(2)] by auto
  have "?c \<noteq> Buf x" using d by (cases ys) auto
  then have ul: "unlink x l = set_nx ?z ?c (set_pv ?c ?z l)" by (simp add: unlink_def Let_def set_pv_def set_nx_def e)
  have "?c \<notin> Buf ` set xs" using d by (cases ys) auto
  then have r: "seg (unlink x l) Head xs ?c"
    unfolding ul using d by (intro seg_retarget [OF s(1)]) (auto simp: distinct_map inj_on_def)
  have z: "?z \<in> insert Head (Buf ` set xs)" using last_in_set [of "Head # map Buf xs"] by (simp del: last.simps)
  have "seg (unlink x l) Head (xs @ ys) Head"
  proof (cases ys)
    case (Cons y ys')
    have nz: "n \<noteq> ?z" if "n = Buf y \<or> n \<in> Buf ` set ys'" for n
    proof
      assume "n = ?z"
      with z that have "n \<in> Buf ` set xs" by auto
      with that d show False by (auto simp: Cons)
    qed
    have c: "?c = Buf y" by (simp add: Cons)
    have "seg (unlink x l) (Buf y) ys' Head"
    proof (rule seg_frame)
      show "seg l (Buf y) ys' Head" using s(2) by (simp add: Cons)
      show "nx (unlink x l) n = nx l n" if "n = Buf y \<or> n \<in> Buf ` set ys'" for n
        using nz [OF that] unfolding ul by (simp add: set_nx_def set_pv_def)
      show "pv (unlink x l) n = pv l n" if "n = Head \<or> n \<in> Buf ` set ys'" for n
        using that d unfolding ul c by (auto simp: Cons set_nx_def set_pv_def)
    qed
    then show ?thesis using r Cons by (simp add: seg_append)
  qed (use r in simp)
  then show ?thesis using d by (simp add: linked_def)
qed

lemma push_front_linked:
  assumes "linked l xs" "b \<notin> set xs"
  shows "linked (push_front b l) (b # xs)"
proof -
  have d: "distinct (b # xs)" and s: "seg l Head xs Head" using assms by (auto simp: linked_def)
  have "seg (push_front b l) (Buf b) xs Head"
  proof (cases xs)
    case Nil
    then show ?thesis using s by (simp add: push_front_def Let_def set_nx_def set_pv_def)
  next
    case (Cons y ys)
    have h: "nx l Head = Buf y" "seg l (Buf y) ys Head" using s by (simp_all add: Cons)
    have pf: "nx (push_front b l) = (nx l)(Buf b := Buf y, Head := Buf b)"
      "pv (push_front b l) = (pv l)(Buf b := Head, Buf y := Buf b)"
      by (simp_all add: push_front_def Let_def set_nx_def set_pv_def h(1))
    have "seg (push_front b l) (Buf y) ys Head"
      by (rule seg_frame [OF h(2)]) (use d in \<open>auto simp: pf Cons\<close>)
    then show ?thesis by (simp add: Cons pf)
  qed
  moreover have "nx (push_front b l) Head = Buf b" "pv (push_front b l) (Buf b) = Head"
    using seg_start [OF s] d by (cases xs; simp add: push_front_def Let_def set_nx_def set_pv_def)+
  ultimately show ?thesis using d by (simp add: linked_def)
qed

lemma brelse_linked:
  assumes "linked l xs" "b \<in> set xs"
  shows "linked (brelse_links b l) (b # remove1 b xs)"
proof -
  obtain ys zs where x: "xs = ys @ b # zs" "b \<notin> set ys" using split_list_first [OF assms(2)] by blast
  have "b \<notin> set zs" using assms(1) x by (auto simp: linked_def)
  moreover have "remove1 b xs = ys @ zs" using x by (simp add: remove1_append)
  ultimately show ?thesis
    using push_front_linked [OF unlink_linked [OF assms(1) [unfolded x]], of b] x by (simp add: brelse_links_def)
qed

lemma binit_linked: "linked (binit_links l) (rev [0..<NBUF])"
proof -
  have "linked (fold push_front [0..<n] (set_nx Head Head (set_pv Head Head l))) (rev [0..<n])" for n
    by (induction n) (simp_all add: linked_def [of _ "[]"] set_nx_def set_pv_def push_front_linked)
  then show ?thesis by (simp add: binit_links_def)
qed

lemma walk_seg: "seg l a xs Head \<Longrightarrow> length xs < k \<Longrightarrow> walk_links k (nx l) (nx l a) = xs"
  by (induction xs arbitrary: a k) (case_tac k; simp)+

lemma walk_back: "seg l Head xs b \<Longrightarrow> length xs < k \<Longrightarrow> walk_links k (pv l) (pv l b) = rev xs"
proof (induction xs arbitrary: b k rule: rev_induct)
  case Nil
  then show ?case by (cases k) auto
next
  case (snoc x xs)
  from snoc(2) have s: "seg l Head xs (Buf x)" "pv l b = Buf x" by (auto simp: seg_append)
  with snoc(1) [OF s(1), of "k - 1"] snoc(3) show ?case by (cases k) auto
qed

text \<open>C36: The pointers of the buffer cache implement the sequence the cache is described with. After
  \<open>binit\<close> they link all buffers; whenever they link a sequence, the loops of \<open>bget\<close> that follow \<open>next\<close>
  and \<open>prev\<close> from the head visit exactly that sequence and its reverse and end, and the six
  assignments of \<open>brelse\<close> move the released buffer to its front and leave the order of the others.\<close>

theorem buffer_list_refines:
  "linked (binit_links l0) (rev [0..<NBUF]) \<and>
   (linked l xs \<longrightarrow> length xs = NBUF \<longrightarrow>
      walk_links 31 (nx l) (nx l Head) = xs \<and> walk_links 31 (pv l) (pv l Head) = rev xs \<and>
      (\<forall>b\<in>set xs. linked (brelse_links b l) (b # remove1 b xs)))"
  using binit_linked brelse_linked walk_seg [of l Head xs 31] walk_back [of l xs Head 31]
  by (auto simp: linked_def [of l])

theorem buffer_list_refines_witness:
  "\<exists>l. walk_links 31 (nx l) (nx l Head) = rev [0..<30] \<and> linked (brelse_links 7 l) (7 # remove1 7 (rev [0..<30]))"
proof -
  let ?l = "\<lparr>nx = (\<lambda>_. Head), pv = (\<lambda>_. Head)\<rparr>"
  have "linked (binit_links ?l) (rev [0..<30])" using buffer_list_refines by blast
  with buffer_list_refines [of ?l "binit_links ?l" "rev [0..<30]"] show ?thesis by auto
qed

end
