(* ===== verification/BioProps.thy ===== *)
theory BioProps
  imports Bio
begin

text \<open>
  The buffer cache as its users see it: \<open>view s\<close> is the disk seen through the cache. Under the
  invariant \<open>bio_inv\<close> each operation returns, keeps the invariant and has its effect on the view.
\<close>

lemma unat_of_nat_u32: "n < 2 ^ 32 \<Longrightarrow> unat (of_nat n :: u32) = n"
  by (simp add: unat_of_nat take_bit_nat_eq_self)

section \<open>The invariant, unfolded\<close>

lemma bio_invD:
  assumes "bio_inv p pins H s"
  shows "in_kernel p s" "distinct (lru s)" "set (lru s) = {0..<NBUF}"
    "\<And>i. i < NBUF \<Longrightarrow> b_refcnt (bufs s i) = of_nat (pins i + (if i \<in> H then 1 else 0))"
    "\<And>i. i < NBUF \<Longrightarrow> pins i < 2 ^ 31"
    "\<And>i. i < NBUF \<Longrightarrow> sl_locked (slocks s (Lbuf i)) = (i \<in> H)"
    "\<And>i. i \<in> H \<Longrightarrow> sl_pid (slocks s (Lbuf i)) = p_pid (procs s p)" "\<And>i. i \<in> H \<Longrightarrow> b_valid (bufs s i)"
    "\<And>i j. i < NBUF \<Longrightarrow> j < NBUF \<Longrightarrow> b_dev (bufs s i) = 1 \<Longrightarrow> b_dev (bufs s j) = 1 \<Longrightarrow>
       b_blockno (bufs s i) = b_blockno (bufs s j) \<Longrightarrow> i = j"
    "\<And>i. i < NBUF \<Longrightarrow> pins i = 0 \<Longrightarrow> i \<notin> H \<Longrightarrow> b_dev (bufs s i) = 1 \<Longrightarrow> b_valid (bufs s i) \<Longrightarrow>
       b_data (bufs s i) = disk s (b_blockno (bufs s i))"
    "\<And>i. i \<in> H \<Longrightarrow> i < NBUF"
  using assms unfolding bio_inv_def by (auto simp: subset_iff)

lemma bio_invI:
  assumes "in_kernel p s" "distinct (lru s)" "set (lru s) = {0..<NBUF}"
    and "\<And>i. i < NBUF \<Longrightarrow> b_refcnt (bufs s i) = of_nat (pins i + (if i \<in> H then 1 else 0)) \<and> pins i < 2 ^ 31"
    and "\<And>i. i < NBUF \<Longrightarrow> sl_locked (slocks s (Lbuf i)) = (i \<in> H) \<and>
       (i \<in> H \<longrightarrow> sl_pid (slocks s (Lbuf i)) = p_pid (procs s p) \<and> b_valid (bufs s i))"
    and "\<And>i j. i < NBUF \<Longrightarrow> j < NBUF \<Longrightarrow> i \<noteq> j \<Longrightarrow> b_dev (bufs s i) = 1 \<Longrightarrow> b_dev (bufs s j) = 1 \<Longrightarrow>
       b_blockno (bufs s i) \<noteq> b_blockno (bufs s j)"
    and "\<And>i. i < NBUF \<Longrightarrow> pins i = 0 \<Longrightarrow> i \<notin> H \<Longrightarrow> b_dev (bufs s i) = 1 \<Longrightarrow> b_valid (bufs s i) \<Longrightarrow>
       b_data (bufs s i) = disk s (b_blockno (bufs s i))"
    and "H \<subseteq> {0..<NBUF}"
  shows "bio_inv p pins H s"
  unfolding bio_inv_def using assms by simp

lemma view_cached:
  assumes "bio_inv p pins H s" "i < NBUF" "holds_block s b i" "b_valid (bufs s i)"
  shows "view s b = b_data (bufs s i)"
proof -
  obtain j where j: "find (\<lambda>i. holds_block s b i \<and> b_valid (bufs s i)) [0..<NBUF] = Some j"
    using assms(2-4) by (cases "find (\<lambda>i. holds_block s b i \<and> b_valid (bufs s i)) [0..<NBUF]") (auto simp: find_None_iff)
  then have "j < NBUF" "holds_block s b j" by (auto simp: find_Some_iff)
  with bio_invD(9) [OF assms(1), of j i] assms(2,3) have "j = i" by (auto simp: holds_block_def)
  with j show ?thesis by (simp add: view_def)
qed

lemma view_uncached:
  assumes "\<And>i. i < NBUF \<Longrightarrow> holds_block s b i \<Longrightarrow> \<not> b_valid (bufs s i)"
  shows "view s b = disk s b"
proof -
  have "find (\<lambda>i. holds_block s b i \<and> b_valid (bufs s i)) [0..<NBUF] = None" using assms by (auto simp: find_None_iff)
  then show ?thesis by (simp add: view_def)
qed

text \<open>A block that only unpinned, unlocked buffers hold is the same through the cache as on the disk.\<close>

lemma view_disk:
  assumes "bio_inv p pins H s" "\<And>i. i < NBUF \<Longrightarrow> holds_block s b i \<Longrightarrow> pins i = 0 \<and> i \<notin> H"
  shows "view s b = disk s b"
proof (cases "\<exists>i<NBUF. holds_block s b i \<and> b_valid (bufs s i)")
  case True
  then obtain i where i: "i < NBUF" "holds_block s b i" "b_valid (bufs s i)" by blast
  with view_cached [OF assms(1) i] bio_invD(10) [OF assms(1), of i] assms(2) [OF i(1,2)] show ?thesis
    by (simp add: holds_block_def)
qed (use view_uncached in blast)

section \<open>Looking up a block\<close>

text \<open>What an operation of the cache may change.\<close>

definition bio_frame :: "'z kbio_scheme \<Rightarrow> 'z kbio_scheme \<Rightarrow> bool" where
  "bio_frame s s' \<longleftrightarrow> (\<exists>bu sl lr pr dk dw. s' = s\<lparr>bufs := bu, slocks := sl, lru := lr, procs := pr, disk := dk, dwrites := dw\<rparr>) \<and>
     (\<forall>i. p_pid (procs s' i) = p_pid (procs s i))"

lemma bio_frame_refl [simp]: "bio_frame s s"
  unfolding bio_frame_def
  by (intro conjI exI [of _ "bufs s"] exI [of _ "slocks s"] exI [of _ "lru s"] exI [of _ "procs s"] exI [of _ "disk s"]
      exI [of _ "dwrites s"]) simp_all

lemma bio_frame_trans: "bio_frame s s' \<Longrightarrow> bio_frame s' s'' \<Longrightarrow> bio_frame s s''"
  unfolding bio_frame_def by (elim conjE exE) (intro conjI exI, simp, simp)

text \<open>The buffer that holds a block, or one that can be recycled for it.\<close>

lemma bget_eq:
  assumes "bio_inv p pins H s" "\<forall>i\<in>H. \<not> holds_block s b i"
    and "(\<exists>i<NBUF. holds_block s b i) \<or> (\<exists>i<NBUF. pins i = 0 \<and> i \<notin> H)"
  obtains i where "i < NBUF" "i \<notin> H" "holds_block s b i \<or> pins i = 0 \<and> (\<forall>j<NBUF. \<not> holds_block s b j)"
    "bget 1 b s = Inr (i, upds (Lbuf i) (\<lambda>k. k\<lparr>sl_locked := True, sl_pid := p_pid (procs s p)\<rparr>)
       (updb i (\<lambda>x. if holds_block s b i then x\<lparr>b_refcnt := b_refcnt x + 1\<rparr>
          else x\<lparr>b_dev := 1, b_blockno := b, b_valid := False, b_refcnt := 1\<rparr>) s))"
proof -
  note v = bio_invD [OF assms(1)]
  have acq: "acq Lbcache s = Inr (s\<lparr>held := {Lbcache}\<rparr>)" and h: "held s = {}" and c: "cur s = Some p"
    using v(1) by (auto simp: acq_def)
  have lock: "bindR (rel Lbcache (updb i g (s\<lparr>held := {Lbcache}\<rparr>))) (acquiresleep (Lbuf i)) =
      Inr (upds (Lbuf i) (\<lambda>k. k\<lparr>sl_locked := True, sl_pid := p_pid (procs s p)\<rparr>) (updb i g s))" if "i < NBUF" "i \<notin> H" for i g
  proof -
    have "rel Lbcache (updb i g (s\<lparr>held := {Lbcache}\<rparr>)) = Inr (updb i g s)" using h by (simp add: rel_def updb_def)
    moreover have "in_kernel p (updb i g s)" using v(1) unfolding in_kernel_def by (simp add: updb_def)
    then have "acquiresleep (Lbuf i) (updb i g s) =
        Inr (upds (Lbuf i) (\<lambda>k. k\<lparr>sl_locked := True, sl_pid := p_pid (procs (updb i g s) p)\<rparr>) (updb i g s))"
      using v(6) [OF that(1)] that(2) by (intro acquiresleep_eq) (simp_all add: updb_def)
    ultimately show ?thesis by (simp add: updb_def)
  qed
  show thesis
  proof (cases "find (\<lambda>i. b_dev (bufs s i) = 1 \<and> b_blockno (bufs s i) = b) (lru s)")
    case (Some i)
    then have i: "i < NBUF" "holds_block s b i" using v(3) by (auto simp: find_Some_iff holds_block_def)
    with assms(2) have "i \<notin> H" by blast
    with i that [of i] lock [of i "\<lambda>x. x\<lparr>b_refcnt := b_refcnt x + 1\<rparr>"] Some show thesis
      by (simp add: bget_def acq Let_def updb_def bindR_assoc)
  next
    case None
    then have nb: "\<not> holds_block s b j" if "j < NBUF" for j using that v(3) by (auto simp: find_None_iff holds_block_def)
    have z: "b_refcnt (bufs s i) = 0 \<longleftrightarrow> pins i = 0 \<and> i \<notin> H" if "i < NBUF" for i
    proof -
      have "unat (b_refcnt (bufs s i)) = pins i + (if i \<in> H then 1 else 0)"
        unfolding v(4) [OF that] using v(5) [OF that] by (intro unat_of_nat_u32) simp
      then show ?thesis by (auto simp: unat_eq_0 [symmetric])
    qed
    obtain i where f: "find (\<lambda>i. b_refcnt (bufs s i) = 0) (rev (lru s)) = Some i"
      using assms(3) nb z v(3) by (cases "find (\<lambda>i. b_refcnt (bufs s i) = 0) (rev (lru s))") (auto simp: find_None_iff)
    then have "i \<in> set (rev (lru s))" "b_refcnt (bufs s i) = 0"
      unfolding find_Some_iff by (auto simp del: set_rev)
    then have i: "i < NBUF" "pins i = 0" "i \<notin> H" using v(3) z by auto
    with that [of i] lock [of i "\<lambda>x. x\<lparr>b_dev := 1, b_blockno := b, b_valid := False, b_refcnt := 1\<rparr>"] None f nb show thesis
      by (simp add: bget_def acq Let_def updb_def bindR_assoc)
  qed
qed

text \<open>\<open>bread\<close> returns a locked buffer with the viewed contents.\<close>

lemma bread_eq:
  fixes s :: "'z kbio_scheme"
  assumes "bio_inv p pins H s" "\<forall>i\<in>H. \<not> holds_block s b i"
    and "(\<exists>i<NBUF. holds_block s b i) \<or> (\<exists>i<NBUF. pins i = 0 \<and> i \<notin> H)"
  obtains i s' where "bread 1 b s = Inr (i, s')" "i < NBUF" "i \<notin> H" "bio_inv p pins (insert i H) s'" "holds_block s' b i"
    "b_data (bufs s' i) = view s b" "view s' = view s" "disk s' = disk s" "dwrites s' = dwrites s" "bio_frame s s'"
    "\<And>c j. j < NBUF \<Longrightarrow> j \<in> H \<or> pins j \<noteq> 0 \<Longrightarrow> holds_block s' c j = holds_block s c j"
    "\<And>j. j < NBUF \<Longrightarrow> j \<in> H \<Longrightarrow> b_data (bufs s' j) = b_data (bufs s j)"
    "pins i \<noteq> 0 \<Longrightarrow> holds_block s b i"
proof -
  note v = bio_invD [OF assms(1)]
  obtain i where i: "i < NBUF" "i \<notin> H" "holds_block s b i \<or> pins i = 0 \<and> (\<forall>j<NBUF. \<not> holds_block s b j)"
    and g: "bget 1 b s = Inr (i, upds (Lbuf i) (\<lambda>k. k\<lparr>sl_locked := True, sl_pid := p_pid (procs s p)\<rparr>)
       (updb i (\<lambda>x. if holds_block s b i then x\<lparr>b_refcnt := b_refcnt x + 1\<rparr>
          else x\<lparr>b_dev := 1, b_blockno := b, b_valid := False, b_refcnt := 1\<rparr>) s))"
    by (rule bget_eq [OF assms]) (rule that; assumption)
  define x where "x = (let x = bufs s i in \<lparr>b_valid = True, b_disk = b_disk x, b_dev = 1, b_blockno = b,
      b_refcnt = of_nat (Suc (pins i)), b_data = view s b\<rparr>)"
  define s' where "s' = s\<lparr>bufs := (bufs s)(i := x),
     slocks := (slocks s)(Lbuf i := (slocks s (Lbuf i))\<lparr>sl_locked := True, sl_pid := p_pid (procs s p)\<rparr>)\<rparr>"
  have hb: "b_valid (bufs s i) \<Longrightarrow> holds_block s b i \<Longrightarrow> view s b = b_data (bufs s i)" by (rule view_cached [OF assms(1) i(1)])
  have nb: "\<not> b_valid (bufs s i) \<or> \<not> holds_block s b i \<Longrightarrow> view s b = disk s b"
    using i v(9) [of i] by (intro view_uncached) (auto simp: holds_block_def)
  have run: "bread 1 b s = Inr (i, s')"
  proof (cases "holds_block s b i \<and> b_valid (bufs s i)")
    case True
    then have "x = (bufs s i)\<lparr>b_refcnt := b_refcnt (bufs s i) + 1\<rparr>"
      using hb v(4) [OF i(1)] i(2) by (cases "bufs s i") (simp add: x_def holds_block_def)
    then show ?thesis using True by (simp add: bread_def g s'_def upds_def updb_def)
  next
    case False
    then have "x = (if holds_block s b i then (bufs s i)\<lparr>b_refcnt := b_refcnt (bufs s i) + 1\<rparr>
        else (bufs s i)\<lparr>b_dev := 1, b_blockno := b, b_valid := False, b_refcnt := 1\<rparr>)\<lparr>b_data := disk s b, b_valid := True\<rparr>"
      using nb v(4) [OF i(1)] i(2,3) by (cases "bufs s i") (auto simp: x_def holds_block_def)
    then show ?thesis using False by (auto simp: bread_def g s'_def upds_def updb_def disk_rw_def Let_def holds_block_def)
  qed
  have bs: "bufs s' i = x" "\<And>j. j \<noteq> i \<Longrightarrow> bufs s' j = bufs s j" by (simp_all add: s'_def)
  have xs: "b_dev x = 1" "b_blockno x = b" "b_valid x" "b_data x = view s b" "b_refcnt x = of_nat (Suc (pins i))"
    by (simp_all add: x_def)
  have other: "\<not> (b_dev (bufs s j) = 1 \<and> b_blockno (bufs s j) = b)" if "j < NBUF" "j \<noteq> i" for j
    using i(3) v(9) [OF that(1) i(1)] that by (auto simp: holds_block_def)
  have inv: "bio_inv p pins (insert i H) s'"
  proof -
    have "in_kernel p s'" using v(1) unfolding in_kernel_def by (simp add: s'_def)
    moreover have "b_refcnt (bufs s' j) = of_nat (pins j + (if j \<in> insert i H then 1 else 0)) \<and> pins j < 2 ^ 31" if "j < NBUF" for j
      using v(4,5) [OF that] bs xs(5) by (cases "j = i") auto
    moreover have "sl_locked (slocks s' (Lbuf j)) = (j \<in> insert i H) \<and> (j \<in> insert i H \<longrightarrow>
        sl_pid (slocks s' (Lbuf j)) = p_pid (procs s' p) \<and> b_valid (bufs s' j))" if "j < NBUF" for j
      using v(6) [OF that] v(7,8) [of j] bs xs(3) by (cases "j = i") (auto simp: s'_def)
    moreover have "b_blockno (bufs s' j) \<noteq> b_blockno (bufs s' k)"
      if "j < NBUF" "k < NBUF" "j \<noteq> k" "b_dev (bufs s' j) = 1" "b_dev (bufs s' k) = 1" for j k
    proof (cases "j = i")
      case True
      with that bs(2) [of k] have "b_dev (bufs s k) = 1" "bufs s' k = bufs s k" by auto
      then show ?thesis using other [OF that(2)] that(3) True bs(1) xs(2) by auto
    next
      case False
      with that bs(2) [of j] have j: "b_dev (bufs s j) = 1" "bufs s' j = bufs s j" by auto
      show ?thesis
      proof (cases "k = i")
        case True
        then show ?thesis using other [OF that(1) False] j bs(1) xs(2) by simp
      next
        case k: False
        then show ?thesis using v(9) [OF that(1,2) j(1)] that(3,5) j(2) bs(2) [OF k] by auto
      qed
    qed
    moreover have "b_data (bufs s' j) = disk s' (b_blockno (bufs s' j))"
      if "j < NBUF" "pins j = 0" "j \<notin> insert i H" "b_dev (bufs s' j) = 1" "b_valid (bufs s' j)" for j
      using that v(10) [of j] bs(2) [of j] by (auto simp: s'_def)
    moreover have "insert i H \<subseteq> {0..<NBUF}" "lru s' = lru s" using v(11) i(1) by (auto simp: s'_def)
    ultimately show ?thesis using v(2,3) by (intro bio_invI) simp_all
  qed
  have "view s' c = view s c" for c
  proof (cases "c = b")
    case True
    have "view s' b = b_data x" using view_cached [OF inv i(1)] bs(1) xs by (simp add: holds_block_def)
    then show ?thesis by (simp add: True xs(4))
  next
    case False
    show ?thesis
    proof (cases "\<exists>j<NBUF. holds_block s c j \<and> b_valid (bufs s j) \<and> j \<noteq> i")
      case True
      then obtain j where j: "j < NBUF" "holds_block s c j" "b_valid (bufs s j)" "j \<noteq> i" by blast
      then have "holds_block s' c j" "b_valid (bufs s' j)" "b_data (bufs s' j) = b_data (bufs s j)"
        using bs(2) by (auto simp: holds_block_def)
      then show ?thesis using view_cached [OF inv j(1)] view_cached [OF assms(1) j(1-3)] by simp
    next
      case none: False
      have "view s' c = disk s' c"
        using none bs xs(2) False by (intro view_uncached) (metis holds_block_def)
      moreover have "view s c = disk s c"
      proof (cases "holds_block s c i \<and> b_valid (bufs s i)")
        case True
        then have "pins i = 0" using i(3) False by (auto simp: holds_block_def)
        then show ?thesis using True view_cached [OF assms(1) i(1)] v(10) [OF i(1) _ i(2)] by (auto simp: holds_block_def)
      qed (use none in \<open>intro view_uncached, auto\<close>)
      ultimately show ?thesis by (simp add: s'_def)
    qed
  qed
  then have vw: "view s' = view s" ..
  have fr: "bio_frame s s'"
    unfolding bio_frame_def s'_def
    by (intro conjI exI [of _ "(bufs s)(i := x)"] exI [of _ "slocks s'"] exI [of _ "lru s"] exI [of _ "procs s"]
        exI [of _ "disk s"] exI [of _ "dwrites s"]) (simp_all add: s'_def)
  show thesis
  proof (rule that [OF run i(1,2) inv _ _ vw _ _ fr])
    show "holds_block s' b i" "b_data (bufs s' i) = view s b" using bs(1) xs by (simp_all add: holds_block_def)
    show "disk s' = disk s" "dwrites s' = dwrites s" by (simp_all add: s'_def)
    show "holds_block s' c j = holds_block s c j" if "j < NBUF" "j \<in> H \<or> pins j \<noteq> 0" for c j
      using that i bs xs by (cases "j = i") (auto simp: holds_block_def)
    show "b_data (bufs s' j) = b_data (bufs s j)" if "j < NBUF" "j \<in> H" for j
      using that i(2) bs(2) [of j] by (cases "j = i") auto
    show "pins i \<noteq> 0 \<Longrightarrow> holds_block s b i" using i(3) by auto
  qed
qed


section \<open>Writing and releasing\<close>

text \<open>Assigning to the data of a locked buffer, and writing it.\<close>

lemma set_data_inv:
  assumes "bio_inv p pins H s" "i \<in> H" "holds_block s b i"
  shows "bio_inv p pins H (set_data i d s)" "view (set_data i d s) = (view s)(b := d)" "bio_frame s (set_data i d s)"
    "holds_block (set_data i d s) c j = holds_block s c j" "disk (set_data i d s) = disk s" "dwrites (set_data i d s) = dwrites s"
    "b_data (bufs (set_data i d s) j) = (if j = i then d else b_data (bufs s j))"
proof -
  let ?s = "set_data i d s"
  note v = bio_invD [OF assms(1)]
  have b: "bufs ?s j = (if j = i then (bufs s i)\<lparr>b_data := d\<rparr> else bufs s j)" for j by (simp add: set_data_def updb_def)
  show hb: "holds_block ?s c j = holds_block s c j" for c j by (simp add: holds_block_def b)
  have bv: "b_valid (bufs ?s j) = b_valid (bufs s j)" for j by (simp add: b)
  have k: "in_kernel p ?s" using v(1) unfolding in_kernel_def by (simp add: set_data_def updb_def)
  have o: "slocks ?s = slocks s" "procs ?s = procs s" "lru ?s = lru s" "disk ?s = disk s" "dwrites ?s = dwrites s"
    by (simp_all add: set_data_def updb_def)
  then show "disk ?s = disk s" "dwrites ?s = dwrites s" by simp_all
  show inv: "bio_inv p pins H ?s"
    by (rule bio_invI [OF k]) (use v assms(2) in \<open>auto simp: b o\<close>)
  show "b_data (bufs ?s j) = (if j = i then d else b_data (bufs s j))" by (simp add: b)
  show "bio_frame s ?s"
    unfolding bio_frame_def set_data_def updb_def
    by (intro conjI exI [of _ "bufs ?s"] exI [of _ "slocks s"] exI [of _ "lru s"] exI [of _ "procs s"]
        exI [of _ "disk s"] exI [of _ "dwrites s"]) (simp_all add: set_data_def updb_def)
  show "view ?s = (view s)(b := d)"
  proof
    fix c
    have "view ?s c = (case find (\<lambda>j. holds_block s c j \<and> b_valid (bufs s j)) [0..<NBUF] of
        Some j \<Rightarrow> b_data (bufs ?s j) | None \<Rightarrow> disk s c)"
      unfolding view_def hb bv o ..
    note vs = this
    show "view ?s c = ((view s)(b := d)) c"
    proof (cases "c = b")
      case True
      have "view ?s b = b_data (bufs ?s i)"
        using view_cached [OF inv v(11) [OF assms(2)], of b] hb assms(3) v(8) [OF assms(2)] by (simp add: b)
      then show ?thesis using True by (simp add: b)
    next
      case False
      then have "find (\<lambda>j. holds_block s c j \<and> b_valid (bufs s j)) [0..<NBUF] \<noteq> Some i"
        using assms(3) by (auto simp: find_Some_iff holds_block_def)
      then show ?thesis
        unfolding fun_upd_other [OF False] vs view_def [of s] by (auto simp: b split: option.splits)
    qed
  qed
qed

lemma bwrite_eq:
  assumes "bio_inv p pins H s" "i \<in> H" "holds_block s b i" "d = b_data (bufs s i)"
  shows "bwrite i s = Inr (s\<lparr>disk := (disk s)(b := d), dwrites := dwrites s @ [(b, d)]\<rparr>)"
    "bio_inv p pins H (s\<lparr>disk := (disk s)(b := d), dwrites := dwrites s @ [(b, d)]\<rparr>)"
    "view (s\<lparr>disk := (disk s)(b := d), dwrites := dwrites s @ [(b, d)]\<rparr>) = view s"
    "bio_frame s (s\<lparr>disk := (disk s)(b := d), dwrites := dwrites s @ [(b, d)]\<rparr>)"
proof -
  let ?s = "s\<lparr>disk := (disk s)(b := d), dwrites := dwrites s @ [(b, d)]\<rparr>"
  note v = bio_invD [OF assms(1)]
  show "bwrite i s = Inr ?s"
    using holdingsleep_eq [OF v(1), of "Lbuf i"] v(6) [OF v(11) [OF assms(2)]] v(7) [OF assms(2)] assms(2-4)
    by (simp add: bwrite_def disk_rw_def Let_def holds_block_def)
  have k: "in_kernel p ?s" using v(1) unfolding in_kernel_def by simp
  have ne: "b_blockno (bufs s j) \<noteq> b" if "j < NBUF" "b_dev (bufs s j) = 1" "j \<notin> H" for j
    using v(9) [OF that(1) v(11) [OF assms(2)]] that assms(2,3) by (auto simp: holds_block_def)
  show inv: "bio_inv p pins H ?s" by (rule bio_invI [OF k]) (use v ne in auto)
  show "view ?s = view s"
  proof
    fix c
    show "view ?s c = view s c"
    proof (cases "c = b")
      case True
      have "view ?s b = b_data (bufs ?s i)"
        using view_cached [OF inv v(11) [OF assms(2)], of b] assms(3) v(8) [OF assms(2)] by (simp add: holds_block_def)
      moreover have "view s b = b_data (bufs s i)"
        using view_cached [OF assms(1) v(11) [OF assms(2)], of b] assms(3) v(8) [OF assms(2)] by simp
      ultimately show ?thesis using True by simp
    next
      case False
      then show ?thesis by (simp add: view_def holds_block_def split: option.splits)
    qed
  qed
  show "bio_frame s ?s"
    unfolding bio_frame_def
    by (intro conjI exI [of _ "bufs s"] exI [of _ "slocks s"] exI [of _ "lru s"] exI [of _ "procs s"]
        exI [of _ "disk ?s"] exI [of _ "dwrites ?s"]) simp_all
qed

lemma wake_pid [simp]: "p_pid (wake_procs ch s i) = p_pid (procs s i)"
  by (simp add: wake_procs_def woken_def Let_def)

lemma brelse_eq:
  fixes s :: "'z kbio_scheme"
  assumes "bio_inv p pins H s" "i \<in> H"
    and "pins i \<noteq> 0 \<or> b_dev (bufs s i) = 1 \<and> b_data (bufs s i) = disk s (b_blockno (bufs s i))"
  obtains s' where "brelse i s = Inr s'" "bio_inv p pins (H - {i}) s'" "view s' = view s" "disk s' = disk s"
    "dwrites s' = dwrites s" "bio_frame s s'" "\<And>c j. holds_block s' c j = holds_block s c j"
    "\<And>j. b_data (bufs s' j) = b_data (bufs s j)"
proof -
  note v = bio_invD [OF assms(1)]
  have i: "i < NBUF" by (rule v(11) [OF assms(2)])
  let ?s1 = "(upds (Lbuf i) (\<lambda>k. k\<lparr>sl_locked := False, sl_pid := 0\<rparr>) s)\<lparr>procs := wake_procs (Cslk (Lbuf i)) s\<rparr>"
  define lr where "lr = (if pins i = 0 then i # remove1 i (lru s) else lru s)"
  define s' where "s' = ?s1\<lparr>bufs := (bufs s)(i := (bufs s i)\<lparr>b_refcnt := of_nat (pins i)\<rparr>), lru := lr\<rparr>"
  have r: "b_refcnt (bufs s i) - 1 = of_nat (pins i)" using v(4) [OF i] assms(2) by simp
  have z: "(of_nat (pins i) :: u32) = 0 \<longleftrightarrow> pins i = 0"
    using unat_of_nat_u32 [of "pins i"] v(5) [OF i] by (auto simp: unat_eq_0 [symmetric])
  have run: "brelse i s = Inr s'"
    using holdingsleep_eq [OF v(1), of "Lbuf i"] v(6) [OF i] v(7) [OF assms(2)] assms(2)
      releasesleep_eq [OF v(1), of "Lbuf i"] v(1) r z
    by (simp add: brelse_def acq_def rel_def s'_def lr_def updb_def upds_def Let_def)
  have f: "procs s' = wake_procs (Cslk (Lbuf i)) s" "disk s' = disk s" "dwrites s' = dwrites s" "lru s' = lr"
    "bufs s' = (bufs s)(i := (bufs s i)\<lparr>b_refcnt := of_nat (pins i)\<rparr>)"
    "slocks s' = (slocks s)(Lbuf i := (slocks s (Lbuf i))\<lparr>sl_locked := False, sl_pid := 0\<rparr>)"
    by (simp_all add: s'_def upds_def)
  have b: "b_dev (bufs s' j) = b_dev (bufs s j)" "b_blockno (bufs s' j) = b_blockno (bufs s j)"
    "b_valid (bufs s' j) = b_valid (bufs s j)" "b_data (bufs s' j) = b_data (bufs s j)" for j
    by (simp_all add: f)
  have h: "holds_block s' c j = holds_block s c j" for c j by (simp add: holds_block_def b)
  have "view s' = view s" unfolding view_def [abs_def] h b f(2) ..
  moreover have "in_kernel p s'" using v(1) unfolding in_kernel_def by (simp add: s'_def upds_def)
  then have "bio_inv p pins (H - {i}) s'"
  proof -
    have "distinct lr" "set lr = {0..<NBUF}" using v(2,3) i by (simp_all add: lr_def distinct_remove1 set_remove1_eq insert_absorb)
    moreover have "b_refcnt (bufs s' j) = of_nat (pins j + (if j \<in> H - {i} then 1 else 0)) \<and> pins j < 2 ^ 31" if "j < NBUF" for j
      using v(4,5) [OF that] by (auto simp: f)
    moreover have "sl_locked (slocks s' (Lbuf j)) = (j \<in> H - {i}) \<and> (j \<in> H - {i} \<longrightarrow>
        sl_pid (slocks s' (Lbuf j)) = p_pid (procs s' p) \<and> b_valid (bufs s' j))" if "j < NBUF" for j
      using v(6) [OF that] v(7,8) [of j] by (auto simp: f)
    moreover have "b_data (bufs s' j) = disk s' (b_blockno (bufs s' j))"
      if "j < NBUF" "pins j = 0" "j \<notin> H - {i}" "b_dev (bufs s' j) = 1" "b_valid (bufs s' j)" for j
      using that v(10) [of j] assms(3) unfolding b f(2) by (cases "j = i") auto
    moreover have "b_blockno (bufs s' j) \<noteq> b_blockno (bufs s' k)"
      if "j < NBUF" "k < NBUF" "j \<noteq> k" "b_dev (bufs s' j) = 1" "b_dev (bufs s' k) = 1" for j k
      using that v(9) [of j k] unfolding b by auto
    moreover have "H - {i} \<subseteq> {0..<NBUF}" using v(11) by auto
    ultimately show ?thesis using \<open>in_kernel p s'\<close> f(4) by (intro bio_invI) simp_all
  qed
  moreover have "bio_frame s s'"
    unfolding bio_frame_def
    by (intro conjI exI [of _ "bufs s'"] exI [of _ "slocks s'"] exI [of _ "lru s'"] exI [of _ "procs s'"]
        exI [of _ "disk s"] exI [of _ "dwrites s"]) (simp_all add: s'_def upds_def)
  ultimately show thesis using that [of s'] run f(2,3) h b(4) by blast
qed

text \<open>Pinning and unpinning a locked buffer.\<close>

lemma bpin_eq:
  assumes "bio_inv p pins H s" "i \<in> H" "pins i < 2 ^ 31 - 1"
  shows "bpin i s = Inr (updb i (\<lambda>x. x\<lparr>b_refcnt := b_refcnt x + 1\<rparr>) s)"
    "bio_inv p (pins(i := Suc (pins i))) H (updb i (\<lambda>x. x\<lparr>b_refcnt := b_refcnt x + 1\<rparr>) s)"
proof -
  note v = bio_invD [OF assms(1)]
  let ?s = "updb i (\<lambda>x. x\<lparr>b_refcnt := b_refcnt x + 1\<rparr>) s"
  show "bpin i s = Inr ?s" using v(1) by (simp add: bpin_def acq_def rel_def updb_def)
  have "in_kernel p ?s" using v(1) unfolding in_kernel_def by (simp add: updb_def)
  then show "bio_inv p (pins(i := Suc (pins i))) H ?s"
    by (rule bio_invI) (use v assms(2,3) in \<open>auto simp: updb_def\<close>)
qed

lemma bunpin_eq:
  assumes "bio_inv p pins H s" "i \<in> H" "pins i \<noteq> 0"
  shows "bunpin i s = Inr (updb i (\<lambda>x. x\<lparr>b_refcnt := b_refcnt x - 1\<rparr>) s)"
    "bio_inv p (pins(i := pins i - 1)) H (updb i (\<lambda>x. x\<lparr>b_refcnt := b_refcnt x - 1\<rparr>) s)"
proof -
  note v = bio_invD [OF assms(1)]
  let ?s = "updb i (\<lambda>x. x\<lparr>b_refcnt := b_refcnt x - 1\<rparr>) s"
  show "bunpin i s = Inr ?s" using v(1) by (simp add: bunpin_def acq_def rel_def updb_def)
  have "in_kernel p ?s" using v(1) unfolding in_kernel_def by (simp add: updb_def)
  then show "bio_inv p (pins(i := pins i - 1)) H ?s"
  proof (rule bio_invI)
    fix j assume j: "j < NBUF"
    obtain n where n: "pins i = Suc n" using assms(3) by (cases "pins i") auto
    show "b_refcnt (bufs ?s j) = of_nat ((pins(i := pins i - 1)) j + (if j \<in> H then 1 else 0)) \<and> (pins(i := pins i - 1)) j < 2 ^ 31"
      using v(4,5) [OF j] assms(2) by (auto simp: updb_def n)
  qed (use v assms(2) in \<open>auto simp: updb_def\<close>)
qed

lemma updb_refcnt:
  "view (updb i (\<lambda>x. x\<lparr>b_refcnt := g x\<rparr>) s) = view s" "bio_frame s (updb i (\<lambda>x. x\<lparr>b_refcnt := g x\<rparr>) s)"
  "holds_block (updb i (\<lambda>x. x\<lparr>b_refcnt := g x\<rparr>) s) c j = holds_block s c j"
  "b_data (bufs (updb i (\<lambda>x. x\<lparr>b_refcnt := g x\<rparr>) s) j) = b_data (bufs s j)"
  "disk (updb i (\<lambda>x. x\<lparr>b_refcnt := g x\<rparr>) s) = disk s" "dwrites (updb i (\<lambda>x. x\<lparr>b_refcnt := g x\<rparr>) s) = dwrites s"
proof -
  let ?s = "updb i (\<lambda>x. x\<lparr>b_refcnt := g x\<rparr>) s"
  have b: "b_dev (bufs ?s j) = b_dev (bufs s j)" "b_blockno (bufs ?s j) = b_blockno (bufs s j)"
    "b_valid (bufs ?s j) = b_valid (bufs s j)" "b_data (bufs ?s j) = b_data (bufs s j)" "disk ?s = disk s" "dwrites ?s = dwrites s" for j
    by (simp_all add: updb_def)
  show h: "holds_block ?s c j = holds_block s c j" for c j by (simp add: holds_block_def b)
  show "view ?s = view s" unfolding view_def [abs_def] h b ..
  show "b_data (bufs ?s j) = b_data (bufs s j)" "disk ?s = disk s" "dwrites ?s = dwrites s" by (rule b)+
  show "bio_frame s ?s"
    unfolding bio_frame_def updb_def
    by (intro conjI exI [of _ "bufs ?s"] exI [of _ "slocks s"] exI [of _ "lru s"] exI [of _ "procs s"]
        exI [of _ "disk s"] exI [of _ "dwrites s"]) (simp_all add: updb_def)
qed

end
