(* ===== verification/LogProps.thy ===== *)
theory LogProps
  imports BioProps Log Demo
begin

text \<open>
  The write-ahead log of \<^verbatim>\<open>kernel/log.c\<close> survives a crash at any moment. A crash leaves the disk as the
  writes made so far have left it, whatever the cache held; after a crash inside \<open>commit\<close> the recovery
  of the next boot gives, for all blocks outside the log, either the contents before the transaction
  or those after it.
\<close>

section \<open>Sequences of block writes\<close>

definition put_blocks :: "(u32 \<times> byte list) list \<Rightarrow> (u32 \<Rightarrow> byte list) \<Rightarrow> u32 \<Rightarrow> byte list" where
  "put_blocks ws m = fold (\<lambda>(b, d) m. m(b := d)) ws m"

lemma put_blocks_simps [simp]:
  "put_blocks [] m = m" "put_blocks ((b, d) # ws) m = put_blocks ws (m(b := d))"
  "put_blocks (ws @ vs) m = put_blocks vs (put_blocks ws m)"
  by (simp_all add: put_blocks_def)

lemma put_blocks_other: "c \<notin> fst ` set ws \<Longrightarrow> put_blocks ws m c = m c"
  by (induction ws arbitrary: m) auto

lemma put_blocks_same: "(c, d) \<in> set ws \<Longrightarrow> distinct (map fst ws) \<Longrightarrow> put_blocks ws m c = d"
proof (induction ws arbitrary: m)
  case (Cons w ws)
  then show ?case using put_blocks_other [of c ws "m(c := d)"] by (cases w) (force simp: image_iff)
qed simp

definition wrote_blocks :: "(u32 \<times> byte list) list \<Rightarrow> 'z kbio_scheme \<Rightarrow> 'z kbio_scheme \<Rightarrow> bool" where
  "wrote_blocks ws s s' \<longleftrightarrow> bio_frame s s' \<and> disk s' = put_blocks ws (disk s) \<and> dwrites s' = dwrites s @ ws \<and>
     view s' = put_blocks ws (view s)"

lemma wrote_blocks_trans: "wrote_blocks ws s s' \<Longrightarrow> wrote_blocks vs s' s'' \<Longrightarrow> wrote_blocks (ws @ vs) s s''"
  unfolding wrote_blocks_def using bio_frame_trans by auto

lemma wrote_blocks_Nil [simp]: "wrote_blocks [] s s"
  by (simp add: wrote_blocks_def)

text \<open>What the log keeps in memory is not touched by the cache.\<close>

lemma frame_log:
  fixes s s' :: "'z klog_scheme"
  assumes "bio_frame s s'"
  shows "l_n s' = l_n s" "l_block s' = l_block s" "l_start s' = l_start s" "l_dev s' = l_dev s" "l_size s' = l_size s"
    "l_outstanding s' = l_outstanding s" "l_committing s' = l_committing s"
  using assms by (auto simp: bio_frame_def)

lemma frame_n:
  fixes s s' :: "'z klog_scheme"
  assumes "bio_frame s s'"
  shows "bio_frame (s\<lparr>l_n := n\<rparr>) (s'\<lparr>l_n := n\<rparr>)"
proof -
  obtain bu sl lr pr dk dw where s: "s' = s\<lparr>bufs := bu, slocks := sl, lru := lr, procs := pr, disk := dk, dwrites := dw\<rparr>"
    "\<forall>i. p_pid (procs s' i) = p_pid (procs s i)" using assms unfolding bio_frame_def by blast
  show ?thesis unfolding bio_frame_def
    by (intro conjI exI [of _ bu] exI [of _ sl] exI [of _ lr] exI [of _ pr] exI [of _ dk] exI [of _ dw]) (use s in simp_all)
qed

section \<open>Two blocks at a time\<close>

text \<open>Buffers that the log has pinned stay where they are.\<close>

definition pins_kept :: "(nat \<Rightarrow> nat) \<Rightarrow> 'z kbio_scheme \<Rightarrow> 'z kbio_scheme \<Rightarrow> bool" where
  "pins_kept pins s s' \<longleftrightarrow> (\<forall>j<NBUF. pins j \<noteq> 0 \<longrightarrow> (\<forall>c. holds_block s' c j = holds_block s c j))"

lemma read_two:
  fixes s :: "'z kbio_scheme"
  assumes "bio_inv p pins {} s" "c1 \<noteq> c2" "\<exists>i<NBUF. pins i = 0"
    and "(\<exists>i<NBUF. holds_block s c2 i \<and> pins i \<noteq> 0) \<or> (\<forall>i. pins i = 0)"
  obtains i1 s1 i2 s2 where "bread 1 c1 s = Inr (i1, s1)" "bread 1 c2 s1 = Inr (i2, s2)" "i1 \<noteq> i2"
    "bio_inv p pins {i1, i2} s2" "holds_block s2 c1 i1" "holds_block s2 c2 i2" "b_data (bufs s2 i1) = view s c1"
    "b_data (bufs s2 i2) = view s c2" "wrote_blocks [] s s2" "pins_kept pins s s2" "bio_frame s s1"
    "pins i1 \<noteq> 0 \<Longrightarrow> holds_block s c1 i1" "pins i2 \<noteq> 0 \<Longrightarrow> holds_block s c2 i2"
proof -
  have none: "\<forall>i\<in>{}. \<not> holds_block s c1 i" by simp
  have "(\<exists>i<NBUF. holds_block s c1 i) \<or> (\<exists>i<NBUF. pins i = 0 \<and> i \<notin> {})" using assms(3) by simp
  then obtain i1 s1 where r1: "bread 1 c1 s = Inr (i1, s1)" "i1 < NBUF" "bio_inv p pins (insert i1 {}) s1" "holds_block s1 c1 i1"
    "b_data (bufs s1 i1) = view s c1" "view s1 = view s" "disk s1 = disk s" "dwrites s1 = dwrites s" "bio_frame s s1"
    "\<And>c j. j < NBUF \<Longrightarrow> j \<in> {} \<or> pins j \<noteq> 0 \<Longrightarrow> holds_block s1 c j = holds_block s c j" "pins i1 \<noteq> 0 \<Longrightarrow> holds_block s c1 i1"
    by (rule bread_eq [OF assms(1) none]) (rule that; assumption)
  have one: "\<forall>i\<in>insert i1 {}. \<not> holds_block s1 c2 i" using r1(4) assms(2) by (auto simp: holds_block_def)
  have "(\<exists>i<NBUF. holds_block s1 c2 i) \<or> (\<exists>i<NBUF. pins i = 0 \<and> i \<notin> insert i1 {})"
  proof (cases "\<forall>i. pins i = 0")
    case True
    then show ?thesis by (intro disjI2 exI [of _ "if i1 = 0 then 1 else 0"]) auto
  qed (use assms(4) r1(10) in auto)
  then obtain i2 s2 where r2: "bread 1 c2 s1 = Inr (i2, s2)" "i2 < NBUF" "i2 \<notin> insert i1 {}" "bio_inv p pins (insert i2 (insert i1 {})) s2"
    "holds_block s2 c2 i2" "b_data (bufs s2 i2) = view s1 c2" "view s2 = view s1" "disk s2 = disk s1" "dwrites s2 = dwrites s1"
    "bio_frame s1 s2" "\<And>c j. j < NBUF \<Longrightarrow> j \<in> insert i1 {} \<or> pins j \<noteq> 0 \<Longrightarrow> holds_block s2 c j = holds_block s1 c j"
    "\<And>j. j < NBUF \<Longrightarrow> j \<in> insert i1 {} \<Longrightarrow> b_data (bufs s2 j) = b_data (bufs s1 j)" "pins i2 \<noteq> 0 \<Longrightarrow> holds_block s1 c2 i2"
    by (rule bread_eq [OF r1(3) one]) (rule that; assumption)
  show thesis
  proof (rule that [OF r1(1) r2(1)])
    show "i1 \<noteq> i2" using r2(3) by simp
    show "bio_inv p pins {i1, i2} s2" using r2(4) by (simp add: insert_commute)
    show "holds_block s2 c1 i1" using r2(11) [OF r1(2)] r1(4) by simp
    show "holds_block s2 c2 i2" by (rule r2(5))
    show "b_data (bufs s2 i1) = view s c1" using r2(12) [OF r1(2)] r1(5) by simp
    show "b_data (bufs s2 i2) = view s c2" using r2(6) r1(6) by simp
    show "wrote_blocks [] s s2" using r1(6-9) r2(7-10) bio_frame_trans by (auto simp: wrote_blocks_def)
    show "pins_kept pins s s2" using r1(10) r2(11) by (auto simp: pins_kept_def)
    show "bio_frame s s1" by (rule r1(9))
    show "pins i1 \<noteq> 0 \<Longrightarrow> holds_block s c1 i1" by (rule r1(11))
    show "pins i2 \<noteq> 0 \<Longrightarrow> holds_block s c2 i2" using r2(13) r1(10) [OF r2(2)] by auto
  qed
qed

text \<open>Changing a locked buffer, writing it, and releasing it and another one.\<close>

lemma store_block:
  fixes s :: "'z kbio_scheme"
  assumes "bio_inv p pins H s" "i \<in> H" "holds_block s b i"
  obtains s' where "bwrite i (set_data i d s) = Inr s'" "bio_inv p pins H s'" "wrote_blocks [(b, d)] s s'"
    "\<And>c j. holds_block s' c j = holds_block s c j" "\<And>j. b_data (bufs s' j) = (if j = i then d else b_data (bufs s j))"
    "disk s' = (disk s)(b := d)"
proof -
  note sd = set_data_inv [OF assms, of d]
  let ?t = "set_data i d s"
  have h: "holds_block ?t b i" "d = b_data (bufs ?t i)" using assms(3) by (simp_all add: sd(4,7))
  note bw = bwrite_eq [OF sd(1) assms(2) h]
  let ?u = "?t\<lparr>disk := (disk ?t)(b := d), dwrites := dwrites ?t @ [(b, d)]\<rparr>"
  show thesis
  proof (rule that [OF bw(1,2)])
    show "wrote_blocks [(b, d)] s ?u"
      using sd(2,3,5,6) bw(3,4) bio_frame_trans by (auto simp: wrote_blocks_def)
    show "holds_block ?u c j = holds_block s c j" for c j using sd(4) [of c j] by (simp add: holds_block_def)
    show "b_data (bufs ?u j) = (if j = i then d else b_data (bufs s j))" for j using sd(7) [of j] by simp
    show "disk ?u = (disk s)(b := d)" by (simp add: sd(5))
  qed
qed

lemma release_two:
  fixes s :: "'z kbio_scheme"
  assumes "bio_inv p pins {i, j} s" "i \<noteq> j" "holds_block s b i" "holds_block s c j"
    and "pins i \<noteq> 0 \<or> b_data (bufs s i) = disk s b" "pins j \<noteq> 0 \<or> b_data (bufs s j) = disk s c"
  obtains s' where "bindR (brelse i s) (brelse j) = Inr s'" "bio_inv p pins {} s'" "wrote_blocks [] s s'"
    "\<And>e k. holds_block s' e k = holds_block s e k"
proof -
  obtain s1 where r1: "brelse i s = Inr s1" "bio_inv p pins ({i, j} - {i}) s1" "view s1 = view s" "disk s1 = disk s"
    "dwrites s1 = dwrites s" "bio_frame s s1" "\<And>e k. holds_block s1 e k = holds_block s e k"
    "\<And>k. b_data (bufs s1 k) = b_data (bufs s k)"
    by (rule brelse_eq [OF assms(1)]) (use assms(3,5) in \<open>auto simp: holds_block_def intro: that\<close>)
  have inv: "bio_inv p pins {j} s1" using r1(2) assms(2) by (simp add: insert_Diff_if)
  have "holds_block s1 c j" using r1(7) assms(4) by simp
  then obtain s2 where r2: "brelse j s1 = Inr s2" "bio_inv p pins ({j} - {j}) s2" "view s2 = view s1" "disk s2 = disk s1"
    "dwrites s2 = dwrites s1" "bio_frame s1 s2" "\<And>e k. holds_block s2 e k = holds_block s1 e k"
    by - (rule brelse_eq [OF inv], use assms(6) r1(4,8) in \<open>auto simp: holds_block_def intro: that\<close>)
  show thesis
    by (rule that [of s2]) (use r1 r2 bio_frame_trans in \<open>auto simp: wrote_blocks_def\<close>)
qed

section \<open>Copying blocks to the log and back\<close>

abbreviation log_blk :: "'z klog_scheme \<Rightarrow> nat \<Rightarrow> u32" where
  "log_blk s i \<equiv> word_of_int (l_start s + int i + 1)"

abbreviation home_blk :: "'z klog_scheme \<Rightarrow> nat \<Rightarrow> u32" where
  "home_blk s i \<equiv> word_of_int (l_block s ! i)"

lemma write_log_step:
  fixes s :: "'z klog_scheme"
  assumes "bio_inv p pins {} s" "l_dev s = 1" "log_blk s k \<noteq> home_blk s k" "\<exists>i<NBUF. pins i = 0"
    and "\<exists>i<NBUF. holds_block s (home_blk s k) i \<and> pins i \<noteq> 0"
  obtains s' where "write_log_1 k s = Inr s'" "bio_inv p pins {} s'"
    "wrote_blocks [(log_blk s k, view s (home_blk s k))] s s'" "pins_kept pins s s'"
proof -
  have "(\<exists>i<NBUF. holds_block s (home_blk s k) i \<and> pins i \<noteq> 0) \<or> (\<forall>i. pins i = 0)" using assms(5) by blast
  then obtain i1 s1 i2 s2 where r: "bread 1 (log_blk s k) s = Inr (i1, s1)" "bread 1 (home_blk s k) s1 = Inr (i2, s2)" "i1 \<noteq> i2"
    "bio_inv p pins {i1, i2} s2" "holds_block s2 (log_blk s k) i1" "holds_block s2 (home_blk s k) i2"
    "b_data (bufs s2 i2) = view s (home_blk s k)" "wrote_blocks [] s s2" "pins_kept pins s s2" "bio_frame s s1"
    by (rule read_two [OF assms(1,3,4)]) (rule that; assumption)
  obtain s3 where w: "bwrite i1 (set_data i1 (view s (home_blk s k)) s2) = Inr s3" "bio_inv p pins {i1, i2} s3"
    "wrote_blocks [(log_blk s k, view s (home_blk s k))] s2 s3" "\<And>c j. holds_block s3 c j = holds_block s2 c j"
    "\<And>j. b_data (bufs s3 j) = (if j = i1 then view s (home_blk s k) else b_data (bufs s2 j))"
    "disk s3 = (disk s2)(log_blk s k := view s (home_blk s k))"
    by (rule store_block [OF r(4) insertI1 r(5), of "view s (home_blk s k)"]) (rule that; assumption)
  obtain i where i: "i < NBUF" "holds_block s2 (home_blk s k) i" "pins i \<noteq> 0" using assms(5) r(9) by (auto simp: pins_kept_def)
  have "i2 = i" using bio_invD(9,11) [OF r(4), of i2] i r(6) by (auto simp: holds_block_def)
  have "bio_inv p pins {i2, i1} s3" "i2 \<noteq> i1" using w(2) r(3) by (simp_all add: insert_commute)
  then obtain s4 where v: "bindR (brelse i2 s3) (brelse i1) = Inr s4" "bio_inv p pins {} s4" "wrote_blocks [] s3 s4"
    "\<And>e k. holds_block s4 e k = holds_block s3 e k"
    by (rule release_two [of p pins i2 i1 s3 "home_blk s k" "log_blk s k"])
      (use r(5,6) w(4-6) i(3) \<open>i2 = i\<close> in \<open>auto intro: that\<close>)
  show thesis
  proof (rule that [OF _ v(2)])
    show "write_log_1 k s = Inr s4"
      using r(1,2,7) w(1) v(1) assms(2) by (simp add: write_log_1_def log_bread_def frame_log [OF r(10)])
    show "wrote_blocks [(log_blk s k, view s (home_blk s k))] s s4"
      using wrote_blocks_trans [OF wrote_blocks_trans [OF r(8) w(3)] v(3)] by simp
    show "pins_kept pins s s4" using r(9) w(4) v(4) by (simp add: pins_kept_def)
  qed
qed

lemma bunpin_if:
  fixes s :: "'z kbio_scheme"
  assumes "bio_inv p pins H s" "i \<in> H" "\<not> r \<Longrightarrow> pins i \<noteq> 0"
  obtains s' where "(if r then Inr s else bunpin i s) = Inr s'" "bio_inv p (if r then pins else pins(i := pins i - 1)) H s'"
    "wrote_blocks [] s s'" "\<And>c j. holds_block s' c j = holds_block s c j" "\<And>j. b_data (bufs s' j) = b_data (bufs s j)"
proof (cases r)
  case True
  then show thesis using that [of s] assms(1) by simp
next
  case False
  note u = bunpin_eq [OF assms(1,2) assms(3) [OF False]] and f = updb_refcnt [where i = i and g = "\<lambda>x. b_refcnt x - 1" and s = s]
  show thesis by (rule that [of "updb i (\<lambda>x. x\<lparr>b_refcnt := b_refcnt x - 1\<rparr>) s"]) (use False u f in \<open>auto simp: wrote_blocks_def\<close>)
qed

lemma install_step:
  fixes s :: "'z klog_scheme"
  assumes "bio_inv p pins {} s" "l_dev s = 1" "log_blk s k \<noteq> home_blk s k" "\<exists>i<NBUF. pins i = 0"
    and "if r then \<forall>i. pins i = 0 else \<exists>i<NBUF. holds_block s (home_blk s k) i \<and> pins i \<noteq> 0"
    and "\<forall>j<NBUF. holds_block s (log_blk s k) j \<longrightarrow> pins j = 0"
  obtains s' i where "install_trans_1 r k s = Inr s'" "bio_inv p (if r then pins else pins(i := pins i - 1)) {} s'"
    "wrote_blocks [(home_blk s k, view s (log_blk s k))] s s'" "pins_kept pins s s'"
    "i < NBUF" "\<not> r \<Longrightarrow> holds_block s (home_blk s k) i"
proof -
  let ?d = "view s (log_blk s k)"
  have "(\<exists>i<NBUF. holds_block s (home_blk s k) i \<and> pins i \<noteq> 0) \<or> (\<forall>i. pins i = 0)" using assms(5) by (auto split: if_splits)
  then obtain i1 s1 i2 s2 where r: "bread 1 (log_blk s k) s = Inr (i1, s1)" "bread 1 (home_blk s k) s1 = Inr (i2, s2)" "i1 \<noteq> i2"
    "bio_inv p pins {i1, i2} s2" "holds_block s2 (log_blk s k) i1" "holds_block s2 (home_blk s k) i2"
    "b_data (bufs s2 i1) = ?d" "wrote_blocks [] s s2" "pins_kept pins s s2" "bio_frame s s1"
    by (rule read_two [OF assms(1,3,4)]) (rule that; assumption)
  have m2: "i2 \<in> {i1, i2}" by simp
  have n2: "i2 < NBUF" using bio_invD(11) [OF r(4)] by simp
  have p2: "pins i2 \<noteq> 0 \<and> holds_block s (home_blk s k) i2" if nr: "\<not> r"
  proof -
    obtain i where i: "i < NBUF" "holds_block s (home_blk s k) i" "pins i \<noteq> 0" using assms(5) nr by auto
    then have "holds_block s2 (home_blk s k) i" using r(9) by (simp add: pins_kept_def)
    then have "i2 = i" using bio_invD(9) [OF r(4) n2 i(1)] r(6) by (simp add: holds_block_def)
    with i show ?thesis by simp
  qed
  obtain s3 where w: "bwrite i2 (set_data i2 ?d s2) = Inr s3" "bio_inv p pins {i1, i2} s3"
    "wrote_blocks [(home_blk s k, ?d)] s2 s3" "\<And>c j. holds_block s3 c j = holds_block s2 c j"
    "\<And>j. b_data (bufs s3 j) = (if j = i2 then ?d else b_data (bufs s2 j))" "disk s3 = (disk s2)(home_blk s k := ?d)"
    by (rule store_block [OF r(4) m2 r(6), of ?d]) (rule that; assumption)
  let ?pins = "if r then pins else pins(i2 := pins i2 - 1)"
  obtain s4 where u: "(if r then Inr s3 else bunpin i2 s3) = Inr s4" "bio_inv p ?pins {i1, i2} s4" "wrote_blocks [] s3 s4"
    "\<And>c j. holds_block s4 c j = holds_block s3 c j" "\<And>j. b_data (bufs s4 j) = b_data (bufs s3 j)"
    by (rule bunpin_if [OF w(2), of i2 r]) (use p2 in \<open>auto intro: that\<close>)
  have dl: "?d = disk s (log_blk s k)" using view_disk [OF assms(1), of "log_blk s k"] assms(6) by simp
  have dk: "disk s4 = (disk s)(home_blk s k := ?d)" using w(6) u(3) r(8) by (simp add: wrote_blocks_def)
  obtain s5 where v: "bindR (brelse i1 s4) (brelse i2) = Inr s5" "bio_inv p ?pins {} s5" "wrote_blocks [] s4 s5"
    "\<And>e k. holds_block s5 e k = holds_block s4 e k"
  proof (rule release_two [OF u(2) r(3), of "log_blk s k" "home_blk s k"])
    show "holds_block s4 (log_blk s k) i1" "holds_block s4 (home_blk s k) i2" using r(5,6) by (simp_all add: u(4) w(4))
    have "b_data (bufs s4 i1) = ?d" using r(3,7) by (simp add: u(5) w(5))
    then show "?pins i1 \<noteq> 0 \<or> b_data (bufs s4 i1) = disk s4 (log_blk s k)" using dl assms(3) by (simp add: dk)
    show "?pins i2 \<noteq> 0 \<or> b_data (bufs s4 i2) = disk s4 (home_blk s k)" by (simp add: u(5) w(5) dk)
  qed (rule that; assumption)
  show thesis
  proof (rule that [OF _ v(2) _ _ n2])
    show "install_trans_1 r k s = Inr s5"
      using r(1,2,7) w(1) u(1) v(1) assms(2) by (simp add: install_trans_1_def log_bread_def frame_log [OF r(10)])
    show "wrote_blocks [(home_blk s k, ?d)] s s5"
      using wrote_blocks_trans [OF wrote_blocks_trans [OF wrote_blocks_trans [OF r(8) w(3)] u(3)] v(3)] by simp
    show "pins_kept pins s s5" using r(9) w(4) u(4) v(4) by (simp add: pins_kept_def)
  qed (use p2 in blast)
qed

section \<open>The area of the log\<close>

text \<open>
  The header and the 29 copies that a log of \<open>LOGSIZE\<close> = 30 blocks has room for. \<open>log_write\<close> admits no more
  than \<open>log.size - 1\<close> blocks.
\<close>

definition log_area :: "'z klog_scheme \<Rightarrow> u32 set" where
  "log_area s = (\<lambda>j. word_of_int (l_start s + int j)) ` {0..29}"

lemma log_word_inj:
  assumes "(word_of_int (a + int i) :: u32) = word_of_int (a + int j)" "i \<le> 30" "j \<le> 30"
  shows "i = j"
proof -
  have "(of_nat i :: u32) = of_nat j" using assms(1) by (simp add: of_int_add)
  then have "unat (of_nat i :: u32) = unat (of_nat j :: u32)" by simp
  then show ?thesis using assms(2,3) unat_of_nat_u32 [of i] unat_of_nat_u32 [of j] by simp
qed

abbreviation head_blk :: "'z klog_scheme \<Rightarrow> u32" where
  "head_blk s \<equiv> word_of_int (l_start s)"

lemma log_blk_area: "i < 29 \<Longrightarrow> log_blk s i \<in> log_area s" "head_blk s \<in> log_area s"
  unfolding log_area_def by (rule image_eqI [of _ _ "Suc i"], simp_all add: algebra_simps) (rule image_eqI [of _ _ 0], simp_all)

lemma log_blk_inj: "i < 29 \<Longrightarrow> j < 29 \<Longrightarrow> log_blk s i = log_blk s j \<longleftrightarrow> i = j"
  using log_word_inj [of "l_start s" "Suc i" "Suc j"] by (auto simp: algebra_simps)

lemma log_blk_head: "i < 29 \<Longrightarrow> log_blk s i \<noteq> head_blk s"
  using log_word_inj [of "l_start s" "Suc i" 0] by (auto simp: algebra_simps)

text \<open>The buffers pinned for the entries from \<open>k\<close> to \<open>n - 1\<close> of the log.\<close>

definition pinned_from :: "'z klog_scheme \<Rightarrow> nat \<Rightarrow> nat \<Rightarrow> nat \<Rightarrow> nat" where
  "pinned_from s k n j = (if j < NBUF \<and> (\<exists>i. k \<le> i \<and> i < n \<and> holds_block s (home_blk s i) j) then 1 else 0)"

lemma some_unpinned:
  assumes "bio_inv p pins H s" "n \<le> 29"
  shows "\<exists>j<NBUF. pinned_from s k n j = 0"
proof (rule ccontr)
  assume "\<not> ?thesis"
  then have "\<forall>j<NBUF. \<exists>i<n. holds_block s (home_blk s i) j" by (auto simp: pinned_from_def split: if_splits)
  then have h: "\<forall>j<NBUF. b_dev (bufs s j) = 1 \<and> b_blockno (bufs s j) \<in> home_blk s ` {0..<n}" by (force simp: holds_block_def)
  have "inj_on (\<lambda>j. b_blockno (bufs s j)) {0..<NBUF}"
    using bio_invD(9) [OF assms(1)] h by (intro inj_onI) auto
  then have "card {0..<NBUF} = card ((\<lambda>j. b_blockno (bufs s j)) ` {0..<NBUF})" by (simp add: card_image)
  also have "\<dots> \<le> card (home_blk s ` {0..<n})" using h by (intro card_mono) auto
  also have "\<dots> \<le> n" using card_image_le [of "{0..<n}" "home_blk s"] by simp
  finally show False using assms(2) by simp
qed

section \<open>The loops\<close>

text \<open>A transaction that is ready to commit.\<close>

definition log_ready :: "nat \<Rightarrow> nat \<Rightarrow> 'z klog_scheme \<Rightarrow> bool" where
  "log_ready p n s \<longleftrightarrow> bio_inv p (pinned_from s 0 n) {} s \<and> l_dev s = 1 \<and> l_n s = int n \<and> n \<le> 29 \<and> length (l_block s) = 30 \<and>
     distinct (map (\<lambda>i. home_blk s i) [0..<n]) \<and> (\<forall>i<n. home_blk s i \<notin> log_area s) \<and>
     (\<forall>i<n. \<exists>b<NBUF. holds_block s (home_blk s i) b) \<and> (\<forall>i<n. - (2 ^ 31) \<le> l_block s ! i \<and> l_block s ! i < 2 ^ 31) \<and>
     length (disk s (head_blk s)) = 1024 \<and> ld_int (disk s (head_blk s)) 0 = 0"

lemma log_readyD:
  assumes "log_ready p n s"
  shows "bio_inv p (pinned_from s 0 n) {} s" "l_dev s = 1" "l_n s = int n" "n \<le> 29" "length (l_block s) = 30"
    "\<And>i j. i < n \<Longrightarrow> j < n \<Longrightarrow> home_blk s i = home_blk s j \<Longrightarrow> i = j" "\<And>i. i < n \<Longrightarrow> home_blk s i \<notin> log_area s"
    "\<And>i. i < n \<Longrightarrow> \<exists>b<NBUF. holds_block s (home_blk s i) b"
    "\<And>i. i < n \<Longrightarrow> - (2 ^ 31) \<le> l_block s ! i" "\<And>i. i < n \<Longrightarrow> l_block s ! i < 2 ^ 31"
    "length (disk s (head_blk s)) = 1024" "ld_int (disk s (head_blk s)) 0 = 0"
  using assms by (auto simp: log_ready_def distinct_conv_nth)

definition log_copies :: "'z klog_scheme \<Rightarrow> nat \<Rightarrow> (u32 \<times> byte list) list" where
  "log_copies s n = map (\<lambda>i. (log_blk s i, view s (home_blk s i))) [0..<n]"

lemma write_log_eq:
  fixes s :: "'z klog_scheme"
  assumes "log_ready p n s" "k \<le> n"
  shows "\<exists>s'. foldR write_log_1 [0..<k] s = Inr s' \<and> bio_inv p (pinned_from s 0 n) {} s' \<and>
    wrote_blocks (log_copies s k) s s' \<and> pins_kept (pinned_from s 0 n) s s'"
  using assms(2)
proof (induction k)
  case 0
  then show ?case using log_readyD(1) [OF assms(1)] by (simp add: log_copies_def pins_kept_def)
next
  case (Suc k)
  note d = log_readyD [OF assms(1)]
  from Suc obtain t where t: "foldR write_log_1 [0..<k] s = Inr t" "bio_inv p (pinned_from s 0 n) {} t"
    "wrote_blocks (log_copies s k) s t" "pins_kept (pinned_from s 0 n) s t" by auto
  have f: "bio_frame s t" using t(3) by (simp add: wrote_blocks_def)
  note e = frame_log [OF f]
  have hk: "log_blk s k \<noteq> home_blk s k" using d(7) [of k] log_blk_area(1) [of k s] d(4) Suc(2) by auto
  obtain b where b: "b < NBUF" "holds_block s (home_blk s k) b" using d(8) [of k] Suc(2) by auto
  then have pb: "pinned_from s 0 n b \<noteq> 0" using Suc(2) by (auto simp: pinned_from_def intro!: exI [of _ k])
  have "holds_block t (home_blk s k) b" using t(4) b pb by (simp add: pins_kept_def)
  then have ex: "\<exists>i<NBUF. holds_block t (home_blk t k) i \<and> pinned_from s 0 n i \<noteq> 0" using b(1) pb by (auto simp: e)
  obtain u where u: "write_log_1 k t = Inr u" "bio_inv p (pinned_from s 0 n) {} u"
    "wrote_blocks [(log_blk t k, view t (home_blk t k))] t u" "pins_kept (pinned_from s 0 n) t u"
    by (rule write_log_step [OF t(2) _ _ some_unpinned [OF d(1,4)] ex]) (use hk d(2) in \<open>auto simp: e intro: that\<close>)
  have "view t (home_blk s k) = view s (home_blk s k)"
  proof -
    have "home_blk s k \<notin> fst ` set (log_copies s k)"
      using d(7) [of k] Suc(2) d(4) log_blk_area(1) [of _ s] by (auto simp: log_copies_def)
    then show ?thesis using t(3) by (simp add: wrote_blocks_def put_blocks_other)
  qed
  then have "wrote_blocks (log_copies s (Suc k)) s u"
    using wrote_blocks_trans [OF t(3) u(3)] by (simp add: log_copies_def e)
  moreover have "pins_kept (pinned_from s 0 n) s u" using t(4) u(4) by (simp add: pins_kept_def)
  ultimately show ?case using t(1) u(1,2) by (simp add: foldR_append)
qed

text \<open>
  Installing the log: \<open>commit\<close> does it with the buffers of the transaction pinned, recovery with no
  buffer pinned.
\<close>

definition home_copies :: "'z klog_scheme \<Rightarrow> (u32 \<Rightarrow> byte list) \<Rightarrow> nat \<Rightarrow> (u32 \<times> byte list) list" where
  "home_copies s m n = map (\<lambda>i. (home_blk s i, m (log_blk s i))) [0..<n]"

lemma home_copies_fst: "\<forall>i<n. home_blk s i \<notin> A \<Longrightarrow> k \<le> n \<Longrightarrow> c \<in> A \<Longrightarrow> c \<notin> fst ` set (home_copies s m k)"
  by (auto simp: home_copies_def)

definition install_pins :: "bool \<Rightarrow> 'z klog_scheme \<Rightarrow> nat \<Rightarrow> nat \<Rightarrow> nat \<Rightarrow> nat" where
  "install_pins r s k n = (if r then (\<lambda>_. 0) else pinned_from s k n)"

lemma install_pins_Suc: "install_pins r s (Suc k) n j \<noteq> 0 \<Longrightarrow> install_pins r s k n j \<noteq> 0"
  by (auto simp: install_pins_def pinned_from_def split: if_splits intro: Suc_leD)

lemma pinned_step:
  assumes "bio_inv p pins {} s" "\<And>i j. i < n \<Longrightarrow> j < n \<Longrightarrow> home_blk s i = home_blk s j \<Longrightarrow> i = j"
    and "k < n" "i < NBUF" "holds_block s (home_blk s k) i"
  shows "(pinned_from s k n)(i := pinned_from s k n i - 1) = pinned_from s (Suc k) n"
proof
  fix j
  show "((pinned_from s k n)(i := pinned_from s k n i - 1)) j = pinned_from s (Suc k) n j"
  proof (cases "j = i")
    case True
    have "\<not> holds_block s (home_blk s l) i" if "Suc k \<le> l" "l < n" for l
      using assms(2) [of k l] that assms(3,5) by (auto simp: holds_block_def)
    then show ?thesis using True by (auto simp: pinned_from_def)
  next
    case False
    have "\<not> holds_block s (home_blk s k) j" if "j < NBUF"
      using bio_invD(9) [OF assms(1) that assms(4)] False assms(5) by (auto simp: holds_block_def)
    then have "j < NBUF \<Longrightarrow> (\<exists>l\<ge>k. l < n \<and> holds_block s (home_blk s l) j) \<longleftrightarrow>
        (\<exists>l\<ge>Suc k. l < n \<and> holds_block s (home_blk s l) j)"
      by (metis Suc_leD Suc_leI le_neq_implies_less)
    then show ?thesis using False by (auto simp: pinned_from_def)
  qed
qed

lemma install_eq:
  fixes s :: "'z klog_scheme"
  assumes "bio_inv p (install_pins r s 0 n) {} s" "l_dev s = 1" "n \<le> 29" "k \<le> n"
    and "\<And>i j. \<not> r \<Longrightarrow> i < n \<Longrightarrow> j < n \<Longrightarrow> home_blk s i = home_blk s j \<Longrightarrow> i = j" "\<forall>i<n. home_blk s i \<notin> log_area s"
    and "\<And>i. \<not> r \<Longrightarrow> i < n \<Longrightarrow> \<exists>b<NBUF. holds_block s (home_blk s i) b"
  shows "\<exists>s'. foldR (install_trans_1 r) [0..<k] s = Inr s' \<and> bio_inv p (install_pins r s k n) {} s' \<and>
    wrote_blocks (home_copies s (view s) k) s s' \<and> pins_kept (install_pins r s k n) s s'"
  using assms(4)
proof (induction k)
  case 0
  then show ?case using assms(1) by (simp add: home_copies_def pins_kept_def)
next
  case (Suc k)
  let ?P = "install_pins r s k n"
  from Suc obtain t where t: "foldR (install_trans_1 r) [0..<k] s = Inr t" "bio_inv p ?P {} t"
    "wrote_blocks (home_copies s (view s) k) s t" "pins_kept ?P s t" by auto
  have f: "bio_frame s t" using t(3) by (simp add: wrote_blocks_def)
  note e = frame_log [OF f]
  have kn: "k < n" "k < 29" using Suc(2) assms(3) by auto
  have la: "log_blk s k \<in> log_area s" using log_blk_area(1) kn by blast
  then have hk: "log_blk t k \<noteq> home_blk t k" using assms(6) kn(1) unfolding e by metis
  have un: "\<exists>j<NBUF. ?P j = 0" using some_unpinned [OF assms(1,3)] by (simp add: install_pins_def) (metis zero_less_numeral)
  have pin: "\<exists>i<NBUF. holds_block t (home_blk t k) i \<and> ?P i \<noteq> 0" if nr: "\<not> r"
  proof -
    obtain b where b: "b < NBUF" "holds_block s (home_blk s k) b" using assms(7) nr kn(1) by blast
    then have pb: "?P b \<noteq> 0" using nr kn(1) by (auto simp: install_pins_def pinned_from_def)
    then have "holds_block t (home_blk s k) b" using t(4) b by (simp add: pins_kept_def)
    with b(1) pb show ?thesis by (auto simp: e)
  qed
  have nolog: "\<forall>j<NBUF. holds_block t (log_blk t k) j \<longrightarrow> ?P j = 0"
  proof (intro allI impI, rule ccontr)
    fix j assume j: "j < NBUF" "holds_block t (log_blk t k) j" "?P j \<noteq> 0"
    then have "holds_block s (log_blk s k) j" using t(4) by (simp add: pins_kept_def e)
    moreover obtain l where "l < n" "holds_block s (home_blk s l) j"
      using j(3) by (auto simp: install_pins_def pinned_from_def split: if_splits)
    ultimately show False using assms(6) la by (auto simp: holds_block_def)
  qed
  have rp: "if r then \<forall>i. ?P i = 0 else \<exists>i<NBUF. holds_block t (home_blk t k) i \<and> ?P i \<noteq> 0"
    using pin by (simp add: install_pins_def)
  obtain u i where u: "install_trans_1 r k t = Inr u" "bio_inv p (if r then ?P else ?P(i := ?P i - 1)) {} u"
    "wrote_blocks [(home_blk t k, view t (log_blk t k))] t u" "pins_kept ?P t u" "i < NBUF" "\<not> r \<Longrightarrow> holds_block t (home_blk t k) i"
    by (rule install_step [OF t(2) _ hk un rp nolog]) (use assms(2) in \<open>auto simp: e intro: that\<close>)
  have hs: "holds_block s (home_blk s k) i" if nr: "\<not> r"
  proof -
    obtain b where b: "b < NBUF" "holds_block t (home_blk t k) b" "?P b \<noteq> 0" using pin [OF nr] by blast
    then have "i = b" using bio_invD(9) [OF t(2) u(5)] u(6) [OF nr] by (simp add: holds_block_def)
    with b t(4) show ?thesis by (simp add: pins_kept_def e)
  qed
  have np: "(if r then ?P else ?P(i := ?P i - 1)) = install_pins r s (Suc k) n"
  proof (cases r)
    case False
    have inv: "bio_inv p (pinned_from s 0 n) {} s" using assms(1) False by (simp add: install_pins_def)
    show ?thesis using pinned_step [OF inv assms(5) [OF False] kn(1) u(5) hs [OF False]] False by (simp only: install_pins_def if_False)
  qed (simp add: install_pins_def)
  have "view t (log_blk s k) = view s (log_blk s k)"
    using t(3) home_copies_fst [OF assms(6) _ la, of k] kn(1) by (simp add: wrote_blocks_def put_blocks_other)
  then have "wrote_blocks (home_copies s (view s) (Suc k)) s u"
    using wrote_blocks_trans [OF t(3) u(3)] by (simp add: home_copies_def e)
  moreover have "pins_kept (install_pins r s (Suc k) n) s u"
    using t(4) u(4) install_pins_Suc unfolding pins_kept_def by metis
  ultimately show ?case using t(1) u(1,2) np by (simp add: foldR_append)
qed

section \<open>The header block\<close>

definition head_bytes :: "byte list \<Rightarrow> int \<Rightarrow> int list \<Rightarrow> byte list" where
  "head_bytes d n bl = fold (\<lambda>i hb. st_int hb (4 + 4 * i) (bl ! i)) [0..<nat n] (st_int d 0 n)"

lemma head_bytes_fold:
  assumes "length d = 1024" "k \<le> 30" "\<forall>i<k. - (2 ^ 31) \<le> bl ! i \<and> bl ! i < 2 ^ 31"
  shows "length (fold (\<lambda>i hb. st_int hb (4 + 4 * i) (bl ! i)) [0..<k] d) = 1024 \<and>
    ld_int (fold (\<lambda>i hb. st_int hb (4 + 4 * i) (bl ! i)) [0..<k] d) 0 = ld_int d 0 \<and>
    (\<forall>i<k. ld_int (fold (\<lambda>i hb. st_int hb (4 + 4 * i) (bl ! i)) [0..<k] d) (4 + 4 * i) = bl ! i)"
  using assms(2,3)
proof (induction k)
  case (Suc k)
  then show ?case by (auto simp: less_Suc_eq)
qed (simp add: assms(1))

lemma head_bytes_read:
  assumes "length d = 1024" "n \<le> 30" "\<forall>i<n. - (2 ^ 31) \<le> bl ! i \<and> bl ! i < 2 ^ 31"
  shows "length (head_bytes d (int n) bl) = 1024" "ld_int (head_bytes d (int n) bl) 0 = int n"
    "i < n \<Longrightarrow> ld_int (head_bytes d (int n) bl) (4 + 4 * i) = bl ! i"
  using head_bytes_fold [of "st_int d 0 (int n)" n bl] assms by (simp_all add: head_bytes_def)

lemma write_head_eq:
  fixes s :: "'z klog_scheme"
  assumes "bio_inv p pins {} s" "l_dev s = 1" "\<exists>i<NBUF. pins i = 0" "d = head_bytes (view s (head_blk s)) (l_n s) (l_block s)"
  obtains s' where "write_head s = Inr s'" "bio_inv p pins {} s'" "wrote_blocks [(head_blk s, d)] s s'" "pins_kept pins s s'"
proof -
  have none: "\<forall>i\<in>{}. \<not> holds_block s (head_blk s) i" by simp
  have "(\<exists>i<NBUF. holds_block s (head_blk s) i) \<or> (\<exists>i<NBUF. pins i = 0 \<and> i \<notin> {})" using assms(3) by simp
  then obtain i s1 where r: "bread 1 (head_blk s) s = Inr (i, s1)" "bio_inv p pins (insert i {}) s1" "holds_block s1 (head_blk s) i"
    "b_data (bufs s1 i) = view s (head_blk s)" "view s1 = view s" "disk s1 = disk s" "dwrites s1 = dwrites s" "bio_frame s s1"
    "\<And>c j. j < NBUF \<Longrightarrow> j \<in> {} \<or> pins j \<noteq> 0 \<Longrightarrow> holds_block s1 c j = holds_block s c j"
    by (rule bread_eq [OF assms(1) none]) (rule that; assumption)
  obtain s2 where w: "bwrite i (set_data i d s1) = Inr s2" "bio_inv p pins (insert i {}) s2" "wrote_blocks [(head_blk s, d)] s1 s2"
    "\<And>c j. holds_block s2 c j = holds_block s1 c j" "\<And>j. b_data (bufs s2 j) = (if j = i then d else b_data (bufs s1 j))"
    "disk s2 = (disk s1)(head_blk s := d)"
    by (rule store_block [OF r(2) insertI1 r(3), of d]) (rule that; assumption)
  have "b_dev (bufs s2 i) = 1 \<and> b_data (bufs s2 i) = disk s2 (b_blockno (bufs s2 i))"
    using w(4) [of "head_blk s" i] r(3) by (simp add: holds_block_def w(5,6))
  then obtain s3 where v: "brelse i s2 = Inr s3" "bio_inv p pins (insert i {} - {i}) s3" "view s3 = view s2" "disk s3 = disk s2"
    "dwrites s3 = dwrites s2" "bio_frame s2 s3" "\<And>e k. holds_block s3 e k = holds_block s2 e k"
    by - (rule brelse_eq [OF w(2) insertI1]; blast intro: that)
  show thesis
  proof (rule that [of s3])
    show "write_head s = Inr s3"
      using r(1) w(1) v(1) assms(2,4) r(4)
      by (simp add: write_head_def log_bread_def Let_def head_bytes_def frame_log [OF r(8)])
    show "wrote_blocks [(head_blk s, d)] s s3"
      using w(3) r(5-8) v(3-6) bio_frame_trans unfolding wrote_blocks_def by metis
    show "pins_kept pins s s3" using r(9) by (simp add: pins_kept_def w(4) v(7))
  qed (use v(2) in simp)
qed

text \<open>Reading the header sets only what the log keeps in memory.\<close>

lemma log_fields [simp]:
  fixes s :: "'z klog_scheme"
  shows "bio_inv p pins H (s\<lparr>l_n := n\<rparr>) = bio_inv p pins H s" "view (s\<lparr>l_n := n\<rparr>) = view s"
    "bio_inv p pins H (s\<lparr>l_block := bl\<rparr>) = bio_inv p pins H s" "view (s\<lparr>l_block := bl\<rparr>) = view s"
    "holds_block (s\<lparr>l_n := n\<rparr>) c j = holds_block s c j" "holds_block (s\<lparr>l_block := bl\<rparr>) c j = holds_block s c j"
  unfolding bio_inv_def in_kernel_def view_def holds_block_def by (simp_all cong: option.case_cong)

lemma read_head_loop:
  fixes s :: "'z klog_scheme"
  assumes "k \<le> 30" "length (l_block s) = 30"
  shows "foldR (\<lambda>i s. if i < LOGSIZE then Inr (s\<lparr>l_block := (l_block s)[i := f i]\<rparr>) else Inl e) [0..<k] s =
    Inr (s\<lparr>l_block := map f [0..<k] @ drop k (l_block s)\<rparr>)"
  using assms(1)
proof (induction k)
  case (Suc k)
  have "(map f [0..<k] @ drop k (l_block s))[k := f k] = map f [0..<Suc k] @ drop (Suc k) (l_block s)"
    using Suc(2) assms(2) by (simp add: list_update_append Cons_nth_drop_Suc [symmetric])
  then show ?case using Suc by (simp add: foldR_append)
qed simp

lemma view_no_pins: "bio_inv p (\<lambda>_. 0) {} s \<Longrightarrow> view s = disk s"
  using view_disk by fastforce

lemma read_head_eq:
  fixes s :: "'z klog_scheme"
  assumes "bio_inv p (\<lambda>_. 0) {} s" "l_dev s = 1" "length (l_block s) = 30" "m \<le> 30" "ld_int (disk s (head_blk s)) 0 = int m"
  obtains s' where "read_head s = Inr s'" "bio_inv p (\<lambda>_. 0) {} s'" "disk s' = disk s" "dwrites s' = dwrites s" "l_n s' = int m"
    "\<And>i. i < m \<Longrightarrow> l_block s' ! i = ld_int (disk s (head_blk s)) (4 + 4 * i)" "l_start s' = l_start s" "l_dev s' = 1"
proof -
  let ?d = "disk s (head_blk s)" and ?pins = "\<lambda>_. 0 :: nat"
  have none: "\<forall>i\<in>{}. \<not> holds_block s (head_blk s) i" by simp
  have "(\<exists>i<NBUF. holds_block s (head_blk s) i) \<or> (\<exists>i<NBUF. ?pins i = 0 \<and> i \<notin> {})" by (intro disjI2 exI [of _ 0]) simp
  then obtain i s1 where r: "bread 1 (head_blk s) s = Inr (i, s1)" "bio_inv p ?pins (insert i {}) s1" "holds_block s1 (head_blk s) i"
    "b_data (bufs s1 i) = view s (head_blk s)" "view s1 = view s" "disk s1 = disk s" "dwrites s1 = dwrites s" "bio_frame s s1"
    by (rule bread_eq [OF assms(1) none]) (rule that; assumption)
  note e = frame_log [OF r(8)]
  define u where "u = s1\<lparr>l_n := int m, l_block := map (\<lambda>i. ld_int ?d (4 + 4 * i)) [0..<m] @ drop m (l_block s)\<rparr>"
  have bd: "b_data (bufs s1 i) = ?d" using r(4) view_no_pins [OF assms(1)] by simp
  have u: "bio_inv p ?pins {i} u" using r(2) by (simp add: u_def)
  have "b_dev (bufs u i) = 1 \<and> b_data (bufs u i) = disk u (b_blockno (bufs u i))"
    using r(3,6) bd by (simp add: u_def holds_block_def)
  then obtain s3 where v: "brelse i u = Inr s3" "bio_inv p ?pins ({i} - {i}) s3" "disk s3 = disk u" "dwrites s3 = dwrites u" "bio_frame u s3"
    by - (rule brelse_eq [OF u insertI1]; blast intro: that)
  show thesis
  proof (rule that [of s3])
    show "read_head s = Inr s3"
      using r(1) v(1) assms(2,5) bd read_head_loop [OF assms(4), of "s1\<lparr>l_n := int m\<rparr>"] assms(3)
      by (simp add: read_head_def log_bread_def Let_def u_def e)
  qed (use v assms(2,3) r(6,7) in \<open>simp_all add: frame_log [OF v(5)], simp_all add: u_def e nth_append\<close>)
qed

lemma head_bytes_0 [simp]: "head_bytes d 0 bl = st_int d 0 0"
  by (simp add: head_bytes_def)

text \<open>Recovery copies the blocks the header names back to their places and clears the header.\<close>

lemma recover_eq:
  fixes s :: "'z klog_scheme"
  assumes "bio_inv p (\<lambda>_. 0) {} s" "l_dev s = 1" "length (l_block s) = 30" "m \<le> 29" "ld_int (disk s (head_blk s)) 0 = int m"
    and "\<forall>i<m. word_of_int (ld_int (disk s (head_blk s)) (4 + 4 * i)) \<notin> log_area s"
  obtains s' where "recover_from_log s = Inr s'" "bio_inv p (\<lambda>_. 0) {} s'"
    "disk s' = (put_blocks (map (\<lambda>i. (word_of_int (ld_int (disk s (head_blk s)) (4 + 4 * i)), disk s (log_blk s i))) [0..<m]) (disk s))
       (head_blk s := st_int (disk s (head_blk s)) 0 0)"
proof -
  have m: "m \<le> 30" using assms(4) by simp
  obtain s1 where r: "read_head s = Inr s1" "bio_inv p (\<lambda>_. 0) {} s1" "disk s1 = disk s" "dwrites s1 = dwrites s" "l_n s1 = int m"
    "\<And>i. i < m \<Longrightarrow> l_block s1 ! i = ld_int (disk s (head_blk s)) (4 + 4 * i)" "l_start s1 = l_start s" "l_dev s1 = 1"
    by (rule read_head_eq [OF assms(1-3) m assms(5)]) (rule that; assumption)
  have la: "log_area s1 = log_area s" by (simp add: log_area_def r(7))
  have "\<exists>s'. foldR (install_trans_1 True) [0..<m] s1 = Inr s' \<and> bio_inv p (install_pins True s1 m m) {} s' \<and>
      wrote_blocks (home_copies s1 (view s1) m) s1 s' \<and> pins_kept (install_pins True s1 m m) s1 s'"
    by (rule install_eq) (use assms(4,6) r in \<open>auto simp: install_pins_def la\<close>)
  then obtain s2 where i: "install_trans True s1 = Inr s2" "bio_inv p (\<lambda>_. 0) {} s2" "wrote_blocks (home_copies s1 (view s1) m) s1 s2"
    by (auto simp: install_trans_def r(5) install_pins_def)
  have e: "l_start s2 = l_start s" "l_dev s2 = 1" using i(3) r(7,8) frame_log [of s1 s2] by (auto simp: wrote_blocks_def)
  have hc: "home_copies s1 (view s1) m =
      map (\<lambda>i. (word_of_int (ld_int (disk s (head_blk s)) (4 + 4 * i)), disk s (log_blk s i))) [0..<m]"
    using view_no_pins [OF r(2)] by (simp add: home_copies_def r(3,6,7))
  have "head_blk s \<notin> fst ` set (home_copies s1 (view s1) m)" using assms(6) log_blk_area(2) [of s] by (auto simp: hc)
  then have d2: "disk s2 (head_blk s) = disk s (head_blk s)" using i(3) by (simp add: wrote_blocks_def put_blocks_other r(3))
  obtain s3 where w: "write_head (s2\<lparr>l_n := 0\<rparr>) = Inr s3" "bio_inv p (\<lambda>_. 0) {} s3"
    "wrote_blocks [(head_blk s, st_int (disk s (head_blk s)) 0 0)] (s2\<lparr>l_n := 0\<rparr>) s3"
    by (rule write_head_eq [of p "\<lambda>_. 0" "s2\<lparr>l_n := 0\<rparr>" "st_int (disk s (head_blk s)) 0 0"])
      (use i(2) e d2 view_no_pins [OF i(2)] in \<open>auto intro: that exI [of _ 0]\<close>)
  show thesis
    by (rule that [of s3]) (use r(1) i(1,3) w in \<open>simp_all add: recover_from_log_def wrote_blocks_def hc r(3)\<close>)
qed

section \<open>Committing\<close>

lemma ready_view:
  assumes "log_ready p n s"
  shows "c \<notin> home_blk s ` {0..<n} \<Longrightarrow> view s c = disk s c" "c \<in> log_area s \<Longrightarrow> view s c = disk s c"
proof -
  note d = log_readyD [OF assms]
  show nh: "view s c = disk s c" if c: "c \<notin> home_blk s ` {0..<n}" for c
  proof (rule view_disk [OF d(1)])
    fix j assume "j < NBUF" "holds_block s c j"
    then show "pinned_from s 0 n j = 0 \<and> j \<notin> {}" using c by (auto simp: pinned_from_def holds_block_def)
  qed
  show "view s c = disk s c" if "c \<in> log_area s" using nh d(7) that by force
qed

lemma pinned_from_kept:
  fixes s s' :: "'z klog_scheme"
  assumes "bio_inv p pins H s'" "pins_kept (pinned_from s 0 n) s s'" "bio_frame s s'" "log_ready q n s"
  shows "pinned_from s' k n = pinned_from s k n"
proof -
  have "holds_block s' (home_blk s i) j = holds_block s (home_blk s i) j" if i: "i < n" and j: "j < NBUF" for i j
  proof -
    obtain b where b: "b < NBUF" "holds_block s (home_blk s i) b" using log_readyD(8) [OF assms(4) i] by blast
    then have pb: "pinned_from s 0 n b \<noteq> 0" using i by (auto simp: pinned_from_def)
    then have k: "holds_block s' c b = holds_block s c b" for c using assms(2) b(1) by (simp add: pins_kept_def)
    show ?thesis
    proof (cases "j = b")
      case False
      have "\<not> holds_block s' (home_blk s i) j"
        using bio_invD(9) [OF assms(1) j b(1)] False b(2) k [of "home_blk s i"] by (auto simp: holds_block_def)
      moreover have "\<not> holds_block s (home_blk s i) j"
        using bio_invD(9) [OF log_readyD(1) [OF assms(4)] j b(1)] False b(2) by (auto simp: holds_block_def)
      ultimately show ?thesis by simp
    qed (use k in simp)
  qed
  then show ?thesis by (auto simp: pinned_from_def fun_eq_iff frame_log [OF assms(3)])
qed

text \<open>The writes of \<open>commit\<close> in their order: the copies, the header, the blocks, the cleared header.\<close>

definition commit_head :: "nat \<Rightarrow> 'z klog_scheme \<Rightarrow> byte list" where
  "commit_head n s = head_bytes (disk s (head_blk s)) (int n) (l_block s)"

definition commit_writes :: "nat \<Rightarrow> 'z klog_scheme \<Rightarrow> (u32 \<times> byte list) list" where
  "commit_writes n s = log_copies s n @ [(head_blk s, commit_head n s)] @
     map (\<lambda>i. (home_blk s i, view s (home_blk s i))) [0..<n] @ [(head_blk s, st_int (commit_head n s) 0 0)]"

lemma log_copies_blk:
  assumes "i < n" "n \<le> 29" "c = log_blk s i"
  shows "put_blocks (log_copies s n) m c = view s (home_blk s i)"
proof (rule put_blocks_same)
  show "(c, view s (home_blk s i)) \<in> set (log_copies s n)" using assms(1,3) by (auto simp: log_copies_def)
  show "distinct (map fst (log_copies s n))"
    using assms(2) log_blk_inj [of _ _ s] by (auto simp: log_copies_def distinct_conv_nth)
qed

lemma log_copies_fst: "n \<le> 29 \<Longrightarrow> c \<in> fst ` set (log_copies s n) \<Longrightarrow> c \<in> log_area s \<and> c \<noteq> head_blk s"
  using log_blk_area(1) [of _ s] log_blk_head [of _ s] by (fastforce simp: log_copies_def)

lemma commit_eq:
  fixes s :: "'z klog_scheme"
  assumes "log_ready p n s" "0 < n"
  obtains s' where "commit s = Inr s'" "bio_inv p (\<lambda>_. 0) {} s'" "disk s' = put_blocks (commit_writes n s) (disk s)"
    "dwrites s' = dwrites s @ commit_writes n s" "bio_frame (s\<lparr>l_n := 0\<rparr>) s'"
proof -
  note d = log_readyD [OF assms(1)]
  let ?P = "pinned_from s 0 n" and ?h = "head_blk s" and ?hb = "commit_head n s"
  have un: "\<exists>j<NBUF. ?P j = 0" using some_unpinned [OF d(1,4)] by blast
  obtain s1 where a: "write_log s = Inr s1" "bio_inv p ?P {} s1" "wrote_blocks (log_copies s n) s s1" "pins_kept ?P s s1"
    using write_log_eq [OF assms(1), of n] by (auto simp: write_log_def d(3))
  have f1: "bio_frame s s1" using a(3) by (simp add: wrote_blocks_def)
  note e1 = frame_log [OF f1]
  have "?h \<notin> fst ` set (log_copies s n)" using log_copies_fst [OF d(4)] by blast
  then have h1: "view s1 ?h = disk s ?h" using a(3) ready_view(2) [OF assms(1) log_blk_area(2)] by (simp add: wrote_blocks_def put_blocks_other)
  obtain s2 where b: "write_head s1 = Inr s2" "bio_inv p ?P {} s2" "wrote_blocks [(?h, ?hb)] s1 s2" "pins_kept ?P s1 s2"
    using write_head_eq [OF a(2) _ un, of ?hb] d(2,3) h1 by (auto simp: e1 commit_head_def)
  have w2: "wrote_blocks (log_copies s n @ [(?h, ?hb)]) s s2" by (rule wrote_blocks_trans [OF a(3) b(3)])
  then have f2: "bio_frame s s2" by (simp add: wrote_blocks_def)
  note e2 = frame_log [OF f2]
  have "pins_kept ?P s s2" using a(4) b(4) by (simp add: pins_kept_def)
  then have p2: "pinned_from s2 k n = pinned_from s k n" for k by (rule pinned_from_kept [OF b(2) _ f2 assms(1)])
  have la: "log_area s2 = log_area s" by (simp add: log_area_def e2)
  have "\<exists>s'. foldR (install_trans_1 False) [0..<n] s2 = Inr s' \<and> bio_inv p (install_pins False s2 n n) {} s' \<and>
      wrote_blocks (home_copies s2 (view s2) n) s2 s' \<and> pins_kept (install_pins False s2 n n) s2 s'"
  proof (rule install_eq)
    show "bio_inv p (install_pins False s2 0 n) {} s2" using b(2) by (simp add: install_pins_def p2)
    show "\<exists>b<NBUF. holds_block s2 (home_blk s2 i) b" if i: "i < n" for i
    proof -
      obtain b where "b < NBUF" "holds_block s (home_blk s i) b" using d(8) [OF i] by blast
      moreover from this have "?P b \<noteq> 0" using i by (auto simp: pinned_from_def)
      ultimately show ?thesis using \<open>pins_kept ?P s s2\<close> by (auto simp: pins_kept_def e2)
    qed
  qed (use d in \<open>auto simp: e2 la\<close>)
  moreover have "install_pins False s2 n n = (\<lambda>_. 0)" by (auto simp: install_pins_def pinned_from_def)
  moreover have "home_copies s2 (view s2) n = map (\<lambda>i. (home_blk s i, view s (home_blk s i))) [0..<n]"
    using w2 d(4) log_copies_blk [of _ n _ s] log_blk_head [of _ s] by (simp add: home_copies_def e2 wrote_blocks_def)
  ultimately obtain s3 where c: "install_trans False s2 = Inr s3" "bio_inv p (\<lambda>_. 0) {} s3"
    "wrote_blocks (map (\<lambda>i. (home_blk s i, view s (home_blk s i))) [0..<n]) s2 s3"
    using d(3) by (auto simp: install_trans_def e2)
  have w3: "wrote_blocks (log_copies s n @ [(?h, ?hb)] @ map (\<lambda>i. (home_blk s i, view s (home_blk s i))) [0..<n]) s s3"
    using wrote_blocks_trans [OF w2 c(3)] by simp
  then have "bio_frame s s3" by (simp add: wrote_blocks_def)
  note e3 = frame_log [OF this]
  have "?h \<notin> fst ` set (map (\<lambda>i. (home_blk s i, view s (home_blk s i))) [0..<n])" using d(7) log_blk_area(2) [of s] by auto
  then have h3: "disk s3 ?h = ?hb" using w3 by (simp add: wrote_blocks_def put_blocks_other)
  obtain s4 where g: "write_head (s3\<lparr>l_n := 0\<rparr>) = Inr s4" "bio_inv p (\<lambda>_. 0) {} s4" "wrote_blocks [(?h, st_int ?hb 0 0)] (s3\<lparr>l_n := 0\<rparr>) s4"
    by (rule write_head_eq [of p "\<lambda>_. 0" "s3\<lparr>l_n := 0\<rparr>" "st_int ?hb 0 0"])
      (use c(2) e3 d(2) h3 view_no_pins [OF c(2)] in \<open>auto intro: that exI [of _ 0]\<close>)
  have "bio_frame (s\<lparr>l_n := 0\<rparr>) (s3\<lparr>l_n := 0\<rparr>)" by (rule frame_n [OF \<open>bio_frame s s3\<close>])
  then have "bio_frame (s\<lparr>l_n := 0\<rparr>) s4" using g(3) bio_frame_trans by (auto simp: wrote_blocks_def)
  then show thesis
    by - (rule that [of s4], use a(1) b(1) c(1) g w3 assms(2) d(3) in \<open>simp_all add: commit_def commit_writes_def wrote_blocks_def\<close>)
qed

section \<open>Crashes\<close>

lemma put_homes:
  assumes "log_ready p n s"
  shows "put_blocks (map (\<lambda>i. (home_blk s i, view s (home_blk s i))) [0..<n]) m c = (if c \<in> home_blk s ` {0..<n} then view s c else m c)"
proof (cases "c \<in> home_blk s ` {0..<n}")
  case True
  then have "(c, view s c) \<in> set (map (\<lambda>i. (home_blk s i, view s (home_blk s i))) [0..<n])" by auto
  moreover have "distinct (map fst (map (\<lambda>i. (home_blk s i, view s (home_blk s i))) [0..<n]))"
    using assms by (simp add: log_ready_def comp_def)
  ultimately show ?thesis using True by (simp only: put_blocks_same if_True)
qed (simp, rule put_blocks_other, auto)

text \<open>The three kinds of disk a crash inside \<open>commit\<close> can leave.\<close>

lemma crash_disk:
  fixes s :: "'z klog_scheme"
  assumes "log_ready p n s" "d = put_blocks (take k (commit_writes n s)) (disk s)"
  shows "d (head_blk s) = disk s (head_blk s) \<and> (\<forall>c. c \<notin> log_area s \<longrightarrow> d c = disk s c) \<or>
    d (head_blk s) = commit_head n s \<and> (\<forall>i<n. d (log_blk s i) = view s (home_blk s i)) \<and>
      (\<forall>c. c \<notin> log_area s \<longrightarrow> c \<notin> home_blk s ` {0..<n} \<longrightarrow> d c = disk s c) \<or>
    d (head_blk s) = st_int (commit_head n s) 0 0 \<and> (\<forall>c. c \<notin> log_area s \<longrightarrow> d c = view s c)"
proof -
  note r = log_readyD [OF assms(1)]
  let ?L = "log_copies s n" and ?h = "head_blk s" and ?H = "map (\<lambda>i. (home_blk s i, view s (home_blk s i))) [0..<n]"
  have len: "length ?L = n" "length ?H = n" by (simp_all add: log_copies_def)
  have hL: "?h \<notin> fst ` set (take j ?L)" "c \<notin> log_area s \<Longrightarrow> c \<notin> fst ` set (take j ?L)" for j c
    using log_copies_fst [OF r(4), of _ s] set_take_subset [of j ?L] by blast+
  have hH: "c \<in> log_area s \<Longrightarrow> c \<notin> fst ` set (take j ?H)" for j c
    using r(7) set_take_subset [of j ?H] by fastforce
  have oH: "c \<notin> home_blk s ` {0..<n} \<Longrightarrow> c \<notin> fst ` set (take j ?H)" for j c
    using set_take_subset [of j ?H] by fastforce
  consider "k \<le> n" | "n < k" "k \<le> 2 * n + 1" | "2 * n + 1 < k" by linarith
  then show ?thesis
  proof cases
    case 1
    then have "d = put_blocks (take k ?L) (disk s)" by (simp add: assms(2) commit_writes_def len)
    then show ?thesis using hL(1) [of k] hL(2) [of _ k] by (simp add: put_blocks_other)
  next
    case 2
    then have d: "d = put_blocks (take (k - n - 1) ?H) ((put_blocks ?L (disk s))(?h := commit_head n s))"
      by (simp add: assms(2) commit_writes_def len take_Cons' del: map_map)
    have "d (log_blk s i) = view s (home_blk s i)" if "i < n" for i
      using that r(4) log_blk_area(1) [of i s] log_blk_head [of i s] log_copies_blk [OF that r(4) refl, of s "disk s"]
      unfolding d by (simp add: put_blocks_other hH)
    moreover have "d c = disk s c" if "c \<notin> log_area s" "c \<notin> home_blk s ` {0..<n}" for c
      using that hL(2) [of c n] log_blk_area(2) [of s] unfolding d by (auto simp: put_blocks_other [OF oH] put_blocks_other len)
    moreover have "d ?h = commit_head n s" using put_blocks_other [OF hH [OF log_blk_area(2)]] unfolding d by simp
    ultimately show ?thesis by blast
  next
    case 3
    then have d: "d = (put_blocks ?H ((put_blocks ?L (disk s))(?h := commit_head n s)))(?h := st_int (commit_head n s) 0 0)"
      by (simp add: assms(2) commit_writes_def len)
    have "d c = view s c" if "c \<notin> log_area s" for c
      using that hL(2) [of c n] log_blk_area(2) [of s] ready_view(1) [OF assms(1), of c] unfolding d
      by (auto simp: put_homes [OF assms(1)] put_blocks_other len)
    then show ?thesis by (simp add: d)
  qed
qed

text \<open>Recovery from each of them. \<open>agrees\<close> is what a file system sees of a disk.\<close>

definition agrees :: "'z klog_scheme \<Rightarrow> (u32 \<Rightarrow> byte list) \<Rightarrow> (u32 \<Rightarrow> byte list) \<Rightarrow> bool" where
  "agrees s m m' \<longleftrightarrow> (\<forall>c. c \<notin> log_area s \<longrightarrow> m c = m' c)"

lemma booted_log:
  fixes t :: "'z klog_scheme"
  assumes "bio_inv q pins H t"
  shows "bio_inv q pins H (t\<lparr>held := held t - {Llog}, l_start := a, l_size := b, l_dev := c\<rparr>)"
  using assms unfolding bio_inv_def in_kernel_def by simp

lemma recover_crash:
  fixes s t :: "'z klog_scheme"
  assumes "log_ready p n s" "bio_inv q (\<lambda>_. 0) {} t" "l_dev t = 1" "l_start t = l_start s" "length (l_block t) = 30"
    and "disk t = put_blocks (take k (commit_writes n s)) (disk s)"
  shows "\<exists>t'. recover_from_log t = Inr t' \<and> bio_inv q (\<lambda>_. 0) {} t' \<and> (agrees s (disk t') (disk s) \<or> agrees s (disk t') (view s)) \<and>
    ld_int (disk t' (head_blk s)) 0 = 0"
proof -
  note r = log_readyD [OF assms(1)]
  let ?h = "head_blk s" and ?hb = "commit_head n s"
  have la: "log_area t = log_area s" by (simp add: log_area_def assms(4))
  have hb: "length ?hb = 1024" "ld_int ?hb 0 = int n" "i < n \<Longrightarrow> ld_int ?hb (4 + 4 * i) = l_block s ! i" for i
    using head_bytes_read [of "disk s ?h" n "l_block s"] r by (auto simp: commit_head_def)
  consider (before) "disk t ?h = disk s ?h" "agrees s (disk t) (disk s)"
    | (logged) "disk t ?h = ?hb" "\<And>i. i < n \<Longrightarrow> disk t (log_blk s i) = view s (home_blk s i)"
        "\<And>c. c \<notin> log_area s \<Longrightarrow> c \<notin> home_blk s ` {0..<n} \<Longrightarrow> disk t c = disk s c"
    | (after) "disk t ?h = st_int ?hb 0 0" "agrees s (disk t) (view s)"
    using crash_disk [OF assms(1,6)] by (auto simp: agrees_def)
  then show ?thesis
  proof cases
    case before
    obtain t' where "recover_from_log t = Inr t'" "bio_inv q (\<lambda>_. 0) {} t'" "disk t' = (disk t)(?h := st_int (disk t ?h) 0 0)"
      by (rule recover_eq [OF assms(2,3,5), of 0]) (use before(1) r(12) assms(4) in \<open>auto intro: that\<close>)
    then show ?thesis using before r(11) log_blk_area(2) [of s] by (auto simp: agrees_def)
  next
    case after
    obtain t' where "recover_from_log t = Inr t'" "bio_inv q (\<lambda>_. 0) {} t'" "disk t' = (disk t)(?h := st_int (disk t ?h) 0 0)"
      by (rule recover_eq [OF assms(2,3,5), of 0]) (use after(1) hb(1) assms(4) in \<open>auto intro: that\<close>)
    then show ?thesis using after hb(1) log_blk_area(2) [of s] by (auto simp: agrees_def)
  next
    case logged
    let ?H = "map (\<lambda>i. (home_blk s i, view s (home_blk s i))) [0..<n]"
    have m: "map (\<lambda>i. (word_of_int (ld_int (disk t ?h) (4 + 4 * i)), disk t (log_blk s i))) [0..<n] = ?H"
      using hb(3) logged(1,2) by simp
    have pre: "ld_int (disk t (head_blk t)) 0 = int n" "\<forall>i<n. word_of_int (ld_int (disk t (head_blk t)) (4 + 4 * i)) \<notin> log_area t"
      using logged(1) hb r(7) by (simp_all add: la assms(4))
    obtain t' where t: "recover_from_log t = Inr t'" "bio_inv q (\<lambda>_. 0) {} t'"
      "disk t' = (put_blocks ?H (disk t))(?h := st_int (disk t ?h) 0 0)"
      by (rule recover_eq [OF assms(2,3,5) r(4) pre, unfolded assms(4) m]) (rule that)
    have "disk t' c = view s c" if "c \<notin> log_area s" for c
      using that logged(3) [OF that] ready_view(1) [OF assms(1), of c] log_blk_area(2) [of s] t(3) by (auto simp: put_homes [OF assms(1)])
    then show ?thesis using t hb(1) logged(1) by (auto simp: agrees_def)
  qed
qed

lemma initlog_crash:
  fixes s t :: "'z klog_scheme"
  assumes "log_ready p n s" "bio_inv q (\<lambda>_. 0) {} t" "length (l_block t) = 30" "sint st = l_start s"
    and "disk t = put_blocks (take k (commit_writes n s)) (disk s)"
  shows "\<exists>t'. initlog 1 st nl t = Inr t' \<and> (agrees s (disk t') (disk s) \<or> agrees s (disk t') (view s)) \<and>
    view t' = disk t' \<and> ld_int (disk t' (head_blk s)) 0 = 0"
  using recover_crash [OF assms(1) booted_log [OF assms(2), of 1 "sint nl" "sint st"], of k] assms(3-5) view_no_pins [of q]
  by (auto simp: initlog_def)

lemma commit_agrees:
  assumes "log_ready p n s"
  shows "agrees s (put_blocks (commit_writes n s) (disk s)) (view s)"
proof -
  have "put_blocks (commit_writes n s) (disk s) b = view s b" if "b \<notin> log_area s" for b
    using that put_homes [OF assms] ready_view(1) [OF assms, of b] log_copies_fst [OF log_readyD(4) [OF assms], of b s]
      log_blk_area(2) [of s] put_blocks_other [of b "log_copies s n" "disk s"] by (auto simp: commit_writes_def)
  then show ?thesis by (simp add: agrees_def)
qed

text \<open>
  C2: A commit is atomic. For a transaction of \<open>n > 0\<close> logged blocks, \<open>commit\<close> returns; afterwards the disk
  holds, for every block outside the log, what the cache showed before, and no buffer is pinned. If
  the machine stops after any number \<open>k\<close> of the block writes of \<open>commit\<close>, and is started again with whatever
  the disk then holds and any cache that is consistent with it, \<open>initlog\<close> returns and outside the log
  the disk holds either exactly what it held before the commit or exactly the contents of the
  transaction, and the log on disk is empty.
\<close>

theorem commit_crash_safe:
  fixes s :: "'z klog_scheme"
  assumes "log_ready p n s" "0 < n"
  shows "\<exists>s' ws. commit s = Inr s' \<and> dwrites s' = dwrites s @ ws \<and> agrees s (disk s') (view s) \<and> bio_inv p (\<lambda>_. 0) {} s' \<and>
    (\<forall>k q st nl (t :: 'z klog_scheme). bio_inv q (\<lambda>_. 0) {} t \<longrightarrow> length (l_block t) = 30 \<longrightarrow> sint st = l_start s \<longrightarrow>
       disk t = put_blocks (take k ws) (disk s) \<longrightarrow>
       (\<exists>t'. initlog 1 st nl t = Inr t' \<and> (agrees s (disk t') (disk s) \<or> agrees s (disk t') (view s)) \<and>
          view t' = disk t' \<and> ld_int (disk t' (head_blk s)) 0 = 0))"
proof -
  let ?ws = "commit_writes n s"
  obtain s' where c: "commit s = Inr s'" "bio_inv p (\<lambda>_. 0) {} s'" "disk s' = put_blocks ?ws (disk s)" "dwrites s' = dwrites s @ ?ws"
    by (rule commit_eq [OF assms]) (rule that; assumption)
  show ?thesis
    by (rule exI [of _ s'], rule exI [of _ ?ws]) (use c commit_agrees [OF assms(1)] initlog_crash [OF assms(1)] in simp)
qed

text \<open>One block of sevens, in a pinned buffer, for block 100.\<close>

definition log_demo :: kfile where
  "log_demo = file_demo\<lparr>bufs := (\<lambda>i. if i = 0 then \<lparr>b_valid = True, b_disk = False, b_dev = 1, b_blockno = 100, b_refcnt = 1,
     b_data = replicate 1024 7\<rparr> else buf_zero), l_n := 1, l_block := 100 # replicate 29 0\<rparr>"

lemma beyond_log:
  assumes "l_start s = 2" "31 < unat c"
  shows "c \<notin> log_area s"
proof
  assume "c \<in> log_area s"
  then obtain j where "j \<le> 29" "c = of_nat (2 + j)" using assms(1) by (auto simp: log_area_def)
  then show False using unat_of_nat_u32 [of "2 + j"] assms(2) by simp
qed

lemma file_demo_bio: "bio_inv 0 (\<lambda>_. 0) {} file_demo"
  by (rule bio_invI) (auto simp: buf_zero_def in_kernel_def)

lemma le_word_zeros: "le_word (replicate n 0) = 0"
  by (induction n) simp_all

lemma log_demo_ready: "log_ready 0 1 log_demo"
proof -
  have pf: "pinned_from log_demo 0 1 = (\<lambda>j. if j = 0 then 1 else 0)"
    by (auto simp: fun_eq_iff pinned_from_def log_demo_def holds_block_def buf_zero_def)
  have k: "in_kernel 0 log_demo" unfolding in_kernel_def by (simp add: log_demo_def)
  have "bio_inv 0 (pinned_from log_demo 0 1) {} log_demo"
    unfolding pf by (rule bio_invI [OF k]) (auto simp: log_demo_def buf_zero_def split: if_splits)
  moreover have "(100 :: u32) \<notin> log_area log_demo" by (rule beyond_log) (simp_all add: log_demo_def)
  ultimately show ?thesis
    by (auto simp: log_ready_def log_demo_def holds_block_def ld_int_def ldl_def le_word_zeros intro!: exI [of _ 0])
qed

theorem commit_crash_safe_witness:
  "log_ready 0 1 log_demo \<and> (\<exists>s t. commit log_demo = Inr s \<and> disk s 100 = replicate 1024 7 \<and> initlog 1 2 30 file_demo = Inr t)"
proof -
  obtain s ws where c: "commit log_demo = Inr s" "agrees log_demo (disk s) (view log_demo)"
    and boot: "\<And>k q st nl (t :: kfile). bio_inv q (\<lambda>_. 0) {} t \<Longrightarrow> length (l_block t) = 30 \<Longrightarrow> sint st = l_start log_demo \<Longrightarrow>
      disk t = put_blocks (take k ws) (disk log_demo) \<Longrightarrow> \<exists>t'. initlog 1 st nl t = Inr t'"
    using commit_crash_safe [OF log_demo_ready] by (simp only: zero_less_one) metis
  have "(100 :: u32) \<notin> log_area log_demo" using log_readyD(7) [OF log_demo_ready, of 0] by (simp add: log_demo_def)
  then have "disk s 100 = replicate 1024 7"
    using c(2) view_cached [OF log_readyD(1) [OF log_demo_ready], of 0 100] by (simp add: agrees_def log_demo_def holds_block_def)
  moreover from file_demo_bio have "\<exists>t. initlog 1 2 30 file_demo = Inr t" by (rule boot [where k = 0]) (simp_all add: log_demo_def)
  ultimately show ?thesis using c(1) log_demo_ready by blast
qed

end
