(* ===== verification/LogWrite.thy ===== *)
theory LogWrite
  imports LogProps
begin

text \<open>
  Writing through the log: between \<open>begin_op\<close> and \<open>end_op\<close> a block is read, changed and given to
  \<open>log_write\<close>. It keeps the transaction ready to commit and writes nothing to the disk.
\<close>

section \<open>What an operation of the log may change\<close>

definition log_frame :: "'z klog_scheme \<Rightarrow> 'z klog_scheme \<Rightarrow> bool" where
  "log_frame s s' \<longleftrightarrow> (\<exists>bu sl lr pr dk dw n bl.
     s' = s\<lparr>bufs := bu, slocks := sl, lru := lr, procs := pr, disk := dk, dwrites := dw, l_n := n, l_block := bl\<rparr>)"

lemma log_frameI: "s' = s\<lparr>bufs := bu, slocks := sl, lru := lr, procs := pr, disk := dk, dwrites := dw, l_n := n, l_block := bl\<rparr> \<Longrightarrow> log_frame s s'"
  unfolding log_frame_def by blast

lemma log_frame_trans: "log_frame s s' \<Longrightarrow> log_frame s' s'' \<Longrightarrow> log_frame s s''"
  unfolding log_frame_def by (elim exE) (intro exI, simp)

lemma bio_log_frame:
  fixes s s' :: "'z klog_scheme"
  assumes "bio_frame s s'"
  shows "log_frame s s'"
proof -
  obtain bu sl lr pr dk dw where "s' = s\<lparr>bufs := bu, slocks := sl, lru := lr, procs := pr, disk := dk, dwrites := dw\<rparr>"
    using assms unfolding bio_frame_def by blast
  then show ?thesis by (intro log_frameI [where bu = bu and sl = sl and lr = lr and pr = pr and dk = dk and dw = dw and n = "l_n s" and bl = "l_block s"]) simp
qed

lemma log_frame_simps:
  fixes s s' :: "'z klog_scheme"
  assumes "log_frame s s'"
  shows "l_start s' = l_start s" "l_dev s' = l_dev s" "l_size s' = l_size s" "l_outstanding s' = l_outstanding s"
    "l_committing s' = l_committing s" "log_area s' = log_area s"
  using assms by (auto simp: log_frame_def log_area_def)

section \<open>One block\<close>

lemma sint_u32_range: "- (2 ^ 31) \<le> sint (w :: u32)" "sint (w :: u32) < 2 ^ 31"
  using sint_greater_eq [of w] sint_less [of w] by simp_all

lemma log_index_eq:
  fixes s :: "'z klog_scheme"
  assumes "l_n s = int n"
  obtains (absorbed) i where "i < n" "home_blk s i = c" "log_index c s = i"
    | (fresh) "c \<notin> home_blk s ` {0..<n}" "log_index c s = n"
proof (cases "find (\<lambda>i. home_blk s i = c) [0..<n]")
  case None
  then have "c \<notin> home_blk s ` {0..<n}" by (auto simp: find_None_iff)
  then show thesis by (rule fresh) (use None assms in \<open>simp add: log_index_def\<close>)
next
  case (Some i)
  then have "i < n" "home_blk s i = c" by (auto simp: find_Some_iff)
  then show thesis by (rule absorbed) (use Some assms in \<open>simp add: log_index_def\<close>)
qed

text \<open>The state of a transaction once a locked buffer with block \<open>c\<close> has been entered in the log.\<close>

lemma pinned_from_enter:
  fixes s :: "'z klog_scheme"
  assumes "bio_inv p pins H s" "length bl = 30" "n \<le> 29" "b < NBUF" "holds_block s c b"
    and "\<And>i. i < n \<Longrightarrow> word_of_int (bl ! i) = home_blk s i" "word_of_int (bl ! n) = c"
  shows "pinned_from (s\<lparr>l_block := bl\<rparr>) 0 (Suc n) = (pinned_from s 0 n)(b := 1)"
proof
  fix j
  have u: "j < NBUF \<Longrightarrow> holds_block s c j \<longleftrightarrow> j = b"
    using bio_invD(9) [OF assms(1) _ assms(4), of j] assms(5) by (auto simp: holds_block_def)
  show "pinned_from (s\<lparr>l_block := bl\<rparr>) 0 (Suc n) j = ((pinned_from s 0 n)(b := 1)) j"
    using u assms(4,5,6,7) by (auto simp: pinned_from_def less_Suc_eq)
qed

lemma pinned_from_same:
  fixes s :: "'z klog_scheme"
  assumes "\<And>i. i < n \<Longrightarrow> word_of_int (bl ! i) = home_blk s i"
  shows "pinned_from (s\<lparr>l_block := bl\<rparr>) k n = pinned_from s k n"
  using assms by (auto simp: pinned_from_def fun_eq_iff)

lemma log_write_run:
  fixes t :: "'z klog_scheme"
  assumes "held t = {}" "l_n t = int n" "n < 29" "l_size t = 30" "1 \<le> l_outstanding t" "i = log_index (b_blockno (bufs t b)) t"
    and "bl = (l_block t)[i := sint (b_blockno (bufs t b))]"
  shows "log_write b t = Inr (if i = n
    then (updb b (\<lambda>x. x\<lparr>b_refcnt := b_refcnt x + 1\<rparr>) (t\<lparr>l_block := bl\<rparr>))\<lparr>l_n := int (Suc n)\<rparr> else t\<lparr>l_block := bl\<rparr>)"
proof -
  have "log_index (b_blockno (bufs t b)) (t\<lparr>held := {Llog}\<rparr>) = i" using assms(6) by (simp add: log_index_def cong: option.case_cong)
  moreover have "t\<lparr>held := {}\<rparr> = t" using assms(1) by simp
  ultimately show ?thesis using assms(1-5,7)
    by (simp add: log_write_def acq_def rel_def bpin_def Let_def updb_def)
qed

text \<open>The pins of the transaction with the block entered, and that it is still ready once released.\<close>

definition entered :: "'z klog_scheme \<Rightarrow> nat \<Rightarrow> u32 \<Rightarrow> nat \<Rightarrow> 'z klog_scheme \<Rightarrow> bool" where
  "entered s n c n' u \<longleftrightarrow> l_n u = int n' \<and> length (l_block u) = 30 \<and> home_blk u ` {0..<n'} = insert c (home_blk s ` {0..<n}) \<and>
     distinct (map (\<lambda>i. home_blk u i) [0..<n']) \<and> (\<forall>i<n'. - (2 ^ 31) \<le> l_block u ! i \<and> l_block u ! i < 2 ^ 31) \<and>
     l_start u = l_start s \<and> l_dev u = 1 \<and> l_size u = l_size s \<and> l_outstanding u = l_outstanding s \<and> l_committing u = l_committing s"

lemma enter_absorbed:
  fixes s :: "'z klog_scheme"
  assumes "log_ready p n s" "i < n" "home_blk s i = c" "bl = (l_block s)[i := sint c]"
  shows "j < n \<Longrightarrow> word_of_int (bl ! j) = home_blk s j"
    "l_block u = bl \<Longrightarrow> l_n u = int n \<Longrightarrow> l_start u = l_start s \<Longrightarrow> l_dev u = l_dev s \<Longrightarrow> l_size u = l_size s \<Longrightarrow>
     l_outstanding u = l_outstanding s \<Longrightarrow> l_committing u = l_committing s \<Longrightarrow> entered s n c n (u :: 'z klog_scheme)"
proof -
  note r = log_readyD [OF assms(1)]
  show w: "word_of_int (bl ! j) = home_blk s j" if "j < n" for j
    using that assms(2-4) r(4,5) by (cases "j = i") simp_all
  assume u: "l_block u = bl" "l_n u = int n" "l_start u = l_start s" "l_dev u = l_dev s" "l_size u = l_size s" "l_outstanding u = l_outstanding s"
    "l_committing u = l_committing s"
  have "- (2 ^ 31) \<le> bl ! j \<and> bl ! j < 2 ^ 31" if "j < n" for j
    using that assms(2,4) r(4,5,9,10) sint_u32_range [of c] by (cases "j = i") simp_all
  then show "entered s n c n u"
    using u w assms(1-4) r(2,4,5) by (auto simp: entered_def log_ready_def distinct_conv_nth)
qed

lemma enter_fresh:
  fixes s :: "'z klog_scheme"
  assumes "log_ready p n s" "n < 29" "c \<notin> home_blk s ` {0..<n}" "bl = (l_block s)[n := sint c]"
  shows "j < n \<Longrightarrow> word_of_int (bl ! j) = home_blk s j" "word_of_int (bl ! n) = c"
    "l_block u = bl \<Longrightarrow> l_n u = int (Suc n) \<Longrightarrow> l_start u = l_start s \<Longrightarrow> l_dev u = l_dev s \<Longrightarrow> l_size u = l_size s \<Longrightarrow>
     l_outstanding u = l_outstanding s \<Longrightarrow> l_committing u = l_committing s \<Longrightarrow> entered s n c (Suc n) (u :: 'z klog_scheme)"
proof -
  note r = log_readyD [OF assms(1)]
  show w: "word_of_int (bl ! j) = home_blk s j" if "j < n" for j using that assms(4) by simp
  show wn: "word_of_int (bl ! n) = c" using assms(2,4) r(5) by simp
  assume u: "l_block u = bl" "l_n u = int (Suc n)" "l_start u = l_start s" "l_dev u = l_dev s" "l_size u = l_size s" "l_outstanding u = l_outstanding s"
    "l_committing u = l_committing s"
  have "- (2 ^ 31) \<le> bl ! j \<and> bl ! j < 2 ^ 31" if "j < Suc n" for j
    using that assms(2,4) r(5,9,10) sint_u32_range [of c] by (cases "j = n") simp_all
  moreover have m: "map (\<lambda>i. home_blk u i) [0..<n] = map (\<lambda>i. home_blk s i) [0..<n]" using w u(1) by simp
  have "distinct (map (\<lambda>i. home_blk u i) [0..<n])" unfolding m using assms(1) by (simp add: log_ready_def)
  moreover have "c \<notin> set (map (\<lambda>i. home_blk u i) [0..<n])" unfolding m using assms(3) by simp
  ultimately have "distinct (map (\<lambda>i. home_blk u i) [0..<Suc n])" and "\<forall>j<Suc n. - (2 ^ 31) \<le> l_block u ! j \<and> l_block u ! j < 2 ^ 31"
    using wn u(1) by auto
  moreover have "home_blk u ` {0..<n} = home_blk s ` {0..<n}" using w u(1) by (intro image_cong) simp_all
  then have "home_blk u ` {0..<Suc n} = insert c (home_blk s ` {0..<n})" using wn u(1) by (simp add: atLeast0_lessThan_Suc)
  moreover have "length (l_block u) = 30" using u(1) assms(4) r(5) by simp
  ultimately show "entered s n c (Suc n) u" using u(2-7) r(2) by (simp only: entered_def)
qed

lemma log_write_enters:
  fixes s t :: "'z klog_scheme"
  assumes "log_ready p n s" "n < 29" "bio_inv p (pinned_from s 0 n) {b} t" "holds_block t c b" "bio_frame s t"
    and "pins_kept (pinned_from s 0 n) s t" "l_size s = 30" "1 \<le> l_outstanding s" "n' = (if c \<in> home_blk s ` {0..<n} then n else Suc n)"
  obtains u where "log_write b t = Inr u" "entered s n c n' u" "bio_inv p (pinned_from u 0 n') {b} u" "pinned_from u 0 n' b \<noteq> 0"
    "view u = view t" "disk u = disk t" "dwrites u = dwrites t" "\<And>e j. holds_block u e j = holds_block t e j" "log_frame t u"
proof -
  note r = log_readyD [OF assms(1)] and e = frame_log [OF assms(5)]
  have b: "b < NBUF" "b_blockno (bufs t b) = c" "held t = {}"
    using bio_invD(1,11) [OF assms(3)] assms(4) by (auto simp: holds_block_def)
  have pt: "pinned_from t 0 n = pinned_from s 0 n" by (rule pinned_from_kept [OF assms(3,6,5,1)])
  have u: "j < NBUF \<Longrightarrow> holds_block t c j \<longleftrightarrow> j = b" for j
    using bio_invD(9) [OF assms(3) _ b(1), of j] assms(4) by (auto simp: holds_block_def)
  let ?i = "log_index c t" and ?bl = "(l_block s)[log_index c t := sint c]"
  note run = log_write_run [OF b(3), of n ?i b ?bl, unfolded b(2) e, OF r(3) assms(2,7,8) refl refl]
  from r(3) have "l_n t = int n" by (simp add: e)
  then show thesis
  proof (cases rule: log_index_eq [where c = c])
    case (absorbed i)
    then have c: "i < n" "home_blk s i = c" "?i = i" by (simp_all add: e)
    let ?u = "t\<lparr>l_block := ?bl\<rparr>"
    note w = enter_absorbed [OF assms(1) c(1,2), of ?bl, unfolded c(3), OF refl]
    have pu: "pinned_from ?u 0 n = pinned_from s 0 n" unfolding pt [symmetric] c(3) by (rule pinned_from_same) (simp add: w(1) e)
    have n: "n' = n" using c assms(9) by auto
    show thesis
    proof (rule that [of ?u])
      show "log_write b t = Inr ?u" using run c by simp
      show "entered s n c n' ?u" unfolding n c(3) by (rule w(2)) (simp_all add: e r(2,3))
      show "bio_inv p (pinned_from ?u 0 n') {b} ?u" using assms(3) by (simp add: n pu)
      show "pinned_from ?u 0 n' b \<noteq> 0" unfolding n pu pt [symmetric] using c assms(4) b(1) by (auto simp: pinned_from_def e)
      show "log_frame t ?u"
        by (rule log_frameI [where bu = "bufs t" and sl = "slocks t" and lr = "lru t" and pr = "procs t" and dk = "disk t"
            and dw = "dwrites t" and n = "l_n t" and bl = ?bl]) simp
    qed simp_all
  next
    case fresh
    then have c: "c \<notin> home_blk s ` {0..<n}" "?i = n" by (simp_all add: e)
    let ?v = "t\<lparr>l_block := ?bl\<rparr>"
    let ?u = "(updb b (\<lambda>x. x\<lparr>b_refcnt := b_refcnt x + 1\<rparr>) ?v)\<lparr>l_n := int (Suc n)\<rparr>"
    note w = enter_fresh [OF assms(1,2) c(1), of ?bl, unfolded c(2), OF refl]
    note f = updb_refcnt [where i = b and g = "\<lambda>x. b_refcnt x + 1" and s = ?v]
    have z: "pinned_from s 0 n b = 0" using c(1) assms(4) by (auto simp: pt [symmetric] pinned_from_def holds_block_def e)
    have n: "n' = Suc n" using c assms(9) by simp
    have "pinned_from ?v 0 (Suc n) = (pinned_from t 0 n)(b := 1)"
      by (rule pinned_from_enter [OF assms(3) _ _ b(1) assms(4)]) (use r(5) assms(2) w(1,2) in \<open>simp_all add: c(2) e\<close>)
    moreover have "pinned_from ?u 0 (Suc n) = pinned_from ?v 0 (Suc n)"
      by (simp add: pinned_from_def fun_eq_iff f(3) updb_def) (simp add: holds_block_def)
    ultimately have pu: "pinned_from ?u 0 n' = (pinned_from s 0 n)(b := 1)" by (simp add: n pt)
    have iv: "bio_inv p (pinned_from s 0 n) {b} ?v" using assms(3) by simp
    show thesis
    proof (rule that [of ?u])
      show "log_write b t = Inr ?u" using run c by simp
      show "entered s n c n' ?u" unfolding n by (rule w(3)) (simp_all add: e r(2,3) c(2) updb_def)
      show "bio_inv p (pinned_from ?u 0 n') {b} ?u" unfolding pu using bpin_eq(2) [OF iv, of b] z by simp
      show "pinned_from ?u 0 n' b \<noteq> 0" unfolding pu by simp
      show "view ?u = view t" using f(1) by simp
      show "disk ?u = disk t" "dwrites ?u = dwrites t" using f(5,6) by simp_all
      show "holds_block ?u e j = holds_block t e j" for e j using f(3) by simp
      show "log_frame t ?u"
        by (rule log_frameI [where bu = "bufs ?u" and sl = "slocks t" and lr = "lru t" and pr = "procs t" and dk = "disk t"
            and dw = "dwrites t" and n = "l_n ?u" and bl = ?bl]) (simp add: updb_def)
    qed
  qed
qed

text \<open>
  In a transaction of \<open>n < 29\<close> blocks that is ready to commit, \<open>bread\<close> of a block \<open>c\<close> outside the log returns
  a buffer with its current contents; after any change \<open>d\<close> of that buffer, \<open>log_write\<close> and \<open>brelse\<close> return
  and the transaction is again ready to commit. It has one block more exactly when \<open>c\<close> was not yet in
  it, readers see \<open>d\<close> in block \<open>c\<close>, and nothing has been written to the disk.
\<close>

lemma log_write_homes:
  fixes s :: "'z klog_scheme"
  assumes "log_ready p n s" "n < 29" "l_size s = 30" "1 \<le> l_outstanding s" "c \<notin> log_area s"
  shows "\<exists>b s1 s'. bread 1 c s = Inr (b, s1) \<and> b_data (bufs s1 b) = view s c \<and> log_frame s s1 \<and>
    bindR (log_write b (set_data b d s1)) (brelse b) = Inr s' \<and>
    log_ready p (if c \<in> home_blk s ` {0..<n} then n else Suc n) s' \<and>
    view s' = (view s)(c := d) \<and> disk s' = disk s \<and> dwrites s' = dwrites s \<and>
    log_frame s s' \<and> home_blk s' ` {0..<(if c \<in> home_blk s ` {0..<n} then n else Suc n)} = insert c (home_blk s ` {0..<n})"
proof -
  note r = log_readyD [OF assms(1)]
  let ?P = "pinned_from s 0 n" and ?n = "if c \<in> home_blk s ` {0..<n} then n else Suc n"
  have none: "\<forall>i\<in>{}. \<not> holds_block s c i" by simp
  have "(\<exists>i<NBUF. holds_block s c i) \<or> (\<exists>i<NBUF. ?P i = 0 \<and> i \<notin> {})" using some_unpinned [OF r(1,4)] by simp
  then obtain b s1 where a: "bread 1 c s = Inr (b, s1)" "bio_inv p ?P (insert b {}) s1" "holds_block s1 c b"
    "b_data (bufs s1 b) = view s c" "view s1 = view s" "disk s1 = disk s" "dwrites s1 = dwrites s" "bio_frame s s1"
    "\<And>c j. j < NBUF \<Longrightarrow> j \<in> {} \<or> ?P j \<noteq> 0 \<Longrightarrow> holds_block s1 c j = holds_block s c j"
    by (rule bread_eq [OF r(1) none]) (rule that; assumption)
  note t = set_data_inv [OF a(2) insertI1 a(3), of d]
  let ?t = "set_data b d s1"
  have ft: "bio_frame s ?t" using a(8) t(3) by (rule bio_frame_trans)
  have "holds_block ?t c b" "pins_kept ?P s ?t" using a(3,9) by (simp_all add: t(4) pins_kept_def)
  then obtain u where u: "log_write b ?t = Inr u" "entered s n c ?n u" "bio_inv p (pinned_from u 0 ?n) {b} u" "pinned_from u 0 ?n b \<noteq> 0"
    "view u = view ?t" "disk u = disk ?t" "dwrites u = dwrites ?t" "\<And>e j. holds_block u e j = holds_block ?t e j" "log_frame ?t u"
    by - (rule log_write_enters [OF assms(1,2) t(1) _ ft _ assms(3,4) refl]; blast intro: that)
  then obtain s' where v: "brelse b u = Inr s'" "bio_inv p (pinned_from u 0 ?n) ({b} - {b}) s'" "view s' = view u" "disk s' = disk u"
    "dwrites s' = dwrites u" "bio_frame u s'" "\<And>e j. holds_block s' e j = holds_block u e j"
    by - (rule brelse_eq [OF u(3) insertI1]; blast intro: that)
  note e = frame_log [OF v(6)]
  have la: "log_area s' = log_area s" using u(2) by (simp add: log_area_def e entered_def)
  have "pinned_from s' 0 ?n = pinned_from u 0 ?n" by (simp add: pinned_from_def fun_eq_iff v(7) e)
  moreover have "disk s' = disk s" using v(4) u(6) t(5) a(6) by simp
  moreover have "\<exists>b<NBUF. holds_block s' (home_blk s' i) b" if i: "i < ?n" for i
  proof -
    have "home_blk s' i \<in> home_blk u ` {0..<?n}" using i by (simp add: e)
    then consider "home_blk s' i = c" | j where "j < n" "home_blk s' i = home_blk s j" using u(2) by (auto simp: entered_def)
    then show ?thesis
    proof cases
      case 1
      then show ?thesis using a(3) bio_invD(11) [OF a(2)] by (auto simp: v(7) u(8) t(4))
    next
      case (2 j)
      then obtain x where "x < NBUF" "holds_block s (home_blk s j) x" using r(8) by blast
      moreover from this have "?P x \<noteq> 0" using 2 by (auto simp: pinned_from_def)
      ultimately show ?thesis using a(9) [of x] 2 by (auto simp: v(7) u(8) t(4))
    qed
  qed
  moreover have "home_blk s' i \<notin> log_area s'" if "i < ?n" for i
  proof -
    have "home_blk s' i \<in> home_blk u ` {0..<?n}" using that by (simp add: e)
    then show ?thesis using u(2) assms(5) r(7) unfolding la entered_def by auto
  qed
  ultimately have "log_ready p ?n s'"
    using u(2) v(2) r(11,12) assms(2) unfolding log_ready_def entered_def e by (auto split: if_splits)
  moreover have "log_frame s s'"
    using log_frame_trans [OF log_frame_trans [OF bio_log_frame [OF ft] u(9)] bio_log_frame [OF v(6)]] .
  moreover have "home_blk s' ` {0..<?n} = insert c (home_blk s ` {0..<n})" using u(2) by (simp add: e entered_def)
  ultimately show ?thesis using a(1,4) bio_log_frame [OF a(8)] u(1,5-7) v(1,3,5) t(2,5,6) a(5-7) \<open>disk s' = disk s\<close>
    by (intro exI [of _ b] exI [of _ s1] exI [of _ s']) simp
qed

lemma log_write_ready:
  fixes s :: "'z klog_scheme"
  assumes "log_ready p n s" "n < 29" "l_size s = 30" "1 \<le> l_outstanding s" "c \<notin> log_area s"
  shows "\<exists>b s1 s'. bread 1 c s = Inr (b, s1) \<and> b_data (bufs s1 b) = view s c \<and> log_frame s s1 \<and>
    bindR (log_write b (set_data b d s1)) (brelse b) = Inr s' \<and>
    log_ready p (if c \<in> home_blk s ` {0..<n} then n else Suc n) s' \<and>
    view s' = (view s)(c := d) \<and> disk s' = disk s \<and> dwrites s' = dwrites s \<and>
    log_frame s s'"
  using log_write_homes [OF assms, of d] by blast

section \<open>A whole transaction\<close>

definition write_block :: "u32 \<times> byte list \<Rightarrow> 'z klog_scheme \<Rightarrow> 'z klog_scheme res" where
  "write_block = (\<lambda>(c, d) s. bindR (bread 1 c s) (\<lambda>(b, s). bindR (log_write b (set_data b d s)) (brelse b)))"

definition transaction :: "(u32 \<times> byte list) list \<Rightarrow> 'z klog_scheme \<Rightarrow> 'z klog_scheme res" where
  "transaction ws s = bindR (begin_op s) (\<lambda>s. bindR (foldR write_block ws s) end_op)"

definition log_idle :: "nat \<Rightarrow> 'z klog_scheme \<Rightarrow> bool" where
  "log_idle p s \<longleftrightarrow> log_ready p 0 s \<and> l_size s = 30 \<and> l_outstanding s = 0 \<and> l_committing s = 0"

lemma write_blocks:
  fixes s :: "'z klog_scheme"
  assumes "log_ready p n s" "n + length ws \<le> 29" "l_size s = 30" "1 \<le> l_outstanding s" "fst ` set ws \<inter> log_area s = {}"
  shows "\<exists>s' n'. foldR write_block ws s = Inr s' \<and> log_ready p n' s' \<and> view s' = put_blocks ws (view s) \<and> disk s' = disk s \<and>
    dwrites s' = dwrites s \<and> l_size s' = 30 \<and> l_outstanding s' = l_outstanding s \<and> l_committing s' = l_committing s \<and> log_area s' = log_area s \<and>
    l_start s' = l_start s"
  using assms
proof (induction ws arbitrary: s n)
  case (Cons w ws)
  obtain c d where w: "w = (c, d)" by (cases w)
  let ?n = "if c \<in> home_blk s ` {0..<n} then n else Suc n"
  have pre: "n < 29" "c \<notin> log_area s" using Cons(3,6) by (auto simp: w)
  obtain b s1 u where u: "bread 1 c s = Inr (b, s1)" "bindR (log_write b (set_data b d s1)) (brelse b) = Inr u" "log_ready p ?n u"
    "view u = (view s)(c := d)" "disk u = disk s" "dwrites u = dwrites s" "log_frame s u"
    using log_write_ready [OF Cons(2) pre(1) Cons(4,5) pre(2), of d] by blast
  note f = log_frame_simps [OF u(7)]
  then have "?n + length ws \<le> 29" "l_size u = 30" "1 \<le> l_outstanding u" "fst ` set ws \<inter> log_area u = {}" using Cons(3-6) f by auto
  from Cons(1) [OF u(3) this] obtain s' n' where "foldR write_block ws u = Inr s'" "log_ready p n' s'" "view s' = put_blocks ws (view u)"
    "disk s' = disk u" "dwrites s' = dwrites u" "l_size s' = 30" "l_outstanding s' = l_outstanding u" "l_committing s' = l_committing u"
    "log_area s' = log_area u" "l_start s' = l_start u" by blast
  moreover have "write_block w s = Inr u" using u(1,2) by (simp add: write_block_def w)
  ultimately show ?case
    by (intro exI [of _ s'] exI [of _ n']) (simp only: foldR.simps bindR_simps put_blocks_simps w u(4-6) f simp_thms)
next
  case Nil
  then show ?case by (intro exI [of _ s] exI [of _ n]) simp
qed

lemma log_counters [simp]:
  fixes s :: "'z klog_scheme"
  shows "bio_inv p pins H (s\<lparr>l_outstanding := a, l_committing := c\<rparr>) = bio_inv p pins H s" "view (s\<lparr>l_outstanding := a, l_committing := c\<rparr>) = view s"
    "pinned_from (s\<lparr>l_outstanding := a, l_committing := c\<rparr>) k n = pinned_from s k n"
    "log_area (s\<lparr>l_outstanding := a, l_committing := c\<rparr>) = log_area s"
    "holds_block (s\<lparr>l_outstanding := a, l_committing := c\<rparr>) e b = holds_block s e b"
  unfolding bio_inv_def in_kernel_def view_def pinned_from_def [abs_def] log_area_def holds_block_def by (simp_all cong: option.case_cong)

lemma log_ready_counters:
  fixes s :: "'z klog_scheme"
  shows "log_ready p n (s\<lparr>l_outstanding := a, l_committing := c\<rparr>) = log_ready p n s"
    "commit_writes n (s\<lparr>l_outstanding := a, l_committing := c\<rparr>) = commit_writes n s"
  by (simp_all add: log_ready_def commit_writes_def commit_head_def log_copies_def)

lemma end_op_tail:
  fixes u :: "'z klog_scheme"
  assumes "held u = {}"
  obtains f where "bindR (acq Llog u) (\<lambda>s. bindR (wakeup Clog (s\<lparr>l_committing := 0\<rparr>)) (rel Llog)) = Inr (u\<lparr>l_committing := 0, procs := f\<rparr>)"
proof -
  let ?v = "u\<lparr>held := {Llog}, l_committing := 0\<rparr>"
  have "wakeup Clog ?v = Inr (?v\<lparr>procs := wake_procs Clog ?v\<rparr>)" by (rule wakeup_eq) (simp add: unlocked_def)
  moreover have "u\<lparr>held := {}\<rparr> = u" using assms by simp
  ultimately show thesis using that [of "wake_procs Clog ?v"] assms by (simp add: acq_def rel_def)
qed

lemma end_op_commits:
  fixes s :: "'z klog_scheme"
  assumes "log_ready p n s" "l_size s = 30" "l_outstanding s = 1" "l_committing s = 0"
  obtains s' where "end_op s = Inr s'" "log_idle p s'" "agrees s (disk s') (view s)" "log_area s' = log_area s"
    "dwrites s' = dwrites s @ (if n = 0 then [] else commit_writes n s)"
proof -
  note r = log_readyD [OF assms(1)]
  let ?t = "s\<lparr>l_outstanding := 0, l_committing := 1\<rparr>"
  have t: "log_ready p n ?t" using assms(1) by (simp add: log_ready_counters)
  obtain u where u: "commit ?t = Inr u" "bio_inv p (\<lambda>_. 0) {} u" "agrees s (disk u) (view s)" "bio_frame (?t\<lparr>l_n := 0\<rparr>) u"
    "dwrites u = dwrites s @ (if n = 0 then [] else commit_writes n s)" "length (disk u (head_blk s)) = 1024" "ld_int (disk u (head_blk s)) 0 = 0"
  proof (cases "n = 0")
    case True
    have "pinned_from s 0 0 = (\<lambda>_. 0)" by (simp add: pinned_from_def fun_eq_iff)
    moreover have tn: "?t\<lparr>l_n := 0\<rparr> = ?t" using r(3) True by simp
    have "bio_frame (?t\<lparr>l_n := 0\<rparr>) ?t" unfolding tn by (rule bio_frame_refl)
    ultimately show thesis using that [of ?t] r(1,3,11,12) True ready_view(1) [OF assms(1)] by (simp add: commit_def agrees_def)
  next
    case False
    then obtain u where u: "commit ?t = Inr u" "bio_inv p (\<lambda>_. 0) {} u" "disk u = put_blocks (commit_writes n s) (disk s)"
      "dwrites u = dwrites s @ commit_writes n s" "bio_frame (?t\<lparr>l_n := 0\<rparr>) u"
      using commit_eq [OF t] by (auto simp: log_ready_counters)
    have "length (commit_head n s) = 1024" using head_bytes_read(1) [of "disk s (head_blk s)" n "l_block s"] r by (simp add: commit_head_def)
    then show thesis using that [OF u(1,2) _ u(5)] u(3,4) commit_agrees [OF assms(1)] False by (simp add: commit_writes_def)
  qed
  have h: "held s = {}" "held u = {}" using bio_invD(1) [OF r(1)] bio_invD(1) [OF u(2)] by simp_all
  obtain f where f: "bindR (acq Llog u) (\<lambda>s. bindR (wakeup Clog (s\<lparr>l_committing := 0\<rparr>)) (rel Llog)) = Inr (u\<lparr>l_committing := 0, procs := f\<rparr>)"
    by (rule end_op_tail [OF h(2)])
  let ?s = "u\<lparr>l_committing := 0, procs := f\<rparr>"
  note e = frame_log [OF u(4)]
  have th: "?t\<lparr>held := {}\<rparr> = ?t" using h(1) by simp
  have "end_op s = bindR (commit (?t\<lparr>held := {}\<rparr>)) (\<lambda>s. bindR (acq Llog s) (\<lambda>s. bindR (wakeup Clog (s\<lparr>l_committing := 0\<rparr>)) (rel Llog)))"
    using h assms(3,4) by (simp add: end_op_def acq_def [of _ s] rel_def [of Llog "_\<lparr>l_committing := 1\<rparr>"] Let_def)
  then have "end_op s = Inr ?s" unfolding th u(1) bindR_simps f .
  moreover have "bio_inv p (\<lambda>_. 0) {} ?s" using u(2) unfolding bio_inv_def in_kernel_def by simp
  then have "log_idle p ?s" using u(6,7) r(2,5) assms(2) by (simp add: log_idle_def log_ready_def e pinned_from_def [abs_def])
  ultimately show thesis using that [of ?s] u(3,5) by (simp add: log_area_def e)
qed

text \<open>
  C1: A file system operation is a transaction. From an idle log, \<open>begin_op\<close>, at most \<open>MAXOPBLOCKS\<close> block
  writes through \<open>bread\<close>, \<open>log_write\<close> and \<open>brelse\<close>, and \<open>end_op\<close> return and leave the log idle; outside the log
  both the disk and the cache then hold the written blocks, the last write of each, and everything
  else is as before. If the machine stops at any moment, whatever block writes have reached the
  disk, the recovery of the next boot returns, and then either all of the writes are there or none.
\<close>

theorem transaction_atomic:
  fixes s :: "'z klog_scheme"
  assumes "log_idle p s" "length ws \<le> 10" "fst ` set ws \<inter> log_area s = {}"
  shows "\<exists>s' vs. transaction ws s = Inr s' \<and> log_idle p s' \<and> dwrites s' = dwrites s @ vs \<and>
    agrees s (disk s') (put_blocks ws (disk s)) \<and> view s' = disk s' \<and>
    (\<forall>k q st nl (t :: 'z klog_scheme). bio_inv q (\<lambda>_. 0) {} t \<longrightarrow> length (l_block t) = 30 \<longrightarrow> sint st = l_start s \<longrightarrow>
       disk t = put_blocks (take k vs) (disk s) \<longrightarrow>
       (\<exists>t'. initlog 1 st nl t = Inr t' \<and> view t' = disk t' \<and>
          (agrees s (disk t') (disk s) \<or> agrees s (disk t') (put_blocks ws (disk s)))))"
proof -
  have i: "log_ready p 0 s" "l_size s = 30" "l_outstanding s = 0" "l_committing s = 0" using assms(1) by (auto simp: log_idle_def)
  let ?b = "s\<lparr>l_outstanding := 1\<rparr>"
  have sb: "s\<lparr>l_outstanding := 1, l_committing := 0\<rparr> = ?b" using i(4) by simp
  note b = log_counters(1-4) [where s = s and a = 1 and c = 0, unfolded sb] log_ready_counters [where s = s and a = 1 and c = 0, unfolded sb]
  have "held s = {}" using bio_invD(1) [OF log_readyD(1) [OF i(1)]] by simp
  moreover from this have "s\<lparr>held := {}\<rparr> = s" by simp
  ultimately have op: "begin_op s = Inr ?b"
    using log_readyD(3) [OF i(1)] i(3,4) by (simp add: begin_op_def acq_def rel_def)
  have v: "view s = disk s" using ready_view(1) [OF i(1)] by auto
  obtain u n where u: "foldR write_block ws ?b = Inr u" "log_ready p n u" "view u = put_blocks ws (disk s)" "disk u = disk s"
    "dwrites u = dwrites s" "l_size u = 30" "l_outstanding u = 1" "l_committing u = 0" "log_area u = log_area s" "l_start u = l_start s"
    using write_blocks [of p 0 ?b ws] assms(2,3) i v by (auto simp: b)
  obtain s' where e: "end_op u = Inr s'" "log_idle p s'" "agrees u (disk s') (view u)" "log_area s' = log_area u"
    "dwrites s' = dwrites u @ (if n = 0 then [] else commit_writes n u)"
    by (rule end_op_commits [OF u(2,6,7,8)])
  let ?vs = "if n = 0 then [] else commit_writes n u"
  have "\<exists>t'. initlog 1 st nl t = Inr t' \<and> view t' = disk t' \<and>
      (agrees s (disk t') (disk s) \<or> agrees s (disk t') (put_blocks ws (disk s)))"
    if t: "bio_inv q (\<lambda>_. 0) {} t" "length (l_block t) = 30" "sint st = l_start s" "disk t = put_blocks (take k ?vs) (disk s)"
    for k q st nl and t :: "'z klog_scheme"
    using initlog_crash [OF u(2) t(1,2), of st "if n = 0 then 0 else k" nl] t(3,4) u(10)
    by (auto simp: agrees_def u(3,4,9) split: if_splits)
  moreover have "agrees s (disk s') (put_blocks ws (disk s))" using e(3) by (simp add: agrees_def u(3,9))
  moreover have "view s' = disk s'" using ready_view(1) [of p 0 s'] e(2) by (auto simp: log_idle_def)
  ultimately show ?thesis using op u(1,5) e(1,2,5) by (intro exI [of _ s'] exI [of _ ?vs]) (simp add: transaction_def)
qed

lemma file_demo_idle: "log_idle 0 file_demo"
  using file_demo_bio
  by (auto simp: log_idle_def log_ready_def pinned_from_def [abs_def] ld_int_def ldl_def le_word_zeros)

theorem transaction_atomic_witness:
  "\<exists>s. transaction [(100, replicate 1024 7), (101, replicate 1024 8), (100, replicate 1024 9)] file_demo = Inr s \<and>
     disk s 100 = replicate 1024 9 \<and> disk s 101 = replicate 1024 8"
proof -
  let ?ws = "[(100 :: u32, replicate 1024 (7 :: byte)), (101, replicate 1024 8), (100, replicate 1024 9)]"
  have la: "100 \<notin> log_area file_demo" "101 \<notin> log_area file_demo" by (rule beyond_log; simp)+
  then have "fst ` set ?ws \<inter> log_area file_demo = {}" by simp
  then obtain s where "transaction ?ws file_demo = Inr s" "agrees file_demo (disk s) (put_blocks ?ws (disk file_demo))"
    using transaction_atomic [OF file_demo_idle, of ?ws] by fastforce
  then show ?thesis using la by (auto simp: agrees_def)
qed

section \<open>Admission\<close>

text \<open>Writes of distinct blocks that are not in the log yet take one entry each.\<close>

lemma write_distinct_blocks:
  fixes s :: "'z klog_scheme"
  assumes "log_ready p n s" "n + length ws \<le> 29" "l_size s = 30" "1 \<le> l_outstanding s" "fst ` set ws \<inter> log_area s = {}"
    and "distinct (map fst ws)" "fst ` set ws \<inter> home_blk s ` {0..<n} = {}"
  shows "\<exists>s'. foldR write_block ws s = Inr s' \<and> log_ready p (n + length ws) s' \<and> l_size s' = 30"
  using assms
proof (induction ws arbitrary: s n)
  case (Cons w ws)
  obtain c d where w: "w = (c, d)" by (cases w)
  have pre: "n < 29" "c \<notin> log_area s" "c \<notin> home_blk s ` {0..<n}" using Cons(3,6,8) by (auto simp: w)
  obtain b s1 u where u: "bread 1 c s = Inr (b, s1)" "bindR (log_write b (set_data b d s1)) (brelse b) = Inr u" "log_ready p (Suc n) u"
    "log_frame s u" "home_blk u ` {0..<Suc n} = insert c (home_blk s ` {0..<n})"
    using log_write_homes [OF Cons(2) pre(1) Cons(4,5) pre(2), of d] pre(3) by auto
  note f = log_frame_simps [OF u(4)]
  have "\<exists>s'. foldR write_block ws u = Inr s' \<and> log_ready p (Suc n + length ws) s' \<and> l_size s' = 30"
  proof (rule Cons(1) [OF u(3)])
    show "fst ` set ws \<inter> log_area u = {}" using Cons(6) f by auto
    show "fst ` set ws \<inter> home_blk u ` {0..<Suc n} = {}" unfolding u(5) using Cons(7,8) by (auto simp: w)
  qed (use Cons(3-5,7) f in auto)
  moreover have "write_block w s = Inr u" using u(1,2) by (simp add: write_block_def w)
  ultimately show ?case by simp
qed auto

lemma write_block_full:
  fixes s :: "'z klog_scheme"
  assumes "log_ready p 29 s" "l_size s = 30"
  shows "write_block (c, d) s = panic ''too big a transaction''"
proof -
  note r = log_readyD [OF assms(1)]
  let ?P = "pinned_from s 0 29"
  have none: "\<forall>i\<in>{}. \<not> holds_block s c i" by simp
  have "(\<exists>i<NBUF. holds_block s c i) \<or> (\<exists>i<NBUF. ?P i = 0 \<and> i \<notin> {})" using some_unpinned [OF r(1,4)] by simp
  then obtain b s1 where a: "bread 1 c s = Inr (b, s1)" "bio_inv p ?P (insert b {}) s1" "bio_frame s s1"
    by (rule bread_eq [OF r(1) none]) (rule that; assumption)
  have "held s1 = {}" using bio_invD(1) [OF a(2)] by simp
  moreover have "l_n s1 = 29" "l_size s1 = 30" using frame_log [OF a(3)] r(3) assms(2) by simp_all
  ultimately show ?thesis using a(1) by (simp add: write_block_def log_write_def set_data_def updb_def acq_def)
qed

lemma begin_op_eq:
  fixes s :: "'z klog_scheme"
  assumes "in_kernel p s" "l_committing s = 0"
  shows "begin_op s = (if l_n s + 10 * (l_outstanding s + 1) \<le> 30 then Inr (s\<lparr>l_outstanding := l_outstanding s + 1\<rparr>)
    else Inl (Sleeps Clog))"
proof -
  have "s\<lparr>held := {}\<rparr> = s" "held s = {}" "cur s = Some p" using assms(1) by simp_all
  then show ?thesis using assms(2)
    by (simp add: blocked_eq [where p = p] begin_op_def acq_def rel_def algebra_simps)
qed

text \<open>
  C38: The admission of operations and the limit of the log disagree. From an idle log of 30 blocks, the
  size \<open>mkfs\<close> gives it, \<open>begin_op\<close> admits three operations at once and no fourth, so that together they
  may write three times \<open>MAXOPBLOCKS\<close>, that is 30 blocks. But of 30 writes to distinct blocks outside
  the log the first 29 return and the last one panics, although no operation has written more than
  its ten blocks.
\<close>

theorem begin_op_overcommits:
  fixes s :: "'z klog_scheme"
  assumes "log_idle p s" "length ws = 30" "distinct (map fst ws)" "fst ` set ws \<inter> log_area s = {}"
  shows "\<exists>s3 s'. repeatR 3 begin_op s = Inr s3 \<and> begin_op s3 = Inl (Sleeps Clog) \<and>
    foldR write_block (take 29 ws) s3 = Inr s' \<and> foldR write_block ws s3 = panic ''too big a transaction''"
proof -
  have i: "log_ready p 0 s" "l_size s = 30" "l_outstanding s = 0" "l_committing s = 0" using assms(1) by (auto simp: log_idle_def)
  have k: "in_kernel p s" using bio_invD(1) [OF log_readyD(1) [OF i(1)]] .
  have ka: "in_kernel p (s\<lparr>l_outstanding := a\<rparr>)" for a using k unfolding in_kernel_def by simp
  let ?s = "s\<lparr>l_outstanding := 3\<rparr>"
  have n: "l_n s = 0" using log_readyD(3) [OF i(1)] by simp
  have 1: "repeatR 3 begin_op s = Inr ?s"
    using begin_op_eq [OF k i(4)] begin_op_eq [OF ka [of 1]] begin_op_eq [OF ka [of 2]] i(3,4) n by (simp add: numeral_3_eq_3)
  have 2: "begin_op ?s = Inl (Sleeps Clog)" using begin_op_eq [OF ka [of 3]] i(4) n by simp
  have sb: "s\<lparr>l_outstanding := 3, l_committing := 0\<rparr> = ?s" using i(4) by simp
  note b = log_counters(4) [where s = s and a = 3 and c = 0, unfolded sb] log_ready_counters(1) [where s = s and a = 3 and c = 0, unfolded sb]
  have sub: "fst ` set (take 29 ws) \<subseteq> fst ` set ws" using set_take_subset by (rule image_mono)
  have "distinct (map fst (take 29 ws))" using assms(3) by (simp add: take_map [symmetric])
  then obtain s' where s': "foldR write_block (take 29 ws) ?s = Inr s'" "log_ready p 29 s'" "l_size s' = 30"
    using write_distinct_blocks [of p 0 ?s "take 29 ws"] i sub assms(2,4) b by auto
  obtain c d where cd: "drop 29 ws = [(c, d)]" using assms(2) by (cases "drop 29 ws"; cases "tl (drop 29 ws)") (auto dest: arg_cong [of _ _ length])
  have "foldR write_block ws ?s = bindR (foldR write_block (take 29 ws) ?s) (foldR write_block (drop 29 ws))"
    using foldR_append [of write_block "take 29 ws" "drop 29 ws" ?s] by simp
  also have "\<dots> = panic ''too big a transaction''" unfolding s'(1) cd using write_block_full [OF s'(2,3)] by simp
  finally show ?thesis using 1 2 s'(1) by blast
qed

theorem begin_op_overcommits_witness:
  "\<exists>s3. repeatR 3 begin_op file_demo = Inr s3 \<and>
     foldR write_block (map (\<lambda>i. (of_nat (100 + i), replicate 1024 7)) [0..<30]) s3 = panic ''too big a transaction''"
proof -
  let ?ws = "map (\<lambda>i. (of_nat (100 + i) :: u32, replicate 1024 (7 :: byte))) [0..<30]"
  have "of_nat (100 + i) \<notin> log_area file_demo" if "i < 30" for i
    by (rule beyond_log) (use that unat_of_nat_u32 [of "100 + i"] in simp_all)
  then have "fst ` set ?ws \<inter> log_area file_demo = {}" by auto
  moreover have "distinct (map fst ?ws)" by (simp add: upt_rec)
  ultimately show ?thesis using begin_op_overcommits [OF file_demo_idle, of ?ws] by auto
qed

end
