(* ===== verification/FsProps.thy ===== *)
theory FsProps
  imports LogWrite Fs
begin

text \<open>
  Inodes and file contents of \<^verbatim>\<open>kernel/fs.c\<close> inside a transaction, over the disk as the cache shows it.
\<close>

section \<open>Blocks in a transaction\<close>

definition fs_tx :: "nat \<Rightarrow> nat \<Rightarrow> 'z klog_scheme \<Rightarrow> bool" where
  "fs_tx p n s \<longleftrightarrow> log_ready p n s \<and> l_size s = 30 \<and> 1 \<le> l_outstanding s"

lemma fs_frame:
  fixes s s' :: "'z kfs_scheme"
  assumes "log_frame s s'"
  shows "inodes s' = inodes s" "sb s' = sb s" "log_area s' = log_area s"
  using assms log_frame_simps(6) [OF assms] by (auto simp: log_frame_def)

lemma log_ready_kept:
  fixes s s' :: "'z klog_scheme"
  assumes "log_ready p n s" "bio_inv p (pinned_from s 0 n) {} s'" "bio_frame s s'" "pins_kept (pinned_from s 0 n) s s'" "disk s' = disk s"
  shows "log_ready p n s'"
proof -
  note r = log_readyD [OF assms(1)] and e = frame_log [OF assms(3)]
  have pf: "pinned_from s' 0 n = pinned_from s 0 n" by (rule pinned_from_kept [OF assms(2,4,3,1)])
  have la: "log_area s' = log_area s" using log_frame_simps(6) [OF bio_log_frame [OF assms(3)]] .
  have "\<exists>b<NBUF. holds_block s' (home_blk s' i) b" if i: "i < n" for i
  proof -
    obtain b where "b < NBUF" "holds_block s (home_blk s i) b" using r(8) [OF i] by blast
    moreover from this have "pinned_from s 0 n b \<noteq> 0" using i by (auto simp: pinned_from_def)
    ultimately show ?thesis using assms(4) by (auto simp: pins_kept_def e)
  qed
  then show ?thesis using assms(1,2,5) unfolding log_ready_def e la pf by auto
qed

lemma frame_inodes:
  fixes s s' :: "'z kfs_scheme"
  assumes "bio_frame s s'"
  shows "bio_frame (s\<lparr>inodes := g\<rparr>) (s'\<lparr>inodes := g\<rparr>)"
proof -
  obtain bu sl lr pr dk dw where s: "s' = s\<lparr>bufs := bu, slocks := sl, lru := lr, procs := pr, disk := dk, dwrites := dw\<rparr>"
    "\<forall>i. p_pid (procs s' i) = p_pid (procs s i)" using assms unfolding bio_frame_def by blast
  show ?thesis unfolding bio_frame_def
    by (intro conjI exI [of _ bu] exI [of _ sl] exI [of _ lr] exI [of _ pr] exI [of _ dk] exI [of _ dw]) (use s in simp_all)
qed

lemma fs_fields [simp]:
  fixes s :: "'z kfs_scheme"
  shows "bio_inv p pins H (s\<lparr>inodes := g\<rparr>) = bio_inv p pins H s" "view (s\<lparr>inodes := g\<rparr>) = view s"
    "holds_block (s\<lparr>inodes := g\<rparr>) c j = holds_block s c j" "pinned_from (s\<lparr>inodes := g\<rparr>) k n = pinned_from s k n"
    "log_area (s\<lparr>inodes := g\<rparr>) = log_area s"
  unfolding bio_inv_def in_kernel_def view_def holds_block_def pinned_from_def [abs_def] log_area_def by (simp_all cong: option.case_cong)

lemma fs_fields_ready [simp]: "log_ready p n (s\<lparr>inodes := g\<rparr>) = log_ready p n s" "fs_tx p n (s\<lparr>inodes := g\<rparr>) = fs_tx p n s"
  by (simp_all add: log_ready_def fs_tx_def)

text \<open>
  Reading a block and releasing it. The inode table may be changed in between, as \<open>ilock\<close> does.
\<close>

lemma fs_read:
  fixes s :: "'z kfs_scheme"
  assumes "log_ready p n s"
  obtains b s1 s' where "bread 1 c s = Inr (b, s1)" "b_data (bufs s1 b) = view s c" "log_frame s s1"
    "brelse b (s1\<lparr>inodes := g\<rparr>) = Inr s'" "log_ready p n s'" "view s' = view s" "log_frame (s\<lparr>inodes := g\<rparr>) s'"
proof -
  note r = log_readyD [OF assms]
  let ?P = "pinned_from s 0 n"
  have none: "\<forall>i\<in>{}. \<not> holds_block s c i" by simp
  have "(\<exists>i<NBUF. holds_block s c i) \<or> (\<exists>i<NBUF. ?P i = 0 \<and> i \<notin> {})" using some_unpinned [OF r(1,4)] by simp
  then obtain b s1 where a: "bread 1 c s = Inr (b, s1)" "bio_inv p ?P (insert b {}) s1" "holds_block s1 c b"
    "b_data (bufs s1 b) = view s c" "view s1 = view s" "disk s1 = disk s" "bio_frame s s1"
    "\<And>c j. j < NBUF \<Longrightarrow> j \<in> {} \<or> ?P j \<noteq> 0 \<Longrightarrow> holds_block s1 c j = holds_block s c j"
    by (rule bread_eq [OF r(1) none]) (rule that; assumption)
  have bn: "b < NBUF" using bio_invD(11) [OF a(2)] by simp
  have "view s c = disk s c" if z: "?P b = 0"
  proof (rule view_disk [OF r(1)])
    fix i assume i: "i < NBUF" "holds_block s c i"
    show "?P i = 0 \<and> i \<notin> {}"
    proof (rule ccontr)
      assume n: "\<not> (?P i = 0 \<and> i \<notin> {})"
      then have "holds_block s1 c i" using a(8) [OF i(1)] i(2) by simp
      then have "i = b" using bio_invD(9) [OF a(2) i(1) bn] a(3) by (simp add: holds_block_def)
      with n z show False by simp
    qed
  qed
  then have ok: "?P b \<noteq> 0 \<or> b_dev (bufs s1 b) = 1 \<and> b_data (bufs s1 b) = disk s1 (b_blockno (bufs s1 b))"
    using a(3,4,6) by (auto simp: holds_block_def)
  let ?t = "s\<lparr>inodes := g\<rparr>" and ?u = "s1\<lparr>inodes := g\<rparr>"
  have iu: "bio_inv p ?P (insert b {}) ?u" using a(2) by simp
  have "?P b \<noteq> 0 \<or> b_dev (bufs ?u b) = 1 \<and> b_data (bufs ?u b) = disk ?u (b_blockno (bufs ?u b))" using ok by simp
  then obtain s' where v: "brelse b ?u = Inr s'" "bio_inv p ?P ({b} - {b}) s'" "view s' = view ?u" "disk s' = disk ?u"
    "bio_frame ?u s'" "\<And>e j. holds_block s' e j = holds_block ?u e j"
    by - (rule brelse_eq [OF iu insertI1]; blast intro: that)
  have f: "bio_frame ?t s'" using frame_inodes [OF a(7)] v(5) by (rule bio_frame_trans)
  have "log_ready p n s'"
    by (rule log_ready_kept [OF _ _ f]) (use assms v a(6,8) in \<open>auto simp: pins_kept_def\<close>)
  then show thesis using that [OF a(1,4) bio_log_frame [OF a(7)] v(1) _ _ bio_log_frame [OF f]] v(3) a(5) by simp
qed

lemma fs_write:
  fixes s :: "'z klog_scheme"
  assumes "fs_tx p n s" "n < 29" "c \<notin> log_area s"
  obtains b s1 s' n' where "bread 1 c s = Inr (b, s1)" "b_data (bufs s1 b) = view s c" "log_frame s s1"
    "bindR (log_write b (set_data b d s1)) (brelse b) = Inr s'" "fs_tx p n' s'" "n' \<le> Suc n" "view s' = (view s)(c := d)" "log_frame s s'"
proof -
  obtain b s1 s' where w: "bread 1 c s = Inr (b, s1)" "b_data (bufs s1 b) = view s c" "log_frame s s1"
    "bindR (log_write b (set_data b d s1)) (brelse b) = Inr s'" "log_ready p (if c \<in> home_blk s ` {0..<n} then n else Suc n) s'"
    "view s' = (view s)(c := d)" "log_frame s s'"
    using log_write_ready [of p n s c d] assms unfolding fs_tx_def by blast
  show thesis
    by (rule that [OF w(1-4) _ _ w(6,7)]) (use w(5) assms(1) log_frame_simps(3,4) [OF w(7)] in \<open>auto simp: fs_tx_def\<close>)
qed

section \<open>Inodes on disk\<close>

lemma ldl_overlay:
  assumes "k + m \<le> length xs" "a + length xs \<le> length bs"
  shows "ldl m (overlay bs a xs) (a + k) = ldl m xs k"
  using assms by (simp add: ldl_def overlay_def)

lemma ldl_overlay_other:
  assumes "a + length xs \<le> k \<or> k + m \<le> a" "a + length xs \<le> length bs" "k + m \<le> length bs"
  shows "ldl m (overlay bs a xs) k = ldl m bs k"
  using overlay_other [OF assms] by (simp add: ldl_def)

lemma take_drop_blocks:
  assumes "i < length as" "\<And>x. length (f x) = m"
  shows "take m (drop (m * i) (concat (map f as))) = f (as ! i)"
  using assms(1)
proof (induction as arbitrary: i)
  case (Cons a as)
  then show ?case using assms(2) by (cases i) simp_all
qed simp

lemma length_enc_dinode [simp]: "length (d_addrs d) = 13 \<Longrightarrow> length (enc_dinode d) = 64"
  by (simp add: enc_dinode_def length_concat comp_def sum_list_triv)

lemma dec_enc_dinode:
  assumes "length (d_addrs d) = 13"
  shows "dec_dinode (enc_dinode d) 0 = d"
proof -
  let ?h = "bytes_le 2 (d_type d) @ bytes_le 2 (d_major d) @ bytes_le 2 (d_minor d) @ bytes_le 2 (d_nlink d) @ bytes_le 4 (d_size d)"
  have "ldl 4 (enc_dinode d) (12 + 4 * i) = d_addrs d ! i" if "i < 13" for i
  proof -
    have "drop (12 + 4 * i) (enc_dinode d) = drop (4 * i) (concat (map (bytes_le 4) (d_addrs d)))"
      by (simp add: enc_dinode_def)
    then show ?thesis using take_drop_blocks [of i "d_addrs d" "bytes_le 4" 4] that assms by (simp add: ldl_def)
  qed
  then have "map (\<lambda>i. ldl 4 (enc_dinode d) (12 + 4 * i)) [0..<13] = d_addrs d"
    using assms by (intro nth_equalityI) simp_all
  then show ?thesis by (simp add: dec_dinode_def) (simp add: ldl_def enc_dinode_def)
qed

lemma dinode_field:
  assumes "length (d_addrs d) = 13" "length bs = 1024" "i < 16" "j < 16" "k + m \<le> 64"
  shows "ldl m (overlay bs (64 * i) (enc_dinode d)) (64 * j + k) = (if j = i then ldl m (enc_dinode d) k else ldl m bs (64 * j + k))"
proof (cases "j = i")
  case False
  then have "64 * i + 64 \<le> 64 * j \<or> 64 * j + 64 \<le> 64 * i" by linarith
  then show ?thesis using assms False by (auto intro!: ldl_overlay_other)
qed (use assms in \<open>simp add: ldl_overlay\<close>)

lemma dec_dinode_overlay:
  assumes "length (d_addrs d) = 13" "length bs = 1024" "i < 16" "j < 16"
  shows "dec_dinode (overlay bs (64 * i) (enc_dinode d)) (64 * j) = (if j = i then d else dec_dinode bs (64 * j))"
proof -
  note f = dinode_field [OF assms]
  let ?o = "overlay bs (64 * i) (enc_dinode d)"
  have fk: "(ldl 4 ?o (64 * j + 12 + 4 * k) :: u32) = (if j = i then ldl 4 (enc_dinode d) (0 + 12 + 4 * k) else ldl 4 bs (64 * j + 12 + 4 * k))"
    if "k < 13" for k using f [where k = "12 + 4 * k" and m = 4 and 'a = 32] that by (simp add: add.assoc)
  have "map (\<lambda>k. ldl 4 ?o (64 * j + 12 + 4 * k)) [0..<NDIRECT + 1] =
      (if j = i then map (\<lambda>k. ldl 4 (enc_dinode d) (0 + 12 + 4 * k)) [0..<NDIRECT + 1]
       else map (\<lambda>k. ldl 4 bs (64 * j + 12 + 4 * k)) [0..<NDIRECT + 1] :: u32 list)"
    using fk by (cases "j = i") auto
  moreover have "(ldl 2 ?o (64 * j) :: u16) = (if j = i then ldl 2 (enc_dinode d) 0 else ldl 2 bs (64 * j))" using f [where k = 0 and m = 2 and 'a = 16] by simp
  moreover have "(ldl 2 ?o (64 * j + k) :: u16) = (if j = i then ldl 2 (enc_dinode d) (0 + k) else ldl 2 bs (64 * j + k))" if "k \<le> 6" for k
    using f [where k = k and m = 2 and 'a = 16] that by simp
  moreover have "(ldl 4 ?o (64 * j + 8) :: u32) = (if j = i then ldl 4 (enc_dinode d) (0 + 8) else ldl 4 bs (64 * j + 8))" using f [where k = 8 and m = 4 and 'a = 32] by simp
  ultimately have "dec_dinode ?o (64 * j) = (if j = i then dec_dinode (enc_dinode d) 0 else dec_dinode bs (64 * j))"
    unfolding dec_dinode_def by (cases "j = i") (simp_all only: simp_thms if_True if_False order.refl numeral_le_iff semiring_norm)
  then show ?thesis by (simp add: dec_enc_dinode [OF assms(1)])
qed

lemma iupdate_eq:
  fixes s :: "'z kfs_scheme"
  assumes "fs_tx p n s" "n < 29" "i_dev (inodes s ip) = 1" "c = IBLOCK (i_inum (inodes s ip)) (sb s)" "c \<notin> log_area s"
    and "d = overlay (view s c) (ioff (i_inum (inodes s ip))) (enc_dinode (to_dinode (inodes s ip)))"
  obtains s' n' where "iupdate ip s = Inr s'" "fs_tx p n' s'" "n' \<le> Suc n" "view s' = (view s)(c := d)" "log_frame s s'"
proof -
  obtain b s1 s' n' where w: "bread 1 c s = Inr (b, s1)" "b_data (bufs s1 b) = view s c" "log_frame s s1"
    "bindR (log_write b (set_data b d s1)) (brelse b) = Inr s'" "fs_tx p n' s'" "n' \<le> Suc n" "view s' = (view s)(c := d)" "log_frame s s'"
    by (rule fs_write [OF assms(1,2,5), of d]) (rule that; assumption)
  show thesis
    by (rule that [OF _ w(5-8)]) (use w(1,2,4) assms(3,4,6) in \<open>simp add: iupdate_def Let_def fs_frame [OF w(3)]\<close>)
qed

lemma inode_lock_ready:
  fixes s :: "'z kfs_scheme"
  shows "log_ready p n (upds (Linode i) f s) = log_ready p n s" "view (upds (Linode i) f s) = view s"
proof -
  let ?t = "upds (Linode i) f s"
  have e: "holds_block ?t c j = holds_block s c j" "view ?t = view s" "log_area ?t = log_area s" "disk ?t = disk s" "l_n ?t = l_n s"
    "l_block ?t = l_block s" "l_dev ?t = l_dev s" "l_start ?t = l_start s" for c j
    by (auto simp: upds_def holds_block_def view_def [abs_def] log_area_def cong: option.case_cong)
  have "pinned_from ?t 0 n = pinned_from s 0 n" by (simp add: pinned_from_def [abs_def] e)
  moreover have "bio_inv p pins H ?t = bio_inv p pins H s" for pins H
    unfolding bio_inv_def in_kernel_def by (simp add: upds_def)
  ultimately show "log_ready p n ?t = log_ready p n s" by (simp add: log_ready_def e)
qed (simp add: upds_def view_def [abs_def] holds_block_def cong: option.case_cong)

definition load_inode :: "dinode \<Rightarrow> inode \<Rightarrow> inode" where
  "load_inode d x = x\<lparr>i_type := d_type d, i_major := d_major d, i_minor := d_minor d, i_nlink := d_nlink d, i_size := d_size d,
     i_addrs := d_addrs d, i_valid := True\<rparr>"

lemma to_dinode_load [simp]: "to_dinode (load_inode d x) = d"
  by (simp add: to_dinode_def load_inode_def)

lemma ilock_eq:
  fixes s :: "'z kfs_scheme"
  assumes "log_ready p n s" "1 \<le> i_ref (inodes s ip)" "\<not> sl_locked (slocks s (Linode ip))" "\<not> i_valid (inodes s ip)"
    and "i_dev (inodes s ip) = 1" "c = IBLOCK (i_inum (inodes s ip)) (sb s)"
    and "d = dec_dinode (view s c) (ioff (i_inum (inodes s ip)))" "d_type d \<noteq> 0"
  obtains s' where "ilock ip s = Inr s'" "log_ready p n s'" "view s' = view s"
    "inodes s' = (inodes s)(ip := load_inode d (inodes s ip))"
proof -
  have k: "in_kernel p s" by (rule bio_invD(1) [OF log_readyD(1) [OF assms(1)]])
  let ?t = "upds (Linode ip) (\<lambda>k. k\<lparr>sl_locked := True, sl_pid := p_pid (procs s p)\<rparr>) s"
  have t: "log_ready p n ?t" "view ?t = view s" "inodes ?t = inodes s" "sb ?t = sb s"
    using assms(1) by (simp_all add: inode_lock_ready) (simp_all add: upds_def)
  let ?x = "(load_inode d (inodes s ip))\<lparr>i_valid := i_valid (inodes s ip)\<rparr>"
  let ?g = "(inodes s)(ip := ?x)"
  obtain b s1 s' where r: "bread 1 c ?t = Inr (b, s1)" "b_data (bufs s1 b) = view ?t c" "log_frame ?t s1"
    "brelse b (s1\<lparr>inodes := ?g\<rparr>) = Inr s'" "log_ready p n s'" "view s' = view ?t" "log_frame (?t\<lparr>inodes := ?g\<rparr>) s'"
    by (rule fs_read [OF t(1), of c ?g]) (rule that; assumption)
  have i: "inodes s1 = inodes s" "sb s1 = sb s" "inodes s' = ?g" using fs_frame [OF r(3)] fs_frame [OF r(7)] t(3,4) by simp_all
  let ?s = "s'\<lparr>inodes := (inodes s)(ip := load_inode d (inodes s ip))\<rparr>"
  have g: "updi ip (\<lambda>x. x\<lparr>i_type := d_type d, i_major := d_major d, i_minor := d_minor d, i_nlink := d_nlink d, i_size := d_size d,
      i_addrs := d_addrs d\<rparr>) s1 = s1\<lparr>inodes := ?g\<rparr>" by (simp add: updi_def i load_inode_def)
  have v: "updi ip (\<lambda>x. x\<lparr>i_valid := True\<rparr>) s' = ?s" by (simp add: updi_def i load_inode_def)
  have "ilock ip s = Inr ?s"
    using acquiresleep_eq [OF k assms(3)] assms(2,4,5,8) r(1,2,4) t(2-4)
    by (simp add: ilock_def Let_def i g v assms(6,7) [symmetric]) (simp add: load_inode_def)
  then show thesis using that [of ?s] r(5,6) t(2) by simp
qed

text \<open>
  C4: Inodes survive a round trip through the disk. \<open>iupdate\<close> of a valid inode in a transaction returns;
  it changes only the block of that inode, and in it no other of the 16 inodes. Whenever that block
  is seen again as it is then, in the same or in any later state of the cache, \<open>ilock\<close> of an entry of
  the inode table that names the inode and is not loaded returns with exactly the fields that were
  written.
\<close>

theorem iupdate_ilock:
  fixes s :: "'z kfs_scheme"
  assumes "fs_tx p n s" "n < 29" "i_dev (inodes s ip) = 1" "length (i_addrs (inodes s ip)) = 13" "i_type (inodes s ip) \<noteq> 0"
    and "c = IBLOCK (i_inum (inodes s ip)) (sb s)" "c \<notin> log_area s" "length (view s c) = 1024"
  shows "\<exists>s' n'. iupdate ip s = Inr s' \<and> fs_tx p n' s' \<and> n' \<le> Suc n \<and> inodes s' = inodes s \<and> (\<forall>e. e \<noteq> c \<longrightarrow> view s' e = view s e) \<and>
    (\<forall>k<16. k \<noteq> unat (i_inum (inodes s ip)) mod 16 \<longrightarrow> dec_dinode (view s' c) (64 * k) = dec_dinode (view s c) (64 * k)) \<and>
    (\<forall>q m jp (t :: 'z kfs_scheme). log_ready q m t \<longrightarrow> view t c = view s' c \<longrightarrow> sb t = sb s \<longrightarrow>
       i_inum (inodes t jp) = i_inum (inodes s ip) \<longrightarrow> i_dev (inodes t jp) = 1 \<longrightarrow> 1 \<le> i_ref (inodes t jp) \<longrightarrow>
       \<not> i_valid (inodes t jp) \<longrightarrow> \<not> sl_locked (slocks t (Linode jp)) \<longrightarrow>
       (\<exists>t'. ilock jp t = Inr t' \<and> i_valid (inodes t' jp) \<and> to_dinode (inodes t' jp) = to_dinode (inodes s ip)))"
proof -
  let ?x = "inodes s ip"
  let ?k = "unat (i_inum ?x) mod 16" and ?d = "to_dinode ?x"
  let ?bs = "overlay (view s c) (ioff (i_inum ?x)) (enc_dinode ?d)"
  have len: "length (d_addrs ?d) = 13" "d_type ?d \<noteq> 0" using assms(4,5) by (simp_all add: to_dinode_def)
  obtain s' n' where u: "iupdate ip s = Inr s'" "fs_tx p n' s'" "n' \<le> Suc n" "view s' = (view s)(c := ?bs)" "log_frame s s'"
    by (rule iupdate_eq [OF assms(1-3,6,7) refl])
  have dec: "dec_dinode ?bs (64 * j) = (if j = ?k then ?d else dec_dinode (view s c) (64 * j))" if "j < 16" for j
    using dec_dinode_overlay [OF len(1) assms(8) _ that, of ?k] by (simp add: ioff_def)
  have "\<exists>t'. ilock jp t = Inr t' \<and> i_valid (inodes t' jp) \<and> to_dinode (inodes t' jp) = ?d"
    if t: "log_ready q m t" "view t c = view s' c" "sb t = sb s" "i_inum (inodes t jp) = i_inum ?x" "i_dev (inodes t jp) = 1"
      "1 \<le> i_ref (inodes t jp)" "\<not> i_valid (inodes t jp)" "\<not> sl_locked (slocks t (Linode jp))" for q m jp and t :: "'z kfs_scheme"
  proof -
    have "dec_dinode (view t c) (ioff (i_inum (inodes t jp))) = ?d" using dec [of ?k] t(2,4) u(4) by (simp add: ioff_def)
    then obtain t' where "ilock jp t = Inr t'" "inodes t' = (inodes t)(jp := load_inode ?d (inodes t jp))"
      using ilock_eq [OF t(1,6,8,7,5), of c ?d] assms(6) t(3,4) len(2) by auto
    then show ?thesis by (auto simp: load_inode_def [of _ "inodes t jp"] to_dinode_def)
  qed
  then show ?thesis using u(1-4) fs_frame(1) [OF u(5)] dec by (intro exI [of _ s'] exI [of _ n']) simp
qed

text \<open>Inode 5, a file of 1500 bytes in blocks 60 and 61, in entry 3 of the table.\<close>

definition fs_demo :: kfile where
  "fs_demo = file_demo\<lparr>inodes := (inodes file_demo)(3 := inode_zero\<lparr>i_dev := 1, i_inum := 5, i_ref := 1, i_valid := True,
     i_type := 2, i_nlink := 1, i_size := 1500, i_addrs := 60 # 61 # replicate 11 0\<rparr>), l_outstanding := 1, l_committing := 0\<rparr>"

lemma fs_demo_tx: "fs_tx 0 0 fs_demo"
proof -
  have "log_ready 0 0 file_demo" using file_demo_idle by (simp add: log_idle_def)
  then show ?thesis by (simp add: fs_tx_def fs_demo_def log_ready_counters)
qed

lemma fs_demo_view: "view fs_demo c = replicate 1024 0"
proof -
  have "view fs_demo c = disk fs_demo c"
    by (rule view_uncached) (simp add: fs_demo_def buf_zero_def)
  then show ?thesis by (simp add: fs_demo_def)
qed

theorem iupdate_ilock_witness:
  "\<exists>s'. iupdate 3 fs_demo = Inr s' \<and> inodes s' = inodes fs_demo \<and> view s' 33 = replicate 1024 0 \<and>
     dec_dinode (view s' 32) (64 * 6) = dec_dinode (replicate 1024 0) (64 * 6)"
proof -
  let ?s = fs_demo
  have c: "32 = IBLOCK (i_inum (inodes ?s 3)) (sb ?s)" by (simp add: fs_demo_def IBLOCK_def sb_demo_def)
  have la: "(32 :: u32) \<notin> log_area ?s" by (rule beyond_log) (simp_all add: fs_demo_def)
  have i: "i_dev (inodes ?s 3) = 1" "length (i_addrs (inodes ?s 3)) = 13" "i_type (inodes ?s 3) \<noteq> 0" "unat (i_inum (inodes ?s 3)) = 5"
    by (simp_all add: fs_demo_def inode_zero_def)
  obtain s' where s: "iupdate 3 ?s = Inr s'" "inodes s' = inodes ?s" "\<And>e. e \<noteq> 32 \<Longrightarrow> view s' e = view ?s e"
    "\<And>k. k < 16 \<Longrightarrow> k \<noteq> 5 \<Longrightarrow> dec_dinode (view s' 32) (64 * k) = dec_dinode (view ?s 32) (64 * k)"
    using iupdate_ilock [OF fs_demo_tx _ i(1-3) c la] fs_demo_view i(4) by auto
  then show ?thesis using s(3) [of 33] s(4) [of 6] fs_demo_view by (intro exI [of _ s']) simp
qed

section \<open>File contents\<close>

definition blk :: "'z kfs_scheme \<Rightarrow> nat \<Rightarrow> nat \<Rightarrow> u32" where
  "blk s ip bn = (if bn < NDIRECT then i_addrs (inodes s ip) ! bn
     else ldl 4 (view s (i_addrs (inodes s ip) ! NDIRECT)) (4 * (bn - NDIRECT)))"

text \<open>The first \<open>N\<close> blocks of the file are allocated, and all its blocks are different.\<close>

definition file_ok :: "'z kfs_scheme \<Rightarrow> nat \<Rightarrow> nat \<Rightarrow> bool" where
  "file_ok s ip N \<longleftrightarrow> i_dev (inodes s ip) = 1 \<and> N \<le> MAXFILE \<and> length (i_addrs (inodes s ip)) = 13 \<and>
     (\<forall>bn<N. blk s ip bn \<noteq> 0 \<and> blk s ip bn \<notin> log_area s \<and> length (view s (blk s ip bn)) = BSIZE) \<and> inj_on (blk s ip) {0..<N} \<and>
     (NDIRECT < N \<longrightarrow> i_addrs (inodes s ip) ! NDIRECT \<noteq> 0 \<and> i_addrs (inodes s ip) ! NDIRECT \<notin> blk s ip ` {0..<N} \<and>
        i_addrs (inodes s ip) ! NDIRECT \<noteq> IBLOCK (i_inum (inodes s ip)) (sb s)) \<and>
     IBLOCK (i_inum (inodes s ip)) (sb s) \<notin> blk s ip ` {0..<N} \<and> IBLOCK (i_inum (inodes s ip)) (sb s) \<notin> log_area s"

definition fdata :: "'z kfs_scheme \<Rightarrow> nat \<Rightarrow> nat \<Rightarrow> byte list" where
  "fdata s ip N = concat (map (\<lambda>bn. view s (blk s ip bn)) [0..<N])"

lemma file_cong:
  fixes s s' :: "'z kfs_scheme"
  assumes "view s' = view s" "log_frame s s'"
  shows "blk s' = blk s" "file_ok s' = file_ok s" "fdata s' = fdata s"
proof -
  note f = fs_frame [OF assms(2)]
  show b: "blk s' = blk s" by (simp add: fun_eq_iff blk_def f assms(1))
  show "file_ok s' = file_ok s" "fdata s' = fdata s" by (simp_all add: fun_eq_iff file_ok_def fdata_def b f assms(1))
qed

text \<open>Lists cut into blocks of 1024 bytes.\<close>

lemma take_drop_concat:
  assumes "\<forall>x\<in>set xs. length x = 1024" "q < length xs" "r + m \<le> 1024"
  shows "take m (drop (1024 * q + r) (concat xs)) = take m (drop r (xs ! q))"
  using assms
proof (induction xs arbitrary: q)
  case (Cons x xs)
  show ?case
  proof (cases q)
    case (Suc q')
    then have "drop (1024 * q + r) (concat (x # xs)) = drop (1024 * q' + r) (concat xs)" using Cons(2) by simp
    then show ?thesis using Cons Suc by simp
  qed (use Cons in simp)
qed simp

lemma concat_overlay:
  assumes "\<forall>x\<in>set xs. length x = 1024" "q < length xs" "r + length ys \<le> 1024"
  shows "concat (xs[q := overlay (xs ! q) r ys]) = overlay (concat xs) (1024 * q + r) ys"
  using assms
proof (induction xs arbitrary: q)
  case (Cons x xs)
  show ?case
  proof (cases q)
    case (Suc q')
    then show ?thesis using Cons by (simp add: overlay_def add.assoc)
  next
    case 0
    then show ?thesis using Cons(2,4) by (simp add: overlay_def)
  qed
qed simp

lemma overlay_append:
  "off + length a + length b \<le> length d \<Longrightarrow> overlay (overlay d off a) (off + length a) b = overlay d off (a @ b)"
  by (simp add: overlay_def) (simp add: ac_simps)

lemma fdata_slice:
  assumes "file_ok s ip N" "off div 1024 < N" "off mod 1024 + m \<le> 1024"
  shows "take m (drop off (fdata s ip N)) = take m (drop (off mod 1024) (view s (blk s ip (off div 1024))))"
proof -
  have "take m (drop (1024 * (off div 1024) + off mod 1024) (fdata s ip N)) =
      take m (drop (off mod 1024) (map (\<lambda>bn. view s (blk s ip bn)) [0..<N] ! (off div 1024)))"
    unfolding fdata_def using assms by (intro take_drop_concat) (auto simp: file_ok_def)
  then show ?thesis using assms(2) by simp
qed

lemma length_fdata: "file_ok s ip N \<Longrightarrow> length (fdata s ip N) = 1024 * N"
proof -
  assume "file_ok s ip N"
  then have "map length (map (\<lambda>bn. view s (blk s ip bn)) [0..<N]) = replicate N 1024"
    by (intro nth_equalityI) (auto simp: file_ok_def)
  then show ?thesis unfolding fdata_def length_concat by (simp add: sum_list_replicate)
qed

text \<open>\<open>bmap\<close> of an allocated block.\<close>

lemma bmap_eq:
  fixes s :: "'z kfs_scheme"
  assumes "log_ready p n s" "file_ok s ip N" "bn < N"
  obtains s' where "bmap ip bn s = Inr (blk s ip bn, s')" "log_ready p n s'" "view s' = view s" "log_frame s s'"
proof (cases "bn < NDIRECT")
  case True
  have "log_frame s s" by (rule bio_log_frame) simp
  moreover have "i_addrs (inodes s ip) ! bn \<noteq> 0" "blk s ip bn = i_addrs (inodes s ip) ! bn"
    using assms(2,3) True by (auto simp: file_ok_def blk_def)
  ultimately show thesis using that [of s] True assms(1) by (simp add: bmap_def Let_def)
next
  case False
  let ?a = "i_addrs (inodes s ip) ! NDIRECT"
  have a: "?a \<noteq> 0" "i_dev (inodes s ip) = 1" "N \<le> 268" "blk s ip bn \<noteq> 0" using assms(2,3) False by (auto simp: file_ok_def)
  obtain b s1 s' where r: "bread 1 ?a s = Inr (b, s1)" "b_data (bufs s1 b) = view s ?a" "log_frame s s1"
    "brelse b (s1\<lparr>inodes := inodes s\<rparr>) = Inr s'" "log_ready p n s'" "view s' = view s" "log_frame (s\<lparr>inodes := inodes s\<rparr>) s'"
    by (rule fs_read [OF assms(1), of ?a "inodes s"]) (rule that; assumption)
  have "s1\<lparr>inodes := inodes s\<rparr> = s1" using fs_frame(1) [OF r(3)] by simp
  then have rel: "brelse b s1 = Inr s'" "log_frame s s'" using r(4,7) by simp_all
  have "blk s ip bn = ldl 4 (view s ?a) (4 * (bn - 12))" using False by (simp add: blk_def)
  then have "bmap ip bn s = Inr (blk s ip bn, s')"
    using False a assms(3) r(1,2) rel(1) by (simp add: bmap_def bmap_indirect_def Let_def)
  then show thesis using that r(5,6) rel(2) by simp
qed

lemma readi_loop_eq:
  fixes s :: "'z kfs_scheme"
  assumes "log_ready p n s" "file_ok s ip N" "off + (k - tot) \<le> 1024 * N" "tot \<le> k"
  shows "\<exists>s'. readi_loop ip ToLocal off tot k s = Inr (int k, take (k - tot) (drop off (fdata s ip N)), s') \<and>
    log_ready p n s' \<and> view s' = view s \<and> log_frame s s'"
  using assms
proof (induction "k - tot" arbitrary: off tot s rule: less_induct)
  case less
  show ?case
  proof (cases "tot < k")
    case False
    moreover have "log_frame s s" by (rule bio_log_frame) simp
    ultimately show ?thesis using less.prems by (subst readi_loop.simps) simp
  next
    case True
    define m where "m = min (k - tot) (1024 - off mod 1024)"
    have m: "0 < m" "m \<le> k - tot" "off mod 1024 + m \<le> 1024" using True by (auto simp: m_def)
    have q: "off div 1024 < N" using less.prems(3) True by (simp add: div_less_iff_less_mult)
    obtain t where t: "bmap ip (off div 1024) s = Inr (blk s ip (off div 1024), t)" "log_ready p n t" "view t = view s" "log_frame s t"
      by (rule bmap_eq [OF less.prems(1,2) q])
    note ft = fs_frame [OF t(4)]
    let ?c = "blk s ip (off div 1024)"
    have c: "?c \<noteq> 0" "i_dev (inodes s ip) = 1" using less.prems(2) q by (auto simp: file_ok_def)
    obtain b s1 u where r: "bread 1 ?c t = Inr (b, s1)" "b_data (bufs s1 b) = view t ?c" "log_frame t s1"
      "brelse b (s1\<lparr>inodes := inodes t\<rparr>) = Inr u" "log_ready p n u" "view u = view t" "log_frame (t\<lparr>inodes := inodes t\<rparr>) u"
      by (rule fs_read [OF t(2), of ?c "inodes t"]) (rule that; assumption)
    have "s1\<lparr>inodes := inodes t\<rparr> = s1" using fs_frame(1) [OF r(3)] by simp
    then have u: "brelse b s1 = Inr u" "log_frame s u" "view u = view s" using r(4,6,7) t(3) log_frame_trans [OF t(4)] by simp_all
    have ok: "file_ok u ip N" using less.prems(2) file_cong(2) [OF u(3,2)] by simp
    have pre: "k - (tot + m) < k - tot" "off + m + (k - (tot + m)) \<le> 1024 * N" "tot + m \<le> k" using m less.prems(3) True by linarith+
    obtain v where v: "readi_loop ip ToLocal (off + m) (tot + m) k u = Inr (int k, take (k - (tot + m)) (drop (off + m) (fdata u ip N)), v)"
      "log_ready p n v" "view v = view u" "log_frame u v" using less.hyps [OF pre(1) r(5) ok pre(2,3)] by blast
    have "take (k - tot) (drop off (fdata s ip N)) = take m (drop off (fdata s ip N)) @ take (k - (tot + m)) (drop (off + m) (fdata s ip N))"
      using m(2) by (metis add.commute diff_diff_left drop_drop le_add_diff_inverse take_add)
    also have "\<dots> = take m (drop (off mod 1024) (view s ?c)) @ take (k - (tot + m)) (drop (off + m) (fdata s ip N))"
      by (simp add: fdata_slice [OF less.prems(2) q m(3)])
    finally have "readi_loop ip ToLocal off tot k s = Inr (int k, take (k - tot) (drop off (fdata s ip N)), v)"
      using True t(1,3) c r(1,2) u(1) v(1) ft(1) file_cong(3) [OF u(3,2)]
      by (subst readi_loop.simps) (simp add: either_copyout_def Let_def m_def [symmetric])
    then show ?thesis using v(2-4) u(2,3) log_frame_trans by auto
  qed
qed

text \<open>A change inside one block of the file.\<close>

lemma file_write:
  fixes s u :: "'z kfs_scheme"
  assumes "file_ok s ip N" "q < N" "c = blk s ip q" "view u = (view s)(c := overlay (view s c) r bs)" "r + length bs \<le> 1024"
    and "log_frame s u"
  shows "bn < N \<Longrightarrow> blk u ip bn = blk s ip bn" "file_ok u ip N" "fdata u ip N = overlay (fdata s ip N) (1024 * q + r) bs"
proof -
  note f = fs_frame [OF assms(6)]
  have ok: "\<And>bn. bn < N \<Longrightarrow> blk s ip bn \<noteq> 0 \<and> blk s ip bn \<notin> log_area s \<and> length (view s (blk s ip bn)) = 1024"
    "inj_on (blk s ip) {0..<N}" "12 < N \<Longrightarrow> i_addrs (inodes s ip) ! 12 \<notin> blk s ip ` {0..<N}"
    using assms(1) by (auto simp: file_ok_def)
  show b: "blk u ip bn = blk s ip bn" if "bn < N" for bn
  proof (cases "bn < 12")
    case False
    then have "i_addrs (inodes s ip) ! 12 \<noteq> c" using ok(3) that assms(2,3) by auto
    then show ?thesis using False by (simp add: blk_def f assms(4))
  qed (simp add: blk_def f)
  have img: "blk u ip ` {0..<N} = blk s ip ` {0..<N}" using b by (intro image_cong) simp_all
  have inj: "inj_on (blk u ip) {0..<N}" using ok(2) b by (simp add: inj_on_def)
  have len: "length (view u (blk u ip bn)) = 1024" if "bn < N" for bn
    using that ok(1) [OF that] ok(1) [OF assms(2)] assms(3,5) by (simp add: assms(4) b)
  show "file_ok u ip N"
    using assms(1) inj b len unfolding file_ok_def img f by simp
  let ?xs = "map (\<lambda>bn. view s (blk s ip bn)) [0..<N]"
  have "map (\<lambda>bn. view u (blk u ip bn)) [0..<N] = ?xs[q := overlay (?xs ! q) r bs]"
  proof (rule nth_equalityI)
    fix i assume "i < length (map (\<lambda>bn. view u (blk u ip bn)) [0..<N])"
    then have i: "i < N" by simp
    then have "blk s ip i = c \<longleftrightarrow> i = q" using ok(2) assms(2,3) by (auto simp: inj_on_def)
    then show "map (\<lambda>bn. view u (blk u ip bn)) [0..<N] ! i = ?xs[q := overlay (?xs ! q) r bs] ! i"
      using i assms(2,3) b [OF i] by (cases "i = q") (auto simp: assms(4))
  qed simp
  then show "fdata u ip N = overlay (fdata s ip N) (1024 * q + r) bs"
    unfolding fdata_def using concat_overlay [of ?xs q r bs] ok(1) assms(2,5) by simp
qed

definition blocks_touched :: "nat \<Rightarrow> nat \<Rightarrow> nat" where
  "blocks_touched off k = (if k = 0 then 0 else (off mod 1024 + k + 1023) div 1024)"

lemma blocks_touched_step:
  assumes "k \<noteq> 0" "m = min k (1024 - off mod 1024)"
  shows "0 < blocks_touched off k" "k \<noteq> m \<Longrightarrow> blocks_touched off k = Suc (blocks_touched (off + m) (k - m))"
proof -
  show "0 < blocks_touched off k" using assms(1) by (simp add: blocks_touched_def div_greater_zero_iff)
  assume "k \<noteq> m"
  have lt: "off mod 1024 < 1024" by simp
  from \<open>k \<noteq> m\<close> have m: "m = 1024 - off mod 1024" "m \<le> k" using assms(2) by auto
  define q r where "q = off div 1024" and "r = off mod 1024"
  have "off = 1024 * q + r" by (simp add: q_def r_def)
  moreover have "r < 1024" "m = 1024 - r" using lt m(1) by (simp_all add: r_def)
  ultimately have "off + m = 1024 * (q + 1)" by simp
  then have "(off + m) mod 1024 = 0" by (simp only: mod_mult_self1_is_0)
  moreover have "off mod 1024 + k + 1023 = k - m + 1023 + 1024" using m lt by linarith
  ultimately show "blocks_touched off k = Suc (blocks_touched (off + m) (k - m))"
    using assms(1) \<open>k \<noteq> m\<close> m(2) by (simp add: blocks_touched_def)
qed

lemma writei_loop_eq:
  fixes s :: "'z kfs_scheme"
  assumes "fs_tx p n s" "file_ok s ip N" "off + (k - tot) \<le> 1024 * N" "tot \<le> k" "length data = k - tot"
    and "n + blocks_touched off (k - tot) \<le> 29"
  shows "\<exists>s' n'. writei_loop ip (FromKernel data) off tot k s = Inr (k, off + (k - tot), s') \<and> fs_tx p n' s' \<and>
    n' \<le> n + blocks_touched off (k - tot) \<and> file_ok s' ip N \<and> fdata s' ip N = overlay (fdata s ip N) off data \<and>
    (\<forall>c. c \<notin> blk s ip ` {0..<N} \<longrightarrow> view s' c = view s c) \<and> log_frame s s'"
  using assms
proof (induction "k - tot" arbitrary: off tot n s data rule: less_induct)
  case less
  show ?case
  proof (cases "tot < k")
    case False
    moreover have "log_frame s s" by (rule bio_log_frame) simp
    ultimately show ?thesis using less.prems by (subst writei_loop.simps) (auto simp: overlay_def)
  next
    case True
    define m where "m = min (k - tot) (1024 - off mod 1024)"
    have m: "0 < m" "m \<le> k - tot" "off mod 1024 + m \<le> 1024" using True by (auto simp: m_def)
    have q: "off div 1024 < N" using less.prems(3) True by (simp add: div_less_iff_less_mult)
    let ?c = "blk s ip (off div 1024)"
    have c: "?c \<noteq> 0" "i_dev (inodes s ip) = 1" "?c \<notin> log_area s" using less.prems(2) q by (auto simp: file_ok_def)
    have tx: "log_ready p n s" "l_size s = 30" "1 \<le> l_outstanding s" using less.prems(1) by (simp_all add: fs_tx_def)
    obtain t where t: "bmap ip (off div 1024) s = Inr (?c, t)" "log_ready p n t" "view t = view s" "log_frame s t"
      by (rule bmap_eq [OF tx(1) less.prems(2) q])
    have tt: "fs_tx p n t" "?c \<notin> log_area t" using t(2) tx c(3) log_frame_simps [OF t(4)] by (simp_all add: fs_tx_def)
    have n: "n < 29" using blocks_touched_step(1) [OF _ m_def] True less.prems(6) by simp
    let ?d = "overlay (view t ?c) (off mod 1024) (take m data)"
    obtain b s1 u n1 where r: "bread 1 ?c t = Inr (b, s1)" "b_data (bufs s1 b) = view t ?c" "log_frame t s1"
      "bindR (log_write b (set_data b ?d s1)) (brelse b) = Inr u" "fs_tx p n1 u" "n1 \<le> Suc n" "view u = (view t)(?c := ?d)" "log_frame t u"
      by (rule fs_write [OF tt(1) n tt(2), of ?d]) (rule that; assumption)
    have fu: "log_frame s u" using t(4) r(8) by (rule log_frame_trans)
    have lm: "length (take m data) = m" using m(2) less.prems(5) by simp
    have vu: "view u = (view s)(?c := overlay (view s ?c) (off mod 1024) (take m data))" using r(7) t(3) by simp
    note w = file_write [OF less.prems(2) q refl vu _ fu, unfolded lm, OF m(3)]
    have pre: "k - (tot + m) < k - tot" "off + m + (k - (tot + m)) \<le> 1024 * N" "tot + m \<le> k" "length (drop m data) = k - (tot + m)"
      using m less.prems(3,5) True by auto
    have bt: "n1 + blocks_touched (off + m) (k - (tot + m)) \<le> n + blocks_touched off (k - tot)"
    proof (cases "k - tot = m")
      case True
      then have "blocks_touched (off + m) (k - (tot + m)) = 0" by (simp add: blocks_touched_def)
      then show ?thesis using r(6) blocks_touched_step(1) [OF _ m_def] m(1) True by simp
    next
      case False
      then show ?thesis using r(6) blocks_touched_step(2) [OF _ m_def] m(1,2) by (simp add: diff_diff_left)
    qed
    obtain v n' where v: "writei_loop ip (FromKernel (drop m data)) (off + m) (tot + m) k u = Inr (k, off + m + (k - (tot + m)), v)" "fs_tx p n' v"
      "n' \<le> n1 + blocks_touched (off + m) (k - (tot + m))" "file_ok v ip N" "fdata v ip N = overlay (fdata u ip N) (off + m) (drop m data)"
      "\<forall>c. c \<notin> blk u ip ` {0..<N} \<longrightarrow> view v c = view u c" "log_frame u v"
      using less.hyps [OF pre(1) r(5) w(2) pre(2-4)] bt less.prems(6) by auto
    have "writei_loop ip (FromKernel data) off tot k s = Inr (k, off + (k - tot), v)"
    proof -
      have "bindR (log_write b (set_data b ?d s1)) (\<lambda>s. bindR (brelse b s) G) = G u" for G :: "_ \<Rightarrow> (nat \<times> nat \<times> 'z kfs_scheme) res"
        using r(4) by (simp add: bindR_assoc [symmetric])
      then show ?thesis using True t(1) c r(1,2) fs_frame(1) [OF t(4)] v(1) m(2) less.prems(5)
        by (subst writei_loop.simps) (simp add: either_copyin_def Let_def m_def [symmetric])
    qed
    moreover have "fdata v ip N = overlay (fdata s ip N) off data"
      using v(5) w(3) overlay_append [of off "take m data" "drop m data" "fdata s ip N"] length_fdata [OF less.prems(2)] lm
        less.prems(3,5) m(2) by simp
    moreover have "view v c = view s c" if "c \<notin> blk s ip ` {0..<N}" for c
    proof -
      have "c \<notin> blk u ip ` {0..<N}" "c \<noteq> ?c" using that w(1) q by auto
      then show ?thesis using v(6) vu by simp
    qed
    ultimately show ?thesis using v(2,3,4) bt log_frame_trans [OF fu v(7)] by (intro exI [of _ v] exI [of _ n']) simp
  qed
qed

lemma file_other:
  fixes s u :: "'z kfs_scheme"
  assumes "file_ok s ip N" "view u = (view s)(c := d)" "c \<notin> blk s ip ` {0..<N}" "12 < N \<Longrightarrow> c \<noteq> i_addrs (inodes s ip) ! 12" "log_frame s u"
  shows "file_ok u ip N" "fdata u ip N = fdata s ip N"
proof -
  note f = fs_frame [OF assms(5)]
  have b: "blk u ip bn = blk s ip bn" if "bn < N" for bn using that assms(2,4) by (auto simp: blk_def f)
  have v: "view u (blk s ip bn) = view s (blk s ip bn)" if "bn < N" for bn using that assms(2,3) by auto
  have "blk u ip ` {0..<N} = blk s ip ` {0..<N}" using b by (intro image_cong) simp_all
  moreover have "inj_on (blk u ip) {0..<N}" using assms(1) b by (auto simp: file_ok_def inj_on_def)
  ultimately show "file_ok u ip N" using assms(1) b v unfolding file_ok_def f by simp
  show "fdata u ip N = fdata s ip N" unfolding fdata_def using b v by (intro arg_cong [where f = concat]) simp
qed

lemma file_size:
  fixes s u :: "'z kfs_scheme"
  assumes "u = s\<lparr>inodes := (inodes s)(ip := (inodes s ip)\<lparr>i_size := z\<rparr>)\<rparr>"
  shows "blk u ip = blk s ip" "file_ok u ip N = file_ok s ip N" "fdata u ip N = fdata s ip N"
proof -
  show b: "blk u ip = blk s ip" by (simp add: assms fun_eq_iff blk_def)
  show "file_ok u ip N = file_ok s ip N" "fdata u ip N = fdata s ip N"
    unfolding file_ok_def fdata_def b by (simp_all add: assms)
qed

lemma take_drop_overlay: "off + length a \<le> length d \<Longrightarrow> take (length a) (drop off (overlay d off a)) = a"
  using take_drop_overlay_same [of off d a] by simp

lemma writei_eq:
  fixes s :: "'z kfs_scheme"
  assumes "fs_tx p n s" "file_ok s ip N" "off \<le> i_size (inodes s ip)" "unat off + length data \<le> 1024 * N"
    and "n + blocks_touched (unat off) (length data) < 29" "l = length data"
  obtains s' n' where "writei ip (FromKernel data) off (of_nat l) s = Inr (int l, s')" "fs_tx p n' s'" "file_ok s' ip N"
    "fdata s' ip N = overlay (fdata s ip N) (unat off) data" "unat (i_size (inodes s' ip)) = max (unat (i_size (inodes s ip))) (unat off + l)"
    "\<And>c. c \<notin> blk s ip ` {0..<N} \<Longrightarrow> c \<noteq> IBLOCK (i_inum (inodes s ip)) (sb s) \<Longrightarrow> view s' c = view s c"
proof -
  have ok: "N \<le> 268" "i_dev (inodes s ip) = 1" using assms(2) by (simp_all add: file_ok_def)
  have bd: "unat off + l \<le> 274432" using assms(4,6) ok(1) by simp
  then have small: "unat off + l < 2 ^ 32" by simp
  have ul: "unat (of_nat l :: u32) = l" using small by (intro unat_of_nat_u32) simp
  have sum: "unat (off + of_nat l) = unat off + l" using small ul by (simp add: unat_word_ariths)
  have pre: "unat off + (l - 0) \<le> 1024 * N" "0 \<le> l" "length data = l - 0" "n + blocks_touched (unat off) (l - 0) \<le> 29"
    using assms(4-6) by simp_all
  obtain t n1 where t: "writei_loop ip (FromKernel data) (unat off) 0 l s = Inr (l, unat off + l, t)" "fs_tx p n1 t"
    "n1 \<le> n + blocks_touched (unat off) l" "file_ok t ip N" "fdata t ip N = overlay (fdata s ip N) (unat off) data"
    "\<And>c. c \<notin> blk s ip ` {0..<N} \<Longrightarrow> view t c = view s c" "log_frame s t"
    using writei_loop_eq [OF assms(1,2) pre] unfolding diff_zero by blast
  note f = fs_frame [OF t(7)]
  define z where "z = (if unat off + l > unat (i_size (inodes s ip)) then of_nat (unat off + l) else i_size (inodes s ip))"
  define u where "u = t\<lparr>inodes := (inodes t)(ip := (inodes t ip)\<lparr>i_size := z\<rparr>)\<rparr>"
  have zu: "unat z = max (unat (i_size (inodes s ip))) (unat off + l)" using unat_of_nat_u32 [OF small] by (auto simp: z_def)
  have us: "(if unat off + l > unat (i_size (inodes t ip)) then updi ip (\<lambda>x. x\<lparr>i_size := of_nat (unat off + l)\<rparr>) t else t) = u"
    by (auto simp: u_def z_def updi_def f)
  note fz = file_size [OF u_def]
  let ?c = "IBLOCK (i_inum (inodes u ip)) (sb u)"
  have c: "?c = IBLOCK (i_inum (inodes s ip)) (sb s)" by (simp add: u_def f)
  have fu: "fs_tx p n1 u" "i_dev (inodes u ip) = 1" "log_area u = log_area t" "view u = view t" using t(2) ok(2) by (simp_all add: u_def f)
  have la: "?c \<notin> log_area u" using assms(2) fu(3) f(3) unfolding c by (simp add: file_ok_def)
  have n1: "n1 < 29" using t(3) assms(5,6) by simp
  obtain s' n' where s': "iupdate ip u = Inr s'" "fs_tx p n' s'"
    "view s' = (view u)(?c := overlay (view u ?c) (ioff (i_inum (inodes u ip))) (enc_dinode (to_dinode (inodes u ip))))" "log_frame u s'"
    by (rule iupdate_eq [OF fu(1) n1 fu(2) refl la refl])
  have "file_ok u ip N" using t(4) fz(2) by simp
  then have "file_ok u ip N" "?c \<notin> blk u ip ` {0..<N}" "12 < N \<Longrightarrow> ?c \<noteq> i_addrs (inodes u ip) ! 12" by (auto simp: file_ok_def)
  note fo = file_other [OF this(1) s'(3) this(2,3) s'(4)]
  show thesis
  proof (rule that [of s' n'])
    show "writei ip (FromKernel data) off (of_nat l) s = Inr (int l, s')"
      using assms(3) bd t(1) s'(1) us
      by (simp add: writei_def word_less_nat_alt word_le_nat_alt sum ul linorder_not_less)
    show "fs_tx p n' s'" by (rule s'(2))
    show "file_ok s' ip N" by (rule fo(1))
    show "fdata s' ip N = overlay (fdata s ip N) (unat off) data" using fo(2) fz(3) t(5) by simp
    show "unat (i_size (inodes s' ip)) = max (unat (i_size (inodes s ip))) (unat off + l)" using fs_frame(1) [OF s'(4)] zu by (simp add: u_def)
    show "view s' c = view s c" if "c \<notin> blk s ip ` {0..<N}" "c \<noteq> IBLOCK (i_inum (inodes s ip)) (sb s)" for c
      using that t(6) s'(3) fu(4) by (simp add: c)
  qed
qed

text \<open>
  C3: What is written to a file is read back. For a file whose first \<open>N\<close> blocks, direct and indirect, are
  allocated, and a write of \<open>data\<close> at an offset inside the file that stays within these blocks and fits
  in the transaction, \<open>writei\<close> returns the number of bytes; the contents of the file are then the old
  ones with \<open>data\<close> laid over them at the offset, the size has grown if the write went past the end, no
  block has changed but those of the file and the block of its inode, and \<open>readi\<close> of the same range
  returns \<open>data\<close>.
\<close>

theorem writei_readi:
  fixes s :: "'z kfs_scheme"
  assumes "fs_tx p n s" "file_ok s ip N" "off \<le> i_size (inodes s ip)" "unat off + length data \<le> 1024 * N"
    and "n + blocks_touched (unat off) (length data) < 29" "l = length data"
  shows "\<exists>s' s'' n'. writei ip (FromKernel data) off (of_nat l) s = Inr (int l, s') \<and> fs_tx p n' s' \<and> file_ok s' ip N \<and>
    fdata s' ip N = overlay (fdata s ip N) (unat off) data \<and>
    unat (i_size (inodes s' ip)) = max (unat (i_size (inodes s ip))) (unat off + l) \<and>
    (\<forall>c. c \<notin> blk s ip ` {0..<N} \<longrightarrow> c \<noteq> IBLOCK (i_inum (inodes s ip)) (sb s) \<longrightarrow> view s' c = view s c) \<and>
    readi ip ToLocal off (of_nat l) s' = Inr (int l, data, s'')"
proof -
  obtain s' n' where w: "writei ip (FromKernel data) off (of_nat l) s = Inr (int l, s')" "fs_tx p n' s'" "file_ok s' ip N"
    "fdata s' ip N = overlay (fdata s ip N) (unat off) data" "unat (i_size (inodes s' ip)) = max (unat (i_size (inodes s ip))) (unat off + l)"
    "\<And>c. c \<notin> blk s ip ` {0..<N} \<Longrightarrow> c \<noteq> IBLOCK (i_inum (inodes s ip)) (sb s) \<Longrightarrow> view s' c = view s c"
    by (rule writei_eq [OF assms]) (rule that; assumption)
  have "N \<le> 268" using assms(2) by (simp add: file_ok_def)
  then have small: "unat off + l < 2 ^ 32" using assms(4,6) by simp
  then have ul: "unat (of_nat l :: u32) = l" by (intro unat_of_nat_u32) simp
  have sum: "unat (off + of_nat l) = unat off + l" using small ul by (simp add: unat_word_ariths)
  have lr: "log_ready p n' s'" using w(2) by (simp add: fs_tx_def)
  have pre: "unat off + (l - 0) \<le> 1024 * N" "0 \<le> l" using assms(4,6) by simp_all
  obtain s'' where r: "readi_loop ip ToLocal (unat off) 0 l s' = Inr (int l, take l (drop (unat off) (fdata s' ip N)), s'')"
    using readi_loop_eq [OF lr w(3) pre] by auto
  have "take l (drop (unat off) (fdata s' ip N)) = data"
    using take_drop_overlay [of "unat off" data "fdata s ip N"] assms(4,6) length_fdata [OF assms(2)] w(4) by simp
  then have "readi ip ToLocal off (of_nat l) s' = Inr (int l, data, s'')"
    using r w(5) by (simp add: readi_def Let_def word_less_nat_alt sum ul)
  then show ?thesis using w by blast
qed

lemma fs_demo_file: "file_ok fs_demo 3 2"
proof -
  have b: "blk fs_demo 3 0 = 60" "blk fs_demo 3 1 = 61" by (simp_all add: blk_def fs_demo_def)
  have "60 \<notin> log_area fs_demo" "61 \<notin> log_area fs_demo" "32 \<notin> log_area fs_demo" by (rule beyond_log; simp add: fs_demo_def)+
  moreover have "IBLOCK (i_inum (inodes fs_demo 3)) (sb fs_demo) = 32" by (simp add: fs_demo_def IBLOCK_def sb_demo_def)
  moreover have two: "{0..<2} = {0, 1 :: nat}" "(\<forall>bn<2. P bn) \<longleftrightarrow> P 0 \<and> P 1" for P :: "nat \<Rightarrow> bool" by (auto simp: less_2_cases_iff)
  moreover have "i_dev (inodes fs_demo 3) = 1" "length (i_addrs (inodes fs_demo 3)) = 13" by (simp_all add: fs_demo_def)
  moreover have "inj_on (blk fs_demo 3) {0, 1}" using b by (simp add: inj_on_def)
  ultimately show ?thesis using b by (simp add: file_ok_def fs_demo_view two)
qed

theorem writei_readi_witness:
  "\<exists>s' s''. writei 3 (FromKernel (replicate 48 7)) 1000 48 fs_demo = Inr (48, s') \<and> readi 3 ToLocal 1000 48 s' = Inr (48, replicate 48 7, s'')"
proof -
  have "(1000 :: u32) \<le> i_size (inodes fs_demo 3)" by (simp add: fs_demo_def)
  from writei_readi [OF fs_demo_tx fs_demo_file this, of "replicate 48 7" 48]
  obtain s' s'' where "writei 3 (FromKernel (replicate 48 7)) 1000 (of_nat 48) fs_demo = Inr (int 48, s')"
    "readi 3 ToLocal 1000 (of_nat 48) s' = Inr (int 48, replicate 48 7, s'')" by (auto simp: blocks_touched_def)
  then show ?thesis by (intro exI [of _ s'] exI [of _ s'']) simp
qed

end
