(* ===== verification/DirProps.thy ===== *)
theory DirProps
  imports FsProps
begin

text \<open>
  The table of inodes in memory and the lookup of names in directories (\<^verbatim>\<open>kernel/fs.c\<close>).
\<close>

section \<open>The inode table\<close>

definition itable_wf :: "'z kfs_scheme \<Rightarrow> bool" where
  "itable_wf s \<longleftrightarrow> (\<forall>i<NINODE. 0 \<le> i_ref (inodes s i)) \<and>
     (\<forall>i<NINODE. \<forall>j<NINODE. 0 < i_ref (inodes s i) \<longrightarrow> 0 < i_ref (inodes s j) \<longrightarrow> i_dev (inodes s i) = i_dev (inodes s j) \<longrightarrow>
        i_inum (inodes s i) = i_inum (inodes s j) \<longrightarrow> i = j)"

definition names_inode :: "u32 \<Rightarrow> u32 \<Rightarrow> inode \<Rightarrow> bool" where
  "names_inode dev inum x \<longleftrightarrow> 0 < i_ref x \<and> i_dev x = dev \<and> i_inum x = inum"

lemma iget_scan_eq:
  "iget_scan dev inum ips emp s =
     (case find (\<lambda>i. names_inode dev inum (inodes s i)) ips of
        Some i \<Rightarrow> (Some i, if emp = None then find (\<lambda>i. i_ref (inodes s i) = 0) (takeWhile (\<lambda>i. \<not> names_inode dev inum (inodes s i)) ips) else emp)
      | None \<Rightarrow> (None, if emp = None then find (\<lambda>i. i_ref (inodes s i) = 0) ips else emp))"
  by (induction dev inum ips emp s rule: iget_scan.induct) (auto simp: names_inode_def split: option.splits)

lemma iget_eq:
  fixes s :: "'z kfs_scheme"
  assumes "held s = {}"
  shows "iget dev inum s = (case find (\<lambda>i. names_inode dev inum (inodes s i)) [0..<NINODE] of
      Some i \<Rightarrow> Inr (i, updi i (\<lambda>x. x\<lparr>i_ref := i_ref x + 1\<rparr>) s)
    | None \<Rightarrow> (case find (\<lambda>i. i_ref (inodes s i) = 0) [0..<NINODE] of
        Some i \<Rightarrow> Inr (i, updi i (\<lambda>x. x\<lparr>i_dev := dev, i_inum := inum, i_ref := 1, i_valid := False\<rparr>) s)
      | None \<Rightarrow> panic ''iget: no inodes''))"
proof -
  have r: "rel Litable (updi i f (s\<lparr>held := {Litable}\<rparr>)) = Inr (updi i f s)" for i f using assms by (simp add: rel_def updi_def)
  have "names_inode dev inum (inodes (s\<lparr>held := {Litable}\<rparr>) i) = names_inode dev inum (inodes s i)" for i by simp
  then show ?thesis using assms
    by (simp add: iget_def acq_def iget_scan_eq r split: option.split)
qed

lemma iget_table:
  fixes s :: "'z kfs_scheme"
  assumes "itable_wf s" "held s = {}" "(\<exists>i<NINODE. names_inode dev inum (inodes s i)) \<or> (\<exists>i<NINODE. i_ref (inodes s i) = 0)"
  obtains i g where "iget dev inum s = Inr (i, s\<lparr>inodes := g\<rparr>)" "i < NINODE" "itable_wf (s\<lparr>inodes := g\<rparr>)" "names_inode dev inum (g i)"
    "i_ref (g i) = i_ref (inodes s i) + 1" "\<And>j. j \<noteq> i \<Longrightarrow> g j = inodes s j"
    "names_inode dev inum (inodes s i) \<Longrightarrow> g i = (inodes s i)\<lparr>i_ref := i_ref (inodes s i) + 1\<rparr>"
    "\<not> names_inode dev inum (inodes s i) \<Longrightarrow> i_ref (inodes s i) = 0 \<and> \<not> i_valid (g i)"
proof -
  let ?f = "find (\<lambda>i. names_inode dev inum (inodes s i)) [0..<NINODE]" and ?e = "find (\<lambda>i. i_ref (inodes s i) = 0) [0..<NINODE]"
  note run = iget_eq [OF assms(2), of dev inum]
  show thesis
  proof (cases ?f)
    case (Some i)
    then have i: "i < NINODE" "names_inode dev inum (inodes s i)" by (auto simp: find_Some_iff)
    have "itable_wf (updi i (\<lambda>x. x\<lparr>i_ref := i_ref x + 1\<rparr>) s)" using assms(1) i by (auto simp: itable_wf_def updi_def names_inode_def)
    then show thesis
      by - (rule that [of i "(inodes s)(i := (inodes s i)\<lparr>i_ref := i_ref (inodes s i) + 1\<rparr>)"],
        use run Some i in \<open>simp_all add: updi_def names_inode_def\<close>)
  next
    case None
    then have none: "\<forall>j<NINODE. \<not> names_inode dev inum (inodes s j)" by (auto simp: find_None_iff)
    with assms(3) obtain i where e: "?e = Some i" by (cases ?e) (auto simp: find_None_iff)
    then have i: "i < NINODE" "i_ref (inodes s i) = 0" by (auto simp: find_Some_iff)
    have "itable_wf (updi i (\<lambda>x. x\<lparr>i_dev := dev, i_inum := inum, i_ref := 1, i_valid := False\<rparr>) s)"
      using assms(1) i none by (auto simp: itable_wf_def updi_def names_inode_def)
    then show thesis
      by - (rule that [of i "(inodes s)(i := (inodes s i)\<lparr>i_dev := dev, i_inum := inum, i_ref := 1, i_valid := False\<rparr>)"],
        use run None e i none in \<open>simp_all add: updi_def names_inode_def\<close>)
  qed
qed

text \<open>The layers below do not touch the inode table, however a call of them returns.\<close>

named_theorems keeps_inodes

lemma locks_inodes [keeps_inodes]:
  fixes s :: "'z kfs_scheme"
  shows "acq l s = Inr s' \<Longrightarrow> inodes s' = inodes s" "rel l s = Inr s' \<Longrightarrow> inodes s' = inodes s"
  by (auto simp: acq_def rel_def split: if_splits)

lemma update_inodes [keeps_inodes]:
  fixes s :: "'z kfs_scheme"
  shows "inodes (upds l f s) = inodes s" "inodes (updb b g s) = inodes s" "inodes (disk_rw b wr s) = inodes s"
    "inodes (set_data b d s) = inodes s" "inodes (updp q h s) = inodes s"
  by (auto simp: upds_def updb_def updp_def disk_rw_def set_data_def Let_def)

lemma wakeup_inodes [keeps_inodes]:
  fixes s :: "'z kfs_scheme"
  assumes "wakeup ch s = Inr s'"
  shows "inodes s' = inodes s"
proof -
  have "inodes t' = inodes t" if "wakeup_1 ch q t = Inr t'" for q and t t' :: "'z kfs_scheme"
    using that by (auto simp: wakeup_1_def res_simps Let_def keeps_inodes split: if_splits dest!: locks_inodes)
  then show ?thesis
    using foldR_inv [OF assms [unfolded wakeup_def], of "\<lambda>t. inodes t = inodes s"] by auto
qed

lemma sleeplock_inodes [keeps_inodes]:
  fixes s :: "'z kfs_scheme"
  shows "acquiresleep l s = Inr s' \<Longrightarrow> inodes s' = inodes s" "releasesleep l s = Inr s' \<Longrightarrow> inodes s' = inodes s"
    "holdingsleep l s = Inr (h, s') \<Longrightarrow> inodes s' = inodes s"
  by (auto simp: acquiresleep_def releasesleep_def holdingsleep_def blocked_def res_simps Let_def keeps_inodes
      split: if_splits dest!: locks_inodes wakeup_inodes)

lemma bget_inodes [keeps_inodes]:
  fixes s :: "'z kfs_scheme"
  shows "bget dev b s = Inr (i, s') \<Longrightarrow> inodes s' = inodes s"
  by (auto simp: bget_def res_simps Let_def keeps_inodes split: option.splits dest!: locks_inodes sleeplock_inodes)

lemma bread_inodes [keeps_inodes]:
  fixes s :: "'z kfs_scheme"
  shows "bread dev b s = Inr (i, s') \<Longrightarrow> inodes s' = inodes s"
  by (auto simp: bread_def res_simps keeps_inodes split: if_splits dest!: bget_inodes)

lemma brelse_inodes [keeps_inodes]:
  fixes s :: "'z kfs_scheme"
  shows "brelse b s = Inr s' \<Longrightarrow> inodes s' = inodes s"
  by (auto simp: brelse_def res_simps Let_def keeps_inodes split: if_splits dest!: locks_inodes sleeplock_inodes)

lemma log_write_inodes [keeps_inodes]:
  fixes s :: "'z kfs_scheme"
  shows "log_write b s = Inr s' \<Longrightarrow> inodes s' = inodes s"
  by (auto simp: log_write_def bpin_def res_simps Let_def keeps_inodes split: if_splits dest!: locks_inodes)

lemma block_inodes [keeps_inodes]:
  fixes s :: "'z kfs_scheme"
  shows "bfree dev b s = Inr s' \<Longrightarrow> inodes s' = inodes s" "iupdate ip s = Inr s' \<Longrightarrow> inodes s' = inodes s"
  by (auto simp: bfree_def iupdate_def res_simps Let_def keeps_inodes split: if_splits
      dest!: bread_inodes log_write_inodes brelse_inodes)

text \<open>The table with at most the contents of the entry \<open>ip\<close> changed: not which inode it is for, nor its count.\<close>

definition same_entry :: "nat \<Rightarrow> (nat \<Rightarrow> inode) \<Rightarrow> (nat \<Rightarrow> inode) \<Rightarrow> bool" where
  "same_entry ip g h \<longleftrightarrow> (\<forall>j. j \<noteq> ip \<longrightarrow> h j = g j) \<and> i_ref (h ip) = i_ref (g ip) \<and> i_dev (h ip) = i_dev (g ip) \<and> i_inum (h ip) = i_inum (g ip)"

lemma same_entry_refl: "same_entry ip g g"
  by (simp add: same_entry_def)

lemma same_entry_updi:
  "same_entry ip g (inodes s) \<Longrightarrow> (\<And>x. i_ref (f x) = i_ref x \<and> i_dev (f x) = i_dev x \<and> i_inum (f x) = i_inum x) \<Longrightarrow>
     same_entry ip g (inodes (updi ip f s))"
  by (simp add: same_entry_def updi_def)

lemma itrunc_entry:
  fixes s :: "'z kfs_scheme"
  assumes "itrunc ip s = Inr s'" "same_entry ip g (inodes s)"
  shows "same_entry ip g (inodes s')"
proof -
  let ?P = "\<lambda>t :: 'z kfs_scheme. same_entry ip g (inodes t)"
  let ?d = "\<lambda>i t :: 'z kfs_scheme. if i_addrs (inodes t ip) ! i \<noteq> 0
      then bindR (bfree (i_dev (inodes t ip)) (i_addrs (inodes t ip) ! i) t) (\<lambda>t. Inr (updi ip (\<lambda>x. x\<lparr>i_addrs := (i_addrs x)[i := 0]\<rparr>) t))
      else Inr t"
  let ?e = "\<lambda>bp j t :: 'z kfs_scheme. let a = ldl 4 (b_data (bufs t bp)) (4 * j) in if a \<noteq> 0 then bfree (i_dev (inodes t ip)) a t else Inr t"
  have d: "?P t'" if "foldR ?d [0..<NDIRECT] t = Inr t'" "?P t" for t t'
    by (rule foldR_inv [where P = ?P, OF that])
      (auto simp: res_simps split: if_splits dest!: block_inodes(1) intro!: same_entry_updi)
  have e: "?P t'" if "foldR (?e bp) [0..<NINDIRECT] t = Inr t'" "?P t" for t t' bp
    by (rule foldR_inv [where P = ?P, OF that]) (auto simp: Let_def split: if_splits dest!: block_inodes(1))
  show ?thesis
    using assms unfolding itrunc_def
    by (auto simp: res_simps split: if_splits
        dest!: d block_inodes bread_inodes brelse_inodes e intro!: same_entry_updi)
qed

lemma iput_entry:
  fixes s :: "'z kfs_scheme"
  assumes "iput ip s = Inr s'"
  shows "\<exists>h. same_entry ip (inodes s) h \<and> inodes s' = h(ip := (h ip)\<lparr>i_ref := i_ref (h ip) - 1\<rparr>)"
proof -
  have step: "same_entry ip (inodes s) (inodes t')" if "itrunc ip t = Inr u" "inodes t = inodes s"
    "iupdate ip (updi ip (\<lambda>x. x\<lparr>i_type := 0\<rparr>) u) = Inr v" "releasesleep (Linode ip) (updi ip (\<lambda>x. x\<lparr>i_valid := False\<rparr>) v) = Inr w"
    "acq Litable w = Inr t'" for t u v w and t' :: "'z kfs_scheme"
  proof -
    have "same_entry ip (inodes s) (inodes u)" using itrunc_entry [OF that(1)] that(2) same_entry_refl by simp
    then have "same_entry ip (inodes s) (inodes v)" using block_inodes(2) [OF that(3)] by (simp add: same_entry_updi)
    then have "same_entry ip (inodes s) (inodes w)" using sleeplock_inodes(2) [OF that(4)] by (simp add: same_entry_updi)
    then show ?thesis using locks_inodes(1) [OF that(5)] by simp
  qed
  have last: "\<exists>h. same_entry ip (inodes s) h \<and> inodes s' = h(ip := (h ip)\<lparr>i_ref := i_ref (h ip) - 1\<rparr>)"
    if "same_entry ip (inodes s) (inodes u)" "rel Litable (updi ip (\<lambda>x. x\<lparr>i_ref := i_ref x - 1\<rparr>) u) = Inr s'" for u
    using that locks_inodes(2) [OF that(2)] by (auto simp: updi_def)
  from assms obtain a u where u: "acq Litable s = Inr a" "rel Litable (updi ip (\<lambda>x. x\<lparr>i_ref := i_ref x - 1\<rparr>) u) = Inr s'"
    "(if i_ref (inodes a ip) = 1 \<and> i_valid (inodes a ip) \<and> i_nlink (inodes a ip) = 0 then
              bindR (acquiresleep (Linode ip) a) (\<lambda>s.
              bindR (rel Litable s) (\<lambda>s.
              bindR (itrunc ip s) (\<lambda>s.
              bindR (iupdate ip (updi ip (\<lambda>x. x\<lparr>i_type := 0\<rparr>) s)) (\<lambda>s.
              bindR (releasesleep (Linode ip) (updi ip (\<lambda>x. x\<lparr>i_valid := False\<rparr>) s))
                (acq Litable)))))
            else Inr a) = Inr u" unfolding iput_def by (auto simp: res_simps)
  have a: "inodes a = inodes s" using locks_inodes(1) [OF u(1)] .
  have "same_entry ip (inodes s) (inodes u)"
  proof (cases "i_ref (inodes a ip) = 1 \<and> i_valid (inodes a ip) \<and> i_nlink (inodes a ip) = 0")
    case True
    with u(3) obtain b c d e f where "acquiresleep (Linode ip) a = Inr b" "rel Litable b = Inr c" "itrunc ip c = Inr d"
      "iupdate ip (updi ip (\<lambda>x. x\<lparr>i_type := 0\<rparr>) d) = Inr e" "releasesleep (Linode ip) (updi ip (\<lambda>x. x\<lparr>i_valid := False\<rparr>) e) = Inr f"
      "acq Litable f = Inr u" by (auto simp: res_simps)
    then show ?thesis using step sleeplock_inodes(1) locks_inodes(2) a by metis
  next
    case False
    then have "u = a" using u(3) by (auto split: if_splits)
    then show ?thesis using a same_entry_refl by simp
  qed
  then show ?thesis using last u(2) by blast
qed

lemma itable_wf_drop:
  assumes "itable_wf s" "0 < i_ref (inodes s ip)" "same_entry ip (inodes s) h" "inodes s' = h(ip := (h ip)\<lparr>i_ref := i_ref (h ip) - 1\<rparr>)"
  shows "itable_wf s'"
proof -
  have e: "i_ref (inodes s' j) = (if j = ip then i_ref (inodes s j) - 1 else i_ref (inodes s j))"
    "i_dev (inodes s' j) = i_dev (inodes s j)" "i_inum (inodes s' j) = i_inum (inodes s j)" for j
    using assms(3,4) by (auto simp: same_entry_def)
  then show ?thesis using assms(1,2) unfolding itable_wf_def e by auto
qed

text \<open>
  C37: The inode table stays well formed: reference counts are not negative, and no two entries in use
  stand for the same inode. From a well-formed table \<open>iget\<close> returns an entry for the inode that was asked
  for and takes one reference; an entry in use for that inode is returned with its contents as they
  are, and otherwise a free entry is marked as not loaded. It panics exactly when the inode is not in
  the table and no entry is free. \<open>idup\<close> of an entry in use takes one reference. \<open>iput\<close> gives one back and
  returns, with nothing else changed, unless it was the last reference to a file without links; then
  it truncates and frees the file, and when it returns it has given back the reference too. Both keep
  the table well formed, and the entry stays one for the same inode.
\<close>

theorem iget_wf:
  fixes s :: "'z kfs_scheme"
  assumes "itable_wf s" "held s = {}"
  shows "(if (\<exists>i<NINODE. names_inode dev inum (inodes s i)) \<or> (\<exists>i<NINODE. i_ref (inodes s i) = 0)
      then (\<exists>i s'. iget dev inum s = Inr (i, s') \<and> i < NINODE \<and> itable_wf s' \<and> names_inode dev inum (inodes s' i) \<and>
        i_ref (inodes s' i) = i_ref (inodes s i) + 1 \<and> (\<forall>j. j \<noteq> i \<longrightarrow> inodes s' j = inodes s j) \<and>
        (if names_inode dev inum (inodes s i) then inodes s' i = (inodes s i)\<lparr>i_ref := i_ref (inodes s i) + 1\<rparr>
         else i_ref (inodes s i) = 0 \<and> \<not> i_valid (inodes s' i)))
      else iget dev inum s = Inl (Panic ''iget: no inodes'')) \<and>
    (0 < i_ref (inodes s ip) \<longrightarrow>
      (\<exists>s'. idup ip s = Inr s' \<and> itable_wf s' \<and> inodes s' = (inodes s)(ip := (inodes s ip)\<lparr>i_ref := i_ref (inodes s ip) + 1\<rparr>)) \<and>
      (\<not> (i_ref (inodes s ip) = 1 \<and> i_valid (inodes s ip) \<and> i_nlink (inodes s ip) = 0) \<longrightarrow>
         iput ip s = Inr (s\<lparr>inodes := (inodes s)(ip := (inodes s ip)\<lparr>i_ref := i_ref (inodes s ip) - 1\<rparr>)\<rparr>)) \<and>
      (\<forall>s'. iput ip s = Inr s' \<longrightarrow> itable_wf s' \<and> i_ref (inodes s' ip) = i_ref (inodes s ip) - 1 \<and>
         i_dev (inodes s' ip) = i_dev (inodes s ip) \<and> i_inum (inodes s' ip) = i_inum (inodes s ip) \<and>
         (\<forall>j. j \<noteq> ip \<longrightarrow> inodes s' j = inodes s j)))"
proof (rule conjI)
  show "if (\<exists>i<NINODE. names_inode dev inum (inodes s i)) \<or> (\<exists>i<NINODE. i_ref (inodes s i) = 0)
      then (\<exists>i s'. iget dev inum s = Inr (i, s') \<and> i < NINODE \<and> itable_wf s' \<and> names_inode dev inum (inodes s' i) \<and>
        i_ref (inodes s' i) = i_ref (inodes s i) + 1 \<and> (\<forall>j. j \<noteq> i \<longrightarrow> inodes s' j = inodes s j) \<and>
        (if names_inode dev inum (inodes s i) then inodes s' i = (inodes s i)\<lparr>i_ref := i_ref (inodes s i) + 1\<rparr>
         else i_ref (inodes s i) = 0 \<and> \<not> i_valid (inodes s' i)))
      else iget dev inum s = Inl (Panic ''iget: no inodes'')" (is "if ?some then ?ret else ?panic")
  proof (cases ?some)
    case True
    obtain i g where "iget dev inum s = Inr (i, s\<lparr>inodes := g\<rparr>)" "i < NINODE" "itable_wf (s\<lparr>inodes := g\<rparr>)" "names_inode dev inum (g i)"
      "i_ref (g i) = i_ref (inodes s i) + 1" "\<And>j. j \<noteq> i \<Longrightarrow> g j = inodes s j"
      "names_inode dev inum (inodes s i) \<Longrightarrow> g i = (inodes s i)\<lparr>i_ref := i_ref (inodes s i) + 1\<rparr>"
      "\<not> names_inode dev inum (inodes s i) \<Longrightarrow> i_ref (inodes s i) = 0 \<and> \<not> i_valid (g i)"
      by (rule iget_table [OF assms True]) (rule that; assumption)
    then have ?ret by (intro exI [of _ i] exI [of _ "s\<lparr>inodes := g\<rparr>"]) simp
    then show ?thesis using True by simp
  next
    case False
    then have "find (\<lambda>i. names_inode dev inum (inodes s i)) [0..<NINODE] = None" "find (\<lambda>i. i_ref (inodes s i) = 0) [0..<NINODE] = None"
      by (auto simp: find_None_iff)
    then have ?panic using iget_eq [OF assms(2), of dev inum] by simp
    then show ?thesis using False by simp
  qed
next
  have "itable_wf (updi ip (\<lambda>x. x\<lparr>i_ref := i_ref x + 1\<rparr>) s)" if "0 < i_ref (inodes s ip)"
    using assms(1) that by (auto simp: itable_wf_def updi_def)
  moreover have "idup ip s = Inr (updi ip (\<lambda>x. x\<lparr>i_ref := i_ref x + 1\<rparr>) s)"
    using assms(2) by (simp add: idup_def acq_def rel_def updi_def)
  moreover have "itable_wf s' \<and> i_ref (inodes s' ip) = i_ref (inodes s ip) - 1 \<and>
         i_dev (inodes s' ip) = i_dev (inodes s ip) \<and> i_inum (inodes s' ip) = i_inum (inodes s ip) \<and>
         (\<forall>j. j \<noteq> ip \<longrightarrow> inodes s' j = inodes s j)" if put: "0 < i_ref (inodes s ip)" "iput ip s = Inr s'" for s'
  proof -
    obtain h where h: "same_entry ip (inodes s) h" "inodes s' = h(ip := (h ip)\<lparr>i_ref := i_ref (h ip) - 1\<rparr>)"
      using iput_entry [OF put(2)] by blast
    then have "itable_wf s'" by (rule itable_wf_drop [OF assms(1) put(1)])
    then show ?thesis using h by (auto simp: same_entry_def)
  qed
  moreover have "inodes (updi ip (\<lambda>x. x\<lparr>i_ref := i_ref x + 1\<rparr>) s) = (inodes s)(ip := (inodes s ip)\<lparr>i_ref := i_ref (inodes s ip) + 1\<rparr>)"
    by (simp add: updi_def)
  moreover have "iput ip s = Inr (s\<lparr>inodes := (inodes s)(ip := (inodes s ip)\<lparr>i_ref := i_ref (inodes s ip) - 1\<rparr>)\<rparr>)"
    if "\<not> (i_ref (inodes s ip) = 1 \<and> i_valid (inodes s ip) \<and> i_nlink (inodes s ip) = 0)"
    using assms(2) that by (auto simp: iput_def acq_def rel_def updi_def)
  ultimately show "0 < i_ref (inodes s ip) \<longrightarrow>
      (\<exists>s'. idup ip s = Inr s' \<and> itable_wf s' \<and> inodes s' = (inodes s)(ip := (inodes s ip)\<lparr>i_ref := i_ref (inodes s ip) + 1\<rparr>)) \<and>
      (\<not> (i_ref (inodes s ip) = 1 \<and> i_valid (inodes s ip) \<and> i_nlink (inodes s ip) = 0) \<longrightarrow>
         iput ip s = Inr (s\<lparr>inodes := (inodes s)(ip := (inodes s ip)\<lparr>i_ref := i_ref (inodes s ip) - 1\<rparr>)\<rparr>)) \<and>
      (\<forall>s'. iput ip s = Inr s' \<longrightarrow> itable_wf s' \<and> i_ref (inodes s' ip) = i_ref (inodes s ip) - 1 \<and>
         i_dev (inodes s' ip) = i_dev (inodes s ip) \<and> i_inum (inodes s' ip) = i_inum (inodes s ip) \<and>
         (\<forall>j. j \<noteq> ip \<longrightarrow> inodes s' j = inodes s j))" by blast
qed

theorem iget_wf_witness:
  "itable_wf fs_demo \<and> (\<exists>i s'. iget 1 5 fs_demo = Inr (i, s') \<and> itable_wf s' \<and> names_inode 1 5 (inodes s' i)) \<and>
   (\<exists>s'. iput 3 (fs_demo\<lparr>inodes := (inodes fs_demo)(3 := (inodes fs_demo 3)\<lparr>i_ref := 2\<rparr>)\<rparr>) = Inr s' \<and> itable_wf s' \<and> i_ref (inodes s' 3) = 1)"
proof (intro conjI)
  show wf: "itable_wf fs_demo" by (auto simp: itable_wf_def fs_demo_def inode_zero_def split: if_splits)
  have h: "held fs_demo = {}" "names_inode 1 5 (inodes fs_demo 3)" by (simp_all add: fs_demo_def names_inode_def)
  then have some: "(\<exists>i<NINODE. names_inode 1 5 (inodes fs_demo i)) \<or> (\<exists>i<NINODE. i_ref (inodes fs_demo i) = 0)"
    by (intro disjI1 exI [of _ 3]) simp
  show "\<exists>i s'. iget 1 5 fs_demo = Inr (i, s') \<and> itable_wf s' \<and> names_inode 1 5 (inodes s' i)"
    using iget_wf [OF wf h(1), of 1 5 3, THEN conjunct1, unfolded if_P [OF some]] by blast
  let ?s = "fs_demo\<lparr>inodes := (inodes fs_demo)(3 := (inodes fs_demo 3)\<lparr>i_ref := 2\<rparr>)\<rparr>"
  have wf2: "itable_wf ?s" "held ?s = {}" "0 < i_ref (inodes ?s 3)"
    using h(1) by (auto simp: itable_wf_def fs_demo_def inode_zero_def split: if_splits)
  have "i_ref (inodes ?s 3) \<noteq> 1" by simp
  then obtain s' where s': "iput 3 ?s = Inr s'"
    using iget_wf [OF wf2(1,2), of 1 5 3, THEN conjunct2, THEN mp, OF wf2(3), THEN conjunct2, THEN conjunct1] by blast
  have "itable_wf s'" "i_ref (inodes s' 3) = i_ref (inodes ?s 3) - 1"
    using iget_wf [OF wf2(1,2), of 1 5 3, THEN conjunct2, THEN mp, OF wf2(3), THEN conjunct2, THEN conjunct2, THEN spec, THEN mp, OF s'] by blast+
  then show "\<exists>s'. iput 3 ?s = Inr s' \<and> itable_wf s' \<and> i_ref (inodes s' 3) = 1" using s' by simp
qed

section \<open>Directories\<close>

definition dir_entry :: "'z kfs_scheme \<Rightarrow> nat \<Rightarrow> nat \<Rightarrow> nat \<Rightarrow> byte list" where
  "dir_entry s dp N k = take 16 (drop (16 * k) (fdata s dp N))"

definition entry_matches :: "byte list \<Rightarrow> byte list \<Rightarrow> bool" where
  "entry_matches nm de \<longleftrightarrow> de_inum de \<noteq> 0 \<and> take DIRSIZ (cstr nm) = take DIRSIZ (cstr (de_name de))"

lemma strncmp_total: "n \<le> length p \<Longrightarrow> n \<le> length q \<Longrightarrow> \<exists>c. strncmp p q n = Inr c"
  by (induction p q n rule: strncmp.induct) auto

lemma namecmp_eq:
  assumes "14 \<le> length nm" "length de = 16"
  obtains c where "namecmp nm (de_name de) = Inr c" "c = 0 \<longleftrightarrow> take DIRSIZ (cstr nm) = take DIRSIZ (cstr (de_name de))"
  using strncmp_total [of 14 nm "de_name de"] strncmp_zero_iff [of 14 nm "de_name de"] assms by (auto simp: namecmp_def de_name_def)

lemma read_entry:
  fixes s :: "'z kfs_scheme"
  assumes "log_ready p n s" "file_ok s dp N" "16 * k + 16 \<le> unat (i_size (inodes s dp))" "unat (i_size (inodes s dp)) \<le> 1024 * N"
  obtains s' where "readi dp ToLocal (of_nat (16 * k)) 16 s = Inr (16, dir_entry s dp N k, s')" "log_ready p n s'" "view s' = view s"
    "log_frame s s'" "length (dir_entry s dp N k) = 16"
proof -
  let ?o = "of_nat (16 * k) :: u32"
  have "N \<le> 268" using assms(2) by (simp add: file_ok_def)
  then have k: "16 * k + 16 < 2 ^ 32" using assms(3,4) by simp
  then have o: "unat ?o = 16 * k" by (intro unat_of_nat_u32) simp
  then have sum: "unat (?o + 16) = 16 * k + 16" using k by (simp add: unat_word_ariths)
  have pre: "16 * k + (16 - 0) \<le> 1024 * N" "0 \<le> (16 :: nat)" using assms(3,4) by simp_all
  obtain s' where "readi_loop dp ToLocal (16 * k) 0 16 s = Inr (int 16, take (16 - 0) (drop (16 * k) (fdata s dp N)), s')"
    "log_ready p n s'" "view s' = view s" "log_frame s s'"
    using readi_loop_eq [OF assms(1,2) pre] by blast
  then show thesis using that [of s'] assms(3,4) o sum length_fdata [OF assms(2)]
    by (simp add: readi_def Let_def word_less_nat_alt dir_entry_def)
qed

lemma dir_entry_cong: "view s' = view s \<Longrightarrow> log_frame s s' \<Longrightarrow> dir_entry s' = dir_entry s"
  using file_cong(3) [of s' s] by (simp add: dir_entry_def fun_eq_iff)

lemma dirlookup_loop_eq:
  fixes s :: "'z kfs_scheme"
  assumes "log_ready p n s" "file_ok s dp N" "unat (i_size (inodes s dp)) \<le> 1024 * N" "14 \<le> length nm"
    and "\<forall>k\<in>set ks. 16 * k + 16 \<le> unat (i_size (inodes s dp))"
  shows "\<exists>s'. dirlookup_loop dp nm (map (\<lambda>k. 16 * k) ks) s =
      (case find (\<lambda>k. entry_matches nm (dir_entry s dp N k)) ks of None \<Rightarrow> Inr (None, s')
       | Some k \<Rightarrow> bindR (iget 1 (ucast (de_inum (dir_entry s dp N k))) s') (\<lambda>(ip, s). Inr (Some (ip, of_nat (16 * k)), s))) \<and>
    log_ready p n s' \<and> view s' = view s \<and> log_frame s s'"
  using assms
proof (induction ks arbitrary: s)
  case Nil
  moreover have "log_frame s s" by (rule bio_log_frame) simp
  ultimately show ?case by auto
next
  case (Cons k ks)
  have k: "16 * k + 16 \<le> unat (i_size (inodes s dp))" using Cons(6) by simp
  let ?e = "dir_entry s dp N k"
  obtain t where t: "readi dp ToLocal (of_nat (16 * k)) 16 s = Inr (16, ?e, t)" "log_ready p n t" "view t = view s" "log_frame s t" "length ?e = 16"
    by (rule read_entry [OF Cons(2,3) k Cons(4)])
  note f = fs_frame [OF t(4)]
  obtain c where c: "namecmp nm (de_name ?e) = Inr c" "c = 0 \<longleftrightarrow> take DIRSIZ (cstr nm) = take DIRSIZ (cstr (de_name ?e))"
    by (rule namecmp_eq [OF Cons(5) t(5)])
  have d: "i_dev (inodes s dp) = 1" using Cons(3) by (simp add: file_ok_def)
  have step: "dirlookup_loop dp nm (map (\<lambda>k. 16 * k) (k # ks)) s =
      (if entry_matches nm ?e then bindR (iget 1 (ucast (de_inum ?e)) t) (\<lambda>(ip, s). Inr (Some (ip, of_nat (16 * k)), s))
       else dirlookup_loop dp nm (map (\<lambda>k. 16 * k) ks) t)"
    using t(1) c by (auto simp: entry_matches_def f d)
  show ?case
  proof (cases "entry_matches nm ?e")
    case True
    then show ?thesis using step t(2-4) by (intro exI [of _ t]) simp
  next
    case False
    have ok: "file_ok t dp N" and de: "dir_entry t = dir_entry s" using Cons(3) file_cong(2) [OF t(3,4)] dir_entry_cong [OF t(3,4)] by simp_all
    have sz: "unat (i_size (inodes t dp)) \<le> 1024 * N" "\<forall>k\<in>set ks. 16 * k + 16 \<le> unat (i_size (inodes t dp))" using Cons(4,6) f by simp_all
    obtain u where
      "dirlookup_loop dp nm (map (\<lambda>k. 16 * k) ks) t =
        (case find (\<lambda>k. entry_matches nm (dir_entry s dp N k)) ks of None \<Rightarrow> Inr (None, u)
         | Some k \<Rightarrow> bindR (iget 1 (ucast (de_inum (dir_entry s dp N k))) u) (\<lambda>(ip, s). Inr (Some (ip, of_nat (16 * k)), s)))"
      "log_ready p n u" "view u = view t" "log_frame t u" using Cons(1) [OF t(2) ok sz(1) Cons(5) sz(2)] unfolding de by blast
    then show ?thesis using step False t(3) log_frame_trans [OF t(4)] by (intro exI [of _ u]) simp
  qed
qed

text \<open>
  C5: \<open>dirlookup\<close> finds the first entry with the name. In a directory of \<open>m\<close> entries in allocated blocks,
  with names compared up to their NUL or 14 bytes, it returns null exactly when no used entry has
  the name; otherwise it returns a table entry, with a reference taken, for the inode number of the
  first such entry, and its offset. No block changes, and the inode table stays well formed.
\<close>

theorem dirlookup_first:
  fixes s :: "'z kfs_scheme"
  assumes "log_ready p n s" "file_ok s dp N" "i_type (inodes s dp) = T_DIR" "unat (i_size (inodes s dp)) = 16 * m" "16 * m \<le> 1024 * N"
    and "14 \<le> length nm" "itable_wf s" "\<exists>i<NINODE. i_ref (inodes s i) = 0"
  shows "case find (\<lambda>k. entry_matches nm (dir_entry s dp N k)) [0..<m] of
      None \<Rightarrow> \<exists>s'. dirlookup dp nm s = Inr (None, s') \<and> inodes s' = inodes s \<and> view s' = view s
    | Some k \<Rightarrow> \<exists>ip s'. dirlookup dp nm s = Inr (Some (ip, of_nat (16 * k)), s') \<and> itable_wf s' \<and> view s' = view s \<and>
        names_inode 1 (ucast (de_inum (dir_entry s dp N k))) (inodes s' ip)"
proof -
  have "\<forall>k\<in>set [0..<m]. 16 * k + 16 \<le> unat (i_size (inodes s dp))" using assms(4) by auto
  moreover have "dir_offsets (unat (i_size (inodes s dp))) = map (\<lambda>k. 16 * k) [0..<m]" by (simp add: dir_offsets_def assms(4))
  ultimately obtain t where t: "dirlookup dp nm s =
      (case find (\<lambda>k. entry_matches nm (dir_entry s dp N k)) [0..<m] of None \<Rightarrow> Inr (None, t)
       | Some k \<Rightarrow> bindR (iget 1 (ucast (de_inum (dir_entry s dp N k))) t) (\<lambda>(ip, s). Inr (Some (ip, of_nat (16 * k)), s)))"
    "log_ready p n t" "view t = view s" "log_frame s t"
    using dirlookup_loop_eq [OF assms(1,2) _ assms(6), of "[0..<m]"] assms(3-5) by (auto simp: dirlookup_def)
  note f = fs_frame [OF t(4)]
  show ?thesis
  proof (cases "find (\<lambda>k. entry_matches nm (dir_entry s dp N k)) [0..<m]")
    case None
    then show ?thesis using t f by simp
  next
    case (Some k)
    have wf: "itable_wf t" "held t = {}" using assms(7) f bio_invD(1) [OF log_readyD(1) [OF t(2)]] by (simp_all add: itable_wf_def)
    let ?i = "ucast (de_inum (dir_entry s dp N k)) :: u32"
    have "(\<exists>i<NINODE. names_inode 1 ?i (inodes t i)) \<or> (\<exists>i<NINODE. i_ref (inodes t i) = 0)" using assms(8) f by auto
    then obtain ip g where "iget 1 ?i t = Inr (ip, t\<lparr>inodes := g\<rparr>)" "itable_wf (t\<lparr>inodes := g\<rparr>)" "names_inode 1 ?i (g ip)"
      by (rule iget_table [OF wf]) (rule that; assumption)
    then show ?thesis using t(1,3) Some by auto
  qed
qed

text \<open>A directory of two entries, the second one named \<open>a\<close>, for inode 9.\<close>

definition dir_demo :: kfile where
  "dir_demo = fs_demo\<lparr>disk := (\<lambda>c. if c = 60 then replicate 16 0 @ [9, 0, 97] @ replicate 1005 0 else replicate 1024 0),
     inodes := (inodes fs_demo)(3 := (inodes fs_demo 3)\<lparr>i_type := 1, i_size := 32\<rparr>)\<rparr>"

lemma dir_demo_ready: "log_ready 0 0 dir_demo"
proof -
  have k: "in_kernel 0 dir_demo" unfolding in_kernel_def by (simp add: dir_demo_def fs_demo_def)
  have "bio_inv 0 (\<lambda>_. 0) {} dir_demo"
    by (rule bio_invI [OF k]) (simp_all add: dir_demo_def fs_demo_def buf_zero_def)
  then show ?thesis
    by (simp add: log_ready_def pinned_from_def [abs_def]) (simp add: dir_demo_def fs_demo_def ld_int_def ldl_def le_word_zeros)
qed

lemma dir_demo_view: "view dir_demo c = (if c = 60 then replicate 16 0 @ [9, 0, 97] @ replicate 1005 0 else replicate 1024 0)"
proof -
  have "view dir_demo c = disk dir_demo c"
    by (rule view_uncached) (simp add: dir_demo_def fs_demo_def buf_zero_def)
  then show ?thesis by (simp add: dir_demo_def)
qed

lemma dir_demo_file: "file_ok dir_demo 3 2"
proof -
  have b: "blk dir_demo 3 bn = blk fs_demo 3 bn" if "bn < 2" for bn using that by (simp add: blk_def dir_demo_def)
  have "blk dir_demo 3 ` {0..<2} = blk fs_demo 3 ` {0..<2}" "inj_on (blk dir_demo 3) {0..<2} = inj_on (blk fs_demo 3) {0..<2}"
    using b by (auto simp: inj_on_def)
  moreover have "log_area dir_demo = log_area fs_demo" by (simp add: log_area_def dir_demo_def)
  moreover have "length (view dir_demo c) = 1024" for c by (simp add: dir_demo_view)
  moreover have "i_addrs (inodes dir_demo 3) = i_addrs (inodes fs_demo 3)" "i_inum (inodes dir_demo 3) = i_inum (inodes fs_demo 3)"
    "i_dev (inodes dir_demo 3) = i_dev (inodes fs_demo 3)" "sb dir_demo = sb fs_demo" by (simp_all add: dir_demo_def)
  ultimately show ?thesis using fs_demo_file b by (simp add: file_ok_def)
qed

lemma dir_demo_entry: "dir_entry dir_demo 3 2 0 = replicate 16 0" "dir_entry dir_demo 3 2 1 = [9, 0, 97] @ replicate 13 0"
proof -
  have "blk dir_demo 3 0 = 60" by (simp add: blk_def dir_demo_def fs_demo_def)
  then have v: "view dir_demo (blk dir_demo 3 0) = replicate 16 0 @ [9, 0, 97] @ replicate 1005 0" by (simp add: dir_demo_view)
  have "dir_entry dir_demo 3 2 k = take 16 (drop (16 * k) (replicate 16 0 @ [9, 0, 97] @ replicate 1005 0))" if "k < 2" for k
    using fdata_slice [OF dir_demo_file, of "16 * k" 16] that v by (simp add: dir_entry_def)
  from this [of 0] this [of 1] show "dir_entry dir_demo 3 2 0 = replicate 16 0" "dir_entry dir_demo 3 2 1 = [9, 0, 97] @ replicate 13 0" by simp_all
qed

theorem dirlookup_first_witness:
  "\<exists>ip s'. dirlookup 3 ([97] @ replicate 13 0) dir_demo = Inr (Some (ip, 16), s') \<and> names_inode 1 9 (inodes s' ip)"
proof -
  let ?nm = "[97] @ replicate 13 0 :: byte list"
  have i: "i_type (inodes dir_demo 3) = T_DIR" "unat (i_size (inodes dir_demo 3)) = 16 * 2" "14 \<le> length ?nm" by (simp_all add: dir_demo_def)
  have wf: "itable_wf dir_demo" "\<exists>i<NINODE. i_ref (inodes dir_demo i) = 0"
    by (auto simp: itable_wf_def dir_demo_def fs_demo_def inode_zero_def split: if_splits intro!: exI [of _ 0])
  have m: "\<not> entry_matches ?nm (dir_entry dir_demo 3 2 0)" "entry_matches ?nm (dir_entry dir_demo 3 2 1)"
    "ucast (de_inum (dir_entry dir_demo 3 2 1)) = (9 :: u32)"
    unfolding dir_demo_entry by code_simp+
  then have "find (\<lambda>k. entry_matches ?nm (dir_entry dir_demo 3 2 k)) [0..<2] = Some 1" by (simp add: upt_rec numeral_2_eq_2)
  then show ?thesis using dirlookup_first [OF dir_demo_ready dir_demo_file i(1,2) _ i(3) wf] m(3) by simp blast
qed

end
