(* ===== verification/Grep.thy ===== *)
theory Grep
  imports Riscv
begin

text \<open>
  \<^verbatim>\<open>user/grep.c\<close>: the pattern matcher and the loop over the lines of the input. A C string is the list of
  its bytes before the NUL, and a pointer into it the rest of the list: \<open>*s\<close> is the first byte, or NUL
  when the list is empty.
\<close>

section \<open>The matcher\<close>

abbreviation (input) "CARET \<equiv> 94 :: byte"
abbreviation (input) "STAR \<equiv> 42 :: byte"
abbreviation (input) "DOLLAR \<equiv> 36 :: byte"
abbreviation (input) "DOT \<equiv> 46 :: byte"
abbreviation (input) "NEWLINE \<equiv> 10 :: byte"

function matchhere :: "byte list \<Rightarrow> byte list \<Rightarrow> bool"
  and matchstar :: "byte \<Rightarrow> byte list \<Rightarrow> byte list \<Rightarrow> bool" where
  "matchhere re text =
     (case re of
        [] \<Rightarrow> True
      | c # re1 \<Rightarrow>
          if re1 \<noteq> [] \<and> hd re1 = STAR then matchstar c (tl re1) text
          else if c = DOLLAR \<and> re1 = [] then text = []
          else if text \<noteq> [] \<and> (c = DOT \<or> c = hd text) then matchhere re1 (tl text)
          else False)"
| "matchstar c re text =
     (if matchhere re text then True
      else if text \<noteq> [] \<and> (hd text = c \<or> c = DOT) then matchstar c re (tl text)
      else False)"
  by pat_completeness auto
termination
  by (relation "measures [case_sum (\<lambda>(re, text). 2 * length re) (\<lambda>(c, re, text). 2 * length re + 1),
    case_sum (\<lambda>(re, text). length text) (\<lambda>(c, re, text). length text)]")
    (auto simp: neq_Nil_conv)

declare matchhere.simps [simp del] matchstar.simps [simp del]

fun match_loop :: "byte list \<Rightarrow> byte list \<Rightarrow> bool" where
  "match_loop re [] = matchhere re []"
| "match_loop re (x # text) = (matchhere re (x # text) \<or> match_loop re text)"

definition match :: "byte list \<Rightarrow> byte list \<Rightarrow> bool" where
  "match re text = (if re \<noteq> [] \<and> hd re = CARET then matchhere (tl re) text else match_loop re text)"

section \<open>Lines\<close>

text \<open>
  The inner loop of \<open>grep\<close> on the bytes of the buffer from \<open>p\<close> on: what it writes and the bytes from the
  last \<open>p\<close> on. \<open>strchr\<close> stops at a NUL byte in the data.
\<close>

function grep_lines :: "byte list \<Rightarrow> byte list \<Rightarrow> byte list \<times> byte list" where
  "grep_lines re p =
     (let l = takeWhile (\<lambda>c. c \<noteq> 0 \<and> c \<noteq> NEWLINE) p;
          q = dropWhile (\<lambda>c. c \<noteq> 0 \<and> c \<noteq> NEWLINE) p in
      if q \<noteq> [] \<and> hd q = NEWLINE then
        (let (out, rest) = grep_lines re (tl q) in ((if match re l then l @ [NEWLINE] else []) @ out, rest))
      else ([], p))"
  by pat_completeness auto
termination
proof (relation "measure (\<lambda>(re, p). length p)")
  fix re p l q
  assume q: "q = dropWhile (\<lambda>c. c \<noteq> 0 \<and> c \<noteq> NEWLINE) p" "q \<noteq> [] \<and> hd q = NEWLINE"
  then have "0 < length q" "length q \<le> length p" using length_dropWhile_le [of "\<lambda>c. c \<noteq> 0 \<and> c \<noteq> NEWLINE" p] by auto
  then have "length (tl q) < length p" by (cases q) auto
  then show "((re, tl q), re, p) \<in> measure (\<lambda>(re, p). length p)" by simp
qed simp

declare grep_lines.simps [simp del]

text \<open>
  The outer loop. \<open>buf\<close> holds the \<open>m\<close> bytes kept from before; each \<open>read\<close> delivers at most the room in the
  buffer and at most as many bytes as are there, the next number of \<open>ks\<close>, and the loop ends when it
  delivers none.
\<close>

fun grep :: "byte list \<Rightarrow> byte list \<Rightarrow> byte list \<Rightarrow> nat list \<Rightarrow> byte list" where
  "grep re buf data [] = []"
| "grep re buf data (k # ks) =
     (let n = min (1023 - length buf) (min k (length data)) in
      if n = 0 then []
      else let (out, rest) = grep_lines re (buf @ take n data) in out @ grep re rest (drop n data) ks)"

section \<open>What patterns mean\<close>

datatype item = One byte | Many byte

fun items :: "byte list \<Rightarrow> item list \<times> bool" where
  "items [] = ([], False)"
| "items [c] = (if c = DOLLAR then ([], True) else ([One c], False))"
| "items (c # d # re) =
     (if d = STAR then (let (is, e) = items re in (Many c # is, e)) else (let (is, e) = items (d # re) in (One c # is, e)))"

definition fits :: "byte \<Rightarrow> byte \<Rightarrow> bool" where
  "fits c x \<longleftrightarrow> c = DOT \<or> c = x"

inductive denotes :: "item list \<Rightarrow> byte list \<Rightarrow> bool" where
  den_nil: "denotes [] []"
| den_one: "fits c x \<Longrightarrow> denotes is w \<Longrightarrow> denotes (One c # is) (x # w)"
| den_many: "\<forall>x\<in>set v. fits c x \<Longrightarrow> denotes is w \<Longrightarrow> denotes (Many c # is) (v @ w)"

inductive_simps denotes_simps: "denotes [] w" "denotes (One c # is) w" "denotes (Many c # is) w"

text \<open>A pattern matches a text from its start if it denotes a prefix, all of the text if it ends in \<open>$\<close>.\<close>

definition matches_at :: "byte list \<Rightarrow> byte list \<Rightarrow> bool" where
  "matches_at re text \<longleftrightarrow> (\<exists>u v. text = u @ v \<and> denotes (fst (items re)) u \<and> (snd (items re) \<longrightarrow> v = []))"

lemma matches_at_nil: "matches_at [] text"
  by (simp add: matches_at_def denotes_simps)

lemma matches_at_dollar: "matches_at [DOLLAR] text \<longleftrightarrow> text = []"
  by (simp add: matches_at_def denotes_simps)

lemma matches_at_one:
  assumes "re = [] \<or> hd re \<noteq> STAR" "\<not> (c = DOLLAR \<and> re = [])"
  shows "matches_at (c # re) text \<longleftrightarrow> text \<noteq> [] \<and> fits c (hd text) \<and> matches_at re (tl text)"
proof -
  have i: "items (c # re) = (One c # fst (items re), snd (items re))" using assms by (cases re) (auto simp: Let_def split: prod.split)
  show ?thesis unfolding matches_at_def i by (cases "text") (auto simp: denotes_simps Cons_eq_append_conv)
qed

lemma matches_at_many:
  "matches_at (c # STAR # re) text \<longleftrightarrow> (\<exists>v w. text = v @ w \<and> (\<forall>x\<in>set v. fits c x) \<and> matches_at re w)"
proof -
  have i: "items (c # STAR # re) = (Many c # fst (items re), snd (items re))" by (simp split: prod.split)
  show ?thesis
  proof
    assume "matches_at (c # STAR # re) text"
    then obtain u v where u: "text = u @ v" "denotes (Many c # fst (items re)) u" "snd (items re) \<longrightarrow> v = []"
      unfolding matches_at_def i by auto
    then obtain v1 w1 where "u = v1 @ w1" "\<forall>x\<in>set v1. fits c x" "denotes (fst (items re)) w1" by (auto simp: denotes_simps)
    with u show "\<exists>v w. text = v @ w \<and> (\<forall>x\<in>set v. fits c x) \<and> matches_at re w"
      unfolding matches_at_def by (intro exI [of _ v1] exI [of _ "w1 @ v"]) auto
  next
    assume "\<exists>v w. text = v @ w \<and> (\<forall>x\<in>set v. fits c x) \<and> matches_at re w"
    then obtain v u1 v1 where "text = v @ u1 @ v1" "\<forall>x\<in>set v. fits c x" "denotes (fst (items re)) u1" "snd (items re) \<longrightarrow> v1 = []"
      unfolding matches_at_def by auto
    then show "matches_at (c # STAR # re) text"
      unfolding matches_at_def i by (intro exI [of _ "v @ u1"] exI [of _ v1]) (auto intro: den_many)
  qed
qed

lemma star_step:
  "(\<exists>v w. t = v @ w \<and> (\<forall>x\<in>set v. fits c x) \<and> Q w) \<longleftrightarrow>
     Q t \<or> t \<noteq> [] \<and> fits c (hd t) \<and> (\<exists>v w. tl t = v @ w \<and> (\<forall>x\<in>set v. fits c x) \<and> Q w)" (is "?P t \<longleftrightarrow> _")
proof
  assume "?P t"
  then obtain v w where v: "t = v @ w" "\<forall>x\<in>set v. fits c x" "Q w" by blast
  then show "Q t \<or> t \<noteq> [] \<and> fits c (hd t) \<and> ?P (tl t)" by (cases v) auto
next
  assume "Q t \<or> t \<noteq> [] \<and> fits c (hd t) \<and> ?P (tl t)"
  then consider "Q t" | v w where "t \<noteq> []" "fits c (hd t)" "tl t = v @ w" "\<forall>x\<in>set v. fits c x" "Q w" by blast
  then show "?P t"
  proof cases
    case 1
    then show ?thesis by (intro exI [of _ "[]"] exI [of _ t]) auto
  next
    case (2 v w)
    then show ?thesis by (intro exI [of _ "hd t # v"] exI [of _ w]) (cases t; simp)
  qed
qed

lemma matchhere_iff: "matchhere re text \<longleftrightarrow> matches_at re text"
  and matchstar_iff: "matchstar c re text \<longleftrightarrow> (\<exists>v w. text = v @ w \<and> (\<forall>x\<in>set v. fits c x) \<and> matches_at re w)"
proof (induction re "text" and c re "text" rule: matchhere_matchstar.induct)
  case (1 re "text")
  show ?case
  proof (cases re)
    case (Cons c re1)
    show ?thesis
    proof (cases "re1 \<noteq> [] \<and> hd re1 = STAR")
      case True
      then obtain re2 where "re1 = STAR # re2" by (cases re1) auto
      then show ?thesis using 1(1) [OF Cons True] by (subst matchhere.simps) (simp add: Cons matches_at_many)
    next
      case no: False
      show ?thesis
      proof (cases "c = DOLLAR \<and> re1 = []")
        case True
        then show ?thesis by (subst matchhere.simps) (simp add: Cons matches_at_dollar)
      next
        case False
        then show ?thesis using 1(2) [OF Cons no False] no matches_at_one [of re1 c "text"]
          by (subst matchhere.simps) (auto simp: Cons fits_def)
      qed
    qed
  qed (simp add: matchhere.simps matches_at_nil)
next
  case (2 c re "text")
  show ?case using 2 star_step [of "text" c "matches_at re"] by (subst matchstar.simps) (auto simp: fits_def)
qed

lemma match_loop_iff: "match_loop re text \<longleftrightarrow> (\<exists>a b. text = a @ b \<and> matches_at re b)"
  by (induction re "text" rule: match_loop.induct) (auto simp: matchhere_iff Cons_eq_append_conv)

text \<open>
  Which lines a pattern selects: after \<open>^\<close>, those of which it denotes a prefix; otherwise those of which it
  denotes some part. With a final \<open>$\<close> the part must reach the end of the line.
\<close>

definition selects :: "byte list \<Rightarrow> byte list \<Rightarrow> bool" where
  "selects re l \<longleftrightarrow>
     (if re \<noteq> [] \<and> hd re = CARET
      then (\<exists>u v. l = u @ v \<and> denotes (fst (items (tl re))) u \<and> (snd (items (tl re)) \<longrightarrow> v = []))
      else (\<exists>a u v. l = a @ u @ v \<and> denotes (fst (items re)) u \<and> (snd (items re) \<longrightarrow> v = [])))"

lemma match_iff: "match re = selects re"
  unfolding fun_eq_iff selects_def match_def match_loop_iff matchhere_iff by (auto simp: matches_at_def)

section \<open>The loop over the input\<close>

text \<open>What \<open>grep\<close> writes for lines that are all complete.\<close>

lemma grep_lines_step:
  assumes "\<forall>c\<in>set l. c \<noteq> 0 \<and> c \<noteq> NEWLINE"
  shows "grep_lines re (l @ NEWLINE # p) =
    ((if match re l then l @ [NEWLINE] else []) @ fst (grep_lines re p), snd (grep_lines re p))"
proof -
  have "takeWhile (\<lambda>c. c \<noteq> 0 \<and> c \<noteq> NEWLINE) (l @ NEWLINE # p) = l" "dropWhile (\<lambda>c. c \<noteq> 0 \<and> c \<noteq> NEWLINE) (l @ NEWLINE # p) = NEWLINE # p"
    using assms by (simp_all add: takeWhile_append2 dropWhile_append2)
  then show ?thesis by (subst grep_lines.simps) (simp add: Let_def split: prod.split)
qed

lemma grep_lines_partial: "\<forall>c\<in>set l. c \<noteq> 0 \<and> c \<noteq> NEWLINE \<Longrightarrow> grep_lines re l = ([], l)"
proof -
  assume "\<forall>c\<in>set l. c \<noteq> 0 \<and> c \<noteq> NEWLINE"
  then have "dropWhile (\<lambda>c. c \<noteq> 0 \<and> c \<noteq> NEWLINE) l = []" by simp
  then show ?thesis by (subst grep_lines.simps) simp
qed

abbreviation (input) "nl l \<equiv> l @ [NEWLINE]"

definition plain :: "byte list \<Rightarrow> bool" where
  "plain l \<longleftrightarrow> (\<forall>c\<in>set l. c \<noteq> 0 \<and> c \<noteq> NEWLINE)"

lemma grep_lines_eq:
  assumes "\<forall>l\<in>set ls. plain l" "plain p"
  shows "grep_lines re (concat (map nl ls) @ p) = (concat (map nl (filter (match re) ls)), p)"
  using assms(1)
proof (induction ls)
  case (Cons l ls)
  then show ?case using grep_lines_step [of l re "concat (map nl ls) @ p"] by (simp add: plain_def)
qed (use grep_lines_partial assms(2) in \<open>simp add: plain_def\<close>)

text \<open>A piece of the input is some complete lines and the beginning of the next.\<close>

lemma split_lines:
  assumes "u @ v = concat (map nl ls)" "\<forall>l\<in>set ls. plain l \<and> length l < 1023"
  shows "\<exists>ls1 ls2 p. ls = ls1 @ ls2 \<and> u = concat (map nl ls1) @ p \<and> plain p \<and> length p < 1023 \<and> p @ v = concat (map nl ls2)"
  using assms
proof (induction ls arbitrary: u)
  case Nil
  then show ?case by (intro exI [of _ "[]"]) (simp add: plain_def)
next
  case (Cons l ls)
  show ?case
  proof (cases "length u \<le> length l")
    case True
    have "take (length u) (u @ v) = take (length u) (nl l @ concat (map nl ls))" using Cons(2) by simp
    then have u: "u = take (length u) l" using True by simp
    have "set u \<subseteq> set l" by (subst u) (rule set_take_subset)
    then have "plain u" using Cons(3) by (auto simp: plain_def)
    moreover have "length u < 1023" using True Cons(3) by auto
    ultimately show ?thesis using Cons(2) by (intro exI [of _ "[]"] exI [of _ "l # ls"] exI [of _ u]) simp
  next
    case False
    then have len: "length (nl l) \<le> length u" by simp
    define w where "w = drop (length (nl l)) u"
    have e: "u @ v = nl l @ concat (map nl ls)" using Cons(2) by simp
    have "take (length (nl l)) u = take (length (nl l)) (u @ v)" using len by simp
    also have "\<dots> = nl l" unfolding e by simp
    finally have w1: "u = nl l @ w" unfolding w_def by (metis append_take_drop_id)
    then have w: "u = nl l @ w" "w @ v = concat (map nl ls)" using e by simp_all
    from Cons(1) [OF w(2)] Cons(3) obtain ls1 ls2 p where "ls = ls1 @ ls2" "w = concat (map nl ls1) @ p" "plain p" "length p < 1023"
      "p @ v = concat (map nl ls2)" by auto
    then show ?thesis using w(1) by (intro exI [of _ "l # ls1"] exI [of _ ls2] exI [of _ p]) simp
  qed
qed

lemma grep_eq:
  assumes "buf @ data = concat (map nl ls)" "\<forall>l\<in>set ls. plain l \<and> length l < 1023" "plain buf" "length buf < 1023"
    and "\<forall>k\<in>set ks. 0 < k" "length data \<le> length ks"
  shows "grep re buf data ks = concat (map nl (filter (match re) ls))"
  using assms
proof (induction ks arbitrary: buf data ls)
  case Nil
  then have "plain (concat (map nl ls))" by simp
  then have "ls = []" by (cases ls) (auto simp: plain_def)
  then show ?case by simp
next
  case (Cons k ks)
  define n where "n = min (1023 - length buf) (min k (length data))"
  show ?case
  proof (cases "n = 0")
    case True
    then have "data = []" using Cons(5,6) by (auto simp: n_def min_def split: if_splits)
    then have "plain (concat (map nl ls))" using Cons(2,4) by simp
    then have "ls = []" by (cases ls) (auto simp: plain_def)
    then show ?thesis using True by (simp add: n_def [symmetric])
  next
    case False
    have "(buf @ take n data) @ drop n data = concat (map nl ls)" using Cons(2) by simp
    from split_lines [OF this Cons(3)] obtain ls1 ls2 p where s: "ls = ls1 @ ls2" "buf @ take n data = concat (map nl ls1) @ p"
      "plain p" "length p < 1023" "p @ drop n data = concat (map nl ls2)" by blast
    have "grep_lines re (buf @ take n data) = (concat (map nl (filter (match re) ls1)), p)"
      unfolding s(2) using Cons(3) s(1,3) by (intro grep_lines_eq) auto
    moreover have "grep re p (drop n data) ks = concat (map nl (filter (match re) ls2))"
      using Cons(1) [OF s(5) _ s(3,4)] Cons(3,6,7) s(1) False by (auto simp: n_def)
    ultimately show ?thesis using False s(1) by (simp add: n_def [symmetric])
  qed
qed

text \<open>
  C39: \<open>grep\<close> prints the lines its pattern selects. For an input of complete lines of at most 1022 bytes
  without NUL, and however the input is delivered to the successive calls of \<open>read\<close>, at least one
  byte at a time, the output is exactly the selected lines in their order. What a pattern selects is
  given by the language it denotes, read as a sequence of characters, dots and starred characters
  with an optional \<open>^\<close> at the front and \<open>$\<close> at the end.
\<close>

theorem grep_selects_lines:
  assumes "\<forall>l\<in>set ls. plain l \<and> length l < 1023" "\<forall>k\<in>set ks. 0 < k" "data = concat (map nl ls)" "length data \<le> length ks"
  shows "grep re [] data ks = concat (map nl (filter (selects re) ls))"
  using grep_eq [of "[]" data ls ks re] assms by (simp add: match_iff plain_def)

theorem grep_selects_lines_witness:
  "grep [CARET, 97, STAR, 98] [] [97, 97, 98, NEWLINE, 99, 98, NEWLINE] (replicate 7 3) =
     concat (map nl (filter (selects [CARET, 97, STAR, 98]) [[97, 97, 98], [99, 98]]))"
  by (rule grep_selects_lines) (simp_all add: plain_def)

end
