(* ===== verification/Spec2Isabelle.thy ===== *)
theory Spec2Isabelle
  imports Boot VmProps ConsoleProps PipeProps VirtioProps BufList DirProps Grep
begin

text \<open>
  A verification development for the kernel of this repository: xv6 for RISC-V, with system calls for
  tracing and alarms, five schedulers (round robin, lottery, first come first served, priority,
  multi-level feedback queue) and copy-on-write fork. Theories without \<open>Props\<close> in their name are mostly
  the model; the others are lemmas and properties.

  \<^bold>\<open>How the code is modelled.\<close> A C function is a HOL function on an explicit state, which is its last
  argument and the last component of its result. \<open>'a res\<close> (\<open>Prelude\<close>) makes every way not to return a
  value: \<open>panic\<close>, undefined behaviour of C, a spin lock that nobody releases, and a sleep inside a call.
  The state is one record, extended from layer to layer: memory and locks (\<open>machine\<close>), the allocator
  (\<open>kmem\<close>), processes (\<open>kproc\<close>), sleep locks (\<open>kslp\<close>), disk and buffers (\<open>kvd\<close>, \<open>kbio\<close>), the log (\<open>klog\<close>), inodes
  (\<open>kfs\<close>), files and pipes (\<open>kfile\<close>), registers (\<open>ktrap\<close>), boot (\<open>kboot\<close>). An operation works for every extension of
  the record it needs. Pages, page tables and trapframes are bytes of memory at their physical addresses;
  entries of the fixed tables of the kernel (processes, buffers, inodes, files) are named by their
  index; a pipe is named by the address of its page and kept in a store of pipes.

  A function that gives up the processor is split at the switch. \<open>sleep\<close> and \<open>yield\<close> have a part before and
  a part after it; a loop that sleeps is one round whose result says on which channel it sleeps, giving up
  which lock; \<open>scheduler\<close> goes from a position in the table to the next \<open>swtch\<close> and returns the position
  from which its loop goes on. Other processes act between such parts and not within them: the model
  is that of one hart with interrupts taken at these points, and several harts appear in \<open>Spinlock\<close>.

  \<^bold>\<open>Machine and memory.\<close>
  \<^item> \<open>Prelude\<close>, \<open>Riscv\<close>, \<open>Encode\<close>: results, words, memory, the macros of \<^verbatim>\<open>riscv.h\<close> and \<^verbatim>\<open>memlayout.h\<close>, and integers
    inside byte buffers.
  \<^item> \<open>KString\<close> (\<^verbatim>\<open>kernel/string.c\<close>): \<open>memmove\<close> is a simultaneous copy; what \<open>safestrcpy\<close> and \<open>strncpy\<close> leave.
  \<^item> \<open>Spinlock\<close> (\<^verbatim>\<open>kernel/spinlock.c\<close>): mutual exclusion and the interrupt discipline for any interleaving of
    any number of harts. The locale \<open>lock_iface\<close> is interpreted on that model and on the set \<open>held\<close> of the locks
    of one hart, which all other theories use.
  \<^item> \<open>Kalloc\<close> (\<^verbatim>\<open>kernel/kalloc.c\<close>): the free list inside the free pages and the reference counts; each operation from
    the invariant \<open>kmem_inv\<close>, and the contract \<open>page_alloc\<close> that it fulfils.
  \<^item> \<open>Vm\<close> (\<^verbatim>\<open>kernel/vm.c\<close>, \<open>cowalloc\<close> of \<^verbatim>\<open>kernel/trap.c\<close>), with \<open>PageTable\<close>, \<open>UserMem\<close>, \<open>UserSpace\<close>, \<open>FreeSpace\<close>, \<open>CowFork\<close> and
    \<open>VmFrame\<close>: well-formed page tables in memory and what each operation does to them; \<open>VmProps\<close>: reading, writing,
    growing and copying an address space, and the isolation of parent and child after \<open>uvmcopy\<close>, which holds
    in one direction only.

  \<^bold>\<open>Processes.\<close>
  \<^item> \<open>Proc\<close> and \<open>ProcMem\<close> (\<^verbatim>\<open>kernel/proc.c\<close>, \<^verbatim>\<open>proc.h\<close>): the process table; \<open>allocproc\<close> and \<open>freeproc\<close> give back what they
    take, on every path.
  \<^item> \<open>Sched\<close> and \<open>SchedProps\<close> (\<^verbatim>\<open>kernel/proc.c\<close>): \<open>sleep\<close> and \<open>wakeup\<close>, \<open>wait\<close>, \<open>waitx\<close>, \<open>kill\<close>, accounting, and the five
    schedulers: which process each of them chooses, with which locks and which time slice, and that round
    robin starves nobody; where first come first served and the priority scheduler switch with the
    wrong locks, and where the dynamic priority divides by zero.
  \<^item> \<open>Process\<close> (\<open>userinit\<close>, \<open>fork\<close>, \<open>exit\<close>, \<^verbatim>\<open>kernel/sysproc.c\<close>), \<open>Syscall\<close> (\<^verbatim>\<open>kernel/syscall.c\<close>), \<open>Trap\<close> (\<^verbatim>\<open>kernel/trap.c\<close>, \<^verbatim>\<open>plic.c\<close>), \<open>Boot\<close>
    (\<^verbatim>\<open>kernel/start.c\<close>, \<^verbatim>\<open>main.c\<close>, \<open>kvmmake\<close>): the system calls, their dispatch, traps and boot, as definitions
    that run the operations below them.

  \<^bold>\<open>Devices.\<close>
  \<^item> \<open>Device\<close>, \<open>Printf\<close>, \<open>Console\<close>, \<open>ConsoleProps\<close> (\<^verbatim>\<open>kernel/uart.c\<close>, \<^verbatim>\<open>printf.c\<close>, \<^verbatim>\<open>console.c\<close>): numbers that are printed read
    back; the input ring implements line editing. \<open>Ring\<close> has the locale \<open>ring_buffer\<close> of a ring with wrapping
    counters, interpreted for the console and for pipes.
  \<^item> \<open>Sleeplock\<close> (\<^verbatim>\<open>kernel/sleeplock.c\<close>), \<open>Virtio\<close>, \<open>VirtioProps\<close> (\<^verbatim>\<open>kernel/virtio_disk.c\<close>): the driver with any device that
    follows the virtio specification transfers the block or panics. The device is an argument of
    \<open>virtio_disk_rw\<close>; \<open>device_spec\<close> is what is relied on, and it is instantiated with a device that serves
    requests and with one that fails them.

  \<^bold>\<open>File system.\<close>
  \<^item> \<open>Bio\<close>, \<open>BioProps\<close>, \<open>BufList\<close> (\<^verbatim>\<open>kernel/bio.c\<close>): the buffer cache as a view of the disk; the doubly linked list
    implements the list of buffers in order of use.
  \<^item> \<open>Log\<close>, \<open>LogProps\<close>, \<open>LogWrite\<close> (\<^verbatim>\<open>kernel/log.c\<close>): a transaction is atomic for a crash at any moment; the admission
    of operations by \<open>begin_op\<close> exceeds the log by one block. A crash leaves the disk after some prefix of the block
    writes, which the ghost field \<open>dwrites\<close> records in order.
  \<^item> \<open>Fs\<close>, \<open>FsProps\<close>, \<open>DirProps\<close> (\<^verbatim>\<open>kernel/fs.c\<close>): inodes and their table, file contents, directories, path names.
  \<^item> \<open>File\<close>, \<open>PipeProps\<close> (\<^verbatim>\<open>kernel/file.c\<close>, \<^verbatim>\<open>pipe.c\<close>): a pipe is a bounded queue of bytes. \<open>Sysfile\<close> (\<^verbatim>\<open>kernel/sysfile.c\<close>) and
    \<open>Exec\<close> (\<^verbatim>\<open>kernel/exec.c\<close>): the system calls on files and \<open>exec\<close>. \<open>Demo\<close>: a booted machine on which properties
    are instantiated.
  \<^item> \<open>Grep\<close> (\<^verbatim>\<open>user/grep.c\<close>): the matcher decides the language of its pattern, and \<open>grep\<close> prints the matching lines.

  \<^bold>\<open>Bounds.\<close> Loops are structural recursion over the table or list they run through, or have a termination
  proof. Where the code follows memory the recursion has a bound. \<open>freewalk\<close> takes the depth of
  the page table, 2 below the root; more is an error value, and \<open>FreeSpace\<close> shows that it does not occur for
  a well-formed table. \<open>free_chain\<close> takes a bound that does not matter: after nine rounds it has
  returned or panicked. Loops over a ring have the number of its entries as their bound; \<open>walk_links\<close> has the number of
  buffers.

  \<^bold>\<open>Integers.\<close> Unsigned integers are words of their width and wrap around. C \<open>int\<close>s are integers; where a
  computation can leave the range with values a user chose (\<open>printint\<close>, the lottery slice) the
  overflow is the value \<open>UB\<close>. Reference counts, pids and tick counters are not cut off, see
  \<open>Kalloc\<close> and \<open>Proc\<close>. The disk has fewer than \<open>2 ^ 31\<close> blocks.

  \<^bold>\<open>Not modelled.\<close> The assembly files: \<open>swtch\<close> is the exchange of saved registers, and the C code is
  modelled up to the jump to the trampoline. \<^verbatim>\<open>kernel/ramdisk.c\<close>, which is not built; \<^verbatim>\<open>mkfs\<close>, a program of
  the host; user programs other than \<open>grep\<close> and the user library; the test programs.
\<close>

end
